(* ===== verification/Prelude.thy ===== *)
theory Prelude
  imports Main "HOL-Library.Word" "HOL-Library.Finite_Map" "HOL-Library.Product_Lexorder"
    "HOL-Library.Monad_Syntax"
begin

text \<open>
  Shared vocabulary of the development: machine integer types, the error monad
  (\<open>error + 'a\<close>, with \<open>Inl\<close> for the error, chained by \<open>rbind\<close>), checked and saturating
  machine arithmetic, Rust's \<open>max_by_key\<close>, and the lemmas on lists and finite maps that
  several components use.  A Rust panic (an index out of a map, a failed \<open>expect\<close>, an
  arithmetic overflow of a build with overflow checks) is the value \<open>None\<close> of an outer
  \<open>option\<close>; a \<open>Result\<close> is a sum.
\<close>

named_theorems codec_simps "equations that run an encoder or a decoder one field at a time"
named_theorems dec_more "a decoder that succeeded succeeds the same way on a longer input"
named_theorems wf_intros "rules that establish a well-formedness invariant"
named_theorems wf_dests "consequences of a well-formedness invariant"

type_synonym byte = "8 word"
type_synonym u16 = "16 word"
type_synonym u32 = "32 word"
type_synonym u64 = "64 word"
type_synonym u128 = "128 word"

section \<open>Results\<close>

definition rbind :: "'e + 'a \<Rightarrow> ('a \<Rightarrow> 'e + 'b) \<Rightarrow> 'e + 'b" where
  "rbind r f = (case r of Inl e \<Rightarrow> Inl e | Inr x \<Rightarrow> f x)"

lemma rbind_simps [simp]:
  "rbind (Inl e) f = Inl e"
  "rbind (Inr x) f = f x"
  by (simp_all add: rbind_def)

lemma rbind_InrE:
  assumes "rbind r f = Inr y"
  obtains x where "r = Inr x" "f x = Inr y"
  using assms by (cases r) auto

lemma rbind_eq_Inr: "rbind r f = Inr y \<longleftrightarrow> (\<exists>x. r = Inr x \<and> f x = Inr y)"
  by (cases r) auto

lemma rbind_eq_Inl: "rbind r f = Inl e \<longleftrightarrow> r = Inl e \<or> (\<exists>x. r = Inr x \<and> f x = Inl e)"
  by (cases r) auto

lemma rbind_assoc: "rbind (rbind r f) g = rbind r (\<lambda>x. rbind (f x) g)"
  by (cases r) auto

lemma rbind_cong: "(\<And>x. r = Inr x \<Longrightarrow> f x = g x) \<Longrightarrow> rbind r f = rbind r g"
  by (cases r) auto

definition map_err :: "('e \<Rightarrow> 'f) \<Rightarrow> 'e + 'a \<Rightarrow> 'f + 'a" where
  "map_err f r = (case r of Inl e \<Rightarrow> Inl (f e) | Inr x \<Rightarrow> Inr x)"

lemma map_err_simps [simp]:
  "map_err f (Inl e) = Inl (f e)"
  "map_err f (Inr x) = Inr x"
  by (simp_all add: map_err_def)

lemma map_err_eq_Inr [simp]: "map_err f r = Inr x \<longleftrightarrow> r = Inr x"
  by (cases r) auto

section \<open>Checked and saturating machine arithmetic\<close>

text \<open>
  \<open>u64\<close> arithmetic of an index structure, kept as \<open>nat\<close> with its range check written out:
  \<open>None\<close> is the overflow panic.
\<close>

definition u64_max :: nat where
  "u64_max = 2 ^ 64 - 1"

definition chk_add :: "nat \<Rightarrow> nat \<Rightarrow> nat option" where
  "chk_add a b = (if a + b \<le> u64_max then Some (a + b) else None)"

definition chk_sub :: "nat \<Rightarrow> nat \<Rightarrow> nat option" where
  "chk_sub a b = (if b \<le> a then Some (a - b) else None)"

definition sat_mul :: "nat \<Rightarrow> nat \<Rightarrow> nat" where
  "sat_mul a b = min (a * b) u64_max"

lemma chk_add_Some: "a + b \<le> u64_max \<Longrightarrow> chk_add a b = Some (a + b)"
  by (simp add: chk_add_def)

lemma chk_sub_Some: "b \<le> a \<Longrightarrow> chk_sub a b = Some (a - b)"
  by (simp add: chk_sub_def)

text \<open>Rust's \<open>checked_add\<close>, \<open>saturating_add\<close>, \<open>saturating_sub\<close> and \<open>saturating_mul\<close> on
  unsigned words of any width.\<close>

definition checked_add :: "'a::len word \<Rightarrow> 'a word \<Rightarrow> 'a word option" where
  "checked_add a b = (if unat a + unat b < 2 ^ LENGTH('a) then Some (a + b) else None)"

definition saturating_add :: "'a::len word \<Rightarrow> 'a word \<Rightarrow> 'a word" where
  "saturating_add a b = (if unat a + unat b < 2 ^ LENGTH('a) then a + b else - 1)"

definition saturating_sub :: "'a::len word \<Rightarrow> 'a word \<Rightarrow> 'a word" where
  "saturating_sub a b = (if b \<le> a then a - b else 0)"

definition saturating_mul :: "'a::len word \<Rightarrow> 'a word \<Rightarrow> 'a word" where
  "saturating_mul a b = (if unat a * unat b < 2 ^ LENGTH('a) then a * b else - 1)"

lemma checked_add_Some_iff:
  fixes a b :: "'a::len word"
  shows "checked_add a b = Some c \<longleftrightarrow> unat c = unat a + unat b"
proof (cases "unat a + unat b < 2 ^ LENGTH('a)")
  case True
  then show ?thesis by (auto simp: checked_add_def unat_word_ariths word_unat_eq_iff)
next
  case False
  moreover have "unat c < 2 ^ LENGTH('a)" by (rule unsigned_less)
  ultimately show ?thesis unfolding checked_add_def by (metis option.distinct(1))
qed

lemma checked_add_None_iff:
  fixes a b :: "'a::len word"
  shows "checked_add a b = None \<longleftrightarrow> 2 ^ LENGTH('a) \<le> unat a + unat b"
  by (auto simp: checked_add_def)

lemma unat_minus_one_max: "unat (- 1 :: 'a::len word) = 2 ^ LENGTH('a) - 1"
  by (simp add: unat_eq_nat_uint uint_word_ariths zmod_minus1 nat_diff_distrib nat_power_eq)

lemma unat_plus_one:
  fixes s :: "'a::len word"
  assumes "s \<noteq> - 1"
  shows "unat (s + 1) = Suc (unat s)"
proof -
  from assms have "1 + s \<noteq> 0" by (metis add.commute eq_neg_iff_add_eq_0)
  then show ?thesis by (metis add.commute unatSuc)
qed

lemma unat_saturating_add:
  fixes a b :: "'a::len word"
  shows "unat (saturating_add a b) = min (unat a + unat b) (2 ^ LENGTH('a) - 1)"
  by (auto simp: saturating_add_def unat_word_ariths unat_minus_one_max)

lemma unat_saturating_sub: "unat (saturating_sub a b) = unat a - unat b"
  by (auto simp: saturating_sub_def unat_sub word_le_nat_alt)

lemma unat_saturating_mul:
  fixes a b :: "'a::len word"
  shows "unat (saturating_mul a b) = min (unat a * unat b) (2 ^ LENGTH('a) - 1)"
  by (auto simp: saturating_mul_def unat_word_ariths unat_minus_one_max)

section \<open>Lists\<close>

text \<open>
  Rust's \<open>max_by_key\<close>: \<open>None\<close> on an empty iterator, otherwise the element with the greatest
  key, the last of them if several share it.
\<close>

fun max_by_key :: "('a \<Rightarrow> 'k::linorder) \<Rightarrow> 'a list \<Rightarrow> 'a option" where
  "max_by_key f [] = None"
| "max_by_key f (x # xs) =
     (case max_by_key f xs of None \<Rightarrow> Some x | Some y \<Rightarrow> Some (if f y < f x then x else y))"

lemma max_by_key_None [simp]: "max_by_key f xs = None \<longleftrightarrow> xs = []"
  by (cases xs) (auto split: option.splits)

lemma max_by_key_in: "max_by_key f xs = Some y \<Longrightarrow> y \<in> set xs"
  by (induction xs arbitrary: y) (auto split: option.splits if_splits)

lemma max_by_key_ge: "max_by_key f xs = Some y \<Longrightarrow> x \<in> set xs \<Longrightarrow> f x \<le> f y"
  by (induction xs arbitrary: y) (fastforce split: option.splits if_splits)+

lemma max_by_key_nonempty: "xs \<noteq> [] \<Longrightarrow> \<exists>y. max_by_key f xs = Some y"
  by (cases "max_by_key f xs") auto

lemma max_by_key_cong:
  "(\<And>x. x \<in> set xs \<Longrightarrow> f x = g x) \<Longrightarrow> max_by_key f xs = max_by_key g xs"
proof (induction xs)
  case (Cons x xs)
  then have IH: "max_by_key f xs = max_by_key g xs" by simp
  show ?case
  proof (cases "max_by_key g xs")
    case (Some y)
    then have "f y = g y" using Cons.prems max_by_key_in by (metis list.set_intros(2))
    with IH Some Cons.prems show ?thesis by simp
  qed (use IH in simp)
qed simp

lemma max_by_key_unique:
  assumes "inj_on f (set xs)" "y \<in> set xs" "\<And>x. x \<in> set xs \<Longrightarrow> f x \<le> f y"
  shows "max_by_key f xs = Some y"
proof -
  from assms(2) obtain z where z: "max_by_key f xs = Some z"
    using max_by_key_nonempty [of xs f] by (cases xs) auto
  then have "f z = f y"
    using assms max_by_key_in [OF z] max_by_key_ge [OF z] by (meson antisym)
  with z assms max_by_key_in [OF z] show ?thesis by (auto dest: inj_onD)
qed

lemma max_by_key_set_cong:
  assumes "inj_on f (set xs)" "set xs = set ys"
  shows "max_by_key f xs = max_by_key f ys"
proof (cases "max_by_key f ys")
  case None
  then show ?thesis using assms(2) by simp
next
  case (Some y)
  show ?thesis unfolding Some
    using assms max_by_key_in [OF Some] max_by_key_ge [OF Some] by (intro max_by_key_unique) auto
qed

lemma sort_key_set_eq:
  assumes "distinct xs" "distinct ys" "set xs = set ys" "inj_on f (set xs)"
  shows "sort_key f xs = sort_key f ys"
proof (rule map_sorted_distinct_set_unique [of f])
  show "inj_on f (set (sort_key f xs) \<union> set (sort_key f ys))" using assms by simp
  show "sorted (map f (sort_key f xs))" "sorted (map f (sort_key f ys))" by simp_all
  show "distinct (map f (sort_key f xs))" "distinct (map f (sort_key f ys))"
    using assms by (simp_all add: distinct_map)
  show "set (sort_key f xs) = set (sort_key f ys)" using assms by simp
qed

lemma sort_key_cong_on:
  assumes "\<And>x. x \<in> set xs \<Longrightarrow> f x = g x"
  shows "sort_key f xs = sort_key g xs"
  using assms
proof (induction xs)
  case (Cons x xs)
  have "insort_key f x ys = insort_key g x ys" if "set ys \<subseteq> set xs" for ys
    using that Cons.prems by (induction ys) auto
  then show ?case using Cons by simp
qed simp

lemma sum_list_div_le: "sum_list (map (\<lambda>x. f x div t) xs) \<le> sum_list (map f xs) div (t::nat)"
proof (induction xs)
  case (Cons x xs)
  have "f x div t + sum_list (map f xs) div t \<le> (f x + sum_list (map f xs)) div t"
    by (subst div_add1_eq [of "f x"]) (rule le_add1)
  with Cons.IH show ?case by (simp only: list.map sum_list.Cons)
qed simp

section \<open>Finite maps\<close>

lemma fmlookup_fmdom: "x |\<in>| fmdom m \<longleftrightarrow> (\<exists>y. fmlookup m x = Some y)"
  by (simp add: fmlookup_dom_iff)

lemma fmdomE_Some: "x |\<in>| fmdom m \<Longrightarrow> (\<And>y. fmlookup m x = Some y \<Longrightarrow> P) \<Longrightarrow> P"
  by (auto simp: fmlookup_dom_iff)

lemma fmdomI_Some: "fmlookup m x = Some y \<Longrightarrow> x |\<in>| fmdom m"
  by (rule fmdomI)

lemma sorted_list_of_fset_simp [simp]: "set (sorted_list_of_fset S) = fset S"
  by (simp add: sorted_list_of_fset.rep_eq)

lemma distinct_sorted_list_of_fset [simp]: "distinct (sorted_list_of_fset S)"
  by (simp add: sorted_list_of_fset.rep_eq)

lemma length_sorted_list_of_fset [simp]: "length (sorted_list_of_fset S) = fcard S"
  by (simp add: sorted_list_of_fset.rep_eq fcard.rep_eq)

end
