(* ===== verification/Bytes.thy ===== *)
theory Bytes
  imports Prelude
begin

text \<open>
  Byte strings: little- and big-endian encodings of machine words
  (\<open>to_le_bytes\<close>, \<open>from_le_bytes\<close>, \<open>from_be_bytes\<close>), the bounds-checked cursor every
  decoder of the source is written with, and the interface \<open>codec\<close> of an encoder
  with its decoder.  The four cursors of the source (\<open>Reader\<close> in \<open>tx.rs\<close> and
  \<open>snapshot.rs\<close>, \<open>Cursor\<close> in \<open>net.rs\<close>, \<open>StrCursor\<close> in \<open>relay.rs\<close>) are the same
  code over different error types; a cursor is modelled by its unread suffix
  \<open>buf[pos..]\<close>, which is all that any of its methods looks at.
\<close>

section \<open>Little-endian encodings\<close>

fun le_bytes :: "nat \<Rightarrow> nat \<Rightarrow> byte list" where
  "le_bytes 0 x = []"
| "le_bytes (Suc n) x = word_of_nat x # le_bytes n (x div 256)"

fun le_val :: "byte list \<Rightarrow> nat" where
  "le_val [] = 0"
| "le_val (b # bs) = unat b + 256 * le_val bs"

lemma length_le_bytes [simp]: "length (le_bytes n x) = n"
  by (induction n arbitrary: x) auto

lemma unat_byte_less: "unat (b :: byte) < 256"
  using unsigned_less [of b] by simp

lemma le_val_bound: "le_val bs < 256 ^ length bs"
proof (induction bs)
  case (Cons b bs)
  then show ?case using unat_byte_less [of b] by simp
qed simp

lemma le_val_le_bytes: "le_val (le_bytes n x) = x mod 256 ^ n"
proof (induction n arbitrary: x)
  case (Suc n)
  have "unat (word_of_nat x :: byte) = x mod 256" by (simp add: unat_of_nat)
  with Suc show ?case by (simp add: mod_mult2_eq)
qed simp

lemma le_bytes_le_val: "le_bytes (length bs) (le_val bs) = bs"
proof (induction bs)
  case (Cons b bs)
  have "(unat b + 256 * le_val bs) div 256 = le_val bs"
    using unat_byte_less [of b] by simp
  moreover have "(word_of_nat (unat b + 256 * le_val bs) :: byte) = b"
    using unat_byte_less [of b]
    by (simp add: word_unat_eq_iff unat_of_nat del: of_nat_add of_nat_mult)
  ultimately show ?case using Cons by simp
qed simp

lemma le_bytes_inj:
  assumes "le_bytes n x = le_bytes n y" "x < 256 ^ n" "y < 256 ^ n"
  shows "x = y"
  using assms by (metis le_val_le_bytes mod_less)

lemma le_val_append: "le_val (xs @ ys) = le_val xs + 256 ^ length xs * le_val ys"
  by (induction xs) (simp_all add: algebra_simps)

definition to_le_bytes :: "'a::len word \<Rightarrow> byte list" where
  "to_le_bytes w = le_bytes (LENGTH('a) div 8) (unat w)"

definition from_le_bytes :: "byte list \<Rightarrow> 'a::len word" where
  "from_le_bytes bs = word_of_nat (le_val bs)"

definition to_be_bytes :: "'a::len word \<Rightarrow> byte list" where
  "to_be_bytes w = rev (to_le_bytes w)"

definition from_be_bytes :: "byte list \<Rightarrow> 'a::len word" where
  "from_be_bytes bs = from_le_bytes (rev bs)"

text \<open>\<open>len() as u64\<close> followed by \<open>to_le_bytes\<close>: the length prefix every list carries.\<close>

definition len_bytes :: "'a list \<Rightarrow> byte list" where
  "len_bytes xs = to_le_bytes (word_of_nat (length xs) :: u64)"

lemma length_to_le_bytes [simp]: "length (to_le_bytes (w :: 'a::len word)) = LENGTH('a) div 8"
  by (simp add: to_le_bytes_def)

lemma length_to_be_bytes [simp]: "length (to_be_bytes (w :: 'a::len word)) = LENGTH('a) div 8"
  by (simp add: to_be_bytes_def)

lemma length_len_bytes [simp]: "length (len_bytes xs) = 8"
  by (simp add: len_bytes_def)

lemma two_pow_256: "8 dvd n \<Longrightarrow> (2 :: nat) ^ n = 256 ^ (n div 8)"
  by (auto elim!: dvdE simp: power_mult)

lemma from_le_to_le [simp]:
  assumes "8 dvd LENGTH('a)"
  shows "from_le_bytes (to_le_bytes (w :: 'a::len word)) = w"
proof -
  have "unat w < 2 ^ LENGTH('a)" by (rule unsigned_less)
  then have "unat w mod 256 ^ (LENGTH('a) div 8) = unat w"
    using two_pow_256 [OF assms] by simp
  then show ?thesis by (simp add: from_le_bytes_def to_le_bytes_def le_val_le_bytes)
qed

lemma to_le_from_le:
  assumes "8 dvd LENGTH('a)" "length bs = LENGTH('a) div 8"
  shows "to_le_bytes (from_le_bytes bs :: 'a::len word) = bs"
proof -
  have "le_val bs < 2 ^ LENGTH('a)"
    using le_val_bound [of bs] assms two_pow_256 by simp
  then have "unat (from_le_bytes bs :: 'a word) = le_val bs"
    by (simp add: from_le_bytes_def unat_of_nat)
  then show ?thesis using le_bytes_le_val [of bs] assms(2) by (simp add: to_le_bytes_def)
qed

lemma from_be_to_be [simp]:
  "8 dvd LENGTH('a) \<Longrightarrow> from_be_bytes (to_be_bytes (w :: 'a::len word)) = w"
  by (simp add: from_be_bytes_def to_be_bytes_def)

lemma to_be_from_be:
  "8 dvd LENGTH('a) \<Longrightarrow> length bs = LENGTH('a) div 8 \<Longrightarrow>
   to_be_bytes (from_be_bytes bs :: 'a::len word) = bs"
  by (simp add: from_be_bytes_def to_be_bytes_def to_le_from_le)

lemma to_le_bytes_inj:
  "8 dvd LENGTH('a) \<Longrightarrow> to_le_bytes (v :: 'a::len word) = to_le_bytes w \<longleftrightarrow> v = w"
  by (metis from_le_to_le)

lemma to_be_bytes_inj:
  "8 dvd LENGTH('a) \<Longrightarrow> to_be_bytes (v :: 'a::len word) = to_be_bytes w \<longleftrightarrow> v = w"
  by (metis from_be_to_be)

lemma len_bytes_inj:
  assumes "len_bytes xs = len_bytes ys" "length xs < 2 ^ 64" "length ys < 2 ^ 64"
  shows "length xs = length ys"
proof -
  have "(word_of_nat (length xs) :: u64) = word_of_nat (length ys)"
    using assms(1) by (simp add: len_bytes_def to_le_bytes_inj)
  then have "unat (word_of_nat (length xs) :: u64) = unat (word_of_nat (length ys) :: u64)"
    by simp
  with assms(2,3) show ?thesis by (simp add: unat_of_nat)
qed

section \<open>The bounds-checked cursor\<close>

definition read_array :: "'e \<Rightarrow> nat \<Rightarrow> byte list \<Rightarrow> 'e + (byte list \<times> byte list)" where
  "read_array eof n bs = (if length bs < n then Inl eof else Inr (take n bs, drop n bs))"

definition read_word :: "'e \<Rightarrow> byte list \<Rightarrow> 'e + ('a::len word \<times> byte list)" where
  "read_word eof bs =
     rbind (read_array eof (LENGTH('a) div 8) bs) (\<lambda>(a, r). Inr (from_le_bytes a, r))"

text \<open>A 32- or 64-byte array is kept as the word its bytes spell in big-endian order.\<close>

definition read_be_word :: "'e \<Rightarrow> byte list \<Rightarrow> 'e + ('a::len word \<times> byte list)" where
  "read_be_word eof bs =
     rbind (read_array eof (LENGTH('a) div 8) bs) (\<lambda>(a, r). Inr (from_be_bytes a, r))"

text \<open>A length prefix: refused when the elements could not fit in what is left.\<close>

definition read_count :: "'e \<Rightarrow> 'e \<Rightarrow> nat \<Rightarrow> byte list \<Rightarrow> 'e + (nat \<times> byte list)" where
  "read_count eof too_large min_element_bytes bs =
     rbind (read_word eof bs) (\<lambda>(n :: u64, r).
       if 0 < min_element_bytes \<and> length r div min_element_bytes < unat n then Inl too_large
       else Inr (unat n, r))"

text \<open>The loop \<open>for _ in 0..n { xs.push(read()?) }\<close>.\<close>

primrec read_many :: "(byte list \<Rightarrow> 'e + ('a \<times> byte list)) \<Rightarrow> nat \<Rightarrow> byte list \<Rightarrow>
    'e + ('a list \<times> byte list)" where
  "read_many dec 0 bs = Inr ([], bs)"
| "read_many dec (Suc n) bs =
     rbind (dec bs) (\<lambda>(x, r). rbind (read_many dec n r) (\<lambda>(xs, r'). Inr (x # xs, r')))"

lemma read_array_append [codec_simps]:
  "length xs = n \<Longrightarrow> read_array eof n (xs @ bs) = Inr (xs, bs)"
  by (simp add: read_array_def)

lemma read_word_append [codec_simps]:
  "8 dvd LENGTH('a) \<Longrightarrow> read_word eof (to_le_bytes (w :: 'a::len word) @ bs) = Inr (w, bs)"
  by (simp add: read_word_def read_array_append)

lemma read_be_word_append [codec_simps]:
  "8 dvd LENGTH('a) \<Longrightarrow> read_be_word eof (to_be_bytes (w :: 'a::len word) @ bs) = Inr (w, bs)"
  by (simp add: read_be_word_def read_array_append)

lemma read_count_append [codec_simps]:
  assumes "length xs < 2 ^ 64" "min_element_bytes * length xs \<le> length bs"
  shows "read_count eof too_large min_element_bytes (len_bytes xs @ bs) = Inr (length xs, bs)"
proof -
  have u: "unat (word_of_nat (length xs) :: u64) = length xs"
    using assms(1) by (simp add: unat_of_nat)
  have "length xs \<le> length bs div min_element_bytes" if "0 < min_element_bytes"
    using that assms(2) by (simp add: less_eq_div_iff_mult_less_eq mult.commute)
  then show ?thesis
    by (auto simp: read_count_def len_bytes_def read_word_append u)
qed

lemma read_array_InrD:
  "read_array eof n bs = Inr (a, r) \<Longrightarrow> bs = a @ r \<and> length a = n"
  by (auto simp: read_array_def split: if_splits)

lemma read_word_InrD:
  "8 dvd LENGTH('a) \<Longrightarrow> read_word eof bs = Inr (w :: 'a::len word, r) \<Longrightarrow> bs = to_le_bytes w @ r"
  by (auto simp: read_word_def rbind_eq_Inr to_le_from_le dest!: read_array_InrD)

lemma read_be_word_InrD:
  "8 dvd LENGTH('a) \<Longrightarrow> read_be_word eof bs = Inr (w :: 'a::len word, r) \<Longrightarrow>
   bs = to_be_bytes w @ r"
  by (auto simp: read_be_word_def rbind_eq_Inr to_be_from_be dest!: read_array_InrD)

lemma read_count_InrD:
  assumes "read_count eof too_large m bs = Inr (n, r)"
  shows "bs = to_le_bytes (word_of_nat n :: u64) @ r" "n < 2 ^ 64" "0 < m \<Longrightarrow> m * n \<le> length r"
proof -
  from assms obtain w :: u64 where w: "read_word eof bs = Inr (w, r)" "n = unat w"
    and le: "\<not> (0 < m \<and> length r div m < unat w)"
    by (auto simp: read_count_def rbind_eq_Inr split: if_splits)
  show "bs = to_le_bytes (word_of_nat n :: u64) @ r"
    using read_word_InrD [OF _ w(1)] w(2) by simp
  show "n < 2 ^ 64" using w(2) unsigned_less [of w] by simp
  show "m * n \<le> length r" if "0 < m"
    using le w(2) that by (simp add: not_less less_eq_div_iff_mult_less_eq mult.commute)
qed

lemma read_many_length: "read_many dec n bs = Inr (xs, r) \<Longrightarrow> length xs = n"
  by (induction n arbitrary: bs xs) (auto simp: rbind_eq_Inr)

section \<open>Stable decoders\<close>

text \<open>
  A decoder that succeeded does not look past what it consumed: more input behind changes
  neither the value nor what it consumed.  This is what makes a truncated encoding fail.
\<close>

locale stable_decoder =
  fixes dec :: "byte list \<Rightarrow> 'e + ('a \<times> byte list)"
  assumes dec_more: "dec bs = Inr (x, r) \<Longrightarrow> dec (bs @ ys) = Inr (x, r @ ys)"
begin

lemma read_many_more: "read_many dec n bs = Inr (xs, r) \<Longrightarrow> read_many dec n (bs @ ys) = Inr (xs, r @ ys)"
  by (induction n arbitrary: bs xs) (auto simp: rbind_eq_Inr dec_more)

end

lemma read_array_more [dec_more]:
  "read_array eof n bs = Inr (a, r) \<Longrightarrow> read_array eof n (bs @ ys) = Inr (a, r @ ys)"
  by (auto simp: read_array_def split: if_splits)

lemma read_word_more [dec_more]:
  "read_word eof bs = Inr (w, r) \<Longrightarrow> read_word eof (bs @ ys) = Inr (w, r @ ys)"
  by (auto simp: read_word_def rbind_eq_Inr dest: read_array_more)

lemma read_be_word_more [dec_more]:
  "read_be_word eof bs = Inr (w, r) \<Longrightarrow> read_be_word eof (bs @ ys) = Inr (w, r @ ys)"
  by (auto simp: read_be_word_def rbind_eq_Inr dest: read_array_more)

lemma read_count_more [dec_more]:
  assumes "read_count eof too_large m bs = Inr (n, r)"
  shows "read_count eof too_large m (bs @ ys) = Inr (n, r @ ys)"
proof -
  from assms obtain w :: u64 where w: "read_word eof bs = Inr (w, r)" "n = unat w"
    and le: "\<not> (0 < m \<and> length r div m < unat w)"
    by (auto simp: read_count_def rbind_eq_Inr split: if_splits)
  have "length r div m \<le> length (r @ ys) div m" by (intro div_le_mono) simp
  then have "\<not> (0 < m \<and> length (r @ ys) div m < unat w)" using le by auto
  then show ?thesis using read_word_more [OF w(1), of ys] w(2) by (simp add: read_count_def)
qed

text \<open>A reader fails in no other way than by running out of input.\<close>

lemma read_array_Inl: "read_array eof n bs = Inl e \<Longrightarrow> e = eof"
  by (auto simp: read_array_def split: if_splits)

lemma read_word_Inl: "read_word eof bs = Inl e \<Longrightarrow> e = eof"
  by (auto simp: read_word_def rbind_eq_Inl dest: read_array_Inl)

lemma read_be_word_Inl: "read_be_word eof bs = Inl e \<Longrightarrow> e = eof"
  by (auto simp: read_be_word_def rbind_eq_Inl dest: read_array_Inl)

lemma read_count_Inl: "read_count eof eof m bs = Inl e \<Longrightarrow> e = eof"
  by (auto simp: read_count_def rbind_eq_Inl dest: read_word_Inl split: if_splits)

lemma read_many_Inl:
  "(\<And>bs e. dec bs = Inl e \<Longrightarrow> e = eof) \<Longrightarrow> read_many dec n bs = Inl e \<Longrightarrow> e = eof"
  by (induction n arbitrary: bs) (auto simp: rbind_eq_Inl)

section \<open>Codecs\<close>

text \<open>
  The interface between a value's encoder and its decoder: on the values \<open>ok\<close> accepts
  the decoder reads back what the encoder wrote and leaves the rest of the input alone,
  and every encoding has at least \<open>width\<close> bytes (what \<open>read_count\<close> relies on).  A
  canonical codec also accepts nothing but encodings.
\<close>

locale codec = stable_decoder dec
  for dec :: "byte list \<Rightarrow> 'e + ('a \<times> byte list)" +
  fixes enc :: "'a \<Rightarrow> byte list"
    and ok :: "'a \<Rightarrow> bool"
    and width :: nat
  assumes dec_enc: "ok x \<Longrightarrow> dec (enc x @ bs) = Inr (x, bs)"
    and width_enc: "width \<le> length (enc x)"
begin

lemma width_concat: "width * length xs \<le> length (concat (map enc xs))"
proof (induction xs)
  case (Cons x xs)
  then show ?case using width_enc [of x] by simp
qed simp

lemma read_many_enc:
  "list_all ok xs \<Longrightarrow> read_many dec (length xs) (concat (map enc xs) @ bs) = Inr (xs, bs)"
  by (induction xs) (simp_all add: dec_enc)

lemma read_counted_enc:
  assumes "list_all ok xs" "length xs < 2 ^ 64"
  shows "rbind (read_count eof too_large width (len_bytes xs @ concat (map enc xs) @ bs))
           (\<lambda>(n, r). read_many dec n r) = Inr (xs, bs)"
  using assms width_concat [of xs] by (simp add: read_count_append read_many_enc)

lemma dec_truncated:
  assumes "ok x" "enc x = p @ s" "s \<noteq> []"
  shows "\<exists>e. dec p = Inl e"
proof (cases "dec p")
  case (Inr a)
  then obtain y r where "dec p = Inr (y, r)" by (cases a) auto
  from dec_more [OF this, of s] dec_enc [OF assms(1), of "[]"] assms(2,3) show ?thesis by simp
qed simp

lemma enc_inj:
  assumes "ok x" "ok y" "enc x @ r = enc y @ s"
  shows "x = y \<and> r = s"
proof -
  have "Inr (x, r) = dec (enc y @ s)" unfolding dec_enc [OF assms(1), of r, symmetric] assms(3) ..
  then show ?thesis by (simp add: dec_enc [OF assms(2)])
qed

end

locale canonical_codec = codec +
  assumes enc_dec: "dec bs = Inr (x, r) \<Longrightarrow> bs = enc x @ r \<and> ok x"
begin

lemma read_many_canonical:
  "read_many dec n bs = Inr (xs, r) \<Longrightarrow>
   bs = concat (map enc xs) @ r \<and> length xs = n \<and> list_all ok xs"
proof (induction n arbitrary: bs xs)
  case (Suc n)
  then obtain x b' ys where "dec bs = Inr (x, b')" "read_many dec n b' = Inr (ys, r)" "xs = x # ys"
    by (auto simp: rbind_eq_Inr)
  with Suc.IH enc_dec show ?case by fastforce
qed simp

lemma read_counted_canonical:
  assumes "rbind (read_count eof too_large m bs) (\<lambda>(n, r). read_many dec n r) = Inr (xs, r)"
  shows "bs = len_bytes xs @ concat (map enc xs) @ r \<and> length xs < 2 ^ 64 \<and> list_all ok xs"
proof -
  from assms obtain n b' where n: "read_count eof too_large m bs = Inr (n, b')"
    and xs: "read_many dec n b' = Inr (xs, r)"
    by (auto simp: rbind_eq_Inr)
  from read_many_canonical [OF xs] read_count_InrD [OF n] show ?thesis
    by (auto simp: len_bytes_def)
qed

end

text \<open>Words are canonical codecs in both byte orders.\<close>

interpretation u64_le: canonical_codec "read_word eof :: _ \<Rightarrow> _ + (u64 \<times> _)" to_le_bytes "\<lambda>_. True" 8 for eof
  by unfold_locales (auto simp: codec_simps dec_more intro: read_word_InrD)

interpretation digest_be: canonical_codec "read_be_word eof :: _ \<Rightarrow> _ + (256 word \<times> _)" to_be_bytes
  "\<lambda>_. True" 32 for eof
  by unfold_locales (auto simp: codec_simps dec_more intro: read_be_word_InrD)

interpretation signature_be: canonical_codec "read_be_word eof :: _ \<Rightarrow> _ + (512 word \<times> _)" to_be_bytes
  "\<lambda>_. True" 64 for eof
  by unfold_locales (auto simp: codec_simps dec_more intro: read_be_word_InrD)

end
