(* ===== verification/Block.thy ===== *)
theory Block
  imports Bytes
begin

text \<open>
  \<open>crates/kovanica-dag/src/block.rs\<close>: block identity and the block type.  A \<open>[u8; 32]\<close>
  is the 256-bit word its bytes spell in big-endian order, so the derived byte-wise order
  of \<open>BlockId\<close> is the unsigned order of the word (\<open>block_id_order_is_bytewise\<close>).
  BLAKE3 is not under \<open>src/\<close>: it is the parameter \<open>H\<close> of every definition that computes
  an id.
\<close>

type_synonym digest = "byte list \<Rightarrow> 256 word"

datatype block_id = BlockId "256 word"

fun id_word :: "block_id \<Rightarrow> 256 word" where
  "id_word (BlockId w) = w"

instantiation block_id :: linorder
begin

definition less_eq_block_id :: "block_id \<Rightarrow> block_id \<Rightarrow> bool" where
  "less_eq_block_id a b \<longleftrightarrow> id_word a \<le> id_word b"

definition less_block_id :: "block_id \<Rightarrow> block_id \<Rightarrow> bool" where
  "less_block_id a b \<longleftrightarrow> id_word a < id_word b"

instance
proof
  fix x y z :: block_id
  show "x < y \<longleftrightarrow> x \<le> y \<and> \<not> y \<le> x"
    by (auto simp: less_eq_block_id_def less_block_id_def)
  show "x \<le> x" by (simp add: less_eq_block_id_def)
  show "x \<le> y \<Longrightarrow> y \<le> z \<Longrightarrow> x \<le> z" by (auto simp: less_eq_block_id_def)
  show "x \<le> y \<Longrightarrow> y \<le> x \<Longrightarrow> x = y"
    by (cases x; cases y) (auto simp: less_eq_block_id_def)
  show "x \<le> y \<or> y \<le> x" by (auto simp: less_eq_block_id_def)
qed

end

definition as_bytes :: "block_id \<Rightarrow> byte list" where
  "as_bytes i = to_be_bytes (id_word i)"

lemma length_as_bytes [simp]: "length (as_bytes i) = 32"
  by (simp add: as_bytes_def)

lemma as_bytes_inj [simp]: "as_bytes i = as_bytes j \<longleftrightarrow> i = j"
  by (cases i; cases j) (simp add: as_bytes_def to_be_bytes_inj)

section \<open>Blocks\<close>

record block =
  parents :: "block_id list"
  work :: u128
  timestamp_ms :: u64
  nonce :: u64
  payload :: "byte list"

definition block_new :: "block_id list \<Rightarrow> u128 \<Rightarrow> u64 \<Rightarrow> u64 \<Rightarrow> byte list \<Rightarrow> block" where
  "block_new ps w t n pl =
     \<lparr>parents = remdups_adj (sort ps), work = w, timestamp_ms = t, nonce = n, payload = pl\<rparr>"

definition block_genesis :: "u128 \<Rightarrow> u64 \<Rightarrow> u64 \<Rightarrow> byte list \<Rightarrow> block" where
  "block_genesis w t n pl =
     \<lparr>parents = [], work = w, timestamp_ms = t, nonce = n, payload = pl\<rparr>"

definition with_nonce :: "block \<Rightarrow> u64 \<Rightarrow> block" where
  "with_nonce b n = b\<lparr>nonce := n\<rparr>"

text \<open>The bytes fed to the hasher, in the order of the \<open>update\<close> calls, and the id.\<close>

definition id_preimage :: "block \<Rightarrow> byte list" where
  "id_preimage b =
     len_bytes (parents b) @ concat (map as_bytes (parents b)) @ to_le_bytes (work b)
     @ to_le_bytes (timestamp_ms b) @ to_le_bytes (nonce b)
     @ len_bytes (payload b) @ payload b"

definition block_ident :: "digest \<Rightarrow> block \<Rightarrow> block_id" where
  "block_ident H b = BlockId (H (id_preimage b))"

text \<open>
  What every block built by \<open>block_new\<close> or \<open>block_genesis\<close> satisfies: strictly sorted
  parents, and vectors of machine length.
\<close>

definition wf_block :: "block \<Rightarrow> bool" where
  "wf_block b \<longleftrightarrow> sorted (parents b) \<and> distinct (parents b)
     \<and> length (parents b) < 2 ^ 64 \<and> length (payload b) < 2 ^ 64"

lemma set_parents_block_new [simp]: "set (parents (block_new ps w t n pl)) = set ps"
  by (simp add: block_new_def)

lemma block_new_sel [simp]:
  "work (block_new ps w t n pl) = w"
  "timestamp_ms (block_new ps w t n pl) = t"
  "nonce (block_new ps w t n pl) = n"
  "payload (block_new ps w t n pl) = pl"
  by (simp_all add: block_new_def)

lemma block_genesis_sel [simp]:
  "parents (block_genesis w t n pl) = []"
  "work (block_genesis w t n pl) = w"
  "timestamp_ms (block_genesis w t n pl) = t"
  "nonce (block_genesis w t n pl) = n"
  "payload (block_genesis w t n pl) = pl"
  by (simp_all add: block_genesis_def)

lemma sorted_parents_block_new [simp]: "sorted (parents (block_new ps w t n pl))"
  by (simp add: block_new_def)

lemma distinct_remdups_adj_sorted: "sorted (xs :: 'a::linorder list) \<Longrightarrow> distinct (remdups_adj xs)"
  by (induction xs rule: remdups_adj.induct) (auto dest: antisym)

lemma distinct_parents_block_new [simp]: "distinct (parents (block_new ps w t n pl))"
  by (simp add: block_new_def distinct_remdups_adj_sorted)

lemma length_parents_block_new: "length (parents (block_new ps w t n pl)) \<le> length ps"
  by (simp add: block_new_def) (metis length_sort remdups_adj_length)

lemma wf_block_new [wf_intros]:
  "length ps < 2 ^ 64 \<Longrightarrow> length pl < 2 ^ 64 \<Longrightarrow> wf_block (block_new ps w t n pl)"
  using length_parents_block_new [of ps w t n pl] by (simp add: wf_block_def)

lemma wf_block_genesis [wf_intros]: "length pl < 2 ^ 64 \<Longrightarrow> wf_block (block_genesis w t n pl)"
  by (simp add: wf_block_def)

text \<open>Rebuilding a block from its own parents changes nothing.\<close>

lemma block_new_parents:
  assumes "sorted (parents b)" "distinct (parents b)"
  shows "block_new (parents b) (work b) (timestamp_ms b) (nonce b) (payload b) = b"
proof -
  have "sort (parents b) = parents b" using assms(1) by (simp add: sort_key_id_if_sorted)
  moreover have "remdups_adj (parents b) = parents b"
    using assms(2) by (simp add: remdups_adj_distinct)
  ultimately show ?thesis by (simp add: block_new_def)
qed

lemma parents_block_new_cong:
  assumes "set ps = set qs"
  shows "block_new ps w t n pl = block_new qs w t n pl"
proof -
  have "remdups_adj (sort ps) = remdups_adj (sort qs)"
    using assms by (intro sorted_distinct_set_unique)
      (simp_all add: distinct_remdups_adj_sorted)
  then show ?thesis by (simp add: block_new_def)
qed

section \<open>The order of ids\<close>

lemma lexordp_append_same_length:
  fixes xs ys us vs :: "'a::linorder list"
  assumes "length xs = length ys"
  shows "ord_class.lexordp (xs @ us) (ys @ vs) \<longleftrightarrow> ord_class.lexordp xs ys \<or> (xs = ys \<and> ord_class.lexordp us vs)"
  using assms
proof (induction xs ys rule: list_induct2)
  case (Cons x xs y ys)
  then show ?case by (cases x y rule: linorder_cases) auto
qed simp

lemma le_val_less_lexordp:
  "length xs = length ys \<Longrightarrow> le_val xs < le_val ys \<longleftrightarrow> ord_class.lexordp (rev xs) (rev ys)"
proof (induction xs ys rule: list_induct2)
  case (Cons x xs y ys)
  have b: "unat x < 256" "unat y < 256" by (rule unat_byte_less)+
  have "unat x + 256 * le_val xs < unat y + 256 * le_val ys \<longleftrightarrow>
      le_val xs < le_val ys \<or> (le_val xs = le_val ys \<and> unat x < unat y)"
    using b by linarith
  moreover have "le_val xs = le_val ys \<longleftrightarrow> rev xs = rev ys"
    using Cons.hyps by (metis le_bytes_le_val rev_rev_ident)
  moreover have "ord_class.lexordp [x] [y] \<longleftrightarrow> unat x < unat y"
    by (auto simp: word_less_nat_alt)
  ultimately show ?case
    unfolding le_val.simps rev.simps
    using Cons.IH lexordp_append_same_length [of "rev xs" "rev ys" "[x]" "[y]"] Cons.hyps
    by (metis length_rev)
qed simp

lemma le_val_to_le_bytes_256: "le_val (to_le_bytes w) = unat (w :: 256 word)"
proof -
  have "unat w < 256 ^ 32" using unsigned_less [of w, where 'a = nat] by simp
  then show ?thesis unfolding to_le_bytes_def le_val_le_bytes by (intro mod_less) simp
qed

text \<open>the derived order of \<open>BlockId\<close> is the lexicographic order of its 32 bytes.\<close>

lemma block_id_order_is_bytewise:
  "(i < j) = ord_class.lexordp (as_bytes i) (as_bytes j)"
proof -
  let ?x = "to_le_bytes (id_word i)" and ?y = "to_le_bytes (id_word j)"
  have "i < j \<longleftrightarrow> le_val ?x < le_val ?y"
    by (simp add: le_val_to_le_bytes_256 less_block_id_def word_less_nat_alt)
  also have "\<dots> \<longleftrightarrow> ord_class.lexordp (rev ?x) (rev ?y)"
    by (rule le_val_less_lexordp) simp
  finally show ?thesis by (simp add: as_bytes_def to_be_bytes_def)
qed

end
