(* ===== verification/Pow.thy ===== *)
theory Pow
  imports Block
begin

text \<open>
  \<open>crates/kovanica-dag/src/pow.rs\<close>: the hash-target check and the nonce search.  The check
  multiplies four 64-bit limbs of the id by two limbs of the work into a six-limb product,
  schoolbook fashion; the theorem is that this computes \<open>H * max 1 work < 2^256\<close>.
\<close>

section \<open>The target check\<close>

text \<open>\<open>h[i]\<close>: the i-th little-endian limb of the big-endian digest.\<close>

definition id_limb :: "block_id \<Rightarrow> nat \<Rightarrow> u64" where
  "id_limb i k = from_be_bytes (take 8 (drop ((3 - k) * 8) (as_bytes i)))"

definition id_limbs :: "block_id \<Rightarrow> u64 list" where
  "id_limbs i = map (id_limb i) [0, 1, 2, 3]"

definition work_limbs :: "u128 \<Rightarrow> u64 list" where
  "work_limbs w = [ucast w, ucast (drop_bit 64 w)]"

text \<open>One step of the inner loop, with its carry.\<close>

definition mul_cell :: "u64 \<Rightarrow> u64 \<Rightarrow> nat \<Rightarrow> u64 list \<times> u64 \<Rightarrow> u64 list \<times> u64" where
  "mul_cell hi wj idx = (\<lambda>(pr, carry).
     let m = (ucast hi * ucast wj + ucast (pr ! idx) + ucast carry :: u128)
     in (pr[idx := ucast m], ucast (drop_bit 64 m)))"

fun mul_row :: "u64 \<Rightarrow> u64 list \<Rightarrow> nat \<Rightarrow> u64 list \<times> u64 \<Rightarrow> u64 list \<times> u64" where
  "mul_row hi [] idx st = st"
| "mul_row hi (wj # ws) idx st = mul_row hi ws (Suc idx) (mul_cell hi wj idx st)"

text \<open>The \<open>while carry != 0 && idx < prod.len()\<close> loop.\<close>

function propagate :: "u64 list \<Rightarrow> u64 \<Rightarrow> nat \<Rightarrow> u64 list" where
  "propagate pr carry idx =
     (if carry \<noteq> 0 \<and> idx < length pr
      then let s = (ucast (pr ! idx) + ucast carry :: u128)
           in propagate (pr[idx := ucast s]) (ucast (drop_bit 64 s)) (Suc idx)
      else pr)"
  by pat_completeness auto
termination
  by (relation "measure (\<lambda>(pr, carry, idx). length pr - idx)") auto

declare propagate.simps [simp del]

fun mul_rows :: "u64 list \<Rightarrow> u64 list \<Rightarrow> nat \<Rightarrow> u64 list \<Rightarrow> u64 list" where
  "mul_rows [] ws i pr = pr"
| "mul_rows (hi # hs) ws i pr =
     mul_rows hs ws (Suc i)
       (let (pr', carry) = mul_row hi ws i (pr, 0)
        in propagate pr' carry (i + length ws))"

definition meets_target :: "block_id \<Rightarrow> u128 \<Rightarrow> bool" where
  "meets_target i w =
     (let w' = max w 1;
          pr = mul_rows (id_limbs i) (work_limbs w') 0 (replicate 6 0)
      in pr ! 4 = 0 \<and> pr ! 5 = 0)"

definition is_mined :: "digest \<Rightarrow> block \<Rightarrow> bool" where
  "is_mined H b = meets_target (block_ident H b) (work b)"

section \<open>The value of a limb list\<close>

fun limb_val :: "u64 list \<Rightarrow> nat" where
  "limb_val [] = 0"
| "limb_val (x # xs) = unat x + 2 ^ 64 * limb_val xs"

lemma limb_val_update:
  "k < length xs \<Longrightarrow>
   limb_val (xs[k := y]) + unat (xs ! k) * 2 ^ (64 * k) = limb_val xs + unat y * 2 ^ (64 * k)"
proof (induction xs arbitrary: k)
  case (Cons x xs)
  show ?case
  proof (cases k)
    case (Suc j)
    with Cons have IH: "limb_val (xs[j := y]) + unat (xs ! j) * 2 ^ (64 * j)
        = limb_val xs + unat y * 2 ^ (64 * j)" by simp
    have p: "2 ^ (64 * k) = (2 ^ 64 * 2 ^ (64 * j) :: nat)"
      by (simp add: Suc power_add)
    have "2 ^ 64 * (limb_val (xs[j := y]) + unat (xs ! j) * 2 ^ (64 * j))
        = 2 ^ 64 * (limb_val xs + unat y * 2 ^ (64 * j))" by (simp only: IH)
    then show ?thesis unfolding p by (simp add: Suc algebra_simps)
  qed simp
qed simp

lemma limb_val_bound: "limb_val xs < 2 ^ (64 * length xs)"
proof (induction xs)
  case (Cons x xs)
  have "unat x < 2 ^ 64" using unsigned_less [of x, where 'a = nat] by simp
  moreover have "2 ^ 64 * Suc (limb_val xs) \<le> 2 ^ 64 * 2 ^ (64 * length xs)"
    using Cons.IH by (intro mult_le_mono2) simp
  ultimately have "unat x + 2 ^ 64 * limb_val xs < 2 ^ 64 * 2 ^ (64 * length xs)"
    by (simp only: mult_Suc_right)
  then show ?case by (simp add: power_add)
qed simp

lemma limb_val_append: "limb_val (xs @ ys) = limb_val xs + 2 ^ (64 * length xs) * limb_val ys"
  by (induction xs) (simp_all add: algebra_simps power_add)

lemma limb_val_zeros: "limb_val (replicate n 0) = 0"
  by (induction n) simp_all

text \<open>Splitting a 128-bit value into two limbs loses nothing.\<close>

lemma split_u128: "unat (ucast m :: u64) + 2 ^ 64 * unat (ucast (drop_bit 64 m) :: u64) = unat (m :: u128)"
proof -
  have lo: "unat (ucast m :: u64) = unat m mod 2 ^ 64"
    by (simp add: unsigned_ucast_eq take_bit_eq_mod)
  have "unat (drop_bit 64 m) = unat m div 2 ^ 64"
    by (subst unat_drop_bit_eq) (rule drop_bit_eq_div)
  moreover have "unat m < 2 ^ 128" using unsigned_less [of m, where 'a = nat] by simp
  ultimately have hi: "unat (ucast (drop_bit 64 m) :: u64) = unat m div 2 ^ 64"
    by (simp add: unsigned_ucast_eq take_bit_eq_mod)
  show ?thesis unfolding lo hi by simp
qed

lemma mul_cell_value:
  fixes hi wj p c :: u64
  shows "unat (ucast hi * ucast wj + ucast p + ucast c :: u128) = unat hi * unat wj + unat p + unat c"
proof -
  have b: "unat x \<le> 2 ^ 64 - 1" for x :: u64 using unsigned_less [of x, where 'a = nat] by simp
  have "unat hi * unat wj \<le> (2 ^ 64 - 1) * (2 ^ 64 - 1)" by (rule mult_le_mono [OF b b])
  then have "unat hi * unat wj + unat p + unat c \<le> (2 ^ 64 - 1) * (2 ^ 64 - 1) + (2 ^ 64 - 1) + (2 ^ 64 - 1)"
    using b [of p] b [of c] by linarith
  then have lt: "unat hi * unat wj + unat p + unat c < 2 ^ LENGTH(128)" by simp
  have "(ucast hi * ucast wj + ucast p + ucast c :: u128)
      = word_of_nat (unat hi * unat wj + unat p + unat c)"
    by simp
  then show ?thesis by (simp only: unat_of_nat mod_less [OF lt])
qed

lemma mul_cell_val:
  assumes "idx < length pr" "mul_cell hi wj idx (pr, carry) = (pr', carry')"
  shows "limb_val pr' + unat carry' * 2 ^ (64 * Suc idx)
      = limb_val pr + unat carry * 2 ^ (64 * idx) + unat hi * unat wj * 2 ^ (64 * idx)"
    and "length pr' = length pr"
proof -
  let ?m = "ucast hi * ucast wj + ucast (pr ! idx) + ucast carry :: u128"
  from assms(2) have e: "pr' = pr[idx := ucast ?m]" "carry' = ucast (drop_bit 64 ?m)"
    by (auto simp: mul_cell_def Let_def)
  then show "length pr' = length pr" by simp
  have s: "unat (ucast ?m :: u64) + 2 ^ 64 * unat carry' = unat hi * unat wj + unat (pr ! idx) + unat carry"
    unfolding e using split_u128 [of ?m] mul_cell_value [of hi wj "pr ! idx" carry] by simp
  let ?P = "2 ^ (64 * idx) :: nat"
  have "limb_val pr' + unat (pr ! idx) * ?P = limb_val pr + unat (ucast ?m :: u64) * ?P"
    unfolding e using assms(1) by (rule limb_val_update)
  moreover have "unat (ucast ?m :: u64) * ?P + 2 ^ 64 * unat carry' * ?P
      = unat hi * unat wj * ?P + unat (pr ! idx) * ?P + unat carry * ?P"
    using arg_cong [OF s, of "\<lambda>x. x * ?P"] by (simp only: distrib_right)
  moreover have "2 ^ (64 * Suc idx) = (2 ^ 64 * ?P)" by (simp add: power_add)
  ultimately show "limb_val pr' + unat carry' * 2 ^ (64 * Suc idx)
      = limb_val pr + unat carry * ?P + unat hi * unat wj * ?P"
    by (simp only: mult.assoc mult.commute mult.left_commute)
qed

text \<open>A row of the product, its carry loop, and all four rows.\<close>

lemma mul_row_val:
  "idx + length ws \<le> length pr \<Longrightarrow> mul_row hi ws idx (pr, carry) = (pr', carry') \<Longrightarrow>
   limb_val pr' + unat carry' * 2 ^ (64 * (idx + length ws))
     = limb_val pr + unat carry * 2 ^ (64 * idx) + unat hi * limb_val ws * 2 ^ (64 * idx)
   \<and> length pr' = length pr"
proof (induction ws arbitrary: idx pr carry)
  case (Cons w ws)
  obtain p1 c1 where c: "mul_cell hi w idx (pr, carry) = (p1, c1)" by fastforce
  from Cons.prems(1) have "idx < length pr" by simp
  note cell = mul_cell_val [OF this c]
  from Cons.prems c have "Suc idx + length ws \<le> length p1" "mul_row hi ws (Suc idx) (p1, c1) = (pr', carry')"
    using cell(2) by auto
  from Cons.IH [OF this] cell show ?case
    by (simp add: algebra_simps power_add)
qed simp

lemma propagate_val:
  "length (propagate pr carry idx) = length pr \<and>
   (\<exists>c. limb_val pr + unat carry * 2 ^ (64 * idx)
     = limb_val (propagate pr carry idx) + c * 2 ^ (64 * length pr))"
  if "idx \<le> length pr"
  using that
proof (induction pr carry idx rule: propagate.induct)
  case (1 pr carry idx)
  show ?case
  proof (cases "carry \<noteq> 0 \<and> idx < length pr")
    case True
    let ?s = "ucast (pr ! idx) + ucast carry :: u128"
    let ?p1 = "pr[idx := ucast ?s]" and ?c1 = "ucast (drop_bit 64 ?s) :: u64"
    have eq: "propagate pr carry idx = propagate ?p1 ?c1 (Suc idx)"
      using True by (subst propagate.simps) (simp add: Let_def)
    have "mul_cell 0 0 idx (pr, carry) = (?p1, ?c1)" by (simp add: mul_cell_def Let_def)
    from mul_cell_val(1) [OF _ this] True
    have "limb_val ?p1 + unat ?c1 * 2 ^ (64 * Suc idx) = limb_val pr + unat carry * 2 ^ (64 * idx)"
      by simp
    with "1.IH" [OF True refl] True eq show ?thesis by simp
  next
    case False
    then have "propagate pr carry idx = pr" by (auto simp: propagate.simps [of pr carry idx])
    moreover have "\<exists>c. unat carry * 2 ^ (64 * idx) = c * 2 ^ (64 * length pr)"
      using False "1.prems" by (cases "carry = 0") auto
    ultimately show ?thesis by auto
  qed
qed

lemma mul_rows_val:
  "i + length hs + length ws \<le> Suc (length pr) \<Longrightarrow> hs \<noteq> [] \<longrightarrow> ws \<noteq> [] \<Longrightarrow>
   length (mul_rows hs ws i pr) = length pr \<and>
   (\<exists>c. limb_val pr + limb_val hs * limb_val ws * 2 ^ (64 * i)
     = limb_val (mul_rows hs ws i pr) + c * 2 ^ (64 * length pr))"
proof (induction hs arbitrary: i pr)
  case (Cons h hs)
  obtain p1 c1 where r: "mul_row h ws i (pr, 0) = (p1, c1)" by fastforce
  let ?L = "length pr" and ?p2 = "propagate p1 c1 (i + length ws)"
  from mul_row_val [OF _ r] Cons.prems
  have row: "limb_val p1 + unat c1 * 2 ^ (64 * (i + length ws))
      = limb_val pr + unat h * limb_val ws * 2 ^ (64 * i)" "length p1 = ?L"
    by auto
  obtain c2 where p2: "length ?p2 = ?L"
      "limb_val p1 + unat c1 * 2 ^ (64 * (i + length ws)) = limb_val ?p2 + c2 * 2 ^ (64 * ?L)"
    using propagate_val [of "i + length ws" p1 c1] row(2) Cons.prems by auto
  have eq: "mul_rows (h # hs) ws i pr = mul_rows hs ws (Suc i) ?p2" using r by simp
  obtain c3 where rest: "length (mul_rows hs ws (Suc i) ?p2) = ?L"
      "limb_val ?p2 + limb_val hs * limb_val ws * 2 ^ (64 * Suc i)
        = limb_val (mul_rows hs ws (Suc i) ?p2) + c3 * 2 ^ (64 * ?L)"
    using Cons.IH [of "Suc i" ?p2] Cons.prems p2(1) by auto
  have "limb_val pr + limb_val (h # hs) * limb_val ws * 2 ^ (64 * i)
      = limb_val pr + unat h * limb_val ws * 2 ^ (64 * i) + limb_val hs * limb_val ws * 2 ^ (64 * Suc i)"
    by (simp add: algebra_simps power_add)
  also have "\<dots> = limb_val (mul_rows hs ws (Suc i) ?p2) + (c2 + c3) * 2 ^ (64 * ?L)"
    using row(1) p2(2) rest(2) by (simp only: distrib_right)
  finally show ?case using rest(1) eq by metis
qed simp

lemma rev_window:
  assumes "k \<le> 3" "length xs = 32"
  shows "rev (take 8 (drop ((3 - k) * 8) (rev xs))) = take 8 (drop (8 * k) xs)"
proof (rule nth_equalityI)
  show len: "length (rev (take 8 (drop ((3 - k) * 8) (rev xs)))) = length (take 8 (drop (8 * k) xs))"
    using assms by simp
  fix j
  assume "j < length (rev (take 8 (drop ((3 - k) * 8) (rev xs))))"
  then have "j < 8" by simp
  moreover from this assms have "31 - ((3 - k) * 8 + (7 - j)) = 8 * k + j" by simp
  ultimately show "rev (take 8 (drop ((3 - k) * 8) (rev xs))) ! j = take 8 (drop (8 * k) xs) ! j"
    using assms by (simp add: rev_nth)
qed

lemma id_limbs_val: "limb_val (id_limbs i) = unat (id_word i)"
proof -
  let ?bs = "to_le_bytes (id_word i)"
  have len: "length ?bs = 32" by simp
  have limb: "unat (id_limb i k) = le_val (take 8 (drop (8 * k) ?bs))" if "k \<le> 3" for k
  proof -
    have "rev (take 8 (drop ((3 - k) * 8) (rev ?bs))) = take 8 (drop (8 * k) ?bs)"
      using that len by (rule rev_window)
    moreover have "le_val (take 8 (drop (8 * k) ?bs)) < 2 ^ 64"
      using le_val_bound [of "take 8 (drop (8 * k) ?bs)"] that len by simp
    ultimately show ?thesis
      by (simp add: id_limb_def as_bytes_def to_be_bytes_def from_be_bytes_def from_le_bytes_def
          unat_of_nat)
  qed
  have split: "?bs = take 8 ?bs @ take 8 (drop 8 ?bs) @ take 8 (drop 16 ?bs) @ take 8 (drop 24 ?bs)"
    by (simp flip: append_assoc take_add)
  have "le_val ?bs = limb_val (id_limbs i)"
    by (subst split) (simp add: id_limbs_def limb [of 0] limb [of "Suc 0"] limb [of 2] limb [of 3]
        le_val_append)
  then show ?thesis using le_val_to_le_bytes_256 [of "id_word i"] by simp
qed

lemma work_limbs_val: "limb_val (work_limbs w) = unat w"
  using split_u128 [of w] by (simp add: work_limbs_def)

lemma meets_target_iff:
  "meets_target i w = (unat (id_word i) * max 1 (unat w) < 2 ^ 256)"
proof -
  let ?w = "max w 1" and ?z = "replicate 6 (0 :: u64)"
  let ?pr = "mul_rows (id_limbs i) (work_limbs ?w) 0 ?z"
  have z: "limb_val ?z = 0" by (rule limb_val_zeros)
  have "length (id_limbs i) = 4" "length (work_limbs ?w) = 2"
    by (simp_all add: id_limbs_def work_limbs_def)
  then have "length ?pr = 6 \<and> (\<exists>c. limb_val ?z + limb_val (id_limbs i) * limb_val (work_limbs ?w)
      * 2 ^ (64 * 0) = limb_val ?pr + c * 2 ^ (64 * 6))"
    using mul_rows_val [of 0 "id_limbs i" "work_limbs ?w" ?z] by fastforce
  then obtain c where len: "length ?pr = 6"
    and v: "unat (id_word i) * unat ?w = limb_val ?pr + c * 2 ^ 384"
    by (auto simp: id_limbs_val work_limbs_val z)
  have "unat (id_word i) < 2 ^ 256" using unsigned_less [of "id_word i", where 'a = nat] by simp
  moreover have "unat ?w < 2 ^ 128" using unsigned_less [of ?w, where 'a = nat] by simp
  ultimately have "unat (id_word i) * unat ?w < 2 ^ 256 * 2 ^ 128"
    by (rule mult_strict_mono) auto
  then have "c = 0" using v by (cases c) auto
  with v have val: "unat (id_word i) * unat ?w = limb_val ?pr" by simp
  define lo hi where "lo = take 4 ?pr" and "hi = drop 4 ?pr"
  then have p: "?pr = lo @ hi" "length lo = 4" "length hi = 2"
    using len by simp_all
  from p(3) obtain a b where hi: "hi = [a, b]"
    by (metis (no_types) length_0_conv length_Suc_conv numeral_2_eq_2)
  have "limb_val lo < 2 ^ 256" using limb_val_bound [of lo] p(2) by simp
  then have "limb_val ?pr < 2 ^ 256 \<longleftrightarrow> limb_val hi = 0"
    unfolding p(1) limb_val_append p(2) by auto
  also have "limb_val hi = 0 \<longleftrightarrow> ?pr ! 4 = 0 \<and> ?pr ! 5 = 0"
    unfolding p(1) hi using p(2) by (simp add: nth_append unat_eq_zero)
  finally have "meets_target i w \<longleftrightarrow> limb_val ?pr < 2 ^ 256"
    by (simp add: meets_target_def Let_def)
  moreover have "unat ?w = max 1 (unat w)" by (simp add: max_def word_le_nat_alt)
  ultimately show ?thesis using val by metis
qed

text \<open>
  C28: the limb arithmetic of \<open>meets_target\<close> decides exactly \<open>H * max 1 work < 2^256\<close>, with
  \<open>H\<close> the id read as a big-endian integer: no carry is lost and no limb overflows.
\<close>

theorem meets_target_exact:
  "meets_target i w = (unat (id_word i) * max 1 (unat w) < 2 ^ 256)"
  by (rule meets_target_iff)

section \<open>Mining\<close>

text \<open>
  \<open>(start..=u64::MAX).map(with_nonce).find(meets_target)\<close>.  \<open>mine\<close> unwraps the result:
  its \<open>None\<close> is the panic of an exhausted nonce range.
\<close>

function mine_from :: "digest \<Rightarrow> block \<Rightarrow> u64 \<Rightarrow> block option" where
  "mine_from H t start =
     (if meets_target (block_ident H (with_nonce t start)) (work t) then Some (with_nonce t start)
      else if start = - 1 then None
      else mine_from H t (start + 1))"
  by pat_completeness auto
termination
proof (relation "measure (\<lambda>(H, t, s). 2 ^ 64 - unat (s :: u64))", goal_cases)
  case (2 H t s)
  then have "unat (s + 1) = Suc (unat s)" by (simp add: unat_plus_one)
  then show ?case using unsigned_less [of "s + 1", where 'a = nat] by simp
qed simp

declare mine_from.simps [simp del]

definition mine :: "digest \<Rightarrow> block \<Rightarrow> block option" where
  "mine H t = mine_from H t 0"

lemma mine_from_search:
  "case mine_from H t start of
     Some b \<Rightarrow> (\<exists>n \<ge> start. b = with_nonce t n \<and> is_mined H b \<and>
        (\<nexists>m. start \<le> m \<and> m < n \<and> is_mined H (with_nonce t m)))
   | None \<Rightarrow> (\<nexists>n. start \<le> n \<and> is_mined H (with_nonce t n))"
proof (induction H t start rule: mine_from.induct)
  case (1 H t s)
  have mined: "is_mined H (with_nonce t n) = meets_target (block_ident H (with_nonce t n)) (work t)" for n
    by (simp add: is_mined_def with_nonce_def)
  show ?case
  proof (cases "is_mined H (with_nonce t s)")
    case True
    then have "mine_from H t s = Some (with_nonce t s)"
      by (simp add: mine_from.simps [of H t s] mined)
    with True show ?thesis by auto
  next
    case miss: False
    show ?thesis
    proof (cases "s = - 1")
      case True
      with miss have "mine_from H t s = None"
        by (simp add: mine_from.simps [of H t "- 1"] mined)
      with True miss show ?thesis by (auto simp: word_order.extremum_unique)
    next
      case False
      with miss have eq: "mine_from H t s = mine_from H t (s + 1)"
        by (simp add: mine_from.simps [of H t s] mined)
      have next_ge: "s \<le> n \<longleftrightarrow> n = s \<or> s + 1 \<le> n" for n
        using unat_plus_one [OF False] by (auto simp: word_le_nat_alt word_unat_eq_iff)
      show ?thesis
        using "1.IH" miss False mined unfolding eq
        by (auto simp: next_ge split: option.splits)
    qed
  qed
qed

text \<open>
  The nonce search returns the template with the least nonce from \<open>start\<close> on that meets
  the target, and fails only when there is none.
\<close>

lemma mine_from_least:
  "case mine_from H t start of
     Some b \<Rightarrow> (\<exists>n \<ge> start. b = with_nonce t n \<and> is_mined H b \<and>
        (\<nexists>m. start \<le> m \<and> m < n \<and> is_mined H (with_nonce t m)))
   | None \<Rightarrow> (\<nexists>n. start \<le> n \<and> is_mined H (with_nonce t n))"
  by (rule mine_from_search)

end
