(* ===== verification/Difficulty.thy ===== *)
theory Difficulty
  imports Prelude
begin

text \<open>
  \<open>crates/kovanica-dag/src/difficulty.rs\<close>: the retargeting controller.  Work is \<open>u128\<close> with
  the source's saturating operations; \<open>window\<close> is a 64-bit \<open>usize\<close>, whose \<open>window + 1\<close>
  wraps as in a release build.  \<open>None\<close> of \<open>next_work\<close> is the panic of \<open>clamp\<close> on crossed
  bounds (or of a division by zero), which the first theorem excludes.
\<close>

record timed_work =
  tw_timestamp_ms :: u64
  tw_work :: u128

record retarget =
  target_interval_ms :: u64
  window :: u64
  max_factor :: u32
  min_work :: u128

definition retarget_default :: retarget where
  "retarget_default =
     \<lparr>target_interval_ms = 1000, window = 20, max_factor = 4, min_work = 1\<rparr>"

text \<open>\<open>Ord::clamp\<close>, which panics when its bounds are crossed.\<close>

definition clamp :: "u128 \<Rightarrow> u128 \<Rightarrow> u128 \<Rightarrow> u128 option" where
  "clamp x lo hi = (if lo \<le> hi then Some (if x < lo then lo else if hi < x then hi else x)
                    else None)"

definition checked_div :: "u128 \<Rightarrow> u128 \<Rightarrow> u128 option" where
  "checked_div a b = (if b = 0 then None else Some (a div b))"

text \<open>The most recent \<open>window + 1\<close> samples.\<close>

definition recent_samples :: "retarget \<Rightarrow> timed_work list \<Rightarrow> timed_work list" where
  "recent_samples r recent =
     (let w = unat (window r + 1)
      in if w \<le> length recent \<and> 0 < length recent - w then drop (length recent - w) recent
         else recent)"

definition intervals_of :: "timed_work list \<Rightarrow> u64" where
  "intervals_of ss = word_of_nat (length ss - 1)"

definition expected_span :: "retarget \<Rightarrow> timed_work list \<Rightarrow> u64" where
  "expected_span r ss = max (saturating_mul (intervals_of ss) (target_interval_ms r)) 1"

definition actual_span :: "timed_work list \<Rightarrow> u64" where
  "actual_span ss =
     max (saturating_sub (tw_timestamp_ms (last ss)) (tw_timestamp_ms (hd ss))) 1"

definition work_sum :: "timed_work list \<Rightarrow> u128" where
  "work_sum ss = foldl (\<lambda>acc s. saturating_add acc (tw_work s)) 0 ss"

definition next_work :: "retarget \<Rightarrow> timed_work list \<Rightarrow> u128 option" where
  "next_work r recent =
     (let ss = recent_samples r recent
      in if length ss < 2 then Some (min_work r)
         else do {
           avg \<leftarrow> checked_div (work_sum ss) (word_of_nat (length ss));
           scaled \<leftarrow> checked_div (saturating_mul avg (ucast (expected_span r ss)))
                       (ucast (actual_span ss));
           let factor = (ucast (max (max_factor r) 1) :: u128);
           q \<leftarrow> checked_div avg factor;
           let lower = max q (min_work r);
           let upper = max (saturating_mul avg factor) (min_work r);
           c \<leftarrow> clamp scaled lower upper;
           Some (max c (min_work r))
         })"

section \<open>Lemmas\<close>

lemma recent_samples_suffix: "\<exists>pre. recent = pre @ recent_samples r recent"
  by (auto simp: recent_samples_def Let_def intro: exI [of _ "[]"]
      exI [of _ "take (length recent - unat (window r + 1)) recent"])

lemma length_recent_samples:
  assumes "window r \<noteq> - 1"
  shows "length (recent_samples r recent) = min (length recent) (Suc (unat (window r)))"
  using unat_plus_one [OF assms] by (auto simp: recent_samples_def Let_def)

lemma length_recent_samples_le: "length (recent_samples r recent) \<le> length recent"
  by (simp add: recent_samples_def Let_def)

lemma unat_ucast_64_128: "unat (ucast (x :: u64) :: u128) = unat x"
  using unsigned_less [of x, where 'a = nat]
  by (simp add: unsigned_ucast_eq take_bit_eq_mod)

lemma unat_ucast_32_128: "unat (ucast (x :: u32) :: u128) = unat x"
  using unsigned_less [of x, where 'a = nat]
  by (simp add: unsigned_ucast_eq take_bit_eq_mod)

lemma unat_max: "unat (max a b) = max (unat a) (unat (b :: 'a::len word))"
  by (simp add: max_def word_le_nat_alt)

lemma unat_work_sum:
  "unat (work_sum ss) = min (sum_list (map (unat \<circ> tw_work) ss)) (2 ^ 128 - 1)"
proof -
  have "unat (foldl (\<lambda>acc s. saturating_add acc (tw_work s)) a ss)
      = min (unat a + sum_list (map (unat \<circ> tw_work) ss)) (2 ^ 128 - 1)" for a
  proof (induction ss arbitrary: a)
    case Nil
    then show ?case using unsigned_less [of a, where 'a = nat] by simp
  next
    case (Cons s ss)
    then show ?case by (simp add: unat_saturating_add)
  qed
  from this [of 0] show ?thesis by (simp add: work_sum_def)
qed

text \<open>The controller over the naturals: no width, no wrap-around, the caps written out.\<close>

definition average_work :: "timed_work list \<Rightarrow> nat" where
  "average_work ss = min (sum_list (map (unat \<circ> tw_work) ss)) (2 ^ 128 - 1) div length ss"

definition expected_ms :: "retarget \<Rightarrow> timed_work list \<Rightarrow> nat" where
  "expected_ms r ss = max 1 (min ((length ss - 1) * unat (target_interval_ms r)) (2 ^ 64 - 1))"

definition actual_ms :: "timed_work list \<Rightarrow> nat" where
  "actual_ms ss = max 1 (unat (tw_timestamp_ms (last ss)) - unat (tw_timestamp_ms (hd ss)))"

definition retarget_spec :: "retarget \<Rightarrow> timed_work list \<Rightarrow> nat" where
  "retarget_spec r ss =
     (let avg = average_work ss; f = max 1 (unat (max_factor r));
          scaled = min (avg * expected_ms r ss) (2 ^ 128 - 1) div actual_ms ss
      in max (unat (min_work r)) (min (min (avg * f) (2 ^ 128 - 1)) (max (avg div f) scaled)))"

lemma unat_expected_span:
  assumes "0 < length ss" "length ss < 2 ^ 64"
  shows "unat (expected_span r ss) = expected_ms r ss"
proof -
  have "unat (intervals_of ss) = length ss - 1"
    using assms by (simp add: intervals_of_def unat_of_nat)
  then show ?thesis
    by (simp add: expected_span_def expected_ms_def unat_max unat_saturating_mul)
qed

lemma unat_actual_span: "unat (actual_span ss) = actual_ms ss"
  by (simp add: actual_span_def actual_ms_def unat_max unat_saturating_sub)

lemma checked_div_Some: "unat b \<noteq> 0 \<Longrightarrow> checked_div a b = Some (a div b)"
  by (auto simp: checked_div_def)

lemma clamp_Some: "lo \<le> hi \<Longrightarrow> \<exists>c. clamp x lo hi = Some c \<and> unat c = max (unat lo) (min (unat hi) (unat x))"
  by (auto simp: clamp_def word_less_nat_alt word_le_nat_alt)

lemma clamp_nat:
  "q \<le> (h :: nat) \<Longrightarrow> max (max (max q m) (min (max h m) s)) m = max m (min h (max q s))"
  by (auto simp: max_def min_def)

lemma clamp_nat_bounds:
  "q \<le> (h :: nat) \<Longrightarrow> h \<le> b \<Longrightarrow>
     q \<le> max m (min h (max q s)) \<and> max m (min h (max q s)) \<le> max m b"
  by (auto simp: max_def min_def)

lemma average_work_le: "average_work ss \<le> 2 ^ 128 - 1"
  unfolding average_work_def by (rule order.trans [OF div_le_dividend]) simp

lemma average_div_le:
  assumes "1 \<le> f"
  shows "average_work ss div f \<le> min (average_work ss * f) (2 ^ 128 - 1)"
proof -
  have "average_work ss div f \<le> average_work ss" by (rule div_le_dividend)
  moreover have "average_work ss \<le> average_work ss * f" using assms by simp
  ultimately show ?thesis using average_work_le [of ss] by linarith
qed

lemma next_work_eq_spec:
  assumes "2 \<le> length (recent_samples r recent)" "length recent < 2 ^ 64"
  shows "\<exists>w. next_work r recent = Some w \<and> unat w = retarget_spec r (recent_samples r recent)"
proof -
  let ?ss = "recent_samples r recent"
  let ?f = "ucast (max (max_factor r) 1) :: u128"
  let ?avg = "work_sum ?ss div word_of_nat (length ?ss)"
  let ?sc = "saturating_mul ?avg (ucast (expected_span r ?ss)) div ucast (actual_span ?ss)"
  let ?lo = "max (?avg div ?f) (min_work r)" and ?hi = "max (saturating_mul ?avg ?f) (min_work r)"
  have len: "length ?ss < 2 ^ 64" using assms(2) length_recent_samples_le [of r recent] by linarith
  have ulen: "unat (word_of_nat (length ?ss) :: u128) = length ?ss"
    using len by (simp add: unat_of_nat)
  have f: "unat ?f = max 1 (unat (max_factor r))" by (simp add: unat_ucast_32_128 unat_max max.commute)
  have act: "unat (ucast (actual_span ?ss) :: u128) = actual_ms ?ss"
    by (simp add: unat_ucast_64_128 unat_actual_span)
  have avg: "unat ?avg = average_work ?ss"
    by (simp add: unat_div_distrib unat_work_sum ulen average_work_def)
  have "unat (expected_span r ?ss) = expected_ms r ?ss"
    using assms(1) len by (intro unat_expected_span) auto
  then have "unat (saturating_mul a (ucast (expected_span r ?ss)) div ucast (actual_span ?ss))
      = min (unat a * expected_ms r ?ss) (2 ^ 128 - 1) div actual_ms ?ss" for a :: u128
    by (simp add: unat_div_distrib unat_saturating_mul unat_ucast_64_128 unat_actual_span)
  from this [of ?avg]
  have sc: "unat ?sc = min (average_work ?ss * expected_ms r ?ss) (2 ^ 128 - 1) div actual_ms ?ss"
    unfolding avg .
  have "unat (max (a div ?f) (min_work r)) = max (unat a div unat ?f) (unat (min_work r))"
    for a :: u128
    by (simp only: unat_max unat_div_distrib)
  from this [of ?avg]
  have lo: "unat ?lo = max (average_work ?ss div unat ?f) (unat (min_work r))" unfolding avg .
  have "unat (max (saturating_mul a ?f) (min_work r))
      = max (min (unat a * unat ?f) (2 ^ 128 - 1)) (unat (min_work r))" for a :: u128
    by (simp add: unat_max unat_saturating_mul)
  from this [of ?avg]
  have hi: "unat ?hi = max (min (average_work ?ss * unat ?f) (2 ^ 128 - 1)) (unat (min_work r))"
    unfolding avg .
  have div_le: "average_work ?ss div unat ?f \<le> min (average_work ?ss * unat ?f) (2 ^ 128 - 1)"
    using f by (intro average_div_le) simp
  then have "?lo \<le> ?hi" unfolding word_le_nat_alt lo hi by (rule max.mono) simp
  then obtain c where c: "clamp ?sc ?lo ?hi = Some c" "unat c = max (unat ?lo) (min (unat ?hi) (unat ?sc))"
    using clamp_Some by blast
  have nz: "unat (word_of_nat (length ?ss) :: u128) \<noteq> 0" "unat ?f \<noteq> 0"
      "unat (ucast (actual_span ?ss) :: u128) \<noteq> 0"
    unfolding ulen f act actual_ms_def using assms(1) by linarith+
  have d: "checked_div (work_sum ?ss) (word_of_nat (length ?ss)) = Some ?avg"
      "checked_div (saturating_mul ?avg (ucast (expected_span r ?ss))) (ucast (actual_span ?ss))
        = Some ?sc"
      "checked_div ?avg ?f = Some (?avg div ?f)"
    by (rule checked_div_Some, use nz in blast)+
  have "next_work r recent = Some (max c (min_work r))"
    unfolding next_work_def Let_def d bind.bind_lunit c(1)
    using assms(1) by simp
  moreover have "unat (max c (min_work r)) = retarget_spec r ?ss"
    unfolding unat_max [of c] c(2) lo hi sc retarget_spec_def Let_def f [symmetric]
    by (rule clamp_nat [OF div_le])
  ultimately show ?thesis by blast
qed

section \<open>What the controller guarantees\<close>

text \<open>
  \<open>next_work\<close> never panics (no division by zero, the clamp bounds never cross, and this
  for every policy and every sample list that fits in memory) and never goes under its floor.
\<close>

lemma next_work_total:
  assumes "length recent < 2 ^ 64"
  shows "\<exists>w. next_work r recent = Some w \<and> min_work r \<le> w"
proof (cases "length (recent_samples r recent) < 2")
  case True
  then show ?thesis by (simp add: next_work_def Let_def)
next
  case False
  then have "2 \<le> length (recent_samples r recent)" by simp
  from next_work_eq_spec [OF this assms]
  obtain w where w: "next_work r recent = Some w" "unat w = retarget_spec r (recent_samples r recent)"
    by blast
  have "unat (min_work r) \<le> unat w" unfolding w(2) retarget_spec_def Let_def by (rule max.cobounded1)
  with w(1) show ?thesis by (simp add: word_le_nat_alt)
qed

lemma next_work_total_example:
  "\<exists>w. next_work retarget_default [] = Some w \<and> min_work retarget_default \<le> w"
  by (rule next_work_total) simp

text \<open>
  C40: the fixed-width computation is the controller over the naturals: average work scaled by
  expected over actual time, clamped to a factor of the average and floored, with the
  saturation caps as its only trace of the machine widths.
\<close>

theorem next_work_refines_spec:
  assumes "length recent < 2 ^ 64" "2 \<le> length (recent_samples r recent)"
  shows "map_option unat (next_work r recent) = Some (retarget_spec r (recent_samples r recent))"
  using next_work_eq_spec [OF assms(2,1)] by auto

definition steady_samples :: "timed_work list" where
  "steady_samples =
     [\<lparr>tw_timestamp_ms = 0, tw_work = 1000\<rparr>, \<lparr>tw_timestamp_ms = 500, tw_work = 1000\<rparr>,
      \<lparr>tw_timestamp_ms = 1000, tw_work = 1000\<rparr>]"

lemma recent_steady: "recent_samples retarget_default steady_samples = steady_samples"
  by (simp add: recent_samples_def steady_samples_def retarget_default_def Let_def)

theorem next_work_refines_spec_witness:
  "map_option unat (next_work retarget_default steady_samples) = Some 2000"
proof -
  have "map_option unat (next_work retarget_default steady_samples)
      = Some (retarget_spec retarget_default (recent_samples retarget_default steady_samples))"
    by (rule next_work_refines_spec) (simp_all add: recent_steady, simp_all add: steady_samples_def)
  then show ?thesis
    by (simp add: recent_steady) (simp add: retarget_spec_def average_work_def expected_ms_def
      actual_ms_def steady_samples_def retarget_default_def Let_def)
qed

text \<open>
  One retarget moves the work by at most the policy's factor, up or down, floor and
  \<open>u128\<close> cap aside.
\<close>

lemma next_work_clamped:
  assumes "length recent < 2 ^ 64" "2 \<le> length (recent_samples r recent)"
    and "next_work r recent = Some w"
  shows "average_work (recent_samples r recent) div max 1 (unat (max_factor r)) \<le> unat w
    \<and> unat w \<le> max (unat (min_work r))
         (average_work (recent_samples r recent) * max 1 (unat (max_factor r)))"
proof -
  let ?a = "average_work (recent_samples r recent)" and ?f = "max 1 (unat (max_factor r))"
  have u: "unat w = retarget_spec r (recent_samples r recent)"
    using next_work_eq_spec [OF assms(2,1)] assms(3) by auto
  show ?thesis unfolding u retarget_spec_def Let_def
    by (intro clamp_nat_bounds average_div_le) simp_all
qed

lemma next_work_clamped_example:
  "\<exists>w. next_work retarget_default steady_samples = Some w \<and>
     average_work steady_samples div 4 \<le> unat w \<and> unat w \<le> max 1 (average_work steady_samples * 4)"
proof -
  obtain w where w: "next_work retarget_default steady_samples = Some w"
    using next_work_total [of steady_samples retarget_default]
    by (auto simp: steady_samples_def)
  have "average_work (recent_samples retarget_default steady_samples)
        div max 1 (unat (max_factor retarget_default)) \<le> unat w
    \<and> unat w \<le> max (unat (min_work retarget_default))
         (average_work (recent_samples retarget_default steady_samples)
          * max 1 (unat (max_factor retarget_default)))"
    using w by (intro next_work_clamped)
      (simp_all add: recent_steady, simp_all add: steady_samples_def)
  with w show ?thesis by (simp add: recent_steady) (simp add: retarget_default_def)
qed

lemma retarget_spec_antimono:
  assumes "length ss = length ts" "average_work ss = average_work ts"
    and "actual_ms ss \<le> actual_ms ts"
  shows "retarget_spec r ts \<le> retarget_spec r ss"
proof -
  have "expected_ms r ss = expected_ms r ts" using assms(1) by (simp add: expected_ms_def)
  moreover have "0 < actual_ms ss" by (simp add: actual_ms_def)
  ultimately have "min (average_work ts * expected_ms r ts) (2 ^ 128 - 1) div actual_ms ts
      \<le> min (average_work ss * expected_ms r ss) (2 ^ 128 - 1) div actual_ms ss"
    using assms by (simp add: div_le_mono2)
  then show ?thesis using assms(2)
    unfolding retarget_spec_def Let_def by (simp only:) (intro max.mono min.mono order.refl)
qed

definition hasty_samples :: "timed_work list" where
  "hasty_samples =
     [\<lparr>tw_timestamp_ms = 0, tw_work = 1000\<rparr>, \<lparr>tw_timestamp_ms = 100, tw_work = 1000\<rparr>,
      \<lparr>tw_timestamp_ms = 400, tw_work = 1000\<rparr>]"

lemma hasty_values:
  "average_work steady_samples = 1000" "actual_ms steady_samples = 1000"
  "average_work hasty_samples = 1000" "actual_ms hasty_samples = 400"
  "expected_ms retarget_default hasty_samples = 2000"
  by (simp_all add: steady_samples_def hasty_samples_def average_work_def actual_ms_def
      expected_ms_def retarget_default_def)

lemma recent_hasty: "recent_samples retarget_default hasty_samples = hasty_samples"
  by (simp add: recent_samples_def hasty_samples_def retarget_default_def Let_def)

text \<open>
  with as many samples and the same average work in its window, the controller answers a
  shorter actual timespan with at least as much work: faster blocks never make mining easier.
\<close>

lemma next_work_antimono:
  assumes "length slow < 2 ^ 64" "length fast < 2 ^ 64"
    and "2 \<le> length (recent_samples r slow)"
    and "length (recent_samples r fast) = length (recent_samples r slow)"
    and "average_work (recent_samples r fast) = average_work (recent_samples r slow)"
    and "actual_ms (recent_samples r fast) \<le> actual_ms (recent_samples r slow)"
  shows "\<exists>w v. next_work r slow = Some w \<and> next_work r fast = Some v \<and> w \<le> v"
proof -
  have "2 \<le> length (recent_samples r fast)" using assms(3,4) by simp
  from next_work_eq_spec [OF this assms(2)] next_work_eq_spec [OF assms(3,1)]
  obtain w v where "next_work r slow = Some w" "unat w = retarget_spec r (recent_samples r slow)"
      "next_work r fast = Some v" "unat v = retarget_spec r (recent_samples r fast)"
    by blast
  then show ?thesis
    using retarget_spec_antimono [OF assms(4-6), of r] by (auto simp: word_le_nat_alt)
qed

lemma next_work_antimono_example:
  "\<exists>w v. next_work retarget_default steady_samples = Some w
     \<and> next_work retarget_default hasty_samples = Some v \<and> w \<le> v"
  by (rule next_work_antimono)
    (simp_all only: recent_steady recent_hasty hasty_values,
      simp_all add: steady_samples_def hasty_samples_def)

end
