(* ===== verification/Reach.thy ===== *)
theory Reach
  imports Block
begin

text \<open>
  \<open>crates/kovanica-dag/src/reachability.rs\<close>, the oracle and its incremental maintenance.  The
  \<open>HashMap\<close>s are finite maps, a \<open>u64\<close> is a natural number whose every addition and
  subtraction is checked (\<open>chk_add\<close>, \<open>chk_sub\<close>), and \<open>None\<close> is a panic: an overflow, a
  missing key behind an index or \<open>expect\<close>, or a loop that never ends.
\<close>

section \<open>State\<close>

record reach =
  intervals :: "(block_id, nat \<times> nat) fmap"
  fcs :: "(block_id, block_id list) fmap"
  tree_children :: "(block_id, block_id list) fmap"
  tree_parent :: "(block_id, block_id) fmap"
  subtree_size :: "(block_id, nat) fmap"
  next_free :: "(block_id, nat) fmap"

definition ROOT_CAPACITY :: nat where
  "ROOT_CAPACITY = u64_max div 2"

definition reach_empty :: reach where
  "reach_empty =
     \<lparr>intervals = fmempty, fcs = fmempty, tree_children = fmempty, tree_parent = fmempty,
      subtree_size = fmempty, next_free = fmempty\<rparr>"

text \<open>\<open>map.entry(k).or_default()\<close> on a map of vectors.\<close>

definition or_default :: "(block_id, 'a list) fmap \<Rightarrow> block_id \<Rightarrow> 'a list" where
  "or_default m k = (case fmlookup m k of Some xs \<Rightarrow> xs | None \<Rightarrow> [])"

text \<open>
  \<open>slice::partition_point\<close>: the binary search of the standard library, over a predicate that
  may panic.
\<close>

function partition_loop :: "('a \<Rightarrow> bool option) \<Rightarrow> 'a list \<Rightarrow> nat \<Rightarrow> nat \<Rightarrow> nat option" where
  "partition_loop p xs base sz =
     (if sz \<le> 1 then Some base
      else do {
        let half = sz div 2;
        b \<leftarrow> p (xs ! (base + half));
        partition_loop p xs (if b then base + half else base) (sz - half)
      })"
  by pat_completeness auto
termination by (relation "measure (\<lambda>(p, xs, base, sz). sz)") auto

declare partition_loop.simps [simp del]

definition partition_point :: "('a \<Rightarrow> bool option) \<Rightarrow> 'a list \<Rightarrow> nat option" where
  "partition_point p xs =
     (if xs = [] then Some 0
      else do {
        base \<leftarrow> partition_loop p xs 0 (length xs);
        b \<leftarrow> p (xs ! base);
        Some (if b then base + 1 else base)
      })"

text \<open>\<open>Vec::insert\<close>, for a position at most the length.\<close>

definition insert_at :: "nat \<Rightarrow> 'a \<Rightarrow> 'a list \<Rightarrow> 'a list" where
  "insert_at i x xs = take i xs @ x # drop i xs"

section \<open>Interval layout\<close>

text \<open>The \<open>for child in children\<close> loop of \<open>relayout_subtree\<close>; the head of the list is the top
  of the stack.\<close>

fun layout_children ::
    "(block_id, nat) fmap \<Rightarrow> nat \<Rightarrow> nat \<Rightarrow> block_id list \<Rightarrow> nat \<Rightarrow> (block_id \<times> nat \<times> nat) list
     \<Rightarrow> (nat \<times> (block_id \<times> nat \<times> nat) list) option" where
  "layout_children sizes slack tot [] cursor stack = Some (cursor, stack)"
| "layout_children sizes slack tot (child # rest) cursor stack = do {
     sz \<leftarrow> fmlookup sizes child;
     let extra = (slack * sz div tot) mod 2 ^ 64;
     span \<leftarrow> chk_add sz extra;
     span1 \<leftarrow> chk_sub span 1;
     c_hi \<leftarrow> chk_add cursor span1;
     cursor' \<leftarrow> chk_add c_hi 1;
     layout_children sizes slack tot rest cursor' ((child, cursor, c_hi) # stack)
   }"

text \<open>One iteration of \<open>while let Some((node, lo, hi)) = stack.pop()\<close>.\<close>

definition relayout_step ::
    "block_id \<Rightarrow> nat \<Rightarrow> nat \<Rightarrow> (block_id \<times> nat \<times> nat) list \<Rightarrow> reach
     \<Rightarrow> ((block_id \<times> nat \<times> nat) list \<times> reach) option" where
  "relayout_step node lo hi stack r = do {
     let r = r\<lparr>intervals := fmupd node (lo, hi) (intervals r)\<rparr>;
     sz \<leftarrow> fmlookup (subtree_size r) node;
     tot \<leftarrow> chk_sub sz 1;
     lo1 \<leftarrow> chk_add lo 1;
     if tot = 0 then Some (stack, r\<lparr>next_free := fmupd node lo1 (next_free r)\<rparr>)
     else do {
       region \<leftarrow> chk_sub hi lo;
       slack \<leftarrow> chk_sub region tot;
       children \<leftarrow> fmlookup (tree_children r) node;
       (cursor, stack') \<leftarrow> layout_children (subtree_size r) slack tot children lo1 stack;
       Some (stack', r\<lparr>next_free := fmupd node cursor (next_free r)\<rparr>)
     }
   }"

partial_function (option) relayout :: "(block_id \<times> nat \<times> nat) list \<Rightarrow> reach \<Rightarrow> reach option" where
  "relayout stack r =
     (case stack of
        [] \<Rightarrow> Some r
      | (node, lo, hi) # rest \<Rightarrow> do {
          (stack', r') \<leftarrow> relayout_step node lo hi rest r;
          relayout stack' r'
        })"

definition relayout_subtree :: "reach \<Rightarrow> block_id \<Rightarrow> nat \<Rightarrow> nat \<Rightarrow> reach option" where
  "relayout_subtree r root lo hi = relayout [(root, lo, hi)] r"

text \<open>The \<open>loop\<close> of \<open>reindex\<close>, from the current \<open>anchor\<close>.\<close>

partial_function (option) reindex :: "block_id \<Rightarrow> reach \<Rightarrow> reach option" where
  "reindex anchor r = do {
     (lo, hi) \<leftarrow> fmlookup (intervals r) anchor;
     d \<leftarrow> chk_sub hi lo;
     capacity \<leftarrow> chk_add d 1;
     need \<leftarrow> fmlookup (subtree_size r) anchor;
     (case fmlookup (tree_parent r) anchor of
        None \<Rightarrow> relayout_subtree r anchor lo hi
      | Some up \<Rightarrow>
          if sat_mul need 2 \<le> capacity then relayout_subtree r anchor lo hi
          else reindex up r)
   }"

section \<open>Adding a block\<close>

text \<open>The walk that bumps the subtree size of every tree ancestor.\<close>

partial_function (option) bump_sizes ::
    "(block_id, block_id) fmap \<Rightarrow> block_id option \<Rightarrow> (block_id, nat) fmap \<Rightarrow> (block_id, nat) fmap option" where
  "bump_sizes parent cur sizes =
     (case cur of
        None \<Rightarrow> Some sizes
      | Some x \<Rightarrow> do {
          s \<leftarrow> fmlookup sizes x;
          s' \<leftarrow> chk_add s 1;
          bump_sizes parent (fmlookup parent x) (fmupd x s' sizes)
        })"

text \<open>The \<open>while pos < set.len()\<close> loop that drops the entries \<open>b\<close> covers.\<close>

fun drop_covered ::
    "(block_id, nat \<times> nat) fmap \<Rightarrow> nat \<times> nat \<Rightarrow> block_id list \<Rightarrow> block_id list option" where
  "drop_covered iv (b_start, b_end) [] = Some []"
| "drop_covered iv (b_start, b_end) (c # cs) = do {
     (c_start, c_end) \<leftarrow> fmlookup iv c;
     if b_start \<le> c_start \<and> c_end \<le> b_end then drop_covered iv (b_start, b_end) cs
     else Some (c # cs)
   }"

definition insert_to_future_covering_set :: "reach \<Rightarrow> block_id \<Rightarrow> block_id \<Rightarrow> reach option" where
  "insert_to_future_covering_set r a b = do {
     (b_start, b_end) \<leftarrow> fmlookup (intervals r) b;
     let covers = or_default (fcs r) a;
     pos \<leftarrow> partition_point
        (\<lambda>c. map_option (\<lambda>iv. fst iv \<le> b_start) (fmlookup (intervals r) c)) covers;
     covered \<leftarrow> (if pos = 0 then Some False
                 else do {
                   (p_start, p_end) \<leftarrow> fmlookup (intervals r) (covers ! (pos - 1));
                   Some (p_start \<le> b_start \<and> b_end \<le> p_end)
                 });
     if covered then Some (r\<lparr>fcs := fmupd a covers (fcs r)\<rparr>)
     else do {
       rest \<leftarrow> drop_covered (intervals r) (b_start, b_end) (drop pos covers);
       Some (r\<lparr>fcs := fmupd a (take pos covers @ b # rest) (fcs r)\<rparr>)
     }
   }"

fun insert_to_fcs_of :: "reach \<Rightarrow> block_id list \<Rightarrow> block_id \<Rightarrow> reach option" where
  "insert_to_fcs_of r [] b = Some r"
| "insert_to_fcs_of r (a # as) b = do {
     r' \<leftarrow> insert_to_future_covering_set r a b;
     insert_to_fcs_of r' as b
   }"

text \<open>Step 1 of \<open>add_block\<close>: the new leaf and the sizes.\<close>

definition register_leaf :: "reach \<Rightarrow> block_id \<Rightarrow> block_id \<Rightarrow> reach option" where
  "register_leaf r new sp = do {
     let children = or_default (tree_children r) sp;
     pos \<leftarrow> partition_point (\<lambda>c. Some (c < new)) children;
     let tc = fmupd sp (insert_at pos new children) (tree_children r);
     let tc = fmupd new (or_default tc new) tc;
     let tp = fmupd new sp (tree_parent r);
     sizes \<leftarrow> bump_sizes tp (Some sp) (fmupd new 1 (subtree_size r));
     Some (r\<lparr>tree_children := tc, tree_parent := tp, subtree_size := sizes\<rparr>)
   }"

text \<open>Step 2: the interval of the leaf, by halving or by a reindex.\<close>

definition allocate_leaf :: "reach \<Rightarrow> block_id \<Rightarrow> block_id \<Rightarrow> reach option" where
  "allocate_leaf r new sp = do {
     (p_start, p_end) \<leftarrow> fmlookup (intervals r) sp;
     rem_lo \<leftarrow> fmlookup (next_free r) sp;
     if rem_lo \<le> p_end then do {
       d \<leftarrow> chk_sub p_end rem_lo;
       mid \<leftarrow> chk_add rem_lo (d div 2);
       rem1 \<leftarrow> chk_add rem_lo 1;
       mid1 \<leftarrow> chk_add mid 1;
       Some (r\<lparr>intervals := fmupd new (rem_lo, mid) (intervals r),
               next_free := fmupd sp mid1 (fmupd new rem1 (next_free r))\<rparr>)
     }
     else reindex sp
       (r\<lparr>intervals := fmupd new (rem_lo, rem_lo) (intervals r),
          next_free := fmupd new rem_lo (next_free r)\<rparr>)
   }"

definition add_block :: "reach \<Rightarrow> block_id \<Rightarrow> block_id \<Rightarrow> block_id list \<Rightarrow> reach option" where
  "add_block r new sp mergeset = do {
     r \<leftarrow> register_leaf r new sp;
     r \<leftarrow> allocate_leaf r new sp;
     insert_to_fcs_of r mergeset new
   }"

section \<open>Queries\<close>

definition tree_reaches :: "reach \<Rightarrow> block_id \<Rightarrow> block_id \<Rightarrow> bool" where
  "tree_reaches r x y =
     (case (fmlookup (intervals r) x, fmlookup (intervals r) y) of
        (Some (xs, xe), Some (ys, ye)) \<Rightarrow> xs \<le> ys \<and> ys \<le> xe
      | _ \<Rightarrow> False)"

definition is_chain_ancestor :: "reach \<Rightarrow> block_id \<Rightarrow> block_id \<Rightarrow> bool" where
  "is_chain_ancestor r a d = (a \<noteq> d \<and> tree_reaches r a d)"

definition is_ancestor :: "reach \<Rightarrow> block_id \<Rightarrow> block_id \<Rightarrow> bool" where
  "is_ancestor r a d =
     (if a = d then False
      else if tree_reaches r a d then True
      else case fmlookup (fcs r) a of
             None \<Rightarrow> False
           | Some covers \<Rightarrow> list_ex (\<lambda>c. tree_reaches r c d) covers)"

end
