(* ===== verification/ReachTree.thy ===== *)
theory ReachTree
  imports Prelude
begin

text \<open>
  The mathematics behind the oracle, free of the program: finite rooted trees as edge relations,
  growth by a leaf, and interval layouts whose containment is exactly tree ancestry.
\<close>

section \<open>Rooted trees\<close>

definition desc :: "('a \<times> 'a) set \<Rightarrow> 'a \<Rightarrow> 'a set" where
  "desc E x = {y. (x, y) \<in> E\<^sup>*}"

definition kids :: "('a \<times> 'a) set \<Rightarrow> 'a \<Rightarrow> 'a set" where
  "kids E x = {c. (x, c) \<in> E}"

definition rooted :: "('a \<times> 'a) set \<Rightarrow> 'a \<Rightarrow> 'a set \<Rightarrow> bool" where
  "rooted E root N \<longleftrightarrow> finite N \<and> root \<in> N \<and> E \<subseteq> N \<times> N \<and> single_valued (E\<inverse>)
     \<and> (\<forall>p. (p, root) \<notin> E) \<and> (\<forall>x \<in> N. (root, x) \<in> E\<^sup>*) \<and> acyclic E"

lemma rootedD [wf_dests]:
  assumes "rooted E root N"
  shows "finite N" "root \<in> N" "E \<subseteq> N \<times> N" "single_valued (E\<inverse>)" "(p, root) \<notin> E"
    "x \<in> N \<Longrightarrow> (root, x) \<in> E\<^sup>*" "acyclic E"
  using assms by (auto simp: rooted_def)

lemma parent_unique: "rooted E root N \<Longrightarrow> (p, c) \<in> E \<Longrightarrow> (q, c) \<in> E \<Longrightarrow> p = q"
  by (auto simp: rooted_def single_valued_def)

lemma self_in_desc [simp]: "x \<in> desc E x"
  by (simp add: desc_def)

lemma desc_in: "rooted E root N \<Longrightarrow> x \<in> N \<Longrightarrow> y \<in> desc E x \<Longrightarrow> y \<in> N"
  unfolding desc_def mem_Collect_eq
  by (erule rtranclE) (auto dest: rootedD(3))

lemma desc_subset: "rooted E root N \<Longrightarrow> x \<in> N \<Longrightarrow> desc E x \<subseteq> N"
  by (auto intro: desc_in)

lemma desc_finite: "rooted E root N \<Longrightarrow> x \<in> N \<Longrightarrow> finite (desc E x)"
  by (rule finite_subset [OF desc_subset rootedD(1)])

lemma kids_in: "rooted E root N \<Longrightarrow> c \<in> kids E x \<Longrightarrow> c \<in> N"
  by (auto simp: kids_def dest: rootedD(3))

lemma kids_finite: "rooted E root N \<Longrightarrow> finite (kids E x)"
  by (rule finite_subset [OF _ rootedD(1)]) (auto intro: kids_in)

lemma desc_root: "rooted E root N \<Longrightarrow> desc E root = N"
  by (auto simp: desc_def intro: rootedD(6) desc_in [unfolded desc_def] rootedD(2))

lemma desc_unfold: "desc E x = insert x (\<Union>c \<in> kids E x. desc E c)"
  unfolding desc_def kids_def by (auto intro: converse_rtrancl_into_rtrancl elim: converse_rtranclE)

lemma desc_antisym:
  assumes "acyclic E" "(x, y) \<in> E\<^sup>*" "(y, x) \<in> E\<^sup>*"
  shows "x = y"
  using assms acyclic_impl_antisym_rtrancl [of E] by (auto simp: antisym_def)

lemma not_in_kid_desc:
  assumes "acyclic E" "c \<in> kids E x"
  shows "x \<notin> desc E c"
proof
  assume "x \<in> desc E c"
  then have "(x, x) \<in> E\<^sup>+"
    using assms(2) by (auto simp: desc_def kids_def intro: rtrancl_into_trancl2)
  then show False using assms(1) by (auto simp: acyclic_def)
qed

lemma tree_comparable:
  assumes "single_valued (E\<inverse>)" "(x, z) \<in> E\<^sup>*" "(y, z) \<in> E\<^sup>*"
  shows "(x, y) \<in> E\<^sup>* \<or> (y, x) \<in> E\<^sup>*"
  using single_valued_confluent [OF assms(1), of z x y] assms(2,3) by (auto simp: rtrancl_converse)

lemma proper_desc_parent:
  assumes "rooted E root N" "(x, y) \<in> E\<^sup>*" "x \<noteq> y" "(p, y) \<in> E"
  shows "(x, p) \<in> E\<^sup>*"
  using assms(2)
proof (cases rule: rtranclE)
  case (step u)
  then show ?thesis using parent_unique [OF assms(1) assms(4) step(2)] by simp
qed (use assms(3) in simp)

lemma kids_disjoint:
  assumes "rooted E root N" "c \<in> kids E x" "d \<in> kids E x" "c \<noteq> d"
  shows "desc E c \<inter> desc E d = {}"
proof -
  have no: "(c', d') \<notin> E\<^sup>*" if "c' \<in> kids E x" "d' \<in> kids E x" "c' \<noteq> d'" for c' d'
  proof
    assume "(c', d') \<in> E\<^sup>*"
    then have "(c', x) \<in> E\<^sup>*"
      using proper_desc_parent [OF assms(1)] that by (auto simp: kids_def)
    then show False
      using not_in_kid_desc [OF rootedD(7) [OF assms(1)] that(1)] by (simp add: desc_def)
  qed
  show ?thesis
    using tree_comparable [OF rootedD(4) [OF assms(1)]] no assms by (fastforce simp: desc_def)
qed

lemma card_desc:
  assumes "rooted E root N"
  shows "card (desc E x) = Suc (\<Sum>c \<in> kids E x. card (desc E c))"
proof -
  have "card (\<Union>c \<in> kids E x. desc E c) = (\<Sum>c \<in> kids E x. card (desc E c))"
    using kids_disjoint [OF assms]
    by (intro card_UN_disjoint ballI impI kids_finite [OF assms] desc_finite [OF assms kids_in [OF assms]]) auto
  moreover have "finite (\<Union>c \<in> kids E x. desc E c)"
    by (intro finite_UN_I kids_finite [OF assms] desc_finite [OF assms kids_in [OF assms]])
  moreover have "x \<notin> (\<Union>c \<in> kids E x. desc E c)"
    using not_in_kid_desc [OF rootedD(7) [OF assms]] by blast
  ultimately show ?thesis by (subst desc_unfold) simp
qed

lemma card_desc_pos: "rooted E root N \<Longrightarrow> 0 < card (desc E x)"
  by (simp add: card_desc)

section \<open>A new leaf\<close>

lemma fresh_rtrancl:
  assumes "Field E \<subseteq> N" "n \<notin> N"
  shows "(n, y) \<in> E\<^sup>* \<longleftrightarrow> y = n"
proof
  assume "(n, y) \<in> E\<^sup>*"
  then show "y = n" using assms by (cases rule: converse_rtranclE) (auto dest: FieldI1)
qed simp

lemma rtrancl_add_leaf:
  assumes "Field E \<subseteq> N" "n \<notin> N" "p \<in> N"
  shows "(x, y) \<in> (insert (p, n) E)\<^sup>* \<longleftrightarrow> (x, y) \<in> E\<^sup>* \<or> (y = n \<and> (x, p) \<in> E\<^sup>*)"
  unfolding rtrancl_insert using fresh_rtrancl [OF assms(1,2)] by auto

lemma rooted_Field: "rooted E root N \<Longrightarrow> Field E \<subseteq> N"
  by (auto simp: Field_def dest: rootedD(3))

lemma rooted_add_leaf:
  assumes "rooted E root N" "n \<notin> N" "p \<in> N"
  shows "rooted (insert (p, n) E) root (insert n N)"
proof -
  note F = rooted_Field [OF assms(1)]
  note rt = rtrancl_add_leaf [OF F assms(2,3)]
  have "\<And>q. (q, n) \<notin> E" using F assms(2) by (auto simp: Field_def)
  then have "single_valued ((insert (p, n) E)\<inverse>)"
    using rootedD(4) [OF assms(1)] by (auto simp: single_valued_def)
  moreover have "(n, p) \<notin> E\<^sup>*"
    using fresh_rtrancl [OF F assms(2)] assms(2,3) by auto
  then have "acyclic (insert (p, n) E)"
    using rootedD(7) [OF assms(1)] by (simp add: acyclic_insert)
  moreover have "\<forall>x \<in> insert n N. (root, x) \<in> (insert (p, n) E)\<^sup>*"
    using rootedD(6) [OF assms(1)] assms(3) by (auto simp: rt)
  ultimately show ?thesis
    using assms rootedD [OF assms(1)] unfolding rooted_def by auto
qed

lemma desc_add_leaf:
  assumes "rooted E root N" "n \<notin> N" "p \<in> N" "x \<in> N"
  shows "desc (insert (p, n) E) x = (if (x, p) \<in> E\<^sup>* then insert n (desc E x) else desc E x)"
  using rtrancl_add_leaf [OF rooted_Field [OF assms(1)] assms(2,3)] by (auto simp: desc_def)

lemma desc_new_leaf:
  assumes "rooted E root N" "n \<notin> N" "p \<in> N"
  shows "desc (insert (p, n) E) n = {n}"
  using rtrancl_add_leaf [OF rooted_Field [OF assms(1)] assms(2,3)]
    fresh_rtrancl [OF rooted_Field [OF assms(1)] assms(2)] by (auto simp: desc_def)

lemma kids_add_leaf:
  "kids (insert (p, n) E) x = (if x = p then insert n (kids E x) else kids E x)"
  by (auto simp: kids_def)

section \<open>Interval layouts\<close>

text \<open>
  The layout condition on the nodes of \<open>D\<close>: the free pointer lies inside the interval, the
  children's intervals lie below it and are pairwise disjoint.
\<close>

definition layout_on ::
    "('a \<times> 'a) set \<Rightarrow> 'a set \<Rightarrow> ('a \<Rightarrow> nat) \<Rightarrow> ('a \<Rightarrow> nat) \<Rightarrow> ('a \<Rightarrow> nat) \<Rightarrow> bool" where
  "layout_on E D lo hi nf \<longleftrightarrow>
     (\<forall>x \<in> D. lo x < nf x \<and> nf x \<le> hi x + 1
        \<and> (\<forall>c \<in> kids E x. lo x < lo c \<and> lo c \<le> hi c \<and> hi c < nf x)
        \<and> (\<forall>c \<in> kids E x. \<forall>d \<in> kids E x. c \<noteq> d \<longrightarrow> hi c < lo d \<or> hi d < lo c))"

lemma layout_onD:
  assumes "layout_on E D lo hi nf" "x \<in> D"
  shows "lo x < nf x" "nf x \<le> hi x + 1"
    "c \<in> kids E x \<Longrightarrow> lo x < lo c \<and> lo c \<le> hi c \<and> hi c < nf x"
    "c \<in> kids E x \<Longrightarrow> d \<in> kids E x \<Longrightarrow> c \<noteq> d \<Longrightarrow> hi c < lo d \<or> hi d < lo c"
  using assms unfolding layout_on_def by blast+

lemma layout_on_Un: "layout_on E (A \<union> B) lo hi nf \<longleftrightarrow> layout_on E A lo hi nf \<and> layout_on E B lo hi nf"
  unfolding layout_on_def by blast

lemma layout_on_cong:
  assumes "\<And>x. x \<in> D \<Longrightarrow> lo' x = lo x \<and> hi' x = hi x \<and> nf' x = nf x"
    and "\<And>x c. x \<in> D \<Longrightarrow> c \<in> kids E x \<Longrightarrow> lo' c = lo c \<and> hi' c = hi c"
  shows "layout_on E D lo' hi' nf' \<longleftrightarrow> layout_on E D lo hi nf"
  unfolding layout_on_def using assms by (intro ball_cong refl) simp

lemma layout_nested:
  assumes "rooted E root N" "layout_on E N lo hi nf" "x \<in> N" "(x, y) \<in> E\<^sup>*"
  shows "lo x \<le> lo y \<and> hi y \<le> hi x"
  using assms(4)
proof (induction rule: rtrancl_induct)
  case (step y z)
  then have "y \<in> N" using rootedD(3) [OF assms(1)] by blast
  with layout_onD(1,2,3) [OF assms(2) this] step show ?case by (force simp: kids_def)
qed simp

lemma layout_lo_le_hi: "layout_on E N lo hi nf \<Longrightarrow> x \<in> N \<Longrightarrow> lo x \<le> hi x"
  using layout_onD(1,2) by fastforce

lemma layout_trichotomy:
  assumes "rooted E root N" "layout_on E N lo hi nf" "x \<in> N" "y \<in> N"
  shows "(x, y) \<in> E\<^sup>* \<or> (y, x) \<in> E\<^sup>* \<or> hi x < lo y \<or> hi y < lo x"
  using rootedD(6) [OF assms(1,3)]
proof (induction rule: rtrancl_induct)
  case base
  then show ?case using rootedD(6) [OF assms(1,4)] by simp
next
  case (step u z)
  then have uz: "z \<in> kids E u" and u: "u \<in> N" "z \<in> N"
    using rootedD(3) [OF assms(1)] by (auto simp: kids_def)
  have z_in_u: "lo u \<le> lo z \<and> hi z \<le> hi u"
    using layout_nested [OF assms(1,2) u(1), of z] step(2) by blast
  consider "(u, y) \<in> E\<^sup>*" | "(y, u) \<in> E\<^sup>*" | "hi u < lo y \<or> hi y < lo u"
    using step(3) by blast
  then show ?case
  proof cases
    case 1
    then show ?thesis
    proof (cases rule: converse_rtranclE)
      case base
      then show ?thesis using step(2) by blast
    next
      case (step c)
      then have c: "c \<in> kids E u" "c \<in> N" using rootedD(3) [OF assms(1)] by (auto simp: kids_def)
      show ?thesis
      proof (cases "c = z")
        case True
        then show ?thesis using step(2) by blast
      next
        case False
        with layout_onD(4) [OF assms(2) u(1) c(1) uz] layout_nested [OF assms(1,2) c(2) step(2)]
        show ?thesis by linarith
      qed
    qed
  next
    case 2
    then show ?thesis using step(2) by (auto intro: rtrancl_into_rtrancl)
  next
    case 3
    then show ?thesis using z_in_u by linarith
  qed
qed

text \<open>Containment of the label is tree ancestry, and so is containment of the interval.\<close>

lemma layout_exact:
  assumes "rooted E root N" "layout_on E N lo hi nf" "x \<in> N" "y \<in> N"
  shows "lo x \<le> lo y \<and> lo y \<le> hi x \<longleftrightarrow> (x, y) \<in> E\<^sup>*"
proof
  assume "(x, y) \<in> E\<^sup>*"
  then show "lo x \<le> lo y \<and> lo y \<le> hi x"
    using layout_nested [OF assms(1-3)] layout_lo_le_hi [OF assms(2,4)] by fastforce
next
  assume l: "lo x \<le> lo y \<and> lo y \<le> hi x"
  have "x = y" if yx: "(y, x) \<in> E\<^sup>*"
  proof (rule ccontr)
    assume "x \<noteq> y"
    with yx obtain c where c: "(y, c) \<in> E" "(c, x) \<in> E\<^sup>*" by (auto elim: converse_rtranclE)
    then have "c \<in> N" using rootedD(3) [OF assms(1)] by blast
    with layout_onD(3) [OF assms(2,4), of c] layout_nested [OF assms(1,2) _ c(2)] c(1) l
    show False by (auto simp: kids_def)
  qed
  with layout_trichotomy [OF assms] l layout_lo_le_hi [OF assms(2)] assms(3,4)
  show "(x, y) \<in> E\<^sup>*" by fastforce
qed

lemma layout_contains:
  assumes "rooted E root N" "layout_on E N lo hi nf" "x \<in> N" "y \<in> N"
  shows "lo x \<le> lo y \<and> hi y \<le> hi x \<longleftrightarrow> (x, y) \<in> E\<^sup>*"
  using layout_exact [OF assms] layout_nested [OF assms(1-3)] layout_lo_le_hi [OF assms(2,4)]
  by (meson order.trans)

section \<open>Growing and replacing layouts\<close>

lemma layout_add_leaf:
  assumes "rooted E root N" "layout_on E N lo hi nf" "n \<notin> N" "p \<in> N" "nf p \<le> mid" "mid \<le> hi p"
  shows "layout_on (insert (p, n) E) (insert n N) (lo(n := nf p)) (hi(n := mid))
    (nf(n := nf p + 1, p := mid + 1))"
proof -
  have np: "n \<noteq> p" using assms(3,4) by blast
  have kn: "kids E n = {}" "\<And>x. n \<notin> kids E x"
    using rooted_Field [OF assms(1)] assms(3) by (auto simp: kids_def dest: FieldI1 FieldI2)
  note D = layout_onD [OF assms(2)]
  have low: "hi c < nf p" "lo p < nf p" if "c \<in> kids E p" for c using D(1,3) [OF assms(4)] that by auto
  show ?thesis
    unfolding layout_on_def
  proof (intro ballI conjI impI)
    fix x c d
    assume x: "x \<in> insert n N" and c: "c \<in> kids (insert (p, n) E) x"
      and d: "d \<in> kids (insert (p, n) E) x" and "c \<noteq> d"
    then show "(hi(n := mid)) c < (lo(n := nf p)) d \<or> (hi(n := mid)) d < (lo(n := nf p)) c"
      using kn np D(4) [of x c d] low assms(4) by (auto simp: kids_add_leaf split: if_splits)
  next
    fix x c
    assume x: "x \<in> insert n N" and c: "c \<in> kids (insert (p, n) E) x"
    show "(lo(n := nf p)) x < (lo(n := nf p)) c" "(lo(n := nf p)) c \<le> (hi(n := mid)) c"
      using x c kn np D(1) [OF assms(4)] D(3) [of x c] assms(4,5)
      by (auto simp: kids_add_leaf split: if_splits)
    show "(hi(n := mid)) c < (nf(n := nf p + 1, p := mid + 1)) x"
      using x c kn np low(1) [of c] D(3) [of x c] assms(4,5)
      by (auto simp: kids_add_leaf split: if_splits)
  next
    fix x assume x: "x \<in> insert n N"
    show "(lo(n := nf p)) x < (nf(n := nf p + 1, p := mid + 1)) x"
      using x np D(1) [of x] D(1) [OF assms(4)] assms(5) by auto
    show "(nf(n := nf p + 1, p := mid + 1)) x \<le> (hi(n := mid)) x + 1"
      using x np D(2) [of x] assms(5,6) by auto
  qed
qed

text \<open>Replacing the layout of one subtree, whose root keeps its interval.\<close>

lemma layout_replace:
  assumes "rooted E root N" "a \<in> N" "layout_on E (desc E a) lo' hi' nf'"
    and "layout_on E (N - desc E a) lo hi nf"
    and "\<And>x. x \<notin> desc E a \<Longrightarrow> lo' x = lo x \<and> hi' x = hi x \<and> nf' x = nf x"
    and "lo' a = lo a" "hi' a = hi a"
  shows "layout_on E N lo' hi' nf'"
proof -
  have "lo' c = lo c \<and> hi' c = hi c" if "x \<in> N - desc E a" "c \<in> kids E x" for x c
  proof (cases "c \<in> desc E a")
    case True
    then have "c = a"
      using proper_desc_parent [OF assms(1), of a c x] that by (auto simp: desc_def kids_def)
    then show ?thesis using assms(6,7) by simp
  qed (use assms(5) in blast)
  then have "layout_on E (N - desc E a) lo' hi' nf'"
    using assms(4,5) by (subst layout_on_cong) auto
  with assms(3) have "layout_on E (desc E a \<union> (N - desc E a)) lo' hi' nf'"
    by (simp only: layout_on_Un simp_thms)
  moreover have "desc E a \<union> (N - desc E a) = N" using desc_subset [OF assms(1,2)] by blast
  ultimately show ?thesis by simp
qed

lemma layout_on_mono:
  assumes "layout_on E N lo hi nf" "D \<subseteq> N" "\<And>x. x \<in> D \<Longrightarrow> kids E' x = kids E x"
  shows "layout_on E' D lo hi nf"
proof -
  have "layout_on E D lo hi nf" using assms(1,2) unfolding layout_on_def by blast
  then show ?thesis using assms(3) unfolding layout_on_def by (metis (no_types))
qed

end
