(* ===== verification/ReachLayout.thy ===== *)
theory ReachLayout
  imports Reach ReachTree
begin

text \<open>
  The interval layout of the oracle: \<open>relayout_subtree\<close> re-establishes the layout condition of a
  whole subtree without touching the rest, \<open>reindex\<close> finds an ancestor with enough room, and
  the size bookkeeping stays exact.
\<close>

section \<open>The tree behind the maps\<close>

definition tree_edges :: "reach \<Rightarrow> (block_id \<times> block_id) set" where
  "tree_edges r = {(p, c). fmlookup (tree_parent r) c = Some p}"

definition ilo :: "reach \<Rightarrow> block_id \<Rightarrow> nat" where
  "ilo r x = fst (the (fmlookup (intervals r) x))"

definition ihi :: "reach \<Rightarrow> block_id \<Rightarrow> nat" where
  "ihi r x = snd (the (fmlookup (intervals r) x))"

definition nfree :: "reach \<Rightarrow> block_id \<Rightarrow> nat" where
  "nfree r x = the (fmlookup (next_free r) x)"

abbreviation dsize :: "reach \<Rightarrow> block_id \<Rightarrow> nat" where
  "dsize r x \<equiv> card (desc (tree_edges r) x)"

definition tree_wf :: "reach \<Rightarrow> block_id \<Rightarrow> block_id set \<Rightarrow> bool" where
  "tree_wf r root N \<longleftrightarrow> rooted (tree_edges r) root N
     \<and> (\<forall>x \<in> N. fmlookup (subtree_size r) x = Some (dsize r x))
     \<and> (\<forall>x \<in> N. \<exists>cs. fmlookup (tree_children r) x = Some cs \<and> set cs = kids (tree_edges r) x
          \<and> distinct cs \<and> sorted cs)
     \<and> (\<forall>x. x \<notin> N \<longrightarrow> fmlookup (tree_children r) x = None)"

lemma tree_wfD:
  assumes "tree_wf r root N"
  shows "rooted (tree_edges r) root N"
    "x \<in> N \<Longrightarrow> fmlookup (subtree_size r) x = Some (dsize r x)"
    "x \<in> N \<Longrightarrow> \<exists>cs. fmlookup (tree_children r) x = Some cs \<and> set cs = kids (tree_edges r) x
       \<and> distinct cs \<and> sorted cs"
    "x \<notin> N \<Longrightarrow> fmlookup (tree_children r) x = None"
  using assms by (auto simp: tree_wf_def)

text \<open>Two states with the same tree, whatever their intervals.\<close>

definition same_tree :: "reach \<Rightarrow> reach \<Rightarrow> bool" where
  "same_tree r r' \<longleftrightarrow> tree_children r' = tree_children r \<and> tree_parent r' = tree_parent r
     \<and> subtree_size r' = subtree_size r \<and> fcs r' = fcs r"

lemma same_tree_refl [simp]: "same_tree r r"
  by (simp add: same_tree_def)

lemma same_tree_trans: "same_tree r s \<Longrightarrow> same_tree s t \<Longrightarrow> same_tree r t"
  by (simp add: same_tree_def)

lemma same_tree_edges: "same_tree r r' \<Longrightarrow> tree_edges r' = tree_edges r"
  by (simp add: same_tree_def tree_edges_def)

lemma same_tree_wf: "same_tree r r' \<Longrightarrow> tree_wf r' root N = tree_wf r root N"
  by (simp add: same_tree_def tree_wf_def tree_edges_def)

section \<open>The children loop\<close>

text \<open>Consecutive slices from one cursor to the next, each wide enough for its subtree.\<close>

fun laid :: "(block_id \<Rightarrow> nat) \<Rightarrow> nat \<Rightarrow> (block_id \<times> nat \<times> nat) list \<Rightarrow> nat \<Rightarrow> bool" where
  "laid sz c [] c' = (c = c')"
| "laid sz c ((v, l, h) # es) c' = (l = c \<and> 0 < sz v \<and> l + sz v \<le> h + 1 \<and> laid sz (h + 1) es c')"

lemma laid_bounds:
  "laid sz c es c' \<Longrightarrow> c \<le> c' \<and> (\<forall>(v, l, h) \<in> set es. c \<le> l \<and> l \<le> h \<and> l + sz v \<le> h + 1 \<and> h < c')"
  by (induction sz c es c' rule: laid.induct) fastforce+

lemma laid_disjoint:
  "laid sz c es c' \<Longrightarrow> (v, l, h) \<in> set es \<Longrightarrow> (v', l', h') \<in> set es \<Longrightarrow> v \<noteq> v' \<Longrightarrow> h < l' \<or> h' < l"
proof (induction sz c es c' rule: laid.induct)
  case (2 sz c w k i es c')
  then have rest: "laid sz (i + 1) es c'" by simp
  have "i < l''" if "(x, l'', h'') \<in> set es" for x l'' h''
    using laid_bounds [OF rest] that by fastforce
  with 2 show ?case by auto
qed simp

lemma layout_children_ok:
  assumes "\<forall>c \<in> set cs. fmlookup sizes c = Some (sz c) \<and> 0 < sz c \<and> slack * sz c div tot < 2 ^ 64"
    and "cursor + sum_list (map (\<lambda>c. sz c + slack * sz c div tot) cs) \<le> u64_max"
  shows "\<exists>es. layout_children sizes slack tot cs cursor stack =
      Some (cursor + sum_list (map (\<lambda>c. sz c + slack * sz c div tot) cs), rev es @ stack)
    \<and> map fst es = cs
    \<and> laid sz cursor es (cursor + sum_list (map (\<lambda>c. sz c + slack * sz c div tot) cs))"
  using assms
proof (induction cs arbitrary: cursor stack)
  case Nil
  then show ?case by (intro exI [of _ "[]"]) simp
next
  case (Cons c cs)
  let ?x = "slack * sz c div tot"
  let ?hi = "cursor + (sz c + ?x - 1)"
  have c: "fmlookup sizes c = Some (sz c)" "0 < sz c" "?x mod 2 ^ 64 = ?x" using Cons.prems(1) by auto
  have "?hi + 1 = cursor + (sz c + ?x)" using c(2) by simp
  then obtain es where es: "layout_children sizes slack tot cs (?hi + 1) ((c, cursor, ?hi) # stack) =
      Some (?hi + 1 + sum_list (map (\<lambda>c. sz c + slack * sz c div tot) cs), rev es @ (c, cursor, ?hi) # stack)"
      "map fst es = cs" "laid sz (?hi + 1) es (?hi + 1 + sum_list (map (\<lambda>c. sz c + slack * sz c div tot) cs))"
    using Cons.IH [of "?hi + 1" "(c, cursor, ?hi) # stack"] Cons.prems by auto
  have chk: "chk_add (sz c) ?x = Some (sz c + ?x)" "chk_sub (sz c + ?x) 1 = Some (sz c + ?x - 1)"
      "chk_add cursor (sz c + ?x - 1) = Some ?hi" "chk_add ?hi 1 = Some (?hi + 1)"
    using Cons.prems(2) c(2) by (auto simp: chk_add_def chk_sub_def)
  have "?hi + 1 + sum_list (map (\<lambda>c. sz c + slack * sz c div tot) cs)
      = cursor + sum_list (map (\<lambda>c. sz c + slack * sz c div tot) (c # cs))"
    using c(2) by simp
  then show ?case
    using es c chk by (intro exI [of _ "(c, cursor, ?hi) # es"]) (simp add: add.assoc del: One_nat_def)
qed

section \<open>One step of the stack loop\<close>

lemma relayout_step_ok:
  assumes "tree_wf r root N" "v \<in> N" "l + dsize r v \<le> h + 1" "h < u64_max"
  shows "\<exists>es cur. relayout_step v l h st r = Some (rev es @ st,
      r\<lparr>intervals := fmupd v (l, h) (intervals r), next_free := fmupd v cur (next_free r)\<rparr>)
    \<and> distinct (map fst es) \<and> fst ` set es = kids (tree_edges r) v
    \<and> cur \<le> h + 1 \<and> laid (dsize r) (l + 1) es cur"
proof -
  let ?E = "tree_edges r"
  have R: "rooted ?E root N" by (rule tree_wfD [OF assms(1)])
  obtain cs where cs: "fmlookup (tree_children r) v = Some cs" "set cs = kids ?E v" "distinct cs"
    using tree_wfD(3) [OF assms(1,2)] by blast
  have card: "dsize r v = Suc (sum_list (map (dsize r) cs))"
    using card_desc [OF R, of v] cs by (simp add: sum_list_distinct_conv_sum_set)
  have sz: "fmlookup (subtree_size r) v = Some (dsize r v)" by (rule tree_wfD(2) [OF assms(1,2)])
  define tot where "tot = sum_list (map (dsize r) cs)"
  have tot: "dsize r v = Suc tot" using card by (simp add: tot_def)
  have lh: "l + tot \<le> h" using assms(3) tot by simp
  have lo1: "chk_add l 1 = Some (l + 1)" "chk_sub (dsize r v) 1 = Some tot"
    using lh assms(4) tot by (auto simp: chk_add_def chk_sub_def)
  show ?thesis
  proof (cases "tot = 0")
    case True
    have "cs = []"
    proof (rule ccontr)
      assume "cs \<noteq> []"
      then obtain c where "c \<in> set cs" by (cases cs) auto
      then have "dsize r c \<le> tot" unfolding tot_def by (simp add: member_le_sum_list)
      then show False using True card_desc_pos [OF R, of c] by simp
    qed
    then have "kids ?E v = {}" using cs(2) by simp
    then show ?thesis
      using True sz lo1 lh
      by (intro exI [of _ "[]"] exI [of _ "l + 1"]) (simp add: relayout_step_def)
  next
    case False
    define slack where "slack = h - l - tot"
    let ?f = "\<lambda>c. dsize r c + slack * dsize r c div tot"
    have sub: "chk_sub h l = Some (h - l)" "chk_sub (h - l) tot = Some slack"
      using lh by (auto simp: chk_sub_def slack_def)
    have le_tot: "dsize r c \<le> tot" if "c \<in> set cs" for c
      using that unfolding tot_def by (simp add: member_le_sum_list)
    have pre: "\<forall>c \<in> set cs. fmlookup (subtree_size r) c = Some (dsize r c)
        \<and> 0 < dsize r c \<and> slack * dsize r c div tot < 2 ^ 64"
    proof (intro ballI conjI)
      fix c assume c: "c \<in> set cs"
      then have "c \<in> N" using kids_in [OF R] cs(2) by blast
      then show "fmlookup (subtree_size r) c = Some (dsize r c)" by (rule tree_wfD(2) [OF assms(1)])
      show "0 < dsize r c" by (rule card_desc_pos [OF R])
      have "slack * dsize r c div tot \<le> slack"
        using mult_le_mono2 [OF le_tot [OF c], of slack] False
        by (metis div_le_mono nonzero_mult_div_cancel_right)
      also have "slack < 2 ^ 64" using assms(4) by (simp add: slack_def u64_max_def)
      finally show "slack * dsize r c div tot < 2 ^ 64" .
    qed
    have "sum_list (map (\<lambda>c. slack * dsize r c div tot) cs)
        \<le> sum_list (map (\<lambda>c. slack * dsize r c) cs) div tot"
      by (rule sum_list_div_le)
    also have "\<dots> = slack" using False by (simp add: sum_list_const_mult tot_def)
    finally have le: "sum_list (map ?f cs) \<le> tot + slack"
      by (simp add: sum_list_addf tot_def)
    then have fit: "l + 1 + sum_list (map ?f cs) \<le> h + 1" using lh by (simp add: slack_def)
    then have "l + 1 + sum_list (map ?f cs) \<le> u64_max" using assms(4) by simp
    from layout_children_ok [OF pre this, of st]
    obtain es where "layout_children (subtree_size r) slack tot cs (l + 1) st =
        Some (l + 1 + sum_list (map ?f cs), rev es @ st)"
      "map fst es = cs" "laid (dsize r) (l + 1) es (l + 1 + sum_list (map ?f cs))"
      by blast
    then show ?thesis
      using False sz lo1 sub cs fit
      by (intro exI [of _ es] exI [of _ "l + 1 + sum_list (map ?f cs)"])
        (auto simp: relayout_step_def simp flip: list.set_map)
  qed
qed

section \<open>The whole stack loop\<close>

definition stk_desc :: "('a \<times> 'a) set \<Rightarrow> ('a \<times> nat \<times> nat) list \<Rightarrow> 'a set" where
  "stk_desc E st = (\<Union>e \<in> set st. desc E (fst e))"

fun stk_disj :: "('a \<times> 'a) set \<Rightarrow> ('a \<times> nat \<times> nat) list \<Rightarrow> bool" where
  "stk_disj E [] = True"
| "stk_disj E (e # st) = (desc E (fst e) \<inter> stk_desc E st = {} \<and> stk_disj E st)"

lemma stk_desc_simps [simp]:
  "stk_desc E [] = {}"
  "stk_desc E (e # st) = desc E (fst e) \<union> stk_desc E st"
  "stk_desc E (a @ b) = stk_desc E a \<union> stk_desc E b"
  "stk_desc E (rev a) = stk_desc E a"
  by (auto simp: stk_desc_def)

lemma stk_disj_append [simp]:
  "stk_disj E (a @ b) \<longleftrightarrow> stk_disj E a \<and> stk_disj E b \<and> stk_desc E a \<inter> stk_desc E b = {}"
  by (induction a) auto

lemma stk_disj_rev [simp]: "stk_disj E (rev a) = stk_disj E a"
  by (induction a) auto

lemma stk_disj_kids:
  assumes "rooted E root N"
  shows "distinct (map fst es) \<Longrightarrow> fst ` set es \<subseteq> kids E v \<Longrightarrow> stk_disj E es"
proof (induction es)
  case (Cons e es)
  have "desc E (fst e) \<inter> desc E (fst e') = {}" if "e' \<in> set es" for e'
    using kids_disjoint [OF assms, of "fst e" v "fst e'"] Cons.prems that by auto
  with Cons show ?case by (auto simp: stk_desc_def)
qed simp

text \<open>What a run of the loop from \<open>r\<close> with stack \<open>st\<close> establishes of its result.\<close>

definition relaid :: "reach \<Rightarrow> (block_id \<times> nat \<times> nat) list \<Rightarrow> reach \<Rightarrow> bool" where
  "relaid r st r' \<longleftrightarrow> same_tree r r'
     \<and> (\<forall>x. x \<notin> stk_desc (tree_edges r) st \<longrightarrow>
          fmlookup (intervals r') x = fmlookup (intervals r) x
          \<and> fmlookup (next_free r') x = fmlookup (next_free r) x)
     \<and> (\<forall>(v, l, h) \<in> set st. fmlookup (intervals r') v = Some (l, h))
     \<and> (\<forall>x \<in> stk_desc (tree_edges r) st.
          fmlookup (intervals r') x \<noteq> None \<and> fmlookup (next_free r') x \<noteq> None)
     \<and> layout_on (tree_edges r) (stk_desc (tree_edges r) st) (ilo r') (ihi r') (nfree r')"

lemma relaidD:
  assumes "relaid r st r'"
  shows "same_tree r r'"
    "x \<notin> stk_desc (tree_edges r) st \<Longrightarrow> fmlookup (intervals r') x = fmlookup (intervals r) x"
    "x \<notin> stk_desc (tree_edges r) st \<Longrightarrow> fmlookup (next_free r') x = fmlookup (next_free r) x"
    "(v, l, h) \<in> set st \<Longrightarrow> fmlookup (intervals r') v = Some (l, h)"
    "x \<in> stk_desc (tree_edges r) st \<Longrightarrow> fmlookup (intervals r') x \<noteq> None"
    "x \<in> stk_desc (tree_edges r) st \<Longrightarrow> fmlookup (next_free r') x \<noteq> None"
    "layout_on (tree_edges r) (stk_desc (tree_edges r) st) (ilo r') (ihi r') (nfree r')"
  using assms unfolding relaid_def by auto

lemma layout_single:
  assumes "laid sz (l + 1) es cur" "cur \<le> h + 1" "fst ` set es = kids E v"
    and "lo v = l" "hi v = h" "nf v = cur"
    and "\<And>c cl ch. (c, cl, ch) \<in> set es \<Longrightarrow> lo c = cl \<and> hi c = ch"
  shows "layout_on E {v} lo hi nf"
proof -
  have ex: "(c, lo c, hi c) \<in> set es" if "c \<in> kids E v" for c
    using that assms(3,7) by force
  note b = laid_bounds [OF assms(1)]
  have "lo v < lo c \<and> lo c \<le> hi c \<and> hi c < nf v" if "c \<in> kids E v" for c
    using b ex [OF that] assms(4,6) by fastforce
  moreover have "hi c < lo d \<or> hi d < lo c" if "c \<in> kids E v" "d \<in> kids E v" "c \<noteq> d" for c d
    by (rule laid_disjoint [OF assms(1) ex ex]) (use that in auto)
  ultimately show ?thesis using b assms(2,4-6) unfolding layout_on_def by auto
qed

lemma relayout_ok:
  assumes "tree_wf r root N"
    and "\<forall>(v, l, h) \<in> set st. v \<in> N \<and> l + dsize r v \<le> h + 1 \<and> h < u64_max"
    and "stk_disj (tree_edges r) st"
  shows "\<exists>r'. relayout st r = Some r' \<and> relaid r st r'"
  using assms
proof (induction "card (stk_desc (tree_edges r) st)" arbitrary: st r rule: less_induct)
  case less
  show ?case
  proof (cases st)
    case Nil
    then show ?thesis
      by (intro exI [of _ r]) (simp add: relayout.simps [of "[]"] relaid_def layout_on_def)
  next
    case (Cons e rest)
    obtain v l h where e: "e = (v, l, h)" by (cases e)
    let ?E = "tree_edges r"
    have R: "rooted ?E root N" by (rule tree_wfD [OF less.prems(1)])
    have v: "v \<in> N" "l + dsize r v \<le> h + 1" "h < u64_max" using less.prems(2) Cons e by auto
    from relayout_step_ok [OF less.prems(1) v, of rest] obtain es cur where
      step: "relayout_step v l h rest r = Some (rev es @ rest,
        r\<lparr>intervals := fmupd v (l, h) (intervals r), next_free := fmupd v cur (next_free r)\<rparr>)"
      and es: "distinct (map fst es)" "fst ` set es = kids ?E v" "cur \<le> h + 1"
        "laid (dsize r) (l + 1) es cur"
      by blast
    define r1 where "r1 = r\<lparr>intervals := fmupd v (l, h) (intervals r),
        next_free := fmupd v cur (next_free r)\<rparr>"
    let ?st = "rev es @ rest"
    have same: "same_tree r r1" by (simp add: r1_def same_tree_def)
    note E1 = same_tree_edges [OF same]
    have kd: "stk_desc ?E es = (\<Union>c \<in> kids ?E v. desc ?E c)"
      unfolding stk_desc_def es(2) [symmetric] by simp
    have all: "stk_desc ?E st = insert v (stk_desc ?E ?st)"
      unfolding Cons e stk_desc_simps kd fst_conv by (subst desc_unfold) blast
    have "stk_desc ?E es \<subseteq> desc ?E v" unfolding kd using desc_unfold [of ?E v] by blast
    then have dj: "stk_desc ?E es \<inter> stk_desc ?E rest = {}" "v \<notin> stk_desc ?E rest"
      using less.prems(3) Cons e self_in_desc [of v ?E] by (auto simp del: self_in_desc)
    have vn: "v \<notin> stk_desc ?E ?st"
      using dj(2) not_in_kid_desc [OF rootedD(7) [OF R]] by (auto simp: kd)
    have "finite (stk_desc ?E st)"
      using less.prems(2) desc_finite [OF R] by (auto simp: stk_desc_def)
    then have "card (stk_desc (tree_edges r1) ?st) < card (stk_desc ?E st)"
      unfolding E1 all using vn by simp
    moreover have "\<forall>(w, k, i) \<in> set ?st. w \<in> N \<and> k + dsize r1 w \<le> i + 1 \<and> i < u64_max"
      using laid_bounds [OF es(4)] es(2,3) kids_in [OF R] v(3) less.prems(2) Cons
      unfolding E1 by fastforce
    moreover have "stk_disj (tree_edges r1) ?st"
      using stk_disj_kids [OF R es(1)] es(2) dj(1) less.prems(3) Cons unfolding E1 by auto
    moreover have "tree_wf r1 root N" using less.prems(1) same_tree_wf [OF same] by simp
    ultimately obtain r' where r': "relayout ?st r1 = Some r'" "relaid r1 ?st r'"
      using less.hyps [of r1 ?st] by blast
    note D = relaidD [OF r'(2), unfolded E1]
    have lv: "fmlookup (intervals r') v = Some (l, h)" "fmlookup (next_free r') v = Some cur"
      using D(2,3) [OF vn] by (simp_all add: r1_def)
    have le: "ilo r' c = cl \<and> ihi r' c = ch" if "(c, cl, ch) \<in> set es" for c cl ch
      using D(4) [of c cl ch] that by (simp add: ilo_def ihi_def)
    have "layout_on ?E {v} (ilo r') (ihi r') (nfree r')"
      by (rule layout_single [OF es(4,3,2) _ _ _ le])
        (use lv in \<open>simp_all add: ilo_def ihi_def nfree_def\<close>)
    then have "layout_on ?E (stk_desc ?E st) (ilo r') (ihi r') (nfree r')"
      using D(7) unfolding all by (subst insert_is_Un) (simp only: layout_on_Un simp_thms)
    moreover have "\<forall>x. x \<notin> stk_desc ?E st \<longrightarrow>
          fmlookup (intervals r') x = fmlookup (intervals r) x
          \<and> fmlookup (next_free r') x = fmlookup (next_free r) x"
      using D(2,3) unfolding all by (auto simp: r1_def)
    moreover have "\<forall>x \<in> stk_desc ?E st.
          fmlookup (intervals r') x \<noteq> None \<and> fmlookup (next_free r') x \<noteq> None"
      using D(5,6) lv unfolding all by auto
    moreover have "\<forall>(w, k, i) \<in> set st. fmlookup (intervals r') w = Some (k, i)"
      using lv D(4) Cons e by auto
    ultimately have "relaid r st r'"
      using same_tree_trans [OF same D(1)] unfolding relaid_def by blast
    moreover have "relayout st r = Some r'"
      using r'(1) step unfolding Cons e r1_def by (simp add: relayout.simps [of "(v, l, h) # rest"])
    ultimately show ?thesis by blast
  qed
qed

section \<open>Finding the anchor\<close>

lemma root_no_parent: "rooted (tree_edges r) root N \<Longrightarrow> fmlookup (tree_parent r) root = None"
  using rootedD(5) [of "tree_edges r" root N] by (cases "fmlookup (tree_parent r) root") (auto simp: tree_edges_def)

lemma reindex_ok:
  assumes "tree_wf r root N" "card N \<le> ROOT_CAPACITY"
    and "fmlookup (intervals r) root = Some (1, ROOT_CAPACITY)"
    and "(root, v) \<in> (tree_edges r)\<^sup>*"
    and "\<And>x. (x, v) \<in> (tree_edges r)\<^sup>* \<Longrightarrow>
           \<exists>l h. fmlookup (intervals r) x = Some (l, h) \<and> l \<le> h \<and> h < u64_max"
  shows "\<exists>a l h. (a, v) \<in> (tree_edges r)\<^sup>* \<and> fmlookup (intervals r) a = Some (l, h)
    \<and> l + dsize r a \<le> h + 1 \<and> h < u64_max \<and> reindex v r = relayout [(a, l, h)] r"
  using assms(4,5)
proof (induction rule: rtrancl_induct)
  case base
  note R = tree_wfD(1) [OF assms(1)]
  have cap: "(1 :: nat) \<le> ROOT_CAPACITY" "ROOT_CAPACITY < u64_max"
    by (simp_all add: ROOT_CAPACITY_def u64_max_def)
  have "fmlookup (subtree_size r) root = Some (dsize r root)"
    using tree_wfD(2) [OF assms(1)] rootedD(2) [OF R] by blast
  then have "reindex root r = relayout [(root, 1, ROOT_CAPACITY)] r"
    using cap assms(3) root_no_parent [OF R]
    by (simp add: reindex.simps [of root] chk_sub_def chk_add_def relayout_subtree_def)
  then show ?case
    using assms(2,3) cap desc_root [OF R]
    by (intro exI [of _ root] exI [of _ 1] exI [of _ ROOT_CAPACITY]) simp
next
  case (step u w)
  note R = tree_wfD(1) [OF assms(1)]
  have w: "w \<in> N" using step(2) rootedD(3) [OF R] by blast
  have par: "fmlookup (tree_parent r) w = Some u" using step(2) by (simp add: tree_edges_def)
  obtain l h where lh: "fmlookup (intervals r) w = Some (l, h)" "l \<le> h" "h < u64_max"
    using step.prems [of w] by blast
  have chk: "chk_sub h l = Some (h - l)" "chk_add (h - l) 1 = Some (h - l + 1)"
    using lh by (auto simp: chk_sub_def chk_add_def)
  have unf: "reindex w r =
      (if sat_mul (dsize r w) 2 \<le> h - l + 1 then relayout_subtree r w l h else reindex u r)"
    using par lh(1) chk tree_wfD(2) [OF assms(1) w] by (simp add: reindex.simps [of w])
  show ?case
  proof (cases "sat_mul (dsize r w) 2 \<le> h - l + 1")
    case True
    have "dsize r w \<le> card N" by (rule card_mono [OF rootedD(1) [OF R] desc_subset [OF R w]])
    then have "dsize r w \<le> u64_max" using assms(2) by (simp add: ROOT_CAPACITY_def)
    then have "dsize r w \<le> h - l + 1" using True by (auto simp: sat_mul_def min_def split: if_splits)
    then have "l + dsize r w \<le> h + 1" using lh(2) by linarith
    then show ?thesis
      using True lh unf
      by (intro exI [of _ w] exI [of _ l] exI [of _ h]) (simp add: relayout_subtree_def)
  next
    case False
    have up: "(x, w) \<in> (tree_edges r)\<^sup>*" if "(x, u) \<in> (tree_edges r)\<^sup>*" for x
      using that step(2) by (rule rtrancl_into_rtrancl)
    obtain a l' h' where "(a, u) \<in> (tree_edges r)\<^sup>*" "fmlookup (intervals r) a = Some (l', h')"
        "l' + dsize r a \<le> h' + 1" "h' < u64_max" "reindex u r = relayout [(a, l', h')] r"
      using step.IH step.prems up by blast
    then show ?thesis using False unf up
      by (intro exI [of _ a] exI [of _ l'] exI [of _ h']) simp
  qed
qed

section \<open>The subtree sizes\<close>

lemma bump_sizes_ok:
  fixes parent :: "(block_id, block_id) fmap"
  defines "E \<equiv> {(p, c). fmlookup parent c = Some p}"
  assumes "rooted E root N" "(root, v) \<in> E\<^sup>*"
    and "\<And>x. (x, v) \<in> E\<^sup>* \<Longrightarrow> \<exists>s. fmlookup sizes x = Some s \<and> s < u64_max"
  shows "\<exists>sizes'. bump_sizes parent (Some v) sizes = Some sizes'
    \<and> (\<forall>x. fmlookup sizes' x =
         (if (x, v) \<in> E\<^sup>* then map_option Suc (fmlookup sizes x) else fmlookup sizes x))"
  using assms(3,4)
proof (induction arbitrary: sizes rule: rtrancl_induct)
  case base
  have "fmlookup parent root = None"
    using rootedD(5) [OF assms(2)] by (cases "fmlookup parent root") (auto simp: E_def)
  moreover obtain s where "fmlookup sizes root = Some s" "s < u64_max" using base by blast
  moreover have "(x, root) \<in> E\<^sup>* \<longleftrightarrow> x = root" for x
    using rootedD(5) [OF assms(2)] by (auto elim: rtranclE)
  ultimately show ?case
    by (intro exI [of _ "fmupd root (Suc s) sizes"])
      (simp add: bump_sizes.simps [of parent "Some root"] bump_sizes.simps [of parent None] chk_add_def)
next
  case (step u w)
  have par: "fmlookup parent w = Some u" using step(2) by (simp add: E_def)
  obtain s where s: "fmlookup sizes w = Some s" "s < u64_max" using step.prems by blast
  have anc: "(x, w) \<in> E\<^sup>* \<longleftrightarrow> x = w \<or> (x, u) \<in> E\<^sup>*" for x
    using proper_desc_parent [OF assms(2) _ _ step(2)] step(2) by (auto intro: rtrancl_into_rtrancl)
  have no: "(w, u) \<notin> E\<^sup>*"
    using not_in_kid_desc [OF rootedD(7) [OF assms(2)], of w u] step(2)
      desc_antisym [OF rootedD(7) [OF assms(2)], of u w] rootedD(7) [OF assms(2)]
    by (metis acyclic_def r_into_rtrancl r_into_trancl)
  have "\<exists>t. fmlookup (fmupd w (Suc s) sizes) x = Some t \<and> t < u64_max" if "(x, u) \<in> E\<^sup>*" for x
    using that no step.prems [of x] anc by auto
  from step.IH [OF this] obtain sizes' where
    "bump_sizes parent (Some u) (fmupd w (Suc s) sizes) = Some sizes'"
    "\<forall>x. fmlookup sizes' x = (if (x, u) \<in> E\<^sup>*
        then map_option Suc (fmlookup (fmupd w (Suc s) sizes) x)
        else fmlookup (fmupd w (Suc s) sizes) x)"
    by blast
  then show ?case
    using s par no anc
    by (intro exI [of _ sizes']) (auto simp: bump_sizes.simps [of parent "Some w"] chk_add_def)
qed

end
