(* ===== verification/ReachInv.thy ===== *)
theory ReachInv
  imports ReachLayout
begin

text \<open>
  The invariant of the oracle and its preservation by \<open>add_block\<close>: after every insertion the
  queries answer exactly the ancestor relation of the DAG, and no step overflows, panics or
  loops while the DAG holds at most \<open>ROOT_CAPACITY\<close> blocks.
\<close>

section \<open>The invariant\<close>

definition lay_inv :: "reach \<Rightarrow> block_id \<Rightarrow> block_id set \<Rightarrow> bool" where
  "lay_inv r root N \<longleftrightarrow> tree_wf r root N
     \<and> (\<forall>x \<in> N. fmlookup (intervals r) x \<noteq> None \<and> fmlookup (next_free r) x \<noteq> None)
     \<and> (\<forall>x. x \<notin> N \<longrightarrow> fmlookup (intervals r) x = None)
     \<and> fmlookup (intervals r) root = Some (1, ROOT_CAPACITY)
     \<and> layout_on (tree_edges r) N (ilo r) (ihi r) (nfree r)
     \<and> card N \<le> ROOT_CAPACITY"

definition cov_inv :: "reach \<Rightarrow> block_id set \<Rightarrow> (block_id \<Rightarrow> block_id \<Rightarrow> bool) \<Rightarrow> bool" where
  "cov_inv r N A \<longleftrightarrow> transp A
     \<and> (\<forall>a b. A a b \<longrightarrow> a \<in> N \<and> b \<in> N \<and> a \<noteq> b)
     \<and> (\<forall>(p, c) \<in> tree_edges r. A p c)
     \<and> (\<forall>a. \<forall>c \<in> set (or_default (fcs r) a). c \<in> N \<and> A a c)
     \<and> (\<forall>a b. A a b \<longrightarrow> (a, b) \<in> (tree_edges r)\<^sup>*
          \<or> (\<exists>c \<in> set (or_default (fcs r) a). (c, b) \<in> (tree_edges r)\<^sup>*))"

definition reach_inv ::
    "reach \<Rightarrow> block_id \<Rightarrow> block_id set \<Rightarrow> (block_id \<Rightarrow> block_id \<Rightarrow> bool) \<Rightarrow> bool" where
  "reach_inv r root N A \<longleftrightarrow> lay_inv r root N \<and> cov_inv r N A"

lemma lay_invD:
  assumes "lay_inv r root N"
  shows "tree_wf r root N" "rooted (tree_edges r) root N"
    "x \<in> N \<Longrightarrow> fmlookup (intervals r) x = Some (ilo r x, ihi r x)"
    "x \<in> N \<Longrightarrow> fmlookup (next_free r) x = Some (nfree r x)"
    "x \<notin> N \<Longrightarrow> fmlookup (intervals r) x = None"
    "fmlookup (intervals r) root = Some (1, ROOT_CAPACITY)"
    "layout_on (tree_edges r) N (ilo r) (ihi r) (nfree r)"
    "card N \<le> ROOT_CAPACITY"
  using assms by (auto simp: lay_inv_def ilo_def ihi_def nfree_def dest: tree_wfD(1))

lemma cov_invD:
  assumes "cov_inv r N A"
  shows "transp A" "A a b \<Longrightarrow> a \<in> N \<and> b \<in> N \<and> a \<noteq> b"
    "(p, c) \<in> tree_edges r \<Longrightarrow> A p c"
    "c \<in> set (or_default (fcs r) a) \<Longrightarrow> c \<in> N \<and> A a c"
    "A a b \<Longrightarrow> (a, b) \<in> (tree_edges r)\<^sup>*
       \<or> (\<exists>c \<in> set (or_default (fcs r) a). (c, b) \<in> (tree_edges r)\<^sup>*)"
  using assms unfolding cov_inv_def by blast+

lemma ihi_le_root:
  assumes "lay_inv r root N" "x \<in> N"
  shows "ilo r x \<le> ihi r x" "ihi r x \<le> ROOT_CAPACITY"
proof -
  note D = lay_invD [OF assms(1)]
  show "ilo r x \<le> ihi r x" by (rule layout_lo_le_hi [OF D(7) assms(2)])
  have "ihi r root = ROOT_CAPACITY" using D(6) by (simp add: ihi_def)
  then show "ihi r x \<le> ROOT_CAPACITY"
    using layout_nested [OF D(2) D(7) rootedD(2) [OF D(2)]] rootedD(6) [OF D(2) assms(2)] by force
qed

section \<open>Queries are exact\<close>

lemma tree_reaches_exact:
  assumes "lay_inv r root N"
  shows "tree_reaches r x y \<longleftrightarrow> x \<in> N \<and> y \<in> N \<and> (x, y) \<in> (tree_edges r)\<^sup>*"
proof (cases "x \<in> N \<and> y \<in> N")
  case True
  note D = lay_invD [OF assms]
  then have "tree_reaches r x y \<longleftrightarrow> ilo r x \<le> ilo r y \<and> ilo r y \<le> ihi r x"
    using True by (simp add: tree_reaches_def)
  then show ?thesis using layout_exact [OF D(2,7)] True by blast
next
  case False
  then show ?thesis using lay_invD(5) [OF assms] by (auto simp: tree_reaches_def split: option.splits)
qed

lemma tree_path_ancestor:
  assumes "cov_inv r N A" "(x, y) \<in> (tree_edges r)\<^sup>*" "x \<noteq> y"
  shows "A x y"
proof -
  have "x = y \<or> A x y" using assms(2)
    by (induction rule: rtrancl_induct)
      (use cov_invD(1,3) [OF assms(1)] in \<open>auto dest: transpD\<close>)
  with assms(3) show ?thesis by blast
qed

lemma is_ancestor_exact:
  assumes "reach_inv r root N A"
  shows "is_ancestor r a d \<longleftrightarrow> A a d"
proof -
  have L: "lay_inv r root N" and C: "cov_inv r N A" using assms by (auto simp: reach_inv_def)
  note TR = tree_reaches_exact [OF L]
  have eq: "is_ancestor r a d \<longleftrightarrow> a \<noteq> d \<and> (tree_reaches r a d
      \<or> (\<exists>c \<in> set (or_default (fcs r) a). tree_reaches r c d))"
    by (auto simp: is_ancestor_def or_default_def list_ex_iff split: option.splits)
  show ?thesis
  proof
    assume "is_ancestor r a d"
    then consider "a \<noteq> d" "(a, d) \<in> (tree_edges r)\<^sup>*"
      | c where "c \<in> set (or_default (fcs r) a)" "(c, d) \<in> (tree_edges r)\<^sup>*"
      unfolding eq TR by blast
    then show "A a d"
    proof cases
      case 2
      then show ?thesis
        using cov_invD(1,4) [OF C] tree_path_ancestor [OF C 2(2)] by (cases "c = d") (auto dest: transpD)
    qed (rule tree_path_ancestor [OF C])
  next
    assume "A a d"
    with cov_invD(2,4,5) [OF C] show "is_ancestor r a d" unfolding eq TR by blast
  qed
qed

lemma is_chain_ancestor_exact:
  assumes "reach_inv r root N A"
  shows "is_chain_ancestor r a d \<longleftrightarrow> a \<in> N \<and> (a, d) \<in> (tree_edges r)\<^sup>+"
proof -
  have L: "lay_inv r root N" using assms by (simp add: reach_inv_def)
  note R = lay_invD(2) [OF L]
  have "(a, d) \<in> (tree_edges r)\<^sup>+ \<longleftrightarrow> a \<noteq> d \<and> (a, d) \<in> (tree_edges r)\<^sup>*"
    using rootedD(7) [OF R] by (auto simp: rtrancl_eq_or_trancl acyclic_def)
  moreover have "d \<in> N" if "a \<in> N" "(a, d) \<in> (tree_edges r)\<^sup>*"
    using desc_in [OF R that(1)] that(2) by (simp add: desc_def)
  ultimately show ?thesis by (auto simp: is_chain_ancestor_def tree_reaches_exact [OF L])
qed

section \<open>The binary search\<close>

lemma partition_loop_total:
  "\<forall>x \<in> set xs. p x \<noteq> None \<Longrightarrow> 0 < sz \<Longrightarrow> base + sz \<le> length xs \<Longrightarrow>
    \<exists>i. partition_loop p xs base sz = Some i \<and> base \<le> i \<and> i < base + sz"
proof (induction p xs base sz rule: partition_loop.induct)
  case (1 p xs base sz)
  show ?case
  proof (cases "sz \<le> 1")
    case True
    with 1(3) show ?thesis by (simp add: partition_loop.simps [of p xs base])
  next
    case False
    then have "xs ! (base + sz div 2) \<in> set xs" using 1(4) by (intro nth_mem) linarith
    then obtain b where b: "p (xs ! (base + sz div 2)) = Some b" using 1(2) by blast
    have s: "0 < sz - sz div 2" "(if b then base + sz div 2 else base) + (sz - sz div 2) \<le> length xs"
      using False 1(4) by auto
    obtain i where "partition_loop p xs (if b then base + sz div 2 else base) (sz - sz div 2) = Some i"
      "(if b then base + sz div 2 else base) \<le> i"
      "i < (if b then base + sz div 2 else base) + (sz - sz div 2)"
      using 1(1) [OF False refl b 1(2) s] by blast
    then show ?thesis
      using False b by (intro exI [of _ i]) (auto simp: partition_loop.simps [of p xs base sz] split: if_splits)
  qed
qed

lemma partition_point_total:
  assumes "\<forall>x \<in> set xs. p x \<noteq> None"
  shows "\<exists>i \<le> length xs. partition_point p xs = Some i"
proof (cases "xs = []")
  case False
  then obtain i where i: "partition_loop p xs 0 (length xs) = Some i" "i < length xs"
    using partition_loop_total [OF assms, of "length xs" 0] by auto
  then obtain b where "p (xs ! i) = Some b" using assms nth_mem by blast
  with i False show ?thesis by (auto simp: partition_point_def)
qed (simp add: partition_point_def)

lemma partition_loop_split:
  "\<forall>j < length xs. p (xs ! j) = Some (j < m) \<Longrightarrow> 0 < sz \<Longrightarrow> base + sz \<le> length xs \<Longrightarrow>
   base \<le> m \<Longrightarrow> m \<le> base + sz \<Longrightarrow>
   \<exists>i < length xs. partition_loop p xs base sz = Some i \<and> i \<le> m \<and> m \<le> i + 1"
proof (induction p xs base sz rule: partition_loop.induct)
  case (1 p xs base sz)
  show ?case
  proof (cases "sz \<le> 1")
    case True
    with 1(3-6) show ?thesis by (simp add: partition_loop.simps [of p xs base])
  next
    case False
    let ?b = "base + sz div 2 < m"
    have b: "p (xs ! (base + sz div 2)) = Some ?b" using 1(2,4) False by simp
    have "\<exists>i < length xs. partition_loop p xs (if ?b then base + sz div 2 else base) (sz - sz div 2)
        = Some i \<and> i \<le> m \<and> m \<le> i + 1"
      by (rule 1(1) [OF False refl b 1(2)]) (use False 1(4-6) in auto)
    then show ?thesis using False b by (simp add: partition_loop.simps [of p xs base sz] Let_def)
  qed
qed

text \<open>On a partitioned slice the search returns the partition index.\<close>

lemma partition_point_split:
  assumes "\<forall>j < length xs. p (xs ! j) = Some (j < m)" "m \<le> length xs"
  shows "partition_point p xs = Some m"
proof (cases "xs = []")
  case False
  then obtain i where i: "i < length xs" "partition_loop p xs 0 (length xs) = Some i" "i \<le> m" "m \<le> i + 1"
    using partition_loop_split [OF assms(1), of "length xs" 0] assms(2) by auto
  moreover have "(if i < m then i + 1 else i) = m" using i by auto
  ultimately show ?thesis using assms(1) False by (simp add: partition_point_def)
qed (use assms in \<open>simp add: partition_point_def\<close>)

lemma partition_point_less:
  assumes "sorted xs"
  shows "partition_point (\<lambda>c. Some (c < n)) xs = Some (length (takeWhile (\<lambda>c. c < n) xs))"
proof (rule partition_point_split)
  let ?m = "length (takeWhile (\<lambda>c. c < n) xs)"
  show "\<forall>j < length xs. Some (xs ! j < n) = Some (j < ?m)"
  proof (intro allI impI)
    fix j assume j: "j < length xs"
    show "Some (xs ! j < n) = Some (j < ?m)"
    proof (cases "j < ?m")
      case True
      then have "xs ! j \<in> set (takeWhile (\<lambda>c. c < n) xs)" using takeWhile_nth by (metis nth_mem)
      with True show ?thesis by (auto dest: set_takeWhileD)
    next
      case False
      then have "\<not> xs ! ?m < n" using j nth_length_takeWhile [of "\<lambda>c. c < n" xs] by linarith
      moreover have "xs ! ?m \<le> xs ! j" using False j by (intro sorted_nth_mono [OF assms]) auto
      ultimately show ?thesis using False by auto
    qed
  qed
qed (rule length_takeWhile_le)

lemma set_insert_at [simp]: "set (insert_at i x xs) = insert x (set xs)"
proof -
  have "set xs = set (take i xs) \<union> set (drop i xs)" by (simp flip: set_append)
  then show ?thesis by (simp add: insert_at_def)
qed

lemma distinct_insert_at: "distinct xs \<Longrightarrow> x \<notin> set xs \<Longrightarrow> distinct (insert_at i x xs)"
  unfolding insert_at_def
  by (auto simp: set_take_disj_set_drop_if_distinct dest: in_set_takeD in_set_dropD)

lemma sorted_insert_at:
  assumes "sorted xs"
  shows "sorted (insert_at (length (takeWhile (\<lambda>c. c < n) xs)) n xs)"
proof -
  let ?P = "\<lambda>c. c < n"
  have eq: "insert_at (length (takeWhile ?P xs)) n xs = takeWhile ?P xs @ n # dropWhile ?P xs"
    by (simp add: insert_at_def dropWhile_eq_drop flip: takeWhile_eq_take)
  have "n \<le> c" if "c \<in> set (dropWhile ?P xs)" for c
  proof -
    have "dropWhile ?P xs \<noteq> []"
    proof
      assume "dropWhile ?P xs = []"
      with that have "c \<in> set []" by (simp only:)
      then show False by simp
    qed
    then obtain y ys where d: "dropWhile ?P xs = y # ys" unfolding neq_Nil_conv by blast
    then have "\<not> y < n" using hd_dropWhile [of ?P xs] by auto
    moreover have "sorted (y # ys)" using d sorted_dropWhile [OF assms, of ?P] by simp
    ultimately show ?thesis using that d by fastforce
  qed
  moreover have "c < n" if "c \<in> set (takeWhile ?P xs)" for c using that by (auto dest: set_takeWhileD)
  ultimately show ?thesis
    unfolding eq using sorted_takeWhile [OF assms, of ?P] sorted_dropWhile [OF assms, of ?P]
    by (fastforce simp: sorted_append)
qed

section \<open>Registering the leaf\<close>

lemma or_default_Some: "fmlookup m k = Some xs \<Longrightarrow> or_default m k = xs"
  by (simp add: or_default_def)

lemma or_default_None: "fmlookup m k = None \<Longrightarrow> or_default m k = []"
  by (simp add: or_default_def)

lemma register_leaf_ok:
  assumes "tree_wf r root N" "n \<notin> N" "sp \<in> N" "card N < u64_max"
  shows "\<exists>r1. register_leaf r n sp = Some r1 \<and> tree_wf r1 root (insert n N)
    \<and> tree_edges r1 = insert (sp, n) (tree_edges r)
    \<and> intervals r1 = intervals r \<and> next_free r1 = next_free r \<and> fcs r1 = fcs r"
proof -
  let ?E = "tree_edges r"
  let ?tp = "fmupd n sp (tree_parent r)"
  note R = tree_wfD(1) [OF assms(1)]
  obtain cs where cs: "fmlookup (tree_children r) sp = Some cs" "set cs = kids ?E sp" "distinct cs" "sorted cs"
    using tree_wfD(3) [OF assms(1,3)] by blast
  let ?cs = "insert_at (length (takeWhile (\<lambda>c. c < n) cs)) n cs"
  let ?tc = "fmupd n [] (fmupd sp ?cs (tree_children r))"
  have "fmlookup (tree_parent r) n = None"
  proof (cases "fmlookup (tree_parent r) n")
    case (Some p)
    then have "(p, n) \<in> ?E" by (simp add: tree_edges_def)
    then show ?thesis using rootedD(3) [OF R] assms(2) by blast
  qed
  then have E': "{(p, c). fmlookup ?tp c = Some p} = insert (sp, n) ?E"
    by (auto simp: tree_edges_def)
  have R': "rooted (insert (sp, n) ?E) root (insert n N)" by (rule rooted_add_leaf [OF R assms(2,3)])
  have rt: "(x, sp) \<in> (insert (sp, n) ?E)\<^sup>* \<longleftrightarrow> (x, sp) \<in> ?E\<^sup>*" for x
    using rtrancl_add_leaf [OF rooted_Field [OF R] assms(2,3)] assms(2,3) by auto
  have dn: "(x, sp) \<in> ?E\<^sup>* \<Longrightarrow> x \<in> N" for x
    using fresh_rtrancl [OF rooted_Field [OF R], of x sp] assms(3) by blast
  have small: "dsize r x < u64_max" if "x \<in> N" for x
    using card_mono [OF rootedD(1) [OF R] desc_subset [OF R that]] assms(4) by linarith
  obtain sizes' where sizes': "bump_sizes ?tp (Some sp) (fmupd n 1 (subtree_size r)) = Some sizes'"
    "\<forall>x. fmlookup sizes' x = (if (x, sp) \<in> ?E\<^sup>*
        then map_option Suc (fmlookup (fmupd n 1 (subtree_size r)) x)
        else fmlookup (fmupd n 1 (subtree_size r)) x)"
  proof -
    have "\<exists>s. fmlookup (fmupd n 1 (subtree_size r)) x = Some s \<and> s < u64_max"
      if "(x, sp) \<in> (insert (sp, n) ?E)\<^sup>*" for x
    proof -
      have "x \<in> N" using that dn by (simp add: rt)
      then show ?thesis using small tree_wfD(2) [OF assms(1)] assms(2) by auto
    qed
    moreover have "(root, sp) \<in> (insert (sp, n) ?E)\<^sup>*" using rootedD(6) [OF R assms(3)] by (simp add: rt)
    ultimately show ?thesis
      using bump_sizes_ok [of ?tp root "insert n N" sp "fmupd n 1 (subtree_size r)"] R' that
      unfolding E' rt by blast
  qed
  define r1 where "r1 = r\<lparr>tree_children := ?tc, tree_parent := ?tp, subtree_size := sizes'\<rparr>"
  have E1: "tree_edges r1 = insert (sp, n) ?E" using E' by (simp add: r1_def tree_edges_def)
  have "or_default (fmupd sp ?cs (tree_children r)) n = []"
    using assms(2,3) tree_wfD(4) [OF assms(1,2)] by (intro or_default_None) auto
  then have "register_leaf r n sp = Some r1"
    using partition_point_less [OF cs(4), of n] sizes'(1)
    by (simp add: register_leaf_def or_default_Some [OF cs(1)] r1_def)
  moreover have "fmlookup (subtree_size r1) x = Some (dsize r1 x)" if "x \<in> insert n N" for x
  proof (cases "x = n")
    case True
    then show ?thesis
      using sizes'(2) dn assms(2) desc_new_leaf [OF R assms(2,3)] unfolding E1 by (auto simp: r1_def)
  next
    case False
    then have x: "x \<in> N" using that by simp
    have "n \<notin> desc ?E x" using desc_in [OF R x] assms(2) by blast
    then show ?thesis
      using sizes'(2) False tree_wfD(2) [OF assms(1) x] desc_add_leaf [OF R assms(2,3) x]
        desc_finite [OF R x] unfolding E1 by (simp add: r1_def)
  qed
  moreover have "\<exists>ds. fmlookup (tree_children r1) x = Some ds \<and> set ds = kids (tree_edges r1) x
      \<and> distinct ds \<and> sorted ds" if x: "x \<in> insert n N" for x
  proof -
    consider "x = n" | "x = sp" "x \<noteq> n" | "x \<in> N" "x \<noteq> sp" "x \<noteq> n" using x by blast
    then show ?thesis
    proof cases
      case 1
      have "kids ?E n = {}" using rooted_Field [OF R] assms(2) by (auto simp: kids_def dest: FieldI1)
      then show ?thesis using 1 assms(2,3) unfolding E1 by (auto simp: r1_def kids_add_leaf)
    next
      case 2
      have "n \<notin> set cs" using cs(2) kids_in [OF R] assms(2) by blast
      then show ?thesis
        using 2 cs distinct_insert_at [OF cs(3)] sorted_insert_at [OF cs(4), of n]
        unfolding E1 by (simp add: r1_def kids_add_leaf)
    next
      case 3
      then show ?thesis using tree_wfD(3) [OF assms(1) 3(1)] unfolding E1 by (simp add: r1_def kids_add_leaf)
    qed
  qed
  moreover have "fmlookup (tree_children r1) x = None" if "x \<notin> insert n N" for x
    using that assms(3) tree_wfD(4) [OF assms(1)] by (auto simp: r1_def)
  ultimately show ?thesis
    using R' E1 unfolding tree_wf_def by (intro exI [of _ r1]) (simp add: r1_def)
qed

section \<open>Allocating its interval\<close>

lemma ROOT_CAPACITY_less: "ROOT_CAPACITY < u64_max" "1 \<le> ROOT_CAPACITY"
  by (simp_all add: ROOT_CAPACITY_def u64_max_def)

lemma allocate_free:
  assumes "lay_inv r root N" "n \<notin> N" "sp \<in> N" "card (insert n N) \<le> ROOT_CAPACITY"
    and "tree_wf r1 root (insert n N)" "tree_edges r1 = insert (sp, n) (tree_edges r)"
    and "intervals r1 = intervals r" "next_free r1 = next_free r"
    and "nfree r sp \<le> ihi r sp"
  shows "\<exists>r2. allocate_leaf r1 n sp = Some r2 \<and> lay_inv r2 root (insert n N) \<and> same_tree r1 r2"
proof -
  note D = lay_invD [OF assms(1)]
  let ?lo = "nfree r sp"
  let ?mid = "?lo + (ihi r sp - ?lo) div 2"
  have hi: "ihi r sp \<le> ROOT_CAPACITY" by (rule ihi_le_root(2) [OF assms(1,3)])
  have mid: "?mid \<le> ihi r sp" using assms(9) by linarith
  define r2 where "r2 = r1\<lparr>intervals := fmupd n (?lo, ?mid) (intervals r1),
      next_free := fmupd sp (?mid + 1) (fmupd n (?lo + 1) (next_free r1))\<rparr>"
  have chk: "chk_sub (ihi r sp) ?lo = Some (ihi r sp - ?lo)"
      "chk_add ?lo ((ihi r sp - ?lo) div 2) = Some ?mid"
      "chk_add ?lo 1 = Some (?lo + 1)" "chk_add ?mid 1 = Some (?mid + 1)"
    using assms(9) hi mid ROOT_CAPACITY_less(1) by (auto simp: chk_sub_def chk_add_def)
  have "allocate_leaf r1 n sp = Some r2"
    using D(3,4) [OF assms(3)] assms(7-9) chk by (simp add: allocate_leaf_def r2_def)
  moreover have same: "same_tree r1 r2" by (simp add: r2_def same_tree_def)
  moreover have "lay_inv r2 root (insert n N)"
  proof -
    have f: "ilo r2 = (ilo r)(n := ?lo)" "ihi r2 = (ihi r)(n := ?mid)"
        "nfree r2 = (nfree r)(n := ?lo + 1, sp := ?mid + 1)"
      using assms(7,8) by (auto simp: r2_def ilo_def ihi_def nfree_def fun_eq_iff)
    have "layout_on (tree_edges r2) (insert n N) (ilo r2) (ihi r2) (nfree r2)"
      unfolding f same_tree_edges [OF same] assms(6)
      by (rule layout_add_leaf [OF D(2,7) assms(2,3) _ mid]) simp
    moreover have "root \<noteq> n" using rootedD(2) [OF D(2)] assms(2) by blast
    ultimately show ?thesis
      using assms(3-5,7,8) D same_tree_wf [OF same] unfolding lay_inv_def
      by (auto simp: r2_def)
  qed
  ultimately show ?thesis by blast
qed

lemma allocate_reindex:
  assumes "lay_inv r root N" "n \<notin> N" "sp \<in> N" "card (insert n N) \<le> ROOT_CAPACITY"
    and "tree_wf r1 root (insert n N)" "tree_edges r1 = insert (sp, n) (tree_edges r)"
    and "intervals r1 = intervals r" "next_free r1 = next_free r"
    and "\<not> nfree r sp \<le> ihi r sp"
  shows "\<exists>r2. allocate_leaf r1 n sp = Some r2 \<and> lay_inv r2 root (insert n N) \<and> same_tree r1 r2"
proof -
  note D = lay_invD [OF assms(1)]
  let ?lo = "nfree r sp" and ?E = "tree_edges r" and ?E1 = "insert (sp, n) (tree_edges r)"
  define ra where "ra = r1\<lparr>intervals := fmupd n (?lo, ?lo) (intervals r1),
      next_free := fmupd n ?lo (next_free r1)\<rparr>"
  have same: "same_tree r1 ra" by (simp add: ra_def same_tree_def)
  have Ea: "tree_edges ra = ?E1" using same_tree_edges [OF same] assms(6) by simp
  have wfa: "tree_wf ra root (insert n N)" using assms(5) same_tree_wf [OF same] by simp
  note R1 = rooted_add_leaf [OF D(2) assms(2,3)]
  have rt: "(x, sp) \<in> ?E1\<^sup>* \<longleftrightarrow> (x, sp) \<in> ?E\<^sup>*" for x
    using rtrancl_add_leaf [OF rooted_Field [OF D(2)] assms(2,3)] assms(2,3) by auto
  have inN: "x \<in> N" if "(x, sp) \<in> ?E1\<^sup>*" for x
    using that fresh_rtrancl [OF rooted_Field [OF D(2)], of x sp] assms(3) unfolding rt by blast
  have iva: "fmlookup (intervals ra) x = Some (ilo r x, ihi r x)" if "x \<in> N" for x
    using that D(3) assms(2,7) by (auto simp: ra_def)
  have roota: "fmlookup (intervals ra) root = Some (1, ROOT_CAPACITY)"
    using iva rootedD(2) [OF D(2)] D(3,6) by simp
  have "\<exists>l h. fmlookup (intervals ra) x = Some (l, h) \<and> l \<le> h \<and> h < u64_max"
    if "(x, sp) \<in> (tree_edges ra)\<^sup>*" for x
    using iva ihi_le_root [OF assms(1)] inN that ROOT_CAPACITY_less(1) unfolding Ea
    by (meson order.strict_trans1)
  moreover have "(root, sp) \<in> (tree_edges ra)\<^sup>*"
    using rootedD(6) [OF D(2) assms(3)] unfolding Ea rt .
  ultimately obtain a l h where a: "(a, sp) \<in> ?E1\<^sup>*" "fmlookup (intervals ra) a = Some (l, h)"
      "l + dsize ra a \<le> h + 1" "h < u64_max" "reindex sp ra = relayout [(a, l, h)] ra"
    using reindex_ok [OF wfa assms(4) roota] unfolding Ea by blast
  have aN: "a \<in> N" by (rule inN [OF a(1)])
  have "\<forall>(v, k, i) \<in> set [(a, l, h)]. v \<in> insert n N \<and> k + dsize ra v \<le> i + 1 \<and> i < u64_max"
    using aN a(3,4) by simp
  from relayout_ok [OF wfa this] obtain r2 where
    r2: "relayout [(a, l, h)] ra = Some r2" "relaid ra [(a, l, h)] r2" by auto
  note L = relaidD [OF r2(2), unfolded Ea stk_desc_simps fst_conv Un_empty_right]
  have "allocate_leaf r1 n sp = Some r2"
    using D(3,4) [OF assms(3)] assms(7-9) a(5) r2(1) by (simp add: allocate_leaf_def ra_def)
  moreover have same2: "same_tree r1 r2" by (rule same_tree_trans [OF same L(1)])
  moreover have "lay_inv r2 root (insert n N)"
  proof -
    have E2: "tree_edges r2 = ?E1" using same_tree_edges [OF same2] assms(6) by simp
    have n_in: "n \<in> desc ?E1 a" "sp \<in> desc ?E1 a"
      using a(1) by (auto simp: desc_def intro: rtrancl_into_rtrancl)
    have out: "ilo r2 x = ilo r x \<and> ihi r2 x = ihi r x \<and> nfree r2 x = nfree r x"
      if "x \<notin> desc ?E1 a" for x
      using that n_in L(2,3) [OF that] assms(7,8) by (auto simp: ra_def ilo_def ihi_def nfree_def)
    have keep: "ilo r2 a = ilo r a" "ihi r2 a = ihi r a"
      using L(4) [of a l h] a(2) iva [OF aN] by (simp_all add: ilo_def ihi_def)
    have "layout_on ?E1 (insert n N - desc ?E1 a) (ilo r) (ihi r) (nfree r)"
      by (rule layout_on_mono [OF D(7)]) (use n_in in \<open>auto simp: kids_add_leaf\<close>)
    then have "layout_on ?E1 (insert n N) (ilo r2) (ihi r2) (nfree r2)"
      using layout_replace [OF R1 _ L(7) _ out keep] aN by blast
    moreover have "fmlookup (intervals r2) x \<noteq> None \<and> fmlookup (next_free r2) x \<noteq> None"
      if "x \<in> insert n N" for x
    proof (cases "x \<in> desc ?E1 a")
      case True
      then show ?thesis using L(5,6) by blast
    next
      case False
      then have "x \<in> N" "x \<noteq> n" using n_in that by auto
      then show ?thesis using L(2,3) [OF False] D(3,4) assms(7,8) by (simp add: ra_def)
    qed
    moreover have "fmlookup (intervals r2) x = None" if "x \<notin> insert n N" for x
    proof -
      have "x \<notin> desc ?E1 a" using desc_in [OF R1, of a x] aN that by blast
      then show ?thesis using L(2) D(5) assms(7) that by (auto simp: ra_def)
    qed
    moreover have "fmlookup (intervals r2) root = Some (1, ROOT_CAPACITY)"
    proof (cases "root \<in> desc ?E1 a")
      case True
      then have "a = root"
        using rootedD(5) [OF R1] by (auto simp: desc_def elim: rtranclE)
      then show ?thesis using L(4) [of a l h] a(2) roota by simp
    next
      case False
      then show ?thesis using L(2) roota by simp
    qed
    ultimately show ?thesis
      using assms(4,5) same_tree_wf [OF same2] unfolding lay_inv_def E2 by blast
  qed
  ultimately show ?thesis by blast
qed

lemmas allocate_leaf_ok = allocate_free allocate_reindex

section \<open>The future-covering sets\<close>

lemma drop_covered_ok:
  assumes "lay_inv r root N" "n \<in> N" "kids (tree_edges r) n = {}" "set cs \<subseteq> N"
  shows "\<exists>ds. drop_covered (intervals r) (ilo r n, ihi r n) cs = Some ds
    \<and> set cs - {n} \<subseteq> set ds \<and> set ds \<subseteq> set cs"
  using assms(4)
proof (induction cs)
  case (Cons c cs)
  note D = lay_invD [OF assms(1)]
  have "desc (tree_edges r) n = {n}" using assms(3) by (subst desc_unfold) simp
  then have "ilo r n \<le> ilo r c \<and> ihi r c \<le> ihi r n \<longleftrightarrow> c = n"
    using layout_contains [OF D(2,7) assms(2), of c] Cons.prems by (auto simp: desc_def)
  then show ?case using Cons D(3) [of c] by auto
qed simp

lemma insert_to_fcs_ok:
  assumes "lay_inv r root N" "n \<in> N" "kids (tree_edges r) n = {}"
    and "set (or_default (fcs r) a) \<subseteq> N"
  shows "\<exists>cs. insert_to_future_covering_set r a n = Some (r\<lparr>fcs := fmupd a cs (fcs r)\<rparr>)
    \<and> set (or_default (fcs r) a) - {n} \<subseteq> set cs
    \<and> set cs \<subseteq> insert n (set (or_default (fcs r) a))
    \<and> (\<exists>c \<in> set cs. (c, n) \<in> (tree_edges r)\<^sup>*)"
proof -
  note D = lay_invD [OF assms(1)]
  let ?cs = "or_default (fcs r) a"
  let ?p = "\<lambda>c. map_option (\<lambda>iv. fst iv \<le> ilo r n) (fmlookup (intervals r) c)"
  have iv: "fmlookup (intervals r) c = Some (ilo r c, ihi r c)" if "c \<in> set ?cs" for c
    using D(3) assms(4) that by blast
  then have "\<forall>c \<in> set ?cs. ?p c \<noteq> None" by simp
  from partition_point_total [OF this] obtain pos where
    pos: "pos \<le> length ?cs" "partition_point ?p ?cs = Some pos" by blast
  note n = D(3) [OF assms(2)]
  have upd: "insert_to_future_covering_set r a n =
      (do { covered \<leftarrow> (if pos = 0 then Some False
                 else do {
                   (p_start, p_end) \<leftarrow> fmlookup (intervals r) (?cs ! (pos - 1));
                   Some (p_start \<le> ilo r n \<and> ihi r n \<le> p_end)
                 });
            if covered then Some (r\<lparr>fcs := fmupd a ?cs (fcs r)\<rparr>)
            else do {
              rest \<leftarrow> drop_covered (intervals r) (ilo r n, ihi r n) (drop pos ?cs);
              Some (r\<lparr>fcs := fmupd a (take pos ?cs @ n # rest) (fcs r)\<rparr>)
            } })"
    using n pos(2) by (simp add: insert_to_future_covering_set_def Let_def)
  show ?thesis
  proof (cases "pos \<noteq> 0 \<and> ilo r (?cs ! (pos - 1)) \<le> ilo r n \<and> ihi r n \<le> ihi r (?cs ! (pos - 1))")
    case True
    then have mem: "?cs ! (pos - 1) \<in> set ?cs" using pos(1) by (intro nth_mem) linarith
    then have "(?cs ! (pos - 1), n) \<in> (tree_edges r)\<^sup>*"
      using layout_contains [OF D(2,7) _ assms(2)] assms(4) True by blast
    moreover have "insert_to_future_covering_set r a n = Some (r\<lparr>fcs := fmupd a ?cs (fcs r)\<rparr>)"
      using True iv [OF mem] unfolding upd by simp
    ultimately show ?thesis using mem by (intro exI [of _ ?cs]) auto
  next
    case False
    have "set (drop pos ?cs) \<subseteq> N" using assms(4) by (auto dest: in_set_dropD)
    from drop_covered_ok [OF assms(1-3) this] obtain rest where
      rest: "drop_covered (intervals r) (ilo r n, ihi r n) (drop pos ?cs) = Some rest"
        "set (drop pos ?cs) - {n} \<subseteq> set rest" "set rest \<subseteq> set (drop pos ?cs)" by blast
    have "(if pos = 0 then Some False
             else do {
               (p_start, p_end) \<leftarrow> fmlookup (intervals r) (?cs ! (pos - 1));
               Some (p_start \<le> ilo r n \<and> ihi r n \<le> p_end)
             }) = Some False"
      using False iv [OF nth_mem, of "pos - 1"] pos(1) by auto
    then have "insert_to_future_covering_set r a n
        = Some (r\<lparr>fcs := fmupd a (take pos ?cs @ n # rest) (fcs r)\<rparr>)"
      using rest(1) unfolding upd by simp
    moreover have "set ?cs = set (take pos ?cs) \<union> set (drop pos ?cs)" by (simp flip: set_append)
    ultimately show ?thesis
      using rest(2,3) by (intro exI [of _ "take pos ?cs @ n # rest"]) auto
  qed
qed

lemma tree_edges_fcs [simp]: "tree_edges (r\<lparr>fcs := f\<rparr>) = tree_edges r"
  by (simp add: tree_edges_def)

lemma lay_inv_fcs [simp]: "lay_inv (r\<lparr>fcs := f\<rparr>) root N \<longleftrightarrow> lay_inv r root N"
  by (simp add: lay_inv_def tree_wf_def ilo_def [abs_def] ihi_def [abs_def] nfree_def [abs_def])

text \<open>The loop over the mergeset: every covering set keeps its members but \<open>n\<close>, gains at most
  \<open>n\<close>, and covers \<open>n\<close> for each block of the mergeset.\<close>

lemma insert_to_fcs_of_ok:
  assumes "lay_inv r root N" "n \<in> N" "kids (tree_edges r) n = {}"
    and "\<And>a. set (or_default (fcs r) a) \<subseteq> N"
  shows "\<exists>f. insert_to_fcs_of r M n = Some (r\<lparr>fcs := f\<rparr>)
    \<and> (\<forall>a. a \<notin> set M \<longrightarrow> or_default f a = or_default (fcs r) a)
    \<and> (\<forall>a \<in> set M. set (or_default (fcs r) a) - {n} \<subseteq> set (or_default f a)
          \<and> set (or_default f a) \<subseteq> insert n (set (or_default (fcs r) a))
          \<and> (\<exists>c \<in> set (or_default f a). (c, n) \<in> (tree_edges r)\<^sup>*))"
  using assms
proof (induction M arbitrary: r)
  case Nil
  then show ?case by (intro exI [of _ "fcs r"]) simp
next
  case (Cons m M)
  let ?E = "tree_edges r"
  from insert_to_fcs_ok [OF Cons.prems(1-3), of m] Cons.prems(4) obtain cs where
    cs: "insert_to_future_covering_set r m n = Some (r\<lparr>fcs := fmupd m cs (fcs r)\<rparr>)"
      "set (or_default (fcs r) m) - {n} \<subseteq> set cs" "set cs \<subseteq> insert n (set (or_default (fcs r) m))"
      "\<exists>c \<in> set cs. (c, n) \<in> ?E\<^sup>*"
    by blast
  let ?r = "r\<lparr>fcs := fmupd m cs (fcs r)\<rparr>"
  have od: "or_default (fcs ?r) a = (if a = m then cs else or_default (fcs r) a)" for a
    by (simp add: or_default_def)
  have "set (or_default (fcs ?r) a) \<subseteq> N" for a
    unfolding od using cs(3) Cons.prems(2,4) by auto
  with Cons.IH [of ?r] Cons.prems(1-3) obtain f where
    f: "insert_to_fcs_of ?r M n = Some (?r\<lparr>fcs := f\<rparr>)"
      "\<forall>a. a \<notin> set M \<longrightarrow> or_default f a = or_default (fcs ?r) a"
      "\<forall>a \<in> set M. set (or_default (fcs ?r) a) - {n} \<subseteq> set (or_default f a)
          \<and> set (or_default f a) \<subseteq> insert n (set (or_default (fcs ?r) a))
          \<and> (\<exists>c \<in> set (or_default f a). (c, n) \<in> ?E\<^sup>*)"
    by auto
  have "set (or_default (fcs r) m) - {n} \<subseteq> set (or_default f m)
      \<and> set (or_default f m) \<subseteq> insert n (set (or_default (fcs r) m))
      \<and> (\<exists>c \<in> set (or_default f m). (c, n) \<in> ?E\<^sup>*)"
  proof (cases "m \<in> set M")
    case True
    then have "set cs - {n} \<subseteq> set (or_default f m)" "set (or_default f m) \<subseteq> insert n (set cs)"
        "\<exists>c \<in> set (or_default f m). (c, n) \<in> ?E\<^sup>*"
      using bspec [OF f(3), of m] unfolding od by simp_all
    then show ?thesis using cs(2,3) by blast
  next
    case False
    then have "or_default f m = cs" using f(2) unfolding od by simp
    then show ?thesis using cs(2-4) by simp
  qed
  moreover have "\<forall>a \<in> set M - {m}. set (or_default (fcs r) a) - {n} \<subseteq> set (or_default f a)
      \<and> set (or_default f a) \<subseteq> insert n (set (or_default (fcs r) a))
      \<and> (\<exists>c \<in> set (or_default f a). (c, n) \<in> ?E\<^sup>*)"
  proof
    fix a assume "a \<in> set M - {m}"
    then show "set (or_default (fcs r) a) - {n} \<subseteq> set (or_default f a)
      \<and> set (or_default f a) \<subseteq> insert n (set (or_default (fcs r) a))
      \<and> (\<exists>c \<in> set (or_default f a). (c, n) \<in> ?E\<^sup>*)"
      using bspec [OF f(3), of a] unfolding od by simp
  qed
  ultimately show ?case
    using cs(1) f(1,2) unfolding od by (intro exI [of _ f]) auto
qed

section \<open>One insertion\<close>

text \<open>The ancestor relation after adding \<open>n\<close> with the past \<open>P\<close>.\<close>

definition extend_past ::
    "(block_id \<Rightarrow> block_id \<Rightarrow> bool) \<Rightarrow> block_id \<Rightarrow> block_id set \<Rightarrow> block_id \<Rightarrow> block_id \<Rightarrow> bool" where
  "extend_past A n P x y \<longleftrightarrow> A x y \<or> (y = n \<and> x \<in> P)"

definition past_of :: "(block_id \<Rightarrow> block_id \<Rightarrow> bool) \<Rightarrow> block_id \<Rightarrow> block_id list \<Rightarrow> block_id set" where
  "past_of A sp M = insert sp ({x. A x sp} \<union> set M)"

lemma cov_inv_add:
  assumes "lay_inv r root N" "cov_inv r N A" "n \<notin> N" "sp \<in> N" "set M \<subseteq> N"
    and "\<forall>m \<in> set M. \<forall>x. A x m \<longrightarrow> x \<in> past_of A sp M"
    and "tree_edges r' = insert (sp, n) (tree_edges r)"
    and "\<And>a. a \<notin> set M \<Longrightarrow> or_default (fcs r') a = or_default (fcs r) a"
    and "\<And>a. a \<in> set M \<Longrightarrow> set (or_default (fcs r) a) - {n} \<subseteq> set (or_default (fcs r') a)
          \<and> set (or_default (fcs r') a) \<subseteq> insert n (set (or_default (fcs r) a))
          \<and> (\<exists>c \<in> set (or_default (fcs r') a). (c, n) \<in> (tree_edges r')\<^sup>*)"
  shows "cov_inv r' (insert n N) (extend_past A n (past_of A sp M))"
proof -
  let ?P = "past_of A sp M" and ?A = "extend_past A n (past_of A sp M)"
  note R = lay_invD(2) [OF assms(1)] and C = cov_invD [OF assms(2)]
  have rt: "(x, y) \<in> (tree_edges r')\<^sup>* \<longleftrightarrow> (x, y) \<in> (tree_edges r)\<^sup>* \<or> (y = n \<and> (x, sp) \<in> (tree_edges r)\<^sup>*)"
    for x y unfolding assms(7) by (rule rtrancl_add_leaf [OF rooted_Field [OF R] assms(3,4)])
  have PN: "?P \<subseteq> N" using assms(4,5) C(2) by (auto simp: past_of_def)
  have closed: "x \<in> ?P" if "A x y" "y \<in> ?P" for x y
    using that assms(6) C(1) by (auto simp: past_of_def dest: transpD)
  have keep: "set (or_default (fcs r) a) \<subseteq> set (or_default (fcs r') a)" for a
    using assms(3,8,9) C(4) by (cases "a \<in> set M") fastforce+
  have "transp ?A"
    using C(1,2) closed assms(3) PN unfolding transp_def extend_past_def by blast
  moreover have "a \<in> insert n N \<and> b \<in> insert n N \<and> a \<noteq> b" if "?A a b" for a b
    using that C(2) PN assms(3) by (auto simp: extend_past_def)
  moreover have "?A p c" if "(p, c) \<in> tree_edges r'" for p c
    using that C(3) unfolding assms(7) by (auto simp: extend_past_def past_of_def)
  moreover have "c \<in> insert n N \<and> ?A a c" if "c \<in> set (or_default (fcs r') a)" for a c
  proof (cases "c \<in> set (or_default (fcs r) a)")
    case True
    then show ?thesis using C(4) by (auto simp: extend_past_def)
  next
    case False
    then have "a \<in> set M" "c = n" using that assms(8,9) by (metis, metis insertE subsetD)
    then show ?thesis by (simp add: extend_past_def past_of_def)
  qed
  moreover have "(a, b) \<in> (tree_edges r')\<^sup>*
      \<or> (\<exists>c \<in> set (or_default (fcs r') a). (c, b) \<in> (tree_edges r')\<^sup>*)" if ab: "?A a b" for a b
  proof -
    consider "A a b" | "b = n" "a = sp" | "b = n" "A a sp" | "b = n" "a \<in> set M"
      using ab by (auto simp: extend_past_def past_of_def)
    then show ?thesis
    proof cases
      case 1
      then show ?thesis using C(5) keep rt by blast
    next
      case 2
      then show ?thesis using rt by blast
    next
      case 3
      then show ?thesis using C(5) [of a sp] keep rt by blast
    next
      case 4
      then show ?thesis using assms(9) by blast
    qed
  qed
  ultimately show ?thesis unfolding cov_inv_def by blast
qed

lemma add_block_ok:
  assumes "reach_inv r root N A" "n \<notin> N" "sp \<in> N" "set M \<subseteq> N" "Suc (card N) \<le> ROOT_CAPACITY"
    and "\<forall>m \<in> set M. \<forall>x. A x m \<longrightarrow> x \<in> past_of A sp M"
  shows "\<exists>r'. add_block r n sp M = Some r'
    \<and> reach_inv r' root (insert n N) (extend_past A n (past_of A sp M))
    \<and> tree_edges r' = insert (sp, n) (tree_edges r)"
proof -
  have L: "lay_inv r root N" and C: "cov_inv r N A" using assms(1) by (auto simp: reach_inv_def)
  note D = lay_invD [OF L]
  have card: "card (insert n N) \<le> ROOT_CAPACITY"
    using assms(2,5) rootedD(1) [OF D(2)] by simp
  have "card N < u64_max" using assms(5) ROOT_CAPACITY_less(1) by linarith
  from register_leaf_ok [OF D(1) assms(2,3) this] obtain r1 where
    r1: "register_leaf r n sp = Some r1" "tree_wf r1 root (insert n N)"
      "tree_edges r1 = insert (sp, n) (tree_edges r)" "intervals r1 = intervals r"
      "next_free r1 = next_free r" "fcs r1 = fcs r" by blast
  obtain r2 where r2: "allocate_leaf r1 n sp = Some r2" "lay_inv r2 root (insert n N)" "same_tree r1 r2"
    using allocate_leaf_ok [OF L assms(2,3) card r1(2-5)] by blast
  have E2: "tree_edges r2 = insert (sp, n) (tree_edges r)" and f2: "fcs r2 = fcs r"
    using same_tree_edges [OF r2(3)] r1(3,6) r2(3) by (auto simp: same_tree_def)
  have "kids (tree_edges r2) n = {}"
    unfolding E2 using rooted_Field [OF D(2)] assms(2,3) by (auto simp: kids_def dest: FieldI1)
  from insert_to_fcs_of_ok [OF r2(2) insertI1 this, of M] cov_invD(4) [OF C] obtain f where
    f: "insert_to_fcs_of r2 M n = Some (r2\<lparr>fcs := f\<rparr>)"
      "\<forall>a. a \<notin> set M \<longrightarrow> or_default f a = or_default (fcs r) a"
      "\<forall>a \<in> set M. set (or_default (fcs r) a) - {n} \<subseteq> set (or_default f a)
          \<and> set (or_default f a) \<subseteq> insert n (set (or_default (fcs r) a))
          \<and> (\<exists>c \<in> set (or_default f a). (c, n) \<in> (tree_edges r2)\<^sup>*)"
    unfolding f2 by blast
  have "cov_inv (r2\<lparr>fcs := f\<rparr>) (insert n N) (extend_past A n (past_of A sp M))"
    by (rule cov_inv_add [OF L C assms(2-4,6)]) (use f(2,3) E2 in auto)
  then show ?thesis
    using r1(1) r2(1,2) f(1) E2 by (simp add: add_block_def reach_inv_def)
qed

end
