(* ===== verification/ReachBuild.thy ===== *)
theory ReachBuild
  imports ReachInv
begin

text \<open>
  \<open>Reachability::build\<close>, the construction from scratch.  The nodes of the DAG are passed as the
  list of the entries the code reads of them, in the iteration order of the \<open>HashMap\<close>: id,
  selected parent and parents.  The last section gives the contract of the oracle as a locale and
  interprets it on the model.
\<close>

type_synonym node_view = "block_id \<times> block_id option \<times> block_id list"

definition push_entry :: "(block_id, block_id list) fmap \<Rightarrow> block_id \<Rightarrow> block_id
    \<Rightarrow> (block_id, block_id list) fmap" where
  "push_entry m k x = fmupd k (or_default m k @ [x]) m"

text \<open>The body of the loop over \<open>&dag.nodes\<close>.\<close>

fun collect_edges ::
    "node_view list
     \<Rightarrow> (block_id, block_id list) fmap \<times> (block_id, block_id) fmap \<times> (block_id, block_id list) fmap
     \<Rightarrow> (block_id, block_id list) fmap \<times> (block_id, block_id) fmap \<times> (block_id, block_id list) fmap" where
  "collect_edges [] acc = acc"
| "collect_edges ((n, sp, ps) # rest) (tc, tp, dc) =
     (let tc = fmupd n (or_default tc n) tc;
          (tc, tp) = (case sp of None \<Rightarrow> (tc, tp) | Some s \<Rightarrow> (push_entry tc s n, fmupd n s tp));
          dc = foldl (\<lambda>dc p. push_entry dc p n) dc ps
      in collect_edges rest (tc, tp, dc))"

text \<open>\<open>subtree_sizes\<close>: the post-order stack machine.\<close>

datatype visit = Enter block_id | Exit block_id

fun sum_sizes :: "(block_id, nat) fmap \<Rightarrow> block_id list \<Rightarrow> nat \<Rightarrow> nat option" where
  "sum_sizes sizes [] acc = Some acc"
| "sum_sizes sizes (c # cs) acc = do {
     s \<leftarrow> fmlookup sizes c;
     acc' \<leftarrow> chk_add acc s;
     sum_sizes sizes cs acc'
   }"

partial_function (option) size_loop ::
    "(block_id, block_id list) fmap \<Rightarrow> visit list \<Rightarrow> (block_id, nat) fmap \<Rightarrow> (block_id, nat) fmap option" where
  "size_loop tc stack sizes =
     (case stack of
        [] \<Rightarrow> Some sizes
      | step # rest \<Rightarrow>
          (case step of
             Enter i \<Rightarrow>
               size_loop tc
                 ((case fmlookup tc i of None \<Rightarrow> [] | Some children \<Rightarrow> rev (map Enter children))
                  @ Exit i # rest) (fmupd i 1 sizes)
           | Exit i \<Rightarrow>
               (case fmlookup tc i of
                  None \<Rightarrow> size_loop tc rest sizes
                | Some children \<Rightarrow> do {
                    s \<leftarrow> sum_sizes sizes children 0;
                    s1 \<leftarrow> chk_add 1 s;
                    size_loop tc rest (fmupd i s1 sizes)
                  })))"

definition subtree_sizes :: "block_id \<Rightarrow> (block_id, block_id list) fmap \<Rightarrow> (block_id, nat) fmap option" where
  "subtree_sizes root tc = size_loop tc [Enter root] fmempty"

text \<open>The breadth-first walk over DAG child edges in \<open>build_fcs\<close>: \<open>future\<close> and \<open>queue\<close>.\<close>

fun push_children :: "block_id list \<Rightarrow> block_id fset \<Rightarrow> block_id list \<Rightarrow> block_id fset \<times> block_id list" where
  "push_children [] future queue = (future, queue)"
| "push_children (c # cs) future queue =
     (if c |\<in>| future then push_children cs future queue
      else push_children cs (finsert c future) (queue @ [c]))"

partial_function (option) future_loop ::
    "(block_id, block_id list) fmap \<Rightarrow> block_id list \<Rightarrow> block_id fset \<Rightarrow> block_id fset option" where
  "future_loop dc queue future =
     (case queue of
        [] \<Rightarrow> Some future
      | cur # rest \<Rightarrow>
          (case fmlookup dc cur of
             None \<Rightarrow> future_loop dc rest future
           | Some children \<Rightarrow>
               let (future, queue) = push_children children future rest
               in future_loop dc queue future))"

definition subtree_contains :: "(block_id, nat \<times> nat) fmap \<Rightarrow> block_id \<Rightarrow> block_id \<Rightarrow> bool" where
  "subtree_contains iv x y =
     (case (fmlookup iv x, fmlookup iv y) of
        (Some (xs, xe), Some (ys, ye)) \<Rightarrow> xs \<le> ys \<and> ys \<le> xe
      | _ \<Rightarrow> False)"

text \<open>The two filters that pick the roots of the candidate set; \<open>None\<close> is a missing node.\<close>

fun filter_covers ::
    "(block_id, block_id option) fmap \<Rightarrow> (block_id, nat \<times> nat) fmap \<Rightarrow> block_id fset \<Rightarrow> block_id
     \<Rightarrow> block_id list \<Rightarrow> block_id list option" where
  "filter_covers sps iv future a [] = Some []"
| "filter_covers sps iv future a (c # cs) =
     (if subtree_contains iv a c then filter_covers sps iv future a cs
      else do {
        tree_par \<leftarrow> fmlookup sps c;
        rest \<leftarrow> filter_covers sps iv future a cs;
        let keep = (case tree_par of
                      Some tp \<Rightarrow> subtree_contains iv a tp \<or> tp |\<notin>| future
                    | None \<Rightarrow> True);
        Some (if keep then c # rest else rest)
      })"

definition covers_of ::
    "(block_id, block_id option) fmap \<Rightarrow> (block_id, block_id list) fmap \<Rightarrow> (block_id, nat \<times> nat) fmap
     \<Rightarrow> block_id \<Rightarrow> block_id list option" where
  "covers_of sps dc iv a = do {
     future \<leftarrow> future_loop dc [a] {||};
     covers \<leftarrow> filter_covers sps iv future a (sorted_list_of_fset future);
     Some (sort_key (\<lambda>c. case fmlookup iv c of None \<Rightarrow> 0 | Some (s, e) \<Rightarrow> s) covers)
   }"

fun build_fcs ::
    "(block_id, block_id option) fmap \<Rightarrow> (block_id, block_id list) fmap \<Rightarrow> (block_id, nat \<times> nat) fmap
     \<Rightarrow> block_id list \<Rightarrow> (block_id, block_id list) fmap \<Rightarrow> (block_id, block_id list) fmap option" where
  "build_fcs sps dc iv [] acc = Some acc"
| "build_fcs sps dc iv (a # as) acc = do {
     covers \<leftarrow> covers_of sps dc iv a;
     build_fcs sps dc iv as (if covers = [] then acc else fmupd a covers acc)
   }"

definition build :: "block_id \<Rightarrow> node_view list \<Rightarrow> reach option" where
  "build genesis nodes = do {
     let (tc, tp, dc) = collect_edges nodes (fmempty, fmempty, fmempty);
     let tc = fmmap sort tc;
     sizes \<leftarrow> subtree_sizes genesis tc;
     me \<leftarrow> relayout_subtree
       \<lparr>intervals = fmempty, fcs = fmempty, tree_children = tc, tree_parent = tp,
        subtree_size = sizes, next_free = fmempty\<rparr> genesis 1 ROOT_CAPACITY;
     covering \<leftarrow> build_fcs (fmap_of_list (map (\<lambda>(n, sp, ps). (n, sp)) nodes)) dc (intervals me)
       (map fst nodes) fmempty;
     Some (me\<lparr>fcs := covering\<rparr>)
   }"

section \<open>The seed: a DAG that holds only its genesis\<close>

lemma subtree_sizes_single:
  "subtree_sizes g (fmupd g [] fmempty) = Some (fmupd g 1 (fmupd g 1 fmempty))"
  by (simp add: subtree_sizes_def size_loop.simps [of _ "[Enter g]"] size_loop.simps [of _ "[Exit g]"]
      size_loop.simps [of _ "[]"] chk_add_def u64_max_def)

lemma build_single:
  "\<exists>r. build g [(g, None, [])] = Some r \<and> tree_children r = fmupd g [] fmempty
     \<and> tree_parent r = fmempty \<and> fmlookup (subtree_size r) = [g \<mapsto> 1]
     \<and> fmlookup (intervals r) = [g \<mapsto> (1, ROOT_CAPACITY)] \<and> fmlookup (next_free r) = [g \<mapsto> 2]
     \<and> fcs r = fmempty"
proof -
  have sort: "fmmap sort (fmupd g [] fmempty) = fmupd g ([] :: block_id list) fmempty"
    by (rule fmap_ext) simp
  show ?thesis
    using ROOT_CAPACITY_less
    by (simp add: build_def or_default_def sort subtree_sizes_single relayout_subtree_def
        relayout.simps [of "[(g, Suc 0, ROOT_CAPACITY)]"] relayout.simps [of "[]"] relayout_step_def
        covers_of_def future_loop.simps [of _ "[g]"] future_loop.simps [of _ "[]"]
        chk_sub_def chk_add_def u64_max_def fun_eq_iff Let_def sorted_list_of_fset.rep_eq)
qed

lemma reach_inv_single:
  assumes "build g [(g, None, [])] = Some r"
  shows "reach_inv r g {g} (\<lambda>_ _. False)"
proof -
  have E: "tree_edges r = {}" using build_single [of g] assms by (auto simp: tree_edges_def)
  have "rooted {} g {g}" by (simp add: rooted_def acyclic_def)
  moreover have "desc {} g = {g}" by (auto simp: desc_def)
  ultimately have "tree_wf r g {g}"
    using build_single [of g] assms unfolding tree_wf_def E by (auto simp: kids_def)
  moreover have "layout_on {} {g} (ilo r) (ihi r) (nfree r)"
    using build_single [of g] assms ROOT_CAPACITY_less
    by (auto simp: layout_on_def kids_def ilo_def ihi_def nfree_def ROOT_CAPACITY_def u64_max_def)
  ultimately have "lay_inv r g {g}"
    using build_single [of g] assms ROOT_CAPACITY_less unfolding lay_inv_def E by auto
  moreover have "cov_inv r {g} (\<lambda>_ _. False)"
    using build_single [of g] assms unfolding cov_inv_def E
    by (auto simp: or_default_def transp_def)
  ultimately show ?thesis by (simp add: reach_inv_def)
qed

section \<open>The contract of the oracle\<close>

text \<open>
  What a block store needs of a reachability index: a seed for the genesis, one insertion per
  block with its selected parent and mergeset, and a query.  \<open>inv r N A\<close>: the index \<open>r\<close>
  represents the blocks \<open>N\<close> with ancestor relation \<open>A\<close>.
\<close>

locale reach_index =
  fixes seed :: "block_id \<Rightarrow> 'r option"
    and add :: "'r \<Rightarrow> block_id \<Rightarrow> block_id \<Rightarrow> block_id list \<Rightarrow> 'r option"
    and query :: "'r \<Rightarrow> block_id \<Rightarrow> block_id \<Rightarrow> bool"
    and inv :: "'r \<Rightarrow> block_id \<Rightarrow> block_id set \<Rightarrow> (block_id \<Rightarrow> block_id \<Rightarrow> bool) \<Rightarrow> bool"
    and capacity :: nat
  assumes seed_inv: "\<exists>r. seed g = Some r \<and> inv r g {g} (\<lambda>_ _. False)"
    and add_inv: "inv r g N A \<Longrightarrow> n \<notin> N \<Longrightarrow> sp \<in> N \<Longrightarrow> set M \<subseteq> N \<Longrightarrow> Suc (card N) \<le> capacity \<Longrightarrow>
        (\<forall>m \<in> set M. \<forall>x. A x m \<longrightarrow> x \<in> past_of A sp M) \<Longrightarrow>
        \<exists>r'. add r n sp M = Some r' \<and> inv r' g (insert n N) (extend_past A n (past_of A sp M))"
    and query_exact: "inv r g N A \<Longrightarrow> query r x y = A x y"
begin

text \<open>An insertion never changes an answer about older blocks.\<close>

lemma add_stable:
  assumes "inv r g N A" "n \<notin> N" "sp \<in> N" "set M \<subseteq> N" "Suc (card N) \<le> capacity"
    and "\<forall>m \<in> set M. \<forall>x. A x m \<longrightarrow> x \<in> past_of A sp M" "y \<noteq> n"
  shows "\<exists>r'. add r n sp M = Some r' \<and> query r' x y = query r x y"
proof -
  obtain r' where "add r n sp M = Some r'" "inv r' g (insert n N) (extend_past A n (past_of A sp M))"
    using add_inv [OF assms(1-6)] by blast
  then show ?thesis
    using query_exact [OF assms(1), of x y] query_exact [of r' g "insert n N" _ x y] assms(7)
    by (simp add: extend_past_def)
qed

text \<open>And its answers about the new block are the past it was given.\<close>

lemma add_new:
  assumes "inv r g N A" "n \<notin> N" "sp \<in> N" "set M \<subseteq> N" "Suc (card N) \<le> capacity"
    and "\<forall>m \<in> set M. \<forall>x. A x m \<longrightarrow> x \<in> past_of A sp M"
    and "\<And>x. \<not> A x n"
  shows "\<exists>r'. add r n sp M = Some r' \<and> (query r' x n \<longleftrightarrow> x \<in> past_of A sp M)"
proof -
  obtain r' where "add r n sp M = Some r'" "inv r' g (insert n N) (extend_past A n (past_of A sp M))"
    using add_inv [OF assms(1-6)] by blast
  then show ?thesis
    using query_exact [of r' g "insert n N" _ x n] assms(7) by (simp add: extend_past_def)
qed

end

interpretation reachability: reach_index "\<lambda>g. build g [(g, None, [])]" add_block is_ancestor reach_inv ROOT_CAPACITY
proof
  fix g show "\<exists>r. build g [(g, None, [])] = Some r \<and> reach_inv r g {g} (\<lambda>_ _. False)"
    using build_single [of g] reach_inv_single by blast
next
  fix r g N A n sp M
  assume "reach_inv r g N A" "n \<notin> N" "sp \<in> N" "set M \<subseteq> N" "Suc (card N) \<le> ROOT_CAPACITY"
    "\<forall>m \<in> set M. \<forall>x. A x m \<longrightarrow> x \<in> past_of A sp M"
  then show "\<exists>r'. add_block r n sp M = Some r'
      \<and> reach_inv r' g (insert n N) (extend_past A n (past_of A sp M))"
    using add_block_ok [of r g N A n sp M] by blast
next
  fix r g N A x y
  assume "reach_inv r g N A"
  then show "is_ancestor r x y = A x y" by (rule is_ancestor_exact)
qed

end
