(* ===== verification/DagStore.thy ===== *)
theory DagStore
  imports ReachBuild Difficulty Pow
begin

text \<open>
  \<open>crates/kovanica-dag/src/dag.rs\<close>: the block store, with the parts of it that insertion and
  ordering share (chain key, mergeset, difficulty check).  A \<open>u64\<close> that counts stored blocks
  (\<open>blue_score\<close>, \<open>past_size\<close>) is a natural number, since it never exceeds the number of
  blocks; \<open>blue_work\<close> is a \<open>u128\<close> and wraps.  An outer \<open>None\<close> is a panic.
\<close>

datatype dag_error =
    DuplicateBlock block_id
  | MissingParent block_id
  | NoParents block_id
  | GenesisAlreadySet
  | InvalidBlock block_id string
  | DifficultyMismatch block_id u128 u128
  | NonMonotonicTimestamp block_id u64 u64
  | InsufficientProofOfWork block_id u128

record ghostdag_data =
  selected_parent :: "block_id option"
  mergeset_blues :: "block_id list"
  mergeset_reds :: "block_id list"
  blue_score :: nat
  blue_work :: u128
  blue_anticone_sizes :: "(block_id, u16) fmap"

record block_preview =
  preview_selected_parent :: block_id
  preview_mergeset :: "block_id list"

record node =
  node_block :: block
  past_size :: nat
  children :: "block_id fset"
  ghostdag :: ghostdag_data

record dag =
  dag_k :: u16
  genesis :: block_id
  nodes :: "(block_id, node) fmap"
  tips :: "block_id fset"
  dag_reach :: reach
  difficulty :: "retarget option"
  require_pow :: bool

section \<open>Accessors\<close>

definition set_difficulty :: "dag \<Rightarrow> retarget \<Rightarrow> dag" where
  "set_difficulty d r = d\<lparr>difficulty := Some r\<rparr>"

definition set_proof_of_work :: "dag \<Rightarrow> bool \<Rightarrow> dag" where
  "set_proof_of_work d enabled = d\<lparr>require_pow := enabled\<rparr>"

definition dag_len :: "dag \<Rightarrow> nat" where
  "dag_len d = fcard (fmdom (nodes d))"

definition contains :: "dag \<Rightarrow> block_id \<Rightarrow> bool" where
  "contains d i \<longleftrightarrow> i |\<in>| fmdom (nodes d)"

definition tips_list :: "dag \<Rightarrow> block_id list" where
  "tips_list d = sorted_list_of_fset (tips d)"

definition dag_block :: "dag \<Rightarrow> block_id \<Rightarrow> block option" where
  "dag_block d i = map_option node_block (fmlookup (nodes d) i)"

definition dag_ghostdag :: "dag \<Rightarrow> block_id \<Rightarrow> ghostdag_data option" where
  "dag_ghostdag d i = map_option ghostdag (fmlookup (nodes d) i)"

definition dag_is_ancestor :: "dag \<Rightarrow> block_id \<Rightarrow> block_id \<Rightarrow> bool" where
  "dag_is_ancestor d a b = is_ancestor (dag_reach d) a b"

definition in_anticone :: "dag \<Rightarrow> block_id \<Rightarrow> block_id \<Rightarrow> bool" where
  "in_anticone d a b \<longleftrightarrow> a \<noteq> b \<and> \<not> dag_is_ancestor d a b \<and> \<not> dag_is_ancestor d b a"

section \<open>Selecting a parent\<close>

definition chain_key :: "dag \<Rightarrow> block_id \<Rightarrow> (u128 \<times> nat \<times> block_id) option" where
  "chain_key d i = do {
     g \<leftarrow> dag_ghostdag d i;
     Some (blue_work g, blue_score g, i)
   }"

text \<open>\<open>iter().max_by_key(|p| self.chain_key(p))\<close>; the inner \<open>None\<close> is the empty iterator.\<close>

definition max_by_chain_key :: "dag \<Rightarrow> block_id list \<Rightarrow> block_id option option" where
  "max_by_chain_key d ps = do {
     keys \<leftarrow> those (map (chain_key d) ps);
     Some (map_option snd (max_by_key fst (zip keys ps)))
   }"

section \<open>The mergeset\<close>

text \<open>The backward walk: queue, seen set and mergeset so far.\<close>

partial_function (option) mergeset_loop ::
    "dag \<Rightarrow> block_id \<Rightarrow> block_id list \<Rightarrow> block_id fset \<Rightarrow> block_id list \<Rightarrow> block_id list option" where
  "mergeset_loop d sp queue seen mergeset =
     (case queue of
        [] \<Rightarrow> Some mergeset
      | x # rest \<Rightarrow>
          if x |\<in>| seen then mergeset_loop d sp rest seen mergeset
          else if x = sp \<or> dag_is_ancestor d x sp then mergeset_loop d sp rest (finsert x seen) mergeset
          else do {
            n \<leftarrow> fmlookup (nodes d) x;
            mergeset_loop d sp (rest @ parents (node_block n)) (finsert x seen) (mergeset @ [x])
          })"

text \<open>\<open>(past_size, id)\<close>; it is only computed for stored blocks.\<close>

definition topo_key :: "dag \<Rightarrow> block_id \<Rightarrow> nat \<times> block_id" where
  "topo_key d i = (case fmlookup (nodes d) i of Some n \<Rightarrow> (past_size n, i) | None \<Rightarrow> (0, i))"

definition mergeset_ordered :: "dag \<Rightarrow> block_id \<Rightarrow> block_id list \<Rightarrow> block_id list option" where
  "mergeset_ordered d sp ps = do {
     mergeset \<leftarrow> mergeset_loop d sp ps {||} [];
     Some (sort_key (topo_key d) mergeset)
   }"

section \<open>Enforced difficulty\<close>

text \<open>The walk down the selected chain; the accumulator is already oldest-first.\<close>

partial_function (option) sample_loop ::
    "dag \<Rightarrow> u64 \<Rightarrow> block_id option \<Rightarrow> timed_work list \<Rightarrow> timed_work list option" where
  "sample_loop d wnd cur samples =
     (case cur of
        None \<Rightarrow> Some samples
      | Some i \<Rightarrow> do {
          n \<leftarrow> fmlookup (nodes d) i;
          let samples = \<lparr>tw_timestamp_ms = timestamp_ms (node_block n), tw_work = work (node_block n)\<rparr> # samples;
          if length samples = unat (wnd + 1) then Some samples
          else sample_loop d wnd (selected_parent (ghostdag n)) samples
        })"

definition chain_samples :: "dag \<Rightarrow> block_id \<Rightarrow> u64 \<Rightarrow> timed_work list option" where
  "chain_samples d tip wnd = sample_loop d wnd (Some tip) []"

fun check_timestamps :: "dag \<Rightarrow> block \<Rightarrow> block_id \<Rightarrow> block_id list \<Rightarrow> (dag_error + unit) option" where
  "check_timestamps d b i [] = Some (Inr ())"
| "check_timestamps d b i (p # ps) = do {
     n \<leftarrow> fmlookup (nodes d) p;
     let parent_ts = timestamp_ms (node_block n);
     if timestamp_ms b < parent_ts
     then Some (Inl (NonMonotonicTimestamp i (timestamp_ms b) parent_ts))
     else check_timestamps d b i ps
   }"

definition check_difficulty ::
    "dag \<Rightarrow> block \<Rightarrow> block_id \<Rightarrow> block_id \<Rightarrow> retarget \<Rightarrow> (dag_error + unit) option" where
  "check_difficulty d b i sp r = do {
     ts \<leftarrow> check_timestamps d b i (parents b);
     case ts of
       Inl e \<Rightarrow> Some (Inl e)
     | Inr _ \<Rightarrow> do {
         samples \<leftarrow> chain_samples d sp (window r);
         expected \<leftarrow> next_work r samples;
         Some (if work b \<noteq> expected then Inl (DifficultyMismatch i expected (work b)) else Inr ())
       }
   }"

text \<open>\<open>None\<close> inside: difficulty is off, or no parents.\<close>

definition next_work_target :: "dag \<Rightarrow> block_id list \<Rightarrow> u128 option option" where
  "next_work_target d ps =
     (case difficulty d of
        None \<Rightarrow> Some None
      | Some r \<Rightarrow> do {
          sp \<leftarrow> max_by_chain_key d ps;
          (case sp of
             None \<Rightarrow> Some None
           | Some sp \<Rightarrow> do {
               samples \<leftarrow> chain_samples d sp (window r);
               w \<leftarrow> next_work r samples;
               Some (Some w)
             })
        })"

end
