(* ===== verification/Ghostdag.thy ===== *)
theory Ghostdag
  imports DagStore
begin

text \<open>
  \<open>crates/kovanica-dag/src/ghostdag.rs\<close>: the colouring, and \<open>Dag::preview\<close>, \<open>Dag::insert\<close> and
  \<open>Dag::new\<close> of \<open>dag.rs\<close>, which it completes.  The loop of \<open>try_colour_blue\<close> runs over the
  entries of a \<open>HashMap\<close>: it takes them as a list, and \<open>compute_ghostdag\<close> passes them sorted
  by id; that any other order gives the same answer is a theorem.
\<close>

section \<open>Colouring\<close>

fun try_colour_loop ::
    "dag \<Rightarrow> block_id \<Rightarrow> (block_id \<times> u16) list \<Rightarrow> block_id list \<Rightarrow> block_id list option" where
  "try_colour_loop d candidate [] anticone_blues = Some anticone_blues"
| "try_colour_loop d candidate ((blue, blue_size) # rest) anticone_blues =
     (if \<not> in_anticone d blue candidate then try_colour_loop d candidate rest anticone_blues
      else if word_of_nat (length anticone_blues) + 1 > dag_k d then None
      else if blue_size + 1 > dag_k d then None
      else try_colour_loop d candidate rest (anticone_blues @ [blue]))"

definition try_colour_blue ::
    "dag \<Rightarrow> block_id \<Rightarrow> (block_id \<times> u16) list \<Rightarrow> block_id list option" where
  "try_colour_blue d candidate entries = try_colour_loop d candidate entries []"

fun bump_blues :: "(block_id, u16) fmap \<Rightarrow> block_id list \<Rightarrow> (block_id, u16) fmap option" where
  "bump_blues sizes [] = Some sizes"
| "bump_blues sizes (b # bs) = do {
     s \<leftarrow> fmlookup sizes b;
     bump_blues (fmupd b (s + 1) sizes) bs
   }"

fun colour_mergeset ::
    "dag \<Rightarrow> block_id list \<Rightarrow> (block_id, u16) fmap \<Rightarrow> block_id list \<Rightarrow> block_id list
     \<Rightarrow> ((block_id, u16) fmap \<times> block_id list \<times> block_id list) option" where
  "colour_mergeset d [] sizes blues reds = Some (sizes, blues, reds)"
| "colour_mergeset d (candidate # rest) sizes blues reds =
     (case try_colour_blue d candidate (sorted_list_of_fmap sizes) of
        Some increments \<Rightarrow> do {
          sizes \<leftarrow> bump_blues (fmupd candidate (word_of_nat (length increments)) sizes) increments;
          colour_mergeset d rest sizes (blues @ [candidate]) reds
        }
      | None \<Rightarrow> colour_mergeset d rest sizes blues (reds @ [candidate]))"

fun add_works :: "dag \<Rightarrow> block_id list \<Rightarrow> u128 \<Rightarrow> u128 option" where
  "add_works d [] acc = Some acc"
| "add_works d (b # bs) acc = do {
     n \<leftarrow> fmlookup (nodes d) b;
     add_works d bs (acc + work (node_block n))
   }"

definition select_parent :: "dag \<Rightarrow> block_id list \<Rightarrow> block_id option option" where
  "select_parent d ps = max_by_chain_key d ps"

definition compute_ghostdag :: "dag \<Rightarrow> block_id list \<Rightarrow> ghostdag_data option" where
  "compute_ghostdag d ps = do {
     selected \<leftarrow> select_parent d ps;
     sp \<leftarrow> selected;
     mergeset \<leftarrow> mergeset_ordered d sp ps;
     sp_node \<leftarrow> fmlookup (nodes d) sp;
     (sizes, blues, reds) \<leftarrow>
       colour_mergeset d mergeset (fmupd sp 0 (blue_anticone_sizes (ghostdag sp_node))) [] [];
     bw \<leftarrow> add_works d blues (blue_work (ghostdag sp_node) + work (node_block sp_node));
     Some \<lparr>selected_parent = Some sp, mergeset_blues = blues, mergeset_reds = reds,
           blue_score = blue_score (ghostdag sp_node) + 1 + length blues,
           blue_work = bw, blue_anticone_sizes = sizes\<rparr>
   }"

section \<open>Inserting a block\<close>

type_synonym validator = "(block \<Rightarrow> dag \<Rightarrow> string + unit) option"

definition check_structure :: "dag \<Rightarrow> block_id \<Rightarrow> block \<Rightarrow> dag_error + unit" where
  "check_structure d i b =
     (if contains d i then Inl (DuplicateBlock i)
      else if parents b = [] then Inl (NoParents i)
      else case find (\<lambda>p. \<not> contains d p) (parents b) of
             Some p \<Rightarrow> Inl (MissingParent p)
           | None \<Rightarrow> Inr ())"

definition preview :: "digest \<Rightarrow> dag \<Rightarrow> block \<Rightarrow> (dag_error + block_preview) option" where
  "preview H d b =
     (case check_structure d (block_ident H b) b of
        Inl e \<Rightarrow> Some (Inl e)
      | Inr _ \<Rightarrow> do {
          selected \<leftarrow> max_by_chain_key d (parents b);
          sp \<leftarrow> selected;
          mergeset \<leftarrow> mergeset_ordered d sp (parents b);
          Some (Inr \<lparr>preview_selected_parent = sp, preview_mergeset = mergeset\<rparr>)
        })"

definition validate :: "validator \<Rightarrow> block \<Rightarrow> dag \<Rightarrow> string + unit" where
  "validate v b d = (case v of None \<Rightarrow> Inr () | Some f \<Rightarrow> f b d)"

fun wire_parents ::
    "block_id \<Rightarrow> block_id list \<Rightarrow> (block_id, node) fmap \<Rightarrow> block_id fset
     \<Rightarrow> ((block_id, node) fmap \<times> block_id fset) option" where
  "wire_parents i [] ns ts = Some (ns, ts)"
| "wire_parents i (p # ps) ns ts = do {
     n \<leftarrow> fmlookup ns p;
     wire_parents i ps (fmupd p (n\<lparr>children := finsert i (children n)\<rparr>) ns) (ts |-| {|p|})
   }"

text \<open>The second half of \<open>insert\<close>, once every check has passed.\<close>

definition wire_block :: "dag \<Rightarrow> block_id \<Rightarrow> block \<Rightarrow> block_id \<Rightarrow> ghostdag_data \<Rightarrow> dag option" where
  "wire_block d i b sp gd = do {
     sp_node \<leftarrow> fmlookup (nodes d) sp;
     let size = past_size sp_node + 1 + (length (mergeset_blues gd) + length (mergeset_reds gd));
     let mergeset = mergeset_blues gd @ mergeset_reds gd;
     (ns, ts) \<leftarrow> wire_parents i (parents b) (nodes d) (tips d);
     let ts = finsert i ts;
     let ns = fmupd i \<lparr>node_block = b, past_size = size, children = {||}, ghostdag = gd\<rparr> ns;
     r \<leftarrow> add_block (dag_reach d) i sp mergeset;
     Some (d\<lparr>nodes := ns, tips := ts, dag_reach := r\<rparr>)
   }"

definition dag_insert ::
    "digest \<Rightarrow> validator \<Rightarrow> dag \<Rightarrow> block \<Rightarrow> (dag_error + block_id \<times> dag) option" where
  "dag_insert H v d b =
     (let i = block_ident H b in
      case check_structure d i b of
        Inl e \<Rightarrow> Some (Inl e)
      | Inr _ \<Rightarrow>
        (case validate v b d of
           Inl reason \<Rightarrow> Some (Inl (InvalidBlock i reason))
         | Inr _ \<Rightarrow> do {
             gd \<leftarrow> compute_ghostdag d (parents b);
             sp \<leftarrow> selected_parent gd;
             checked \<leftarrow> (case difficulty d of
                          None \<Rightarrow> Some (Inr ())
                        | Some r \<Rightarrow> check_difficulty d b i sp r);
             (case checked of
                Inl e \<Rightarrow> Some (Inl e)
              | Inr _ \<Rightarrow>
                if require_pow d \<and> \<not> meets_target i (work b)
                then Some (Inl (InsufficientProofOfWork i (work b)))
                else do {
                  d' \<leftarrow> wire_block d i b sp gd;
                  Some (Inr (i, d'))
                })
           }))"

section \<open>A new DAG\<close>

definition genesis_ghostdag :: ghostdag_data where
  "genesis_ghostdag =
     \<lparr>selected_parent = None, mergeset_blues = [], mergeset_reds = [], blue_score = 0,
      blue_work = 0, blue_anticone_sizes = fmempty\<rparr>"

definition dag_view :: "dag \<Rightarrow> node_view list" where
  "dag_view d = map (\<lambda>(i, n). (i, selected_parent (ghostdag n), parents (node_block n)))
     (sorted_list_of_fmap (nodes d))"

definition dag_new :: "digest \<Rightarrow> u16 \<Rightarrow> block \<Rightarrow> dag option" where
  "dag_new H k g = do {
     let gid = block_ident H g;
     let d = \<lparr>dag_k = k, genesis = gid,
              nodes = fmupd gid \<lparr>node_block = g, past_size = 0, children = {||},
                                 ghostdag = genesis_ghostdag\<rparr> fmempty,
              tips = {|gid|}, dag_reach = reach_empty, difficulty = None, require_pow = False\<rparr>;
     r \<leftarrow> build gid (dag_view d);
     Some (d\<lparr>dag_reach := r\<rparr>)
   }"

end
