(* ===== verification/DagGraph.thy ===== *)
theory DagGraph
  imports Ghostdag
begin

text \<open>
  The graph a DAG state stands for, and what the walks over it compute: the ancestor relation,
  the past of a prospective block, and the mergeset as a set.
\<close>

definition ids :: "dag \<Rightarrow> block_id set" where
  "ids d = fset (fmdom (nodes d))"

definition dag_edges :: "dag \<Rightarrow> (block_id \<times> block_id) set" where
  "dag_edges d = {(p, x). \<exists>n. fmlookup (nodes d) x = Some n \<and> p \<in> set (parents (node_block n))}"

definition anc :: "dag \<Rightarrow> block_id \<Rightarrow> block_id \<Rightarrow> bool" where
  "anc d x y \<longleftrightarrow> (x, y) \<in> (dag_edges d)\<^sup>+"

definition past :: "dag \<Rightarrow> block_id \<Rightarrow> block_id set" where
  "past d x = {y. anc d y x}"

definition new_past :: "dag \<Rightarrow> block_id list \<Rightarrow> block_id set" where
  "new_past d ps = {x. \<exists>p \<in> set ps. x = p \<or> anc d x p}"

definition mergeset_set :: "dag \<Rightarrow> block_id \<Rightarrow> block_id list \<Rightarrow> block_id set" where
  "mergeset_set d sp ps = {x \<in> new_past d ps. x \<noteq> sp \<and> \<not> anc d x sp}"

definition graph_ok :: "dag \<Rightarrow> bool" where
  "graph_ok d \<longleftrightarrow> dag_edges d \<subseteq> ids d \<times> ids d
     \<and> reach_inv (dag_reach d) (genesis d) (ids d) (anc d)"

lemma ids_lookup: "x \<in> ids d \<longleftrightarrow> (\<exists>n. fmlookup (nodes d) x = Some n)"
  by (simp add: ids_def fmlookup_fmdom)

lemma contains_ids: "contains d x \<longleftrightarrow> x \<in> ids d"
  by (simp add: contains_def ids_def)

lemma finite_ids [simp]: "finite (ids d)"
  by (simp add: ids_def)

lemma graph_okD:
  assumes "graph_ok d"
  shows "dag_edges d \<subseteq> ids d \<times> ids d" "reach_inv (dag_reach d) (genesis d) (ids d) (anc d)"
  using assms by (auto simp: graph_ok_def)

lemma parents_in_ids:
  "graph_ok d \<Longrightarrow> fmlookup (nodes d) x = Some n \<Longrightarrow> p \<in> set (parents (node_block n)) \<Longrightarrow> p \<in> ids d"
  using graph_okD(1) by (fastforce simp: dag_edges_def)

lemma anc_parent: "fmlookup (nodes d) x = Some n \<Longrightarrow> p \<in> set (parents (node_block n)) \<Longrightarrow> anc d p x"
  by (auto simp: anc_def dag_edges_def)

lemma anc_trans: "anc d x y \<Longrightarrow> anc d y z \<Longrightarrow> anc d x z"
  by (auto simp: anc_def)

lemma new_past_closed: "x \<in> new_past d ps \<Longrightarrow> anc d y x \<Longrightarrow> y \<in> new_past d ps"
  by (auto simp: new_past_def dest: anc_trans)

lemma anc_iff_parent:
  assumes "fmlookup (nodes d) y = Some n"
  shows "anc d x y \<longleftrightarrow> x \<in> new_past d (parents (node_block n))"
proof
  assume "anc d x y"
  then obtain z where "x = z \<or> anc d x z" "(z, y) \<in> dag_edges d"
    unfolding anc_def by (cases rule: tranclE) auto
  then show "x \<in> new_past d (parents (node_block n))"
    using assms by (auto simp: new_past_def dag_edges_def)
next
  assume "x \<in> new_past d (parents (node_block n))"
  then show "anc d x y" using anc_parent [OF assms] anc_trans by (auto simp: new_past_def)
qed

lemma past_eq_new_past:
  "fmlookup (nodes d) y = Some n \<Longrightarrow> past d y = new_past d (parents (node_block n))"
  by (auto simp: past_def anc_iff_parent)

lemma anc_in_ids: "graph_ok d \<Longrightarrow> anc d x y \<Longrightarrow> x \<in> ids d \<and> y \<in> ids d"
  using trancl_subset_Sigma [OF graph_okD(1)] by (auto simp: anc_def)

lemma anc_irrefl: "graph_ok d \<Longrightarrow> \<not> anc d x x"
  using graph_okD(2) by (auto simp: reach_inv_def dest: cov_invD(2))

lemma past_subset: "graph_ok d \<Longrightarrow> past d x \<subseteq> ids d"
  by (auto simp: past_def dest: anc_in_ids)

lemma finite_past: "graph_ok d \<Longrightarrow> finite (past d x)"
  by (rule finite_subset [OF past_subset]) auto

lemma new_past_subset: "graph_ok d \<Longrightarrow> set ps \<subseteq> ids d \<Longrightarrow> new_past d ps \<subseteq> ids d"
  by (auto simp: new_past_def dest: anc_in_ids)

lemma mergeset_subset: "graph_ok d \<Longrightarrow> set ps \<subseteq> ids d \<Longrightarrow> mergeset_set d sp ps \<subseteq> ids d"
  using new_past_subset by (auto simp: mergeset_set_def)

lemma finite_mergeset [simp]: "graph_ok d \<Longrightarrow> set ps \<subseteq> ids d \<Longrightarrow> finite (mergeset_set d sp ps)"
  by (rule finite_subset [OF mergeset_subset]) auto

lemma dag_is_ancestor_exact: "graph_ok d \<Longrightarrow> dag_is_ancestor d x y \<longleftrightarrow> anc d x y"
  unfolding dag_is_ancestor_def by (rule reachability.query_exact [OF graph_okD(2)])

lemma in_anticone_exact:
  "graph_ok d \<Longrightarrow> in_anticone d x y \<longleftrightarrow> x \<noteq> y \<and> \<not> anc d x y \<and> \<not> anc d y x"
  by (simp add: in_anticone_def dag_is_ancestor_exact)

lemma in_anticone_sym: "in_anticone d x y \<longleftrightarrow> in_anticone d y x"
  by (auto simp: in_anticone_def)

lemma new_past_split:
  assumes "sp \<in> set ps"
  shows "new_past d ps = insert sp (past d sp \<union> mergeset_set d sp ps)"
  using assms by (auto simp: mergeset_set_def new_past_def past_def)

lemma past_card_less:
  assumes "graph_ok d" "anc d x y"
  shows "card (past d x) < card (past d y)"
proof (rule psubset_card_mono [OF finite_past [OF assms(1)]])
  have "past d x \<subseteq> past d y" using anc_trans [OF _ assms(2)] by (auto simp: past_def)
  moreover have "x \<in> past d y" "x \<notin> past d x"
    using assms(2) anc_irrefl [OF assms(1)] by (auto simp: past_def)
  ultimately show "past d x \<subset> past d y" by blast
qed

section \<open>The backward walk\<close>

definition bfs_measure :: "dag \<Rightarrow> block_id list \<Rightarrow> block_id fset \<Rightarrow> nat" where
  "bfs_measure d queue seen =
     length queue + (\<Sum>x \<in> ids d - fset seen.
       Suc (case fmlookup (nodes d) x of Some n \<Rightarrow> length (parents (node_block n)) | None \<Rightarrow> 0))"

lemma bfs_measure_seen:
  assumes "x \<in> ids d" "x |\<notin>| seen" "fmlookup (nodes d) x = Some n"
  shows "bfs_measure d q seen = bfs_measure d q (finsert x seen) + Suc (length (parents (node_block n)))"
proof -
  have eq: "ids d - fset seen = insert x (ids d - fset (finsert x seen))" using assms(1,2) by auto
  show ?thesis using assms(3) unfolding bfs_measure_def eq by (subst sum.insert) auto
qed

text \<open>The loop invariant of the walk from \<open>ps\<close>.\<close>

definition bfs_inv :: "dag \<Rightarrow> block_id \<Rightarrow> block_id list \<Rightarrow> block_id list \<Rightarrow> block_id fset \<Rightarrow> block_id list \<Rightarrow> bool" where
  "bfs_inv d sp ps queue seen ms \<longleftrightarrow>
     set ms = {x \<in> fset seen. x \<noteq> sp \<and> \<not> anc d x sp} \<and> distinct ms
     \<and> set queue \<union> fset seen \<subseteq> new_past d ps
     \<and> set ps \<subseteq> set queue \<union> fset seen
     \<and> (\<forall>x \<in> set ms. \<forall>p. (p, x) \<in> dag_edges d \<longrightarrow> p \<in> set queue \<union> fset seen)"

lemma bfs_invD:
  assumes "bfs_inv d sp ps queue seen ms"
  shows "x \<in> set ms \<longleftrightarrow> x |\<in>| seen \<and> x \<noteq> sp \<and> \<not> anc d x sp" "distinct ms"
    "x \<in> set queue \<Longrightarrow> x \<in> new_past d ps" "x |\<in>| seen \<Longrightarrow> x \<in> new_past d ps"
    "x \<in> set ps \<Longrightarrow> x \<in> set queue \<or> x |\<in>| seen"
    "(p, x) \<in> dag_edges d \<Longrightarrow> x |\<in>| seen \<Longrightarrow> x \<noteq> sp \<Longrightarrow> \<not> anc d x sp \<Longrightarrow> p \<in> set queue \<or> p |\<in>| seen"
  using assms unfolding bfs_inv_def by blast+

lemma bfs_invI:
  assumes "\<And>x. x \<in> set ms \<longleftrightarrow> x |\<in>| seen \<and> x \<noteq> sp \<and> \<not> anc d x sp" "distinct ms"
    "\<And>x. x \<in> set queue \<Longrightarrow> x \<in> new_past d ps" "\<And>x. x |\<in>| seen \<Longrightarrow> x \<in> new_past d ps"
    "\<And>x. x \<in> set ps \<Longrightarrow> x \<in> set queue \<or> x |\<in>| seen"
    "\<And>x p. (p, x) \<in> dag_edges d \<Longrightarrow> x |\<in>| seen \<Longrightarrow> x \<noteq> sp \<Longrightarrow> \<not> anc d x sp \<Longrightarrow>
        p \<in> set queue \<or> p |\<in>| seen"
  shows "bfs_inv d sp ps queue seen ms"
  using assms unfolding bfs_inv_def by blast

lemma bfs_closed:
  assumes "bfs_inv d sp ps [] seen ms"
  shows "set ms = mergeset_set d sp ps"
proof
  note I = bfs_invD [OF assms]
  show "set ms \<subseteq> mergeset_set d sp ps" using I(1,4) by (auto simp: mergeset_set_def)
  have close: "x |\<in>| seen" if "anc d x y" "y |\<in>| seen" "x \<noteq> sp" "\<not> anc d x sp" for x y
    using that unfolding anc_def
  proof (induction rule: converse_trancl_induct)
    case (base x)
    then have "y \<noteq> sp" "(y, sp) \<notin> (dag_edges d)\<^sup>+" by (auto intro: trancl_into_trancl2)
    then show ?case using I(6) [OF base(1)] base(2) by (simp add: anc_def)
  next
    case (step x z)
    then have z: "z \<noteq> sp" "(z, sp) \<notin> (dag_edges d)\<^sup>+" by (auto intro: trancl_into_trancl2)
    then show ?case using I(6) [OF step(1)] step by (simp add: anc_def)
  qed
  show "mergeset_set d sp ps \<subseteq> set ms"
  proof
    fix x assume "x \<in> mergeset_set d sp ps"
    then obtain p where p: "p \<in> set ps" "x = p \<or> anc d x p" "x \<noteq> sp" "\<not> anc d x sp"
      by (auto simp: mergeset_set_def new_past_def)
    then show "x \<in> set ms" using I(1) close I(5) [OF p(1)] by auto
  qed
qed

lemma mergeset_loop_ok:
  assumes "graph_ok d" "set ps \<subseteq> ids d" "bfs_inv d sp ps queue seen ms"
  shows "\<exists>ms'. mergeset_loop d sp queue seen ms = Some ms' \<and> distinct ms'
    \<and> set ms' = mergeset_set d sp ps"
  using assms(3)
proof (induction "bfs_measure d queue seen" arbitrary: queue seen ms rule: less_induct)
  case less
  show ?case
  proof (cases queue)
    case Nil
    then show ?thesis
      using bfs_closed bfs_invD(2) less.prems by (simp add: mergeset_loop.simps [of d sp "[]"])
  next
    case (Cons x rest)
    note I = bfs_invD [OF less.prems, unfolded Cons]
    have x: "x \<in> new_past d ps" using I(3) by simp
    then obtain n where n: "fmlookup (nodes d) x = Some n"
      using new_past_subset [OF assms(1,2)] ids_lookup by blast
    have xi: "x \<in> ids d" using n by (auto simp: ids_lookup)
    note unf = mergeset_loop.simps [of d sp "x # rest" seen ms]
    note exact = dag_is_ancestor_exact [OF assms(1)]
    show ?thesis
    proof (cases "x |\<in>| seen")
      case True
      have "bfs_inv d sp ps rest seen ms" by (rule bfs_invI) (use I(1-5) True in \<open>auto dest: I(6)\<close>)
      moreover have "bfs_measure d rest seen < bfs_measure d queue seen" by (simp add: bfs_measure_def Cons)
      ultimately show ?thesis using less.hyps True unf Cons by simp
    next
      case False
      note meas = bfs_measure_seen [OF xi False n]
      show ?thesis
      proof (cases "x = sp \<or> anc d x sp")
        case True
        have "bfs_inv d sp ps rest (finsert x seen) ms"
          by (rule bfs_invI) (use I(1-5) True in \<open>auto dest: I(6)\<close>)
        moreover have "bfs_measure d rest (finsert x seen) < bfs_measure d queue seen"
          using meas [of rest] by (simp add: bfs_measure_def Cons)
        ultimately show ?thesis using less.hyps True False unf Cons exact by simp
      next
        case nb: False
        let ?q = "rest @ parents (node_block n)"
        have par: "p \<in> new_past d ps" if "p \<in> set (parents (node_block n))" for p
          by (rule new_past_closed [OF x anc_parent [OF n that]])
        have edges: "(p, x) \<in> dag_edges d \<longleftrightarrow> p \<in> set (parents (node_block n))" for p
          using n by (auto simp: dag_edges_def)
        have "x \<notin> set ms" using I(1) False by simp
        then have "bfs_inv d sp ps ?q (finsert x seen) (ms @ [x])"
          by (intro bfs_invI) (use I(1-5) nb par edges in \<open>auto dest: I(6)\<close>)
        moreover have "bfs_measure d ?q (finsert x seen) < bfs_measure d queue seen"
          using meas [of rest] by (simp add: bfs_measure_def Cons)
        ultimately show ?thesis using less.hyps nb False unf Cons exact n by simp
      qed
    qed
  qed
qed

section \<open>The ordered mergeset\<close>

lemma topo_key_inj: "inj_on (topo_key d) S"
  by (auto simp: inj_on_def topo_key_def split: option.splits)

text \<open>The walk and the sort together: the mergeset in the order of its keys, whatever the walk's
  own order.\<close>

lemma mergeset_ordered_eq:
  assumes "graph_ok d" "set ps \<subseteq> ids d"
  shows "mergeset_ordered d sp ps
    = Some (sort_key (topo_key d) (sorted_list_of_set (mergeset_set d sp ps)))"
proof -
  have "bfs_inv d sp ps ps {||} []" by (rule bfs_invI) (auto simp: new_past_def)
  from mergeset_loop_ok [OF assms this] obtain ms where
    ms: "mergeset_loop d sp ps {||} [] = Some ms" "distinct ms" "set ms = mergeset_set d sp ps"
    by blast
  have "sort_key (topo_key d) ms
      = sort_key (topo_key d) (sorted_list_of_set (mergeset_set d sp ps))"
    by (rule sort_key_set_eq) (use ms assms topo_key_inj in auto)
  with ms show ?thesis by (simp add: mergeset_ordered_def)
qed

end
