(* ===== verification/Colouring.thy ===== *)
theory Colouring
  imports DagGraph "HOL-Library.Multiset"
begin

text \<open>
  What the colouring loop computes: it never panics, it partitions the mergeset, its answer does
  not depend on the iteration order of the size map, and the size map counts blue anticones modulo
  \<open>2 ^ 16\<close>.  For \<open>k\<close> below the \<open>u16\<close> maximum the counts are exact and stay within \<open>k\<close>; at the
  maximum the comparisons of \<open>try_colour_blue\<close> wrap and every candidate turns blue.
\<close>

section \<open>One candidate\<close>

lemma try_colour_loop_sub:
  "try_colour_loop d c es acc = Some incs \<Longrightarrow>
     incs = acc @ filter (\<lambda>b. in_anticone d b c) (map fst es)"
  by (induction d c es acc rule: try_colour_loop.induct) (auto split: if_splits)

lemma try_colour_cong:
  assumes "dag_k d = dag_k d'" "\<And>b. b \<in> fst ` set es \<Longrightarrow> in_anticone d b c = in_anticone d' b c"
  shows "try_colour_blue d c es = try_colour_blue d' c es"
proof -
  have "try_colour_loop d c es acc = try_colour_loop d' c es acc" for acc
    using assms(2) by (induction es arbitrary: acc) (auto simp: assms(1))
  then show ?thesis by (simp add: try_colour_blue_def)
qed

lemma word_succ_le:
  assumes "n \<le> unat (k :: u16)" "k \<noteq> - 1"
  shows "(word_of_nat n + 1 > k) \<longleftrightarrow> unat k < n + 1"
proof -
  have k: "unat k < unat (- 1 :: u16)"
    using assms(2) by (metis word_less_nat_alt word_order.not_eq_extremum)
  then have n: "unat (word_of_nat n :: u16) = n"
    using assms(1) unsigned_less [of k, where 'a = nat] by (simp add: unat_of_nat)
  then have "(word_of_nat n :: u16) \<noteq> - 1" using k assms(1) by (metis not_le)
  then have "unat (word_of_nat n + 1 :: u16) = n + 1" using n by (simp add: unat_plus_one)
  then show ?thesis by (simp add: word_less_nat_alt)
qed

lemma word_succ_le':
  assumes "unat s \<le> unat (k :: u16)" "k \<noteq> - 1"
  shows "(s + 1 > k) \<longleftrightarrow> \<not> unat s < unat k"
  using word_succ_le [OF assms] by auto

text \<open>The two guards of the loop, as one condition on the blues in the candidate's anticone.\<close>

lemma try_colour_loop_eq:
  assumes "dag_k d \<noteq> - 1" "length acc \<le> unat (dag_k d)" "\<forall>e \<in> set es. unat (snd e) \<le> unat (dag_k d)"
  shows "try_colour_loop d c es acc =
      (if length acc + length (filter (\<lambda>e. in_anticone d (fst e) c) es) \<le> unat (dag_k d)
          \<and> (\<forall>e \<in> set es. in_anticone d (fst e) c \<longrightarrow> unat (snd e) < unat (dag_k d))
       then Some (acc @ map fst (filter (\<lambda>e. in_anticone d (fst e) c) es)) else None)"
  using assms(2,3)
proof (induction es arbitrary: acc)
  case (Cons e rest)
  obtain blue sz where e: "e = (blue, sz)" by (cases e)
  show ?case
  proof (cases "in_anticone d blue c \<and> length acc + 1 \<le> unat (dag_k d) \<and> unat sz < unat (dag_k d)")
    case True
    then have "length (acc @ [blue]) \<le> unat (dag_k d)" by simp
    with Cons.IH [OF this] Cons.prems True show ?thesis
      using word_succ_le [OF Cons.prems(1) assms(1)] word_succ_le' [OF _ assms(1), of sz]
      by (simp add: e)
  next
    case False
    then show ?thesis
      using Cons word_succ_le [OF Cons.prems(1) assms(1)] word_succ_le' [OF _ assms(1), of sz]
      by (auto simp: e)
  qed
qed simp

text \<open>At \<open>k = 65535\<close> no \<open>u16\<close> is greater than \<open>k\<close>: both guards are dead and nothing is refused.\<close>

lemma try_colour_wraps:
  assumes "dag_k d = - 1"
  shows "try_colour_blue d c es = Some (filter (\<lambda>b. in_anticone d b c) (map fst es))"
proof -
  have "try_colour_loop d c es acc = Some (acc @ filter (\<lambda>b. in_anticone d b c) (map fst es))" for acc
    by (induction es arbitrary: acc) (auto simp: assms)
  then show ?thesis by (simp add: try_colour_blue_def)
qed

section \<open>The size map\<close>

lemma set_sorted_list_of_fmap: "set (sorted_list_of_fmap m) = {(k, v). fmlookup m k = Some v}"
  by (auto simp: sorted_list_of_fmap_def fmlookup_fmdom)

lemma map_fst_sorted_list_of_fmap [simp]:
  "map fst (sorted_list_of_fmap m) = sorted_list_of_fset (fmdom m)"
  by (simp add: sorted_list_of_fmap_def comp_def)

lemma bump_blues_ok:
  assumes "distinct bs" "set bs \<subseteq> fset (fmdom m)"
  shows "\<exists>m'. bump_blues m bs = Some m' \<and> fmdom m' = fmdom m
    \<and> (\<forall>b. fmlookup m' b = (if b \<in> set bs then map_option (\<lambda>s. s + 1) (fmlookup m b) else fmlookup m b))"
  using assms
proof (induction bs arbitrary: m)
  case (Cons b bs)
  then obtain s where s: "fmlookup m b = Some s" by (auto simp: fmlookup_fmdom)
  have dom: "fmdom (fmupd b (s + 1) m) = fmdom m" using s fmdomI_Some by fastforce
  obtain m' where "bump_blues (fmupd b (s + 1) m) bs = Some m'" "fmdom m' = fmdom m"
      "\<forall>x. fmlookup m' x = (if x \<in> set bs then map_option (\<lambda>s. s + 1) (fmlookup (fmupd b (s + 1) m) x)
         else fmlookup (fmupd b (s + 1) m) x)"
    using Cons.IH [of "fmupd b (s + 1) m"] Cons.prems unfolding dom by auto
  then show ?case using s Cons.prems(1) by (intro exI [of _ m']) auto
qed simp

definition blue_ids :: "(block_id, u16) fmap \<Rightarrow> block_id set" where
  "blue_ids m = fset (fmdom m)"

text \<open>The blues of \<open>S\<close> in the anticone of \<open>b\<close>.\<close>

definition anticone_in :: "dag \<Rightarrow> block_id set \<Rightarrow> block_id \<Rightarrow> block_id set" where
  "anticone_in d S b = {c \<in> S. in_anticone d b c}"

lemma try_colour_incs:
  assumes "try_colour_blue d c (sorted_list_of_fmap m) = Some incs"
  shows "distinct incs" "set incs = anticone_in d (blue_ids m) c"
proof -
  have eq: "incs = filter (\<lambda>b. in_anticone d b c) (sorted_list_of_fset (fmdom m))"
    using try_colour_loop_sub assms unfolding try_colour_blue_def by fastforce
  show "distinct incs" unfolding eq by simp
  show "set incs = anticone_in d (blue_ids m) c"
    unfolding eq using in_anticone_sym by (auto simp: anticone_in_def blue_ids_def)
qed

text \<open>One blue candidate: the map after it, whatever the sizes.\<close>

lemma colour_step_ok:
  assumes "try_colour_blue d c (sorted_list_of_fmap m) = Some incs"
  shows "\<exists>m'. bump_blues (fmupd c (word_of_nat (length incs)) m) incs = Some m'
    \<and> blue_ids m' = insert c (blue_ids m)
    \<and> (\<forall>b. fmlookup m' b =
         (if b = c then Some (word_of_nat (card (anticone_in d (blue_ids m) c)))
          else if b \<in> anticone_in d (blue_ids m) c then map_option (\<lambda>s. s + 1) (fmlookup m b)
          else fmlookup m b))"
proof -
  note I = try_colour_incs [OF assms]
  have len: "length incs = card (anticone_in d (blue_ids m) c)"
    using I distinct_card [of incs] by simp
  have c: "c \<notin> set incs" unfolding I(2) by (simp add: anticone_in_def in_anticone_def)
  have "set incs \<subseteq> fset (fmdom (fmupd c (word_of_nat (length incs)) m))"
    unfolding I(2) by (auto simp: anticone_in_def blue_ids_def)
  from bump_blues_ok [OF I(1) this] obtain m' where
    "bump_blues (fmupd c (word_of_nat (length incs)) m) incs = Some m'"
    "fmdom m' = fmdom (fmupd c (word_of_nat (length incs)) m)"
    "\<forall>b. fmlookup m' b = (if b \<in> set incs
        then map_option (\<lambda>s. s + 1) (fmlookup (fmupd c (word_of_nat (length incs)) m) b)
        else fmlookup (fmupd c (word_of_nat (length incs)) m) b)" by blast
  then show ?thesis using c unfolding len I(2) by (intro exI [of _ m']) (auto simp: blue_ids_def)
qed

section \<open>The whole mergeset\<close>

lemma colour_mergeset_total:
  "\<exists>m' bs rs. colour_mergeset d cs m blues reds = Some (m', blues @ bs, reds @ rs)
     \<and> blue_ids m' = blue_ids m \<union> set bs \<and> mset cs = mset bs + mset rs"
proof (induction cs arbitrary: m blues reds)
  case Nil
  then show ?case by (intro exI [of _ m] exI [of _ "[]"]) simp
next
  case (Cons c cs)
  show ?case
  proof (cases "try_colour_blue d c (sorted_list_of_fmap m)")
    case None
    obtain m' bs rs where "colour_mergeset d cs m blues (reds @ [c]) = Some (m', blues @ bs, (reds @ [c]) @ rs)"
        "blue_ids m' = blue_ids m \<union> set bs" "mset cs = mset bs + mset rs"
      using Cons.IH by blast
    with None show ?thesis by (intro exI [of _ m'] exI [of _ bs] exI [of _ "c # rs"]) simp
  next
    case (Some incs)
    obtain m1 where m1: "bump_blues (fmupd c (word_of_nat (length incs)) m) incs = Some m1"
        "blue_ids m1 = insert c (blue_ids m)" using colour_step_ok [OF Some] by blast
    obtain m' bs rs where "colour_mergeset d cs m1 (blues @ [c]) reds = Some (m', (blues @ [c]) @ bs, reds @ rs)"
        "blue_ids m' = blue_ids m1 \<union> set bs" "mset cs = mset bs + mset rs"
      using Cons.IH by blast
    with Some m1 show ?thesis by (intro exI [of _ m'] exI [of _ "c # bs"] exI [of _ rs]) auto
  qed
qed

lemma colour_mergeset_cong:
  assumes "dag_k d = dag_k d'" "\<And>x y. x \<in> S \<Longrightarrow> y \<in> S \<Longrightarrow> in_anticone d x y = in_anticone d' x y"
  shows "set cs \<subseteq> S \<Longrightarrow> blue_ids m \<subseteq> S \<Longrightarrow>
    colour_mergeset d cs m blues reds = colour_mergeset d' cs m blues reds"
proof (induction cs arbitrary: m blues reds)
  case (Cons c cs)
  have eq: "try_colour_blue d c (sorted_list_of_fmap m) = try_colour_blue d' c (sorted_list_of_fmap m)"
    using Cons.prems assms by (intro try_colour_cong) (auto simp: blue_ids_def sorted_list_of_fmap_def)
  show ?case
  proof (cases "try_colour_blue d' c (sorted_list_of_fmap m)")
    case (Some incs)
    obtain m1 where "bump_blues (fmupd c (word_of_nat (length incs)) m) incs = Some m1"
        "blue_ids m1 = insert c (blue_ids m)" using colour_step_ok [OF Some] by blast
    with Cons Some eq show ?thesis by simp
  qed (use Cons eq in simp)
qed simp

section \<open>The k-cluster invariant\<close>

definition cluster_ok :: "dag \<Rightarrow> (block_id, u16) fmap \<Rightarrow> bool" where
  "cluster_ok d m \<longleftrightarrow> (\<forall>b s. fmlookup m b = Some s \<longrightarrow>
     unat s = card (anticone_in d (blue_ids m) b) \<and> unat s \<le> unat (dag_k d))"

text \<open>The recorded sizes as \<open>u16\<close> counts, whatever \<open>k\<close> is.\<close>

definition counted :: "dag \<Rightarrow> (block_id, u16) fmap \<Rightarrow> bool" where
  "counted d m \<longleftrightarrow> (\<forall>b s. fmlookup m b = Some s \<longrightarrow> s = word_of_nat (card (anticone_in d (blue_ids m) b)))"

lemma cluster_ok_counted:
  "cluster_ok d m \<longleftrightarrow> counted d m \<and> (\<forall>b \<in> blue_ids m. card (anticone_in d (blue_ids m) b) \<le> unat (dag_k d))"
proof -
  have "unat s = n \<and> unat s \<le> unat (dag_k d) \<longleftrightarrow> s = word_of_nat n \<and> n \<le> unat (dag_k d)" for s :: u16 and n
    using unsigned_less [of "dag_k d", where 'a = nat] by (auto simp: unat_of_nat)
  then show ?thesis by (auto simp: cluster_ok_def counted_def blue_ids_def fmlookup_dom_iff)
qed

lemma finite_blue_ids [simp]: "finite (blue_ids m)"
  by (simp add: blue_ids_def)

lemma finite_anticone_in [simp]: "finite S \<Longrightarrow> finite (anticone_in d S b)"
  by (simp add: anticone_in_def)

lemma anticone_in_insert:
  "anticone_in d (insert c S) b = (if in_anticone d b c then insert c (anticone_in d S b) else anticone_in d S b)"
  by (auto simp: anticone_in_def)

lemma cluster_lookup: "cluster_ok d m \<Longrightarrow> b \<in> blue_ids m \<Longrightarrow>
    \<exists>s. fmlookup m b = Some s \<and> unat s = card (anticone_in d (blue_ids m) b)"
  by (auto simp: cluster_ok_def blue_ids_def fmlookup_fmdom)

text \<open>The rule a candidate is judged by: it turns blue exactly when every blue block, itself
  included, keeps at most \<open>k\<close> blues in its anticone.\<close>

lemma try_colour_rule:
  assumes "dag_k d \<noteq> - 1" "cluster_ok d m" "c \<notin> blue_ids m"
    and "distinct (map fst es)" "set es = {(b, s). fmlookup m b = Some s}"
  shows "(\<exists>incs. try_colour_blue d c es = Some incs) \<longleftrightarrow>
    (\<forall>b \<in> insert c (blue_ids m). card (anticone_in d (insert c (blue_ids m)) b) \<le> unat (dag_k d))"
proof -
  let ?S = "blue_ids m" and ?k = "unat (dag_k d)"
  have ids: "fst ` set es = ?S" unfolding assms(5) by (force simp: blue_ids_def fmlookup_fmdom)
  have le: "\<forall>e \<in> set es. unat (snd e) \<le> ?k" using assms(2) unfolding assms(5) cluster_ok_def by fastforce
  have "length (filter (\<lambda>e. in_anticone d (fst e) c) es)
      = length (filter (\<lambda>b. in_anticone d b c) (map fst es))"
    by (simp add: filter_map comp_def)
  also have "\<dots> = card (set (filter (\<lambda>b. in_anticone d b c) (map fst es)))"
    using assms(4) by (simp only: distinct_card distinct_filter)
  also have "set (filter (\<lambda>b. in_anticone d b c) (map fst es)) = anticone_in d ?S c"
    using ids in_anticone_sym by (auto simp: anticone_in_def)
  finally have len: "length (filter (\<lambda>e. in_anticone d (fst e) c) es) = card (anticone_in d ?S c)" .
  have cc: "anticone_in d (insert c ?S) c = anticone_in d ?S c"
    by (simp add: anticone_in_insert in_anticone_def)
  have bump: "card (anticone_in d (insert c ?S) b) \<le> ?k \<longleftrightarrow>
      (in_anticone d b c \<longrightarrow> unat s < ?k)" if "fmlookup m b = Some s" for b s
  proof -
    have "unat s = card (anticone_in d ?S b)" "unat s \<le> ?k"
      using assms(2) that unfolding cluster_ok_def by blast+
    moreover have "c \<notin> anticone_in d ?S b" using assms(3) by (simp add: anticone_in_def)
    ultimately show ?thesis by (auto simp: anticone_in_insert)
  qed
  have "(\<exists>incs. try_colour_blue d c es = Some incs) \<longleftrightarrow> card (anticone_in d ?S c) \<le> ?k
      \<and> (\<forall>e \<in> set es. in_anticone d (fst e) c \<longrightarrow> unat (snd e) < ?k)"
    unfolding try_colour_blue_def using try_colour_loop_eq [OF assms(1) _ le, of "[]" c] len by simp
  also have "(\<forall>e \<in> set es. in_anticone d (fst e) c \<longrightarrow> unat (snd e) < ?k) \<longleftrightarrow>
      (\<forall>b \<in> ?S. card (anticone_in d (insert c ?S) b) \<le> ?k)"
    using bump unfolding assms(5) by (fastforce simp: blue_ids_def fmlookup_fmdom)
  finally show ?thesis by (auto simp: cc)
qed

lemma counted_step:
  assumes "counted d m" "c \<notin> blue_ids m"
    and "try_colour_blue d c (sorted_list_of_fmap m) = Some incs"
    and "bump_blues (fmupd c (word_of_nat (length incs)) m) incs = Some m'"
  shows "counted d m'"
proof -
  let ?S = "blue_ids m"
  have m': "blue_ids m' = insert c ?S" and look: "\<And>b. fmlookup m' b =
         (if b = c then Some (word_of_nat (card (anticone_in d ?S c)))
          else if b \<in> anticone_in d ?S c then map_option (\<lambda>s. s + 1) (fmlookup m b)
          else fmlookup m b)"
    using colour_step_ok [OF assms(3)] assms(4) by auto
  have "s = word_of_nat (card (anticone_in d (insert c ?S) b))" if s: "fmlookup m' b = Some s" for b s
  proof (cases "b = c")
    case True
    then show ?thesis using s look [of c] by (simp add: anticone_in_insert in_anticone_def)
  next
    case False
    then obtain t where t: "fmlookup m b = Some t" using s look by (auto split: if_splits)
    then have ut: "t = word_of_nat (card (anticone_in d ?S b))" using assms(1) unfolding counted_def by blast
    have "b \<in> ?S" using t by (auto simp: blue_ids_def fmlookup_fmdom)
    then have b: "b \<in> anticone_in d ?S c \<longleftrightarrow> in_anticone d b c"
      using in_anticone_sym [of d b c] by (simp add: anticone_in_def)
    have "c \<notin> anticone_in d ?S b" using assms(2) by (simp add: anticone_in_def)
    then show ?thesis using s look [of b] t False ut b by (auto simp: anticone_in_insert)
  qed
  then show ?thesis by (simp add: counted_def m')
qed

lemma cluster_step:
  assumes "dag_k d \<noteq> - 1" "cluster_ok d m" "c \<notin> blue_ids m"
    and "try_colour_blue d c (sorted_list_of_fmap m) = Some incs"
    and "bump_blues (fmupd c (word_of_nat (length incs)) m) incs = Some m'"
  shows "cluster_ok d m'"
proof -
  have "counted d m'" by (rule counted_step [OF _ assms(3-5)]) (use assms(2) cluster_ok_counted in blast)
  moreover have "blue_ids m' = insert c (blue_ids m)" using colour_step_ok [OF assms(4)] assms(5) by auto
  ultimately show ?thesis
    using try_colour_rule [OF assms(1-3), of "sorted_list_of_fmap m"] assms(4)
    by (simp add: cluster_ok_counted set_sorted_list_of_fmap)
qed

text \<open>What every blue candidate keeps, the loop over the mergeset keeps.\<close>

lemma colour_mergeset_keeps:
  assumes step: "\<And>m c incs m'. P m \<Longrightarrow> c \<notin> blue_ids m \<Longrightarrow> try_colour_blue d c (sorted_list_of_fmap m) = Some incs
      \<Longrightarrow> bump_blues (fmupd c (word_of_nat (length incs)) m) incs = Some m' \<Longrightarrow> P m'"
  shows "P m \<Longrightarrow> distinct cs \<Longrightarrow> set cs \<inter> blue_ids m = {} \<Longrightarrow>
    colour_mergeset d cs m blues reds = Some (m', blues', reds') \<Longrightarrow> P m'"
proof (induction cs arbitrary: m blues reds)
  case (Cons c cs)
  show ?case
  proof (cases "try_colour_blue d c (sorted_list_of_fmap m)")
    case None
    with Cons show ?thesis by simp
  next
    case (Some incs)
    obtain m1 where m1: "bump_blues (fmupd c (word_of_nat (length incs)) m) incs = Some m1"
        "blue_ids m1 = insert c (blue_ids m)" using colour_step_ok [OF Some] by blast
    have "P m1" using step [OF Cons.prems(1) _ Some m1(1)] Cons.prems(3) by simp
    with Cons Some m1 show ?thesis by auto
  qed
qed simp

lemma colour_mergeset_cluster:
  assumes "dag_k d \<noteq> - 1" "cluster_ok d m" "distinct cs" "set cs \<inter> blue_ids m = {}"
    and "colour_mergeset d cs m blues reds = Some (m', blues', reds')"
  shows "cluster_ok d m'"
  by (rule colour_mergeset_keeps [where P = "cluster_ok d", OF cluster_step [OF assms(1)] assms(2-5)])

lemma colour_mergeset_counted:
  assumes "counted d m" "distinct cs" "set cs \<inter> blue_ids m = {}"
    and "colour_mergeset d cs m blues reds = Some (m', blues', reds')"
  shows "counted d m'"
  by (rule colour_mergeset_keeps [where P = "counted d", OF counted_step assms])

lemma colour_mergeset_wraps:
  assumes "dag_k d = - 1"
  shows "colour_mergeset d cs m blues reds = Some (m', blues', reds') \<Longrightarrow> reds' = reds"
proof (induction cs arbitrary: m blues)
  case (Cons c cs)
  then show ?case by (auto simp: try_colour_wraps [OF assms] split: Option.bind_splits)
qed simp

end
