(* ===== verification/DagWf.thy ===== *)
theory DagWf
  imports Colouring
begin

text \<open>
  The invariant of the block DAG: ids are digests, parents are present, sizes of pasts are exact,
  child and tip sets mirror the edges, the oracle is exact, and the consensus data of every block
  is what the colouring computes for its parents.
\<close>

section \<open>Parents by chain key\<close>

definition nd :: "dag \<Rightarrow> block_id \<Rightarrow> node" where
  "nd d x = the (fmlookup (nodes d) x)"

definition ckey :: "dag \<Rightarrow> block_id \<Rightarrow> u128 \<times> nat \<times> block_id" where
  "ckey d x = (blue_work (ghostdag (nd d x)), blue_score (ghostdag (nd d x)), x)"

lemma nd_lookup: "x \<in> ids d \<Longrightarrow> fmlookup (nodes d) x = Some (nd d x)"
  by (auto simp: ids_lookup nd_def)

lemma ckey_inj: "inj_on (ckey d) S"
  by (auto simp: inj_on_def ckey_def)

lemma max_by_key_zip:
  "max_by_key fst (zip (map f xs) xs) = map_option (\<lambda>x. (f x, x)) (max_by_key f xs)"
  by (induction xs) (auto split: option.splits)

lemma max_by_chain_key_eq:
  assumes "set ps \<subseteq> ids d"
  shows "max_by_chain_key d ps = Some (max_by_key (ckey d) ps)"
proof -
  have "those (map (chain_key d) ps) = Some (map (ckey d) ps)"
    using assms
    by (induction ps) (auto simp: chain_key_def dag_ghostdag_def nd_lookup ckey_def)
  then show ?thesis
    by (simp add: max_by_chain_key_def max_by_key_zip option.map_comp comp_def option.map_ident)
qed

section \<open>What the colouring returns\<close>

lemma add_works_total:
  assumes "set bs \<subseteq> ids d"
  shows "add_works d bs acc = Some (acc + sum_list (map (\<lambda>b. work (node_block (nd d b))) bs))"
  using assms by (induction bs arbitrary: acc) (auto simp: nd_lookup add.assoc)

text \<open>The data of a new block over \<open>ps\<close>, relative to its selected parent \<open>sp\<close>.\<close>

definition gd_spec :: "dag \<Rightarrow> block_id list \<Rightarrow> block_id \<Rightarrow> ghostdag_data \<Rightarrow> bool" where
  "gd_spec d ps sp gd \<longleftrightarrow>
     selected_parent gd = Some sp
     \<and> mset (mergeset_blues gd) + mset (mergeset_reds gd) = mset_set (mergeset_set d sp ps)
     \<and> blue_ids (blue_anticone_sizes gd)
         = insert sp (blue_ids (blue_anticone_sizes (ghostdag (nd d sp)))) \<union> set (mergeset_blues gd)
     \<and> blue_score gd = blue_score (ghostdag (nd d sp)) + 1 + length (mergeset_blues gd)
     \<and> blue_work gd = blue_work (ghostdag (nd d sp)) + work (node_block (nd d sp))
         + sum_list (map (\<lambda>b. work (node_block (nd d b))) (mergeset_blues gd))"

lemma compute_ghostdag_ok:
  assumes "graph_ok d" "ps \<noteq> []" "set ps \<subseteq> ids d"
  shows "\<exists>gd sp. compute_ghostdag d ps = Some gd \<and> max_by_key (ckey d) ps = Some sp \<and> sp \<in> set ps
    \<and> gd_spec d ps sp gd
    \<and> colour_mergeset d (sort_key (topo_key d) (sorted_list_of_set (mergeset_set d sp ps)))
        (fmupd sp 0 (blue_anticone_sizes (ghostdag (nd d sp)))) [] []
      = Some (blue_anticone_sizes gd, mergeset_blues gd, mergeset_reds gd)"
proof -
  obtain sp where sp: "max_by_key (ckey d) ps = Some sp" using max_by_key_nonempty [OF assms(2)] by blast
  have spi: "sp \<in> set ps" "sp \<in> ids d" using max_by_key_in [OF sp] assms(3) by auto
  let ?M = "mergeset_set d sp ps"
  let ?ms = "sort_key (topo_key d) (sorted_list_of_set ?M)"
  obtain m bs rs where c:
    "colour_mergeset d ?ms (fmupd sp 0 (blue_anticone_sizes (ghostdag (nd d sp)))) [] [] = Some (m, bs, rs)"
    "blue_ids m = blue_ids (fmupd sp 0 (blue_anticone_sizes (ghostdag (nd d sp)))) \<union> set bs"
    "mset ?ms = mset bs + mset rs"
    using colour_mergeset_total [of d ?ms _ "[]" "[]"] by (metis append_Nil)
  have fin: "finite ?M" using assms by simp
  have ms: "mset ?ms = mset_set ?M" using fin mset_set_set [of "sorted_list_of_set ?M"] by simp
  have "set bs \<subseteq> ?M" using c(3) ms fin by (metis finite_set_mset_mset_set set_mset_mset set_mset_union Un_upper1)
  then have "set bs \<subseteq> ids d" using mergeset_subset [OF assms(1,3)] by blast
  note W = add_works_total [OF this]
  define gd where "gd = \<lparr>selected_parent = Some sp, mergeset_blues = bs, mergeset_reds = rs,
      blue_score = blue_score (ghostdag (nd d sp)) + 1 + length bs,
      blue_work = blue_work (ghostdag (nd d sp)) + work (node_block (nd d sp))
        + sum_list (map (\<lambda>b. work (node_block (nd d b))) bs),
      blue_anticone_sizes = m\<rparr>"
  have "compute_ghostdag d ps = Some gd"
    using sp spi c(1) W
    by (simp add: compute_ghostdag_def select_parent_def max_by_chain_key_eq [OF assms(3)]
        mergeset_ordered_eq [OF assms(1,3)] nd_lookup gd_def)
  moreover have "gd_spec d ps sp gd"
    using c(2,3) ms by (simp add: gd_spec_def gd_def blue_ids_def)
  ultimately show ?thesis using sp spi c(1) by (auto simp: gd_def)
qed

section \<open>Agreement of two DAGs on a closed set of blocks\<close>

definition same_data :: "node \<Rightarrow> node \<Rightarrow> bool" where
  "same_data n n' \<longleftrightarrow> node_block n' = node_block n \<and> past_size n' = past_size n \<and> ghostdag n' = ghostdag n"

definition agree_on :: "dag \<Rightarrow> dag \<Rightarrow> block_id set \<Rightarrow> bool" where
  "agree_on d d' S \<longleftrightarrow> dag_k d' = dag_k d \<and> S \<subseteq> ids d \<and> S \<subseteq> ids d'
     \<and> (\<forall>x \<in> S. same_data (nd d x) (nd d' x)) \<and> (\<forall>x \<in> S. past d x \<subseteq> S)"

lemma agree_onD:
  assumes "agree_on d d' S"
  shows "dag_k d' = dag_k d" "S \<subseteq> ids d" "S \<subseteq> ids d'" "x \<in> S \<Longrightarrow> same_data (nd d x) (nd d' x)"
    "x \<in> S \<Longrightarrow> anc d y x \<Longrightarrow> y \<in> S"
  using assms by (auto simp: agree_on_def past_def)

lemma edges_nd: "x \<in> ids d \<Longrightarrow> (p, x) \<in> dag_edges d \<longleftrightarrow> p \<in> set (parents (node_block (nd d x)))"
  by (auto simp: dag_edges_def nd_def ids_lookup)

lemma agree_edges:
  assumes "agree_on d d' S" "x \<in> S"
  shows "(p, x) \<in> dag_edges d \<longleftrightarrow> (p, x) \<in> dag_edges d'"
  using agree_onD(2-4) [OF assms(1)] assms(2) by (auto simp: edges_nd subset_iff same_data_def)

lemma agree_anc:
  assumes "agree_on d d' S" "x \<in> S"
  shows "anc d y x \<longleftrightarrow> anc d' y x"
proof
  have "x \<in> S \<longrightarrow> (y, x) \<in> (dag_edges d')\<^sup>+" if "(y, x) \<in> (dag_edges d)\<^sup>+" for x
    using that
  proof (induction rule: trancl_induct)
    case (step z w)
    show ?case
    proof
      assume w: "w \<in> S"
      then have "z \<in> S" using agree_onD(5) [OF assms(1) w, of z] step(2) by (auto simp: anc_def)
      then show "(y, w) \<in> (dag_edges d')\<^sup>+"
        using step agree_edges [OF assms(1) w] by (auto intro: trancl_into_trancl)
    qed
  qed (use agree_edges [OF assms(1)] in blast)
  then show "anc d y x \<Longrightarrow> anc d' y x" using assms(2) by (simp add: anc_def)
  have "x \<in> S \<longrightarrow> (y, x) \<in> (dag_edges d)\<^sup>+" if "(y, x) \<in> (dag_edges d')\<^sup>+" for x
    using that
  proof (induction rule: trancl_induct)
    case (step z w)
    show ?case
    proof
      assume w: "w \<in> S"
      then have e: "(z, w) \<in> dag_edges d" using step(2) agree_edges [OF assms(1)] by blast
      then have "z \<in> S" using agree_onD(5) [OF assms(1) w, of z] by (auto simp: anc_def)
      then show "(y, w) \<in> (dag_edges d)\<^sup>+" using step e by (auto intro: trancl_into_trancl)
    qed
  qed (use agree_edges [OF assms(1)] in blast)
  then show "anc d' y x \<Longrightarrow> anc d y x" using assms(2) by (simp add: anc_def)
qed

lemma agree_past: "agree_on d d' S \<Longrightarrow> x \<in> S \<Longrightarrow> past d' x = past d x"
  by (auto simp: past_def agree_anc)

lemma agree_new_past:
  assumes "agree_on d d' S" "set ps \<subseteq> S"
  shows "new_past d' ps = new_past d ps" "new_past d ps \<subseteq> S"
  using assms agree_anc [OF assms(1)] agree_onD(5) [OF assms(1)] by (auto simp: new_past_def subset_iff)

lemma agree_mergeset:
  assumes "agree_on d d' S" "set ps \<subseteq> S" "sp \<in> S"
  shows "mergeset_set d' sp ps = mergeset_set d sp ps" "mergeset_set d sp ps \<subseteq> S"
  using agree_new_past [OF assms(1,2)] agree_anc [OF assms(1,3)] by (auto simp: mergeset_set_def)

lemma topo_key_nd: "x \<in> ids d \<Longrightarrow> topo_key d x = (past_size (nd d x), x)"
  by (simp add: topo_key_def nd_lookup)

lemma agree_topo:
  assumes "agree_on d d' S" "x \<in> S"
  shows "topo_key d' x = topo_key d x"
proof -
  have "x \<in> ids d" "x \<in> ids d'" using agree_onD(2,3) [OF assms(1)] assms(2) by auto
  then show ?thesis using agree_onD(4) [OF assms] by (simp add: topo_key_nd same_data_def)
qed

lemma agree_ckey: "agree_on d d' S \<Longrightarrow> x \<in> S \<Longrightarrow> ckey d' x = ckey d x"
  using agree_onD(4) [of d d' S x] by (simp add: ckey_def same_data_def)

lemma agree_anticone:
  assumes "graph_ok d" "graph_ok d'" "agree_on d d' S" "x \<in> S" "y \<in> S"
  shows "in_anticone d x y = in_anticone d' x y"
  using agree_anc [OF assms(3)] assms(4,5) by (simp add: in_anticone_exact assms(1,2))

text \<open>
  The consensus data of a block is a function of its past alone: two DAGs that agree on a closed
  set containing the parents compute the same data.
\<close>

lemma compute_ghostdag_agree:
  assumes "graph_ok d" "graph_ok d'" "agree_on d d' S" "ps \<noteq> []" "set ps \<subseteq> S"
    and "\<And>x. x \<in> S \<Longrightarrow> blue_ids (blue_anticone_sizes (ghostdag (nd d x))) \<subseteq> S"
  shows "compute_ghostdag d' ps = compute_ghostdag d ps"
proof -
  note A = agree_onD [OF assms(3)]
  have ids: "set ps \<subseteq> ids d" "set ps \<subseteq> ids d'" using assms(5) A(2,3) by auto
  obtain sp where sp: "max_by_key (ckey d) ps = Some sp" using max_by_key_nonempty [OF assms(4)] by blast
  have spS: "sp \<in> S" using max_by_key_in [OF sp] assms(5) by auto
  have sp': "max_by_key (ckey d') ps = Some sp"
    using sp max_by_key_cong [of ps "ckey d'" "ckey d"] agree_ckey [OF assms(3)] assms(5) by auto
  note M = agree_mergeset [OF assms(3,5) spS]
  let ?M = "mergeset_set d sp ps"
  have fin: "finite ?M" using assms(1) ids by simp
  have ms: "sort_key (topo_key d') (sorted_list_of_set ?M) = sort_key (topo_key d) (sorted_list_of_set ?M)"
    using M(2) fin agree_topo [OF assms(3)] by (intro sort_key_cong_on) auto
  have same: "same_data (nd d sp) (nd d' sp)" by (rule A(4) [OF spS])
  let ?ms = "sort_key (topo_key d) (sorted_list_of_set ?M)"
  have col: "colour_mergeset d' ?ms m [] [] = colour_mergeset d ?ms m [] []"
    if "blue_ids m \<subseteq> S" for m
    by (rule colour_mergeset_cong [symmetric, of d d' S])
      (use A(1) agree_anticone [OF assms(1-3)] M(2) fin that in auto)
  have w: "add_works d' bs acc = add_works d bs acc" if "set bs \<subseteq> S" for bs acc
  proof -
    have "map (\<lambda>b. work (node_block (nd d' b))) bs = map (\<lambda>b. work (node_block (nd d b))) bs"
      using A(4) that by (auto simp: same_data_def)
    moreover have "set bs \<subseteq> ids d" "set bs \<subseteq> ids d'" using that A(2,3) by auto
    ultimately show ?thesis by (simp only: add_works_total)
  qed
  obtain m bs rs where c: "colour_mergeset d ?ms (fmupd sp 0 (blue_anticone_sizes (ghostdag (nd d sp)))) [] []
      = Some (m, bs, rs)" "mset ?ms = mset bs + mset rs"
    using colour_mergeset_total [of d ?ms _ "[]" "[]"] by (metis append_Nil)
  then have bs: "set bs \<subseteq> S"
    using M(2) fin by (metis set_mset_mset set_mset_union set_sort set_sorted_list_of_set Un_upper1 order.trans)
  have bsp: "blue_ids (fmupd sp 0 (blue_anticone_sizes (ghostdag (nd d sp)))) \<subseteq> S"
    using assms(6) [OF spS] spS by (auto simp: blue_ids_def)
  have look: "fmlookup (nodes d) sp = Some (nd d sp)" "fmlookup (nodes d') sp = Some (nd d' sp)"
    using spS A(2,3) nd_lookup by blast+
  show ?thesis
    using same c(1) w [OF bs] col [OF bsp] look
    by (simp add: compute_ghostdag_def select_parent_def max_by_chain_key_eq ids sp sp'
        mergeset_ordered_eq [OF assms(1) ids(1)] mergeset_ordered_eq [OF assms(2) ids(2)] M(1) ms same_data_def)
qed

end
