(* ===== verification/DagInv.thy ===== *)
theory DagInv
  imports DagWf
begin

text \<open>
  \<open>wf_dag\<close> holds of a new DAG and every insertion keeps it; insertion never panics while the DAG
  holds fewer than \<open>ROOT_CAPACITY\<close> blocks.
\<close>

definition sp_edges :: "dag \<Rightarrow> (block_id \<times> block_id) set" where
  "sp_edges d = {(p, x). x \<in> ids d \<and> selected_parent (ghostdag (nd d x)) = Some p}"

definition node_ok :: "digest \<Rightarrow> dag \<Rightarrow> block_id \<Rightarrow> bool" where
  "node_ok H d x \<longleftrightarrow>
     x = block_ident H (node_block (nd d x))
     \<and> past_size (nd d x) = card (past d x)
     \<and> fset (children (nd d x)) = {c. (x, c) \<in> dag_edges d}
     \<and> blue_ids (blue_anticone_sizes (ghostdag (nd d x))) \<subseteq> past d x
     \<and> (if x = genesis d
        then parents (node_block (nd d x)) = [] \<and> ghostdag (nd d x) = genesis_ghostdag
        else parents (node_block (nd d x)) \<noteq> []
          \<and> compute_ghostdag d (parents (node_block (nd d x))) = Some (ghostdag (nd d x)))"

definition wf_dag :: "digest \<Rightarrow> dag \<Rightarrow> bool" where
  "wf_dag H d \<longleftrightarrow> graph_ok d \<and> genesis d \<in> ids d \<and> (\<forall>x \<in> ids d. node_ok H d x)
     \<and> fset (tips d) = {x \<in> ids d. \<forall>c. (x, c) \<notin> dag_edges d}
     \<and> tree_edges (dag_reach d) = sp_edges d"

lemma wf_dagD:
  assumes "wf_dag H d"
  shows "graph_ok d" "genesis d \<in> ids d"
    "fset (tips d) = {x \<in> ids d. \<forall>c. (x, c) \<notin> dag_edges d}"
    "tree_edges (dag_reach d) = sp_edges d"
    "x \<in> ids d \<Longrightarrow> x = block_ident H (node_block (nd d x))"
    "x \<in> ids d \<Longrightarrow> past_size (nd d x) = card (past d x)"
    "x \<in> ids d \<Longrightarrow> fset (children (nd d x)) = {c. (x, c) \<in> dag_edges d}"
    "x \<in> ids d \<Longrightarrow> blue_ids (blue_anticone_sizes (ghostdag (nd d x))) \<subseteq> past d x"
    "parents (node_block (nd d (genesis d))) = []" "ghostdag (nd d (genesis d)) = genesis_ghostdag"
    "x \<in> ids d \<Longrightarrow> x \<noteq> genesis d \<Longrightarrow> parents (node_block (nd d x)) \<noteq> []"
    "x \<in> ids d \<Longrightarrow> x \<noteq> genesis d \<Longrightarrow>
       compute_ghostdag d (parents (node_block (nd d x))) = Some (ghostdag (nd d x))"
  using assms by (auto simp: wf_dag_def node_ok_def)

lemma wf_parents_in:
  assumes "wf_dag H d" "x \<in> ids d"
  shows "set (parents (node_block (nd d x))) \<subseteq> ids d"
  using parents_in_ids [OF wf_dagD(1) [OF assms(1)] nd_lookup [OF assms(2)]] by blast

section \<open>Wiring one block\<close>

lemma wire_parents_ok:
  assumes "set ps \<subseteq> fset (fmdom ns)"
  shows "\<exists>ns' ts'. wire_parents i ps ns ts = Some (ns', ts') \<and> fset ts' = fset ts - set ps
    \<and> (\<forall>x. fmlookup ns' x = (if x \<in> set ps
         then map_option (\<lambda>n. n\<lparr>children := finsert i (children n)\<rparr>) (fmlookup ns x) else fmlookup ns x))"
  using assms
proof (induction ps arbitrary: ns ts)
  case (Cons p ps)
  then obtain n where n: "fmlookup ns p = Some n" by (auto simp: fmlookup_fmdom)
  let ?ns = "fmupd p (n\<lparr>children := finsert i (children n)\<rparr>) ns"
  have "set ps \<subseteq> fset (fmdom ?ns)" using Cons.prems by auto
  from Cons.IH [OF this, of "ts |-| {|p|}"] obtain ns' ts' where
    "wire_parents i ps ?ns (ts |-| {|p|}) = Some (ns', ts')" "fset ts' = fset (ts |-| {|p|}) - set ps"
    "\<forall>x. fmlookup ns' x = (if x \<in> set ps
       then map_option (\<lambda>n. n\<lparr>children := finsert i (children n)\<rparr>) (fmlookup ?ns x) else fmlookup ?ns x)"
    by blast
  with n show ?case by (intro exI [of _ ns'] exI [of _ ts']) auto
qed simp

text \<open>What \<open>wire_block\<close> changes, and nothing else.\<close>

definition wired :: "dag \<Rightarrow> block_id \<Rightarrow> block \<Rightarrow> block_id \<Rightarrow> ghostdag_data \<Rightarrow> dag \<Rightarrow> bool" where
  "wired d i b sp gd d' \<longleftrightarrow>
     dag_k d' = dag_k d \<and> genesis d' = genesis d \<and> difficulty d' = difficulty d \<and> require_pow d' = require_pow d
     \<and> ids d' = insert i (ids d)
     \<and> nd d' i = \<lparr>node_block = b,
          past_size = past_size (nd d sp) + 1 + (length (mergeset_blues gd) + length (mergeset_reds gd)),
          children = {||}, ghostdag = gd\<rparr>
     \<and> (\<forall>x \<in> ids d. nd d' x = (if x \<in> set (parents b)
          then (nd d x)\<lparr>children := finsert i (children (nd d x))\<rparr> else nd d x))
     \<and> fset (tips d') = insert i (fset (tips d) - set (parents b))
     \<and> add_block (dag_reach d) i sp (mergeset_blues gd @ mergeset_reds gd) = Some (dag_reach d')"

lemma wire_block_wired:
  assumes "i \<notin> ids d" "sp \<in> ids d" "set (parents b) \<subseteq> ids d"
    and "add_block (dag_reach d) i sp (mergeset_blues gd @ mergeset_reds gd) = Some r"
  shows "\<exists>d'. wire_block d i b sp gd = Some d' \<and> wired d i b sp gd d'"
proof -
  obtain ns ts where w: "wire_parents i (parents b) (nodes d) (tips d) = Some (ns, ts)"
    "fset ts = fset (tips d) - set (parents b)"
    "\<forall>x. fmlookup ns x = (if x \<in> set (parents b)
       then map_option (\<lambda>n. n\<lparr>children := finsert i (children n)\<rparr>) (fmlookup (nodes d) x)
       else fmlookup (nodes d) x)"
    using wire_parents_ok [of "parents b" "nodes d" i "tips d"] assms(3) unfolding ids_def by blast
  let ?new = "\<lparr>node_block = b,
      past_size = past_size (nd d sp) + 1 + (length (mergeset_blues gd) + length (mergeset_reds gd)),
      children = {||}, ghostdag = gd\<rparr>"
  define d' where "d' = d\<lparr>nodes := fmupd i ?new ns, tips := finsert i ts, dag_reach := r\<rparr>"
  have "wire_block d i b sp gd = Some d'"
    using w(1) assms(4) nd_lookup [OF assms(2)] by (simp add: wire_block_def d'_def Let_def)
  moreover have "x \<in> ids d' \<longleftrightarrow> x = i \<or> x \<in> ids d" for x
    using w(3) by (auto simp: d'_def ids_lookup)
  then have "ids d' = insert i (ids d)" by blast
  moreover have "nd d' x = (if x \<in> set (parents b)
          then (nd d x)\<lparr>children := finsert i (children (nd d x))\<rparr> else nd d x)" if "x \<in> ids d" for x
  proof -
    obtain n where "fmlookup (nodes d) x = Some n" using \<open>x \<in> ids d\<close> ids_lookup by blast
    then show ?thesis using that assms(1) w(3) by (auto simp: d'_def nd_def)
  qed
  ultimately show ?thesis
    using w(2) assms(4) unfolding wired_def by (intro exI [of _ d']) (simp add: d'_def nd_def)
qed

lemma wired_edges:
  assumes "wired d i b sp gd d'" "i \<notin> ids d"
  shows "(p, x) \<in> dag_edges d' \<longleftrightarrow> (if x = i then p \<in> set (parents b) else (p, x) \<in> dag_edges d)"
proof -
  have W: "ids d' = insert i (ids d)" "node_block (nd d' i) = b"
      "\<And>y. y \<in> ids d \<Longrightarrow> node_block (nd d' y) = node_block (nd d y)"
    using assms(1) by (auto simp: wired_def)
  show ?thesis
  proof (cases "x \<in> ids d'")
    case True
    then show ?thesis using W edges_nd [OF True] edges_nd [of x d] by auto
  next
    case False
    then have "x \<noteq> i" "x \<notin> ids d" using W(1) by auto
    then show ?thesis using False by (auto simp: dag_edges_def ids_lookup)
  qed
qed

lemma wired_agree:
  assumes "graph_ok d" "wired d i b sp gd d'"
  shows "agree_on d d' (ids d)"
proof -
  have "same_data (nd d x) (nd d' x)" if "x \<in> ids d" for x
    using assms(2) that by (auto simp: wired_def same_data_def)
  then show ?thesis using assms past_subset by (auto simp: agree_on_def wired_def)
qed

lemma wired_anc:
  assumes "graph_ok d" "wired d i b sp gd d'" "i \<notin> ids d" "set (parents b) \<subseteq> ids d"
  shows "anc d' = extend_past (anc d) i (new_past d (parents b))"
proof (intro ext)
  fix x y
  note A = wired_agree [OF assms(1,2)]
  have W: "ids d' = insert i (ids d)" "node_block (nd d' i) = b" using assms(2) by (auto simp: wired_def)
  have no: "\<not> anc d x y" if "y \<notin> ids d" using anc_in_ids [OF assms(1)] that by blast
  consider "y \<in> ids d" | "y = i" | "y \<notin> ids d'" using W by blast
  then show "anc d' x y = extend_past (anc d) i (new_past d (parents b)) x y"
  proof cases
    case 1
    then show ?thesis using agree_anc [OF A 1] assms(3) by (auto simp: extend_past_def)
  next
    case 2
    have "fmlookup (nodes d') i = Some (nd d' i)" using W by (intro nd_lookup) simp
    then have "anc d' x i \<longleftrightarrow> x \<in> new_past d' (parents b)" using anc_iff_parent W by metis
    then show ?thesis
      using 2 agree_new_past(1) [OF A assms(4)] no assms(3) by (simp add: extend_past_def)
  next
    case 3
    then have "y \<noteq> i" "y \<notin> ids d" using W by auto
    moreover have "\<not> anc d' x y"
    proof
      assume "anc d' x y"
      then obtain z where "(z, y) \<in> dag_edges d'" by (auto simp: anc_def elim: tranclE)
      then show False using 3 by (auto simp: dag_edges_def ids_lookup)
    qed
    ultimately show ?thesis using no by (simp add: extend_past_def)
  qed
qed

section \<open>The oracle accepts the new block\<close>

lemma gd_spec_mergeset:
  assumes "graph_ok d" "set ps \<subseteq> ids d" "gd_spec d ps sp gd"
  shows "set (mergeset_blues gd @ mergeset_reds gd) = mergeset_set d sp ps"
    "length (mergeset_blues gd) + length (mergeset_reds gd) = card (mergeset_set d sp ps)"
    "distinct (mergeset_blues gd @ mergeset_reds gd)"
proof -
  have fin: "finite (mergeset_set d sp ps)" using assms(1,2) by simp
  have m: "mset (mergeset_blues gd @ mergeset_reds gd) = mset_set (mergeset_set d sp ps)"
    using assms(3) by (simp add: gd_spec_def)
  show "set (mergeset_blues gd @ mergeset_reds gd) = mergeset_set d sp ps"
    using m fin by (metis finite_set_mset_mset_set set_mset_mset)
  then have c: "card (set (mergeset_blues gd @ mergeset_reds gd)) = card (mergeset_set d sp ps)" by simp
  show "length (mergeset_blues gd) + length (mergeset_reds gd) = card (mergeset_set d sp ps)"
    using arg_cong [OF m, of size] by simp
  show "distinct (mergeset_blues gd @ mergeset_reds gd)"
    by (rule card_distinct) (use c arg_cong [OF m, of size] in simp)
qed

lemma past_of_new_past:
  assumes "set M = mergeset_set d sp ps" "sp \<in> set ps"
  shows "past_of (anc d) sp M = new_past d ps"
  using new_past_split [OF assms(2), of d] assms(1) by (simp add: past_of_def past_def)

lemma oracle_accepts:
  assumes "graph_ok d" "i \<notin> ids d" "set ps \<subseteq> ids d" "sp \<in> set ps"
    and "set M = mergeset_set d sp ps" "Suc (card (ids d)) \<le> ROOT_CAPACITY"
  shows "\<exists>r. add_block (dag_reach d) i sp M = Some r
    \<and> reach_inv r (genesis d) (insert i (ids d)) (extend_past (anc d) i (new_past d ps))
    \<and> tree_edges r = insert (sp, i) (tree_edges (dag_reach d))"
proof -
  have "\<forall>m \<in> set M. \<forall>x. anc d x m \<longrightarrow> x \<in> past_of (anc d) sp M"
    unfolding past_of_new_past [OF assms(5,4)] assms(5)
    by (auto simp: mergeset_set_def intro: new_past_closed)
  moreover have "set M \<subseteq> ids d" using assms(5) mergeset_subset [OF assms(1,3)] by simp
  ultimately show ?thesis
    using add_block_ok [OF graph_okD(2) [OF assms(1)] assms(2) _ _ assms(6), of sp M] assms(3,4)
    unfolding past_of_new_past [OF assms(5,4)] by blast
qed

lemma card_new_past:
  assumes "graph_ok d" "set ps \<subseteq> ids d" "sp \<in> set ps"
  shows "card (new_past d ps) = card (past d sp) + 1 + card (mergeset_set d sp ps)"
proof -
  have "sp \<notin> past d sp \<union> mergeset_set d sp ps" "past d sp \<inter> mergeset_set d sp ps = {}"
    using anc_irrefl [OF assms(1)] by (auto simp: past_def mergeset_set_def)
  then show ?thesis
    using new_past_split [OF assms(3), of d] finite_past [OF assms(1)] assms(1,2)
    by (simp add: card_Un_disjoint)
qed

section \<open>Preservation\<close>

lemma wired_node_ok:
  assumes "wf_dag H d" "wired d i b sp gd d'" "i \<notin> ids d" "set (parents b) \<subseteq> ids d" "graph_ok d'"
    and "x \<in> ids d"
  shows "node_ok H d' x"
proof -
  note D = wf_dagD [OF assms(1)] and A = wired_agree [OF wf_dagD(1) [OF assms(1)] assms(2)]
  have W: "genesis d' = genesis d" "nd d' x = (if x \<in> set (parents b)
          then (nd d x)\<lparr>children := finsert i (children (nd d x))\<rparr> else nd d x)"
    using assms(2,6) by (auto simp: wired_def)
  have ne: "x \<noteq> i" using assms(3,6) by blast
  have sub: "blue_ids (blue_anticone_sizes (ghostdag (nd d y))) \<subseteq> ids d" if "y \<in> ids d" for y
    using D(8) [OF that] past_subset [OF D(1)] by blast
  have gd: "compute_ghostdag d' (parents (node_block (nd d x))) = Some (ghostdag (nd d x))"
    if "x \<noteq> genesis d"
    using compute_ghostdag_agree [OF D(1) assms(5) A D(11) [OF assms(6) that] wf_parents_in [OF assms(1,6)] sub]
      D(12) [OF assms(6) that] by simp
  have ch: "{c. (x, c) \<in> dag_edges d'} = (if x \<in> set (parents b) then {i} else {}) \<union> {c. (x, c) \<in> dag_edges d}"
  proof -
    have "(x, i) \<notin> dag_edges d" using graph_okD(1) [OF D(1)] assms(3) by blast
    then show ?thesis using wired_edges [OF assms(2,3)] by auto
  qed
  have same: "node_block (nd d' x) = node_block (nd d x)" "past_size (nd d' x) = past_size (nd d x)"
      "ghostdag (nd d' x) = ghostdag (nd d x)" using W(2) by auto
  have "fset (children (nd d' x)) = {c. (x, c) \<in> dag_edges d'}"
    using W(2) D(7) [OF assms(6)] unfolding ch by auto
  then show ?thesis
    using D(5,6,8) [OF assms(6)] D(9,10) D(11) [OF assms(6)] gd
    unfolding node_ok_def same agree_past [OF A assms(6)] W(1) by auto
qed

lemma wire_preserves:
  assumes "wf_dag H d" "i = block_ident H b" "i \<notin> ids d" "parents b \<noteq> []" "set (parents b) \<subseteq> ids d"
    and "compute_ghostdag d (parents b) = Some gd" "selected_parent gd = Some sp"
    and "Suc (card (ids d)) \<le> ROOT_CAPACITY"
  shows "\<exists>d'. wire_block d i b sp gd = Some d' \<and> wired d i b sp gd d' \<and> wf_dag H d'"
proof -
  let ?ps = "parents b"
  note D = wf_dagD [OF assms(1)]
  obtain sp' where "sp' \<in> set ?ps" "gd_spec d ?ps sp' gd"
    using compute_ghostdag_ok [OF D(1) assms(4,5)] assms(6) by auto
  then have spec: "gd_spec d ?ps sp gd" and sp: "sp \<in> set ?ps" "sp \<in> ids d"
    using assms(5,7) by (auto simp: gd_spec_def)
  note M = gd_spec_mergeset [OF D(1) assms(5) spec]
  obtain r where r: "add_block (dag_reach d) i sp (mergeset_blues gd @ mergeset_reds gd) = Some r"
    "reach_inv r (genesis d) (insert i (ids d)) (extend_past (anc d) i (new_past d ?ps))"
    "tree_edges r = insert (sp, i) (tree_edges (dag_reach d))"
    using oracle_accepts [OF D(1) assms(3,5) sp(1) M(1) assms(8)] by blast
  obtain d' where d': "wire_block d i b sp gd = Some d'" "wired d i b sp gd d'"
    using wire_block_wired [OF assms(3) sp(2) assms(5) r(1)] by blast
  note anc' = wired_anc [OF D(1) d'(2) assms(3,5)] and A = wired_agree [OF D(1) d'(2)]
    and edges' = wired_edges [OF d'(2) assms(3)]
  have W: "ids d' = insert i (ids d)" "genesis d' = genesis d" "dag_reach d' = r"
      "node_block (nd d' i) = b" "ghostdag (nd d' i) = gd" "children (nd d' i) = {||}"
      "past_size (nd d' i) = past_size (nd d sp) + 1 + (length (mergeset_blues gd) + length (mergeset_reds gd))"
      "fset (tips d') = insert i (fset (tips d) - set ?ps)"
      "\<And>x. x \<in> ids d \<Longrightarrow> ghostdag (nd d' x) = ghostdag (nd d x)"
    using d'(2) r(1) by (auto simp: wired_def)
  have "dag_edges d' \<subseteq> ids d' \<times> ids d'"
    using edges' graph_okD(1) [OF D(1)] assms(5) W(1) by (auto split: if_splits)
  then have G: "graph_ok d'" using r(2) W anc' by (simp add: graph_ok_def)
  have gi: "genesis d \<noteq> i" using D(2) assms(3) by blast
  have no_out: "(i, c) \<notin> dag_edges d'" for c
    using edges' [of i c] graph_okD(1) [OF D(1)] assms(3,5) by (auto split: if_splits)
  have past_i: "past d' i = new_past d ?ps"
    using anc_in_ids [OF D(1)] assms(3) unfolding past_def anc' by (auto simp: extend_past_def)
  have "node_ok H d' i"
  proof -
    have "past_size (nd d' i) = card (past d' i)"
      using W(7) M(2) D(6) [OF sp(2)] card_new_past [OF D(1) assms(5) sp(1)] past_i by simp
    moreover have "blue_ids (blue_anticone_sizes gd) \<subseteq> past d' i"
      unfolding past_i new_past_split [OF sp(1), of d]
      using spec D(8) [OF sp(2)] M(1) by (auto simp: gd_spec_def)
    moreover have "compute_ghostdag d' ?ps = Some gd"
    proof -
      have "blue_ids (blue_anticone_sizes (ghostdag (nd d y))) \<subseteq> ids d" if "y \<in> ids d" for y
        using D(8) [OF that] past_subset [OF D(1)] by blast
      then show ?thesis using compute_ghostdag_agree [OF D(1) G A assms(4,5)] assms(6) by simp
    qed
    ultimately show ?thesis
      using W gi no_out assms(2,4) unfolding node_ok_def by simp
  qed
  moreover have "node_ok H d' x" if "x \<in> ids d" for x
    by (rule wired_node_ok [OF assms(1) d'(2) assms(3,5) G that])
  moreover have "fset (tips d') = {x \<in> ids d'. \<forall>c. (x, c) \<notin> dag_edges d'}"
  proof -
    have "(x, i) \<notin> dag_edges d" for x using graph_okD(1) [OF D(1)] assms(3) by blast
    then have "(\<forall>c. (x, c) \<notin> dag_edges d') \<longleftrightarrow> x \<notin> set ?ps \<and> (\<forall>c. (x, c) \<notin> dag_edges d)" for x
      using edges' by metis
    moreover have "i \<notin> set ?ps" "\<And>c. (i, c) \<notin> dag_edges d"
      using assms(3,5) graph_okD(1) [OF D(1)] by auto
    ultimately show ?thesis using W(1,8) D(3) by auto
  qed
  moreover have "tree_edges (dag_reach d') = sp_edges d'"
    using r(3) W(1,3,5,9) D(4) assms(3,7) unfolding sp_edges_def by auto
  ultimately have "wf_dag H d'" using G W(1,2) D(2) unfolding wf_dag_def by auto
  with d' show ?thesis by blast
qed

end
