(* ===== verification/DagInsert.thy ===== *)
theory DagInsert
  imports DagInv
begin

text \<open>
  \<open>Dag::new\<close>, \<open>Dag::preview\<close> and \<open>Dag::insert\<close>: which calls succeed, which error the others
  return, and that none panics.
\<close>

section \<open>The checks\<close>

lemma check_structure_ok:
  "check_structure d i b = Inr u \<longleftrightarrow> i \<notin> ids d \<and> parents b \<noteq> [] \<and> set (parents b) \<subseteq> ids d"
proof (cases "find (\<lambda>p. \<not> contains d p) (parents b)")
  case None
  then have "set (parents b) \<subseteq> ids d" by (auto simp: find_None_iff contains_ids)
  then show ?thesis using None by (auto simp: check_structure_def contains_ids simp del: find_None_iff)
next
  case (Some p)
  then have "p \<in> set (parents b)" "p \<notin> ids d" by (auto simp: find_Some_iff contains_ids)
  then show ?thesis using Some by (auto simp: check_structure_def)
qed

lemma selected_parent_in_past:
  assumes "wf_dag H d" "x \<in> ids d" "selected_parent (ghostdag (nd d x)) = Some p"
  shows "p \<in> set (parents (node_block (nd d x)))" "p \<in> ids d" "anc d p x"
proof -
  note D = wf_dagD [OF assms(1)]
  have "x \<noteq> genesis d" using D(10) assms(3) by (auto simp: genesis_ghostdag_def)
  then obtain sp where "sp \<in> set (parents (node_block (nd d x)))" "selected_parent (ghostdag (nd d x)) = Some sp"
    using compute_ghostdag_ok [OF D(1) D(11) wf_parents_in [OF assms(1,2)]] D(12) assms(2)
    by (auto simp: gd_spec_def)
  with assms(3) show p: "p \<in> set (parents (node_block (nd d x)))" by simp
  then show "p \<in> ids d" using wf_parents_in [OF assms(1,2)] by blast
  show "anc d p x" by (rule anc_parent [OF nd_lookup [OF assms(2)] p])
qed

lemma selected_parent_None:
  assumes "wf_dag H d" "x \<in> ids d"
  shows "selected_parent (ghostdag (nd d x)) = None \<longleftrightarrow> x = genesis d"
proof -
  note D = wf_dagD [OF assms(1)]
  have "selected_parent (ghostdag (nd d x)) \<noteq> None" if "x \<noteq> genesis d"
    using compute_ghostdag_ok [OF D(1) D(11) [OF assms(2) that] wf_parents_in [OF assms]] D(12) [OF assms(2) that]
    by (auto simp: gd_spec_def)
  moreover have "selected_parent (ghostdag (nd d (genesis d))) = None"
    using D(10) by (simp add: genesis_ghostdag_def)
  ultimately show ?thesis by metis
qed

lemma sample_loop_ok:
  assumes "wf_dag H d" "x \<in> ids d"
  shows "\<exists>ss. sample_loop d wnd (Some x) acc = Some ss \<and> length ss \<le> length acc + Suc (card (past d x))"
  using assms(2)
proof (induction "card (past d x)" arbitrary: x acc rule: less_induct)
  case less
  note D = wf_dagD [OF assms(1)]
  let ?s = "\<lparr>tw_timestamp_ms = timestamp_ms (node_block (nd d x)), tw_work = work (node_block (nd d x))\<rparr>"
  have unf: "sample_loop d wnd (Some x) acc =
      (if length (?s # acc) = unat (wnd + 1) then Some (?s # acc)
       else sample_loop d wnd (selected_parent (ghostdag (nd d x))) (?s # acc))"
    using nd_lookup [OF less.prems] by (simp add: sample_loop.simps [of d wnd "Some x"] Let_def)
  show ?case
  proof (cases "length (?s # acc) = unat (wnd + 1) \<or> selected_parent (ghostdag (nd d x)) = None")
    case True
    then have "sample_loop d wnd (Some x) acc = Some (?s # acc)"
      using unf by (auto simp: sample_loop.simps [of d wnd None])
    then show ?thesis by simp
  next
    case False
    then obtain p where p: "selected_parent (ghostdag (nd d x)) = Some p" by blast
    note P = selected_parent_in_past [OF assms(1) less.prems p]
    have lt: "card (past d p) < card (past d x)" by (rule past_card_less [OF D(1) P(3)])
    obtain ss where "sample_loop d wnd (Some p) (?s # acc) = Some ss"
        "length ss \<le> length (?s # acc) + Suc (card (past d p))"
      using less.hyps [OF lt P(2), of "?s # acc"] by blast
    then show ?thesis using unf False p lt by (intro exI [of _ ss]) auto
  qed
qed

lemma wf_card_ids: "wf_dag H d \<Longrightarrow> card (ids d) \<le> ROOT_CAPACITY"
  unfolding wf_dag_def graph_ok_def reach_inv_def by (blast dest: lay_invD(8))

lemma chain_samples_ok:
  assumes "wf_dag H d" "x \<in> ids d"
  shows "\<exists>ss. chain_samples d x wnd = Some ss \<and> length ss < 2 ^ 64"
proof -
  obtain ss where ss: "chain_samples d x wnd = Some ss" "length ss \<le> Suc (card (past d x))"
    using sample_loop_ok [OF assms, of wnd "[]"] by (auto simp: chain_samples_def)
  have "card (past d x) \<le> card (ids d)"
    by (rule card_mono) (use past_subset [OF wf_dagD(1) [OF assms(1)]] in auto)
  then have "length ss < 2 ^ 64"
    using ss(2) wf_card_ids [OF assms(1)] by (simp add: ROOT_CAPACITY_def u64_max_def)
  with ss show ?thesis by blast
qed

lemma check_timestamps_ok:
  assumes "set ps \<subseteq> ids d"
  shows "\<exists>res. check_timestamps d b i ps = Some res
    \<and> ((\<exists>u. res = Inr u) \<longleftrightarrow> (\<forall>p \<in> set ps. timestamp_ms (node_block (nd d p)) \<le> timestamp_ms b))
    \<and> (\<forall>e. res = Inl e \<longrightarrow> (\<exists>p \<in> set ps. timestamp_ms b < timestamp_ms (node_block (nd d p))
          \<and> e = NonMonotonicTimestamp i (timestamp_ms b) (timestamp_ms (node_block (nd d p)))))"
  using assms
proof (induction ps)
  case (Cons p ps)
  then have p: "fmlookup (nodes d) p = Some (nd d p)" by (simp add: nd_lookup)
  show ?case
  proof (cases "timestamp_ms b < timestamp_ms (node_block (nd d p))")
    case True
    then show ?thesis using p by (auto simp: Let_def)
  next
    case False
    then show ?thesis using Cons p by (auto simp: Let_def not_less)
  qed
qed simp

lemma next_work_ok: "length ss < 2 ^ 64 \<Longrightarrow> \<exists>w. next_work r ss = Some w"
  using next_work_eq_spec [of r ss] by (cases "2 \<le> length (recent_samples r ss)") (auto simp: next_work_def)

text \<open>The work the enforced policy asks of a block with selected parent \<open>sp\<close>.\<close>

definition required_work :: "dag \<Rightarrow> retarget \<Rightarrow> block_id \<Rightarrow> u128" where
  "required_work d r sp = the (Option.bind (chain_samples d sp (window r)) (next_work r))"

lemma required_work_eq:
  assumes "wf_dag H d" "sp \<in> ids d"
  shows "Option.bind (chain_samples d sp (window r)) (next_work r) = Some (required_work d r sp)"
  using chain_samples_ok [OF assms, of "window r"] next_work_ok [of _ r] by (fastforce simp: required_work_def)

lemma check_difficulty_ok:
  assumes "wf_dag H d" "sp \<in> ids d" "set (parents b) \<subseteq> ids d"
  shows "\<exists>res. check_difficulty d b i sp r = Some res
    \<and> ((\<exists>u. res = Inr u) \<longleftrightarrow> (\<forall>p \<in> set (parents b). timestamp_ms (node_block (nd d p)) \<le> timestamp_ms b)
          \<and> work b = required_work d r sp)"
proof -
  obtain ts where ts: "check_timestamps d b i (parents b) = Some ts"
    "(\<exists>u. ts = Inr u) \<longleftrightarrow> (\<forall>p \<in> set (parents b). timestamp_ms (node_block (nd d p)) \<le> timestamp_ms b)"
    using check_timestamps_ok [OF assms(3), of b i] by blast
  obtain ss where ss: "chain_samples d sp (window r) = Some ss" "next_work r ss = Some (required_work d r sp)"
    using required_work_eq [OF assms(1,2), of r] by (cases "chain_samples d sp (window r)") auto
  show ?thesis
  proof (cases ts)
    case (Inl e)
    then show ?thesis using ts by (simp add: check_difficulty_def)
  next
    case (Inr u)
    then show ?thesis using ts ss by (simp add: check_difficulty_def)
  qed
qed

section \<open>When an insertion succeeds\<close>

text \<open>The rules a block must satisfy, over the graph.\<close>

definition acceptable :: "digest \<Rightarrow> validator \<Rightarrow> dag \<Rightarrow> block \<Rightarrow> bool" where
  "acceptable H v d b \<longleftrightarrow>
     block_ident H b \<notin> ids d \<and> parents b \<noteq> [] \<and> set (parents b) \<subseteq> ids d
     \<and> validate v b d = Inr ()
     \<and> (case difficulty d of None \<Rightarrow> True
        | Some r \<Rightarrow> (\<forall>p \<in> set (parents b). timestamp_ms (node_block (nd d p)) \<le> timestamp_ms b)
            \<and> work b = required_work d r (the (max_by_key (ckey d) (parents b))))
     \<and> (require_pow d \<longrightarrow> meets_target (block_ident H b) (work b))"

lemma dag_insert_cases:
  assumes "wf_dag H d" "Suc (card (ids d)) \<le> ROOT_CAPACITY"
  shows "\<exists>res. dag_insert H v d b = Some res
    \<and> (acceptable H v d b \<longleftrightarrow> (\<exists>i d'. res = Inr (i, d')))
    \<and> (\<forall>i d'. res = Inr (i, d') \<longrightarrow> i = block_ident H b \<and> wf_dag H d'
        \<and> (\<exists>gd sp. compute_ghostdag d (parents b) = Some gd \<and> max_by_key (ckey d) (parents b) = Some sp
             \<and> gd_spec d (parents b) sp gd \<and> wired d i b sp gd d'))"
proof -
  let ?i = "block_ident H b"
  note D = wf_dagD [OF assms(1)]
  show ?thesis
  proof (cases "check_structure d ?i b")
    case (Inl e)
    then have "\<not> acceptable H v d b"
      using check_structure_ok [of d ?i b] by (auto simp: acceptable_def)
    with Inl show ?thesis by (simp add: dag_insert_def)
  next
    case (Inr u)
    then have S: "?i \<notin> ids d" "parents b \<noteq> []" "set (parents b) \<subseteq> ids d"
      using check_structure_ok by blast+
    obtain gd sp where gd: "compute_ghostdag d (parents b) = Some gd"
      "max_by_key (ckey d) (parents b) = Some sp" "sp \<in> set (parents b)" "gd_spec d (parents b) sp gd"
      using compute_ghostdag_ok [OF D(1) S(2,3)] by blast
    have sel: "selected_parent gd = Some sp" using gd(4) by (simp add: gd_spec_def)
    have spi: "sp \<in> ids d" using gd(3) S(3) by blast
    obtain d' where d': "wire_block d ?i b sp gd = Some d'" "wired d ?i b sp gd d'" "wf_dag H d'"
      using wire_preserves [OF assms(1) refl S gd(1) sel assms(2)] by blast
    let ?chk = "case difficulty d of None \<Rightarrow> Some (Inr ()) | Some r \<Rightarrow> check_difficulty d b ?i sp r"
    obtain chk where chk: "?chk = Some chk"
      "(\<exists>u. chk = Inr u) \<longleftrightarrow> (case difficulty d of None \<Rightarrow> True
        | Some r \<Rightarrow> (\<forall>p \<in> set (parents b). timestamp_ms (node_block (nd d p)) \<le> timestamp_ms b)
            \<and> work b = required_work d r (the (max_by_key (ckey d) (parents b))))"
      using check_difficulty_ok [OF assms(1) spi S(3), of ?i] gd(2) by (cases "difficulty d") auto
    show ?thesis
    proof (cases "validate v b d")
      case reason: (Inl r)
      then show ?thesis using Inr by (simp add: dag_insert_def acceptable_def)
    next
      case ok: (Inr w)
      have acc: "acceptable H v d b \<longleftrightarrow> (\<exists>u. chk = Inr u) \<and> (require_pow d \<longrightarrow> meets_target ?i (work b))"
        using S ok chk(2) by (simp add: acceptable_def)
      have ins: "dag_insert H v d b = (case chk of Inl e \<Rightarrow> Some (Inl e)
          | Inr _ \<Rightarrow> if require_pow d \<and> \<not> meets_target ?i (work b)
             then Some (Inl (InsufficientProofOfWork ?i (work b))) else Some (Inr (?i, d')))"
        using Inr ok gd(1) sel chk(1) d'(1) by (simp add: dag_insert_def Let_def split: sum.splits)
      show ?thesis
        unfolding acc ins using d' gd by (cases chk) auto
    qed
  qed
qed

lemma dag_insert_InrD:
  assumes "wf_dag H d" "Suc (card (ids d)) \<le> ROOT_CAPACITY" "dag_insert H v d b = Some (Inr (i, d'))"
  shows "i = block_ident H b" "wf_dag H d'" "acceptable H v d b"
    "\<exists>gd sp. compute_ghostdag d (parents b) = Some gd \<and> max_by_key (ckey d) (parents b) = Some sp
       \<and> gd_spec d (parents b) sp gd \<and> wired d i b sp gd d'"
  using dag_insert_cases [OF assms(1,2), of v b] assms(3) by auto

lemma dag_insert_acceptable:
  assumes "wf_dag H d" "Suc (card (ids d)) \<le> ROOT_CAPACITY" "acceptable H v d b"
  shows "\<exists>d'. dag_insert H v d b = Some (Inr (block_ident H b, d')) \<and> wf_dag H d'"
  using dag_insert_cases [OF assms(1,2), of v b] assms(3) by auto

section \<open>A new DAG\<close>

lemma sorted_list_of_fmap_single: "sorted_list_of_fmap (fmupd k v fmempty) = [(k, v)]"
proof -
  have "fmdom (fmupd k v fmempty) = {|k|}" by simp
  then show ?thesis by (simp add: sorted_list_of_fmap_def sorted_list_of_fset.rep_eq)
qed

lemma dag_new_ok:
  assumes "parents g = []"
  shows "\<exists>d. dag_new H k g = Some d \<and> wf_dag H d \<and> ids d = {block_ident H g} \<and> dag_k d = k
    \<and> genesis d = block_ident H g \<and> difficulty d = None \<and> \<not> require_pow d \<and> node_block (nd d (genesis d)) = g"
proof -
  let ?g = "block_ident H g"
  obtain r where r: "build ?g [(?g, None, [])] = Some r" "reach_inv r ?g {?g} (\<lambda>_ _. False)"
    using reachability.seed_inv by blast
  have te: "tree_edges r = {}"
    using build_single [of ?g] r(1) by (auto simp: tree_edges_def)
  define d where "d = \<lparr>dag_k = k, genesis = ?g,
      nodes = fmupd ?g \<lparr>node_block = g, past_size = 0, children = {||}, ghostdag = genesis_ghostdag\<rparr> fmempty,
      tips = {|?g|}, dag_reach = r, difficulty = None, require_pow = False\<rparr>"
  have "dag_new H k g = Some d"
    using r(1) assms
    by (simp add: dag_new_def d_def dag_view_def sorted_list_of_fmap_single genesis_ghostdag_def Let_def)
  moreover have ids: "ids d = {?g}" by (simp add: d_def ids_def)
  moreover have nd: "nd d ?g = \<lparr>node_block = g, past_size = 0, children = {||}, ghostdag = genesis_ghostdag\<rparr>"
    by (simp add: d_def nd_def)
  moreover have E: "dag_edges d = {}" using assms by (auto simp: d_def dag_edges_def split: if_splits)
  moreover have anc: "anc d = (\<lambda>_ _. False)" by (simp add: fun_eq_iff anc_def E)
  ultimately show ?thesis
    using r(2) te assms
    by (intro exI [of _ d])
      (auto simp: wf_dag_def graph_ok_def node_ok_def past_def sp_edges_def d_def genesis_ghostdag_def blue_ids_def)
qed

lemma edges_target: "(p, x) \<in> dag_edges d \<Longrightarrow> x \<in> ids d"
  by (auto simp: dag_edges_def ids_lookup)

text \<open>With no policy enforced, the structural rules alone decide.\<close>

lemma insert_plain:
  assumes "wf_dag H d" "difficulty d = None" "\<not> require_pow d" "block_ident H b \<notin> ids d" "parents b \<noteq> []"
    and "set (parents b) \<subseteq> ids d" "card (ids d) < ROOT_CAPACITY"
  shows "\<exists>d'. dag_insert H None d b = Some (Inr (block_ident H b, d')) \<and> wf_dag H d'
    \<and> ids d' = insert (block_ident H b) (ids d) \<and> difficulty d' = None \<and> \<not> require_pow d'
    \<and> dag_edges d' = dag_edges d \<union> set (parents b) \<times> {block_ident H b}
    \<and> dag_block d' = (dag_block d)(block_ident H b \<mapsto> b) \<and> dag_k d' = dag_k d \<and> genesis d' = genesis d"
proof -
  have cap: "Suc (card (ids d)) \<le> ROOT_CAPACITY" using assms(7) by simp
  have "acceptable H None d b" using assms by (simp add: acceptable_def validate_def)
  from dag_insert_acceptable [OF assms(1) cap this] obtain d' where
    d': "dag_insert H None d b = Some (Inr (block_ident H b, d'))" "wf_dag H d'" by blast
  then obtain gd sp where W: "wired d (block_ident H b) b sp gd d'"
    using dag_insert_InrD(4) [OF assms(1) cap d'(1)] by blast
  have "(p, block_ident H b) \<notin> dag_edges d" for p using edges_target assms(4) by blast
  then have "dag_edges d' = dag_edges d \<union> set (parents b) \<times> {block_ident H b}"
    using wired_edges [OF W assms(4)] by (auto split: if_splits)
  moreover have "dag_block d' x = ((dag_block d)(block_ident H b \<mapsto> b)) x" for x
  proof -
    consider "x = block_ident H b" | "x \<in> ids d" "x \<noteq> block_ident H b" | "x \<notin> ids d'" using W by (auto simp: wired_def)
    then show ?thesis
    proof cases
      case 1
      then show ?thesis using W nd_lookup [of x d'] by (simp add: wired_def dag_block_def)
    next
      case 2
      then have "x \<in> ids d'" using W by (simp add: wired_def)
      then show ?thesis
        using 2 agree_onD(4) [OF wired_agree [OF wf_dagD(1) [OF assms(1)] W] 2(1)] nd_lookup [of x d] nd_lookup [of x d']
        by (simp add: dag_block_def same_data_def)
    next
      case 3
      then have "x \<notin> ids d" "x \<noteq> block_ident H b" using W by (auto simp: wired_def)
      then show ?thesis using 3 by (cases "fmlookup (nodes d) x"; cases "fmlookup (nodes d') x") (auto simp: dag_block_def ids_lookup)
    qed
  qed
  ultimately show ?thesis using W d' assms(2,3) by (auto simp: wired_def)
qed

section \<open>Reachable DAGs\<close>

text \<open>
  The life of a DAG from genesis \<open>g\<close>: insertions (under any validator), and the switches of
  difficulty and proof of work.
\<close>

inductive reachable :: "digest \<Rightarrow> u16 \<Rightarrow> block \<Rightarrow> dag \<Rightarrow> bool" for H k g where
  reachable_new: "dag_new H k g = Some d \<Longrightarrow> reachable H k g d"
| reachable_insert: "reachable H k g d \<Longrightarrow> dag_len d < ROOT_CAPACITY \<Longrightarrow>
    dag_insert H v d b = Some (Inr (i, d')) \<Longrightarrow> reachable H k g d'"
| reachable_difficulty: "reachable H k g d \<Longrightarrow> reachable H k g (set_difficulty d r)"
| reachable_pow: "reachable H k g d \<Longrightarrow> reachable H k g (set_proof_of_work d e)"

inductive_cases reachable_newE: "reachable H k g d"

lemma dag_len_ids: "dag_len d = card (ids d)"
  by (simp add: dag_len_def ids_def fcard.rep_eq)

lemma frame_switches [simp]:
  "ids (d\<lparr>difficulty := x\<rparr>) = ids d" "ids (d\<lparr>require_pow := e\<rparr>) = ids d"
  "nd (d\<lparr>difficulty := x\<rparr>) = nd d" "nd (d\<lparr>require_pow := e\<rparr>) = nd d"
  "dag_edges (d\<lparr>difficulty := x\<rparr>) = dag_edges d" "dag_edges (d\<lparr>require_pow := e\<rparr>) = dag_edges d"
  "anc (d\<lparr>difficulty := x\<rparr>) = anc d" "anc (d\<lparr>require_pow := e\<rparr>) = anc d"
  "past (d\<lparr>difficulty := x\<rparr>) = past d" "past (d\<lparr>require_pow := e\<rparr>) = past d"
  "sp_edges (d\<lparr>difficulty := x\<rparr>) = sp_edges d" "sp_edges (d\<lparr>require_pow := e\<rparr>) = sp_edges d"
  by (auto simp: ids_def nd_def dag_edges_def anc_def past_def sp_edges_def fun_eq_iff)

lemma frame_graph_ok [simp]:
  "graph_ok (d\<lparr>difficulty := x\<rparr>) = graph_ok d" "graph_ok (d\<lparr>require_pow := e\<rparr>) = graph_ok d"
  by (simp_all add: graph_ok_def)

lemma agree_refl: "graph_ok d \<Longrightarrow> dag_k d' = dag_k d \<Longrightarrow> ids d' = ids d \<Longrightarrow> nd d' = nd d \<Longrightarrow> agree_on d d' (ids d)"
  using past_subset by (auto simp: agree_on_def same_data_def)

lemma wf_switch:
  assumes "wf_dag H d" "d' = d\<lparr>difficulty := x\<rparr> \<or> d' = d\<lparr>require_pow := e\<rparr>"
  shows "wf_dag H d'"
proof -
  note D = wf_dagD [OF assms(1)]
  have same: "ids d' = ids d" "nd d' = nd d" "dag_edges d' = dag_edges d" "past d' = past d"
      "sp_edges d' = sp_edges d" "graph_ok d'" "genesis d' = genesis d" "tips d' = tips d"
      "dag_reach d' = dag_reach d" "dag_k d' = dag_k d"
    using assms(2) D(1) by auto
  have "compute_ghostdag d' (parents (node_block (nd d x))) = compute_ghostdag d (parents (node_block (nd d x)))"
    if "x \<in> ids d" "x \<noteq> genesis d" for x
    by (rule compute_ghostdag_agree [OF D(1) same(6) agree_refl [OF D(1) same(10,1,2)]])
      (use D(8,11) wf_parents_in [OF assms(1)] past_subset [OF D(1)] that in blast)+
  then show ?thesis
    using assms(1) unfolding wf_dag_def node_ok_def same(1-5,7-9) by (simp add: same(6))
qed

lemma reachable_wf:
  assumes "reachable H k g d" "parents g = []"
  shows "wf_dag H d \<and> dag_k d = k \<and> genesis d = block_ident H g \<and> node_block (nd d (genesis d)) = g"
  using assms
proof (induction rule: reachable.induct)
  case (reachable_new d)
  then show ?case using dag_new_ok [of g H k] by auto
next
  case (reachable_insert d v b i d')
  then have wf: "wf_dag H d" "Suc (card (ids d)) \<le> ROOT_CAPACITY" by (auto simp: dag_len_ids)
  note I = dag_insert_InrD [OF wf reachable_insert.hyps(3)]
  obtain gd sp where W: "wired d i b sp gd d'" using I(4) by blast
  have "genesis d \<in> ids d" using wf_dagD(2) [OF wf(1)] .
  then have "dag_k d' = dag_k d" "genesis d' = genesis d" "node_block (nd d' (genesis d)) = node_block (nd d (genesis d))"
    using W by (auto simp: wired_def)
  then show ?case using I(2) reachable_insert.IH reachable_insert.prems by auto
next
  case (reachable_difficulty d r)
  then show ?case using wf_switch [of H d "set_difficulty d r"] by (auto simp: set_difficulty_def)
next
  case (reachable_pow d e)
  then show ?case using wf_switch [of H d "set_proof_of_work d e"] by (auto simp: set_proof_of_work_def)
qed

end
