(* ===== verification/Ordering.thy ===== *)
theory Ordering
  imports DagInsert "HOL-Library.Sublist"
begin

text \<open>
  \<open>crates/kovanica-dag/src/ordering.rs\<close>: the selected tip, the selected chain and the total
  order, with the lemmas that make the order topological.
\<close>

definition selected_tip :: "dag \<Rightarrow> block_id option" where
  "selected_tip d = do {
     best \<leftarrow> max_by_chain_key d (tips_list d);
     Some (case best of Some t \<Rightarrow> t | None \<Rightarrow> genesis d)
   }"

text \<open>The walk from the tip; the accumulator holds the reversed chain.\<close>

partial_function (option) chain_loop :: "dag \<Rightarrow> block_id \<Rightarrow> block_id list \<Rightarrow> block_id list option" where
  "chain_loop d cur chain =
     (case Option.bind (dag_ghostdag d cur) selected_parent of
        None \<Rightarrow> Some chain
      | Some p \<Rightarrow> chain_loop d p (p # chain))"

definition selected_chain :: "dag \<Rightarrow> block_id list option" where
  "selected_chain d = do {
     tip \<leftarrow> selected_tip d;
     chain_loop d tip [tip]
   }"

definition mergeset_order :: "dag \<Rightarrow> block_id \<Rightarrow> block_id list option" where
  "mergeset_order d b = do {
     n \<leftarrow> fmlookup (nodes d) b;
     (case selected_parent (ghostdag n) of
        Some sp \<Rightarrow> mergeset_ordered d sp (parents (node_block n))
      | None \<Rightarrow> Some [])
   }"

fun spine_loop :: "dag \<Rightarrow> block_id list \<Rightarrow> block_id list \<Rightarrow> block_id list option" where
  "spine_loop d [] order = Some order"
| "spine_loop d (b # rest) order = do {
     ms \<leftarrow> mergeset_order d b;
     spine_loop d rest (order @ ms @ [b])
   }"

definition linearize :: "dag \<Rightarrow> block_id list option" where
  "linearize d = do {
     chain \<leftarrow> selected_chain d;
     order \<leftarrow> spine_loop d chain [];
     let tail = filter (\<lambda>b. b \<notin> set order) (sorted_list_of_fset (fmdom (nodes d)));
     Some (order @ sort_key (topo_key d) tail)
   }"

section \<open>Topological lists\<close>

text \<open>Every block comes after its whole past, given the blocks \<open>S\<close> before the list.\<close>

fun topo :: "dag \<Rightarrow> block_id set \<Rightarrow> block_id list \<Rightarrow> bool" where
  "topo d S [] = True"
| "topo d S (x # xs) = (past d x \<subseteq> S \<and> topo d (insert x S) xs)"

lemma topo_append: "topo d S (xs @ ys) \<longleftrightarrow> topo d S xs \<and> topo d (S \<union> set xs) ys"
  by (induction xs arbitrary: S) auto

lemma topo_nth:
  "topo d S xs \<Longrightarrow> i < length xs \<Longrightarrow> past d (xs ! i) \<subseteq> S \<union> set (take i xs)"
proof (induction xs arbitrary: S i)
  case (Cons x xs)
  then show ?case by (cases i) fastforce+
qed simp

lemma topo_sorted:
  assumes "graph_ok d" "\<And>x. x \<in> ids d \<Longrightarrow> past_size (nd d x) = card (past d x)"
  shows "sorted (map (topo_key d) xs) \<Longrightarrow> distinct xs \<Longrightarrow> set xs \<subseteq> ids d \<Longrightarrow>
    \<forall>x \<in> set xs. past d x \<subseteq> S \<union> set xs \<Longrightarrow> topo d S xs"
proof (induction xs arbitrary: S)
  case (Cons x xs)
  have "y \<notin> set (x # xs)" if "anc d y x" for y
  proof
    assume y: "y \<in> set (x # xs)"
    then have "topo_key d x \<le> topo_key d y" using Cons.prems(1) by auto
    then have "card (past d x) \<le> card (past d y)"
      using y Cons.prems(3) assms(2) by (auto simp: topo_key_nd less_eq_prod_def)
    then show False using past_card_less [OF assms(1) that] by simp
  qed
  then have "past d x \<subseteq> S" using Cons.prems(4) by (auto simp: past_def)
  moreover have "topo d (insert x S) xs" by (rule Cons.IH) (use Cons.prems in auto)
  ultimately show ?case by simp
qed simp

section \<open>The selected chain\<close>

inductive sp_chain :: "dag \<Rightarrow> block_id list \<Rightarrow> bool" for d where
  sp_chain_genesis: "sp_chain d [genesis d]"
| sp_chain_snoc: "sp_chain d xs \<Longrightarrow> (last xs, y) \<in> sp_edges d \<Longrightarrow> sp_chain d (xs @ [y])"

lemma sp_chain_nonempty: "sp_chain d xs \<Longrightarrow> xs \<noteq> []"
  by (induction rule: sp_chain.induct) auto

lemma chain_loop_ok:
  assumes "wf_dag H d" "x \<in> ids d"
  shows "\<exists>pre. chain_loop d x (x # acc) = Some (pre @ x # acc) \<and> sp_chain d (pre @ [x])"
  using assms(2)
proof (induction "card (past d x)" arbitrary: x acc rule: less_induct)
  case less
  have b: "Option.bind (dag_ghostdag d x) selected_parent = selected_parent (ghostdag (nd d x))"
    using nd_lookup [OF less.prems] by (simp add: dag_ghostdag_def)
  show ?case
  proof (cases "selected_parent (ghostdag (nd d x))")
    case None
    then have "x = genesis d" using selected_parent_None [OF assms(1) less.prems] by simp
    then have "sp_chain d ([] @ [x])" by (simp add: sp_chain_genesis)
    moreover have "chain_loop d x (x # acc) = Some ([] @ x # acc)"
      using None b by (simp add: chain_loop.simps [of d x])
    ultimately show ?thesis by blast
  next
    case (Some p)
    note P = selected_parent_in_past [OF assms(1) less.prems Some]
    have lt: "card (past d p) < card (past d x)" by (rule past_card_less [OF wf_dagD(1) [OF assms(1)] P(3)])
    obtain pre where pre: "chain_loop d p (p # x # acc) = Some (pre @ p # x # acc)" "sp_chain d (pre @ [p])"
      using less.hyps [OF lt P(2), of "x # acc"] by blast
    have "(p, x) \<in> sp_edges d" using less.prems Some by (simp add: sp_edges_def)
    then have "sp_chain d ((pre @ [p]) @ [x])" using sp_chain_snoc [OF pre(2), of x] by simp
    then show ?thesis using pre(1) b Some
      by (intro exI [of _ "pre @ [p]"]) (simp add: chain_loop.simps [of d x])
  qed
qed

lemma ids_not_empty_tips:
  assumes "wf_dag H d"
  shows "\<exists>t. t \<in> fset (tips d)"
proof -
  note D = wf_dagD [OF assms]
  obtain t where t: "t \<in> ids d" "\<And>y. y \<in> ids d \<Longrightarrow> card (past d y) \<le> card (past d t)"
  proof -
    let ?f = "\<lambda>x. card (past d x)"
    have "Max (?f ` ids d) \<in> ?f ` ids d" using D(2) by (intro Max_in) auto
    then obtain t where "t \<in> ids d" "?f t = Max (?f ` ids d)" by auto
    then show ?thesis using that by (metis Max_ge finite_ids finite_imageI image_eqI)
  qed
  have "(t, c) \<notin> dag_edges d" for c
  proof
    assume e: "(t, c) \<in> dag_edges d"
    then have "c \<in> ids d" "anc d t c" using graph_okD(1) [OF D(1)] by (auto simp: anc_def)
    then show False using t(2) past_card_less [OF D(1)] by (metis not_le)
  qed
  then show ?thesis using D(3) t(1) by blast
qed

lemma selected_tip_ok:
  assumes "wf_dag H d"
  shows "\<exists>t. selected_tip d = Some t \<and> t \<in> fset (tips d) \<and> (\<forall>u \<in> fset (tips d). ckey d u \<le> ckey d t)"
proof -
  note D = wf_dagD [OF assms]
  have sub: "set (tips_list d) \<subseteq> ids d" using D(3) by (auto simp: tips_list_def)
  have "tips_list d \<noteq> []" using ids_not_empty_tips [OF assms] by (auto simp: tips_list_def simp flip: set_empty)
  then obtain t where t: "max_by_key (ckey d) (tips_list d) = Some t" using max_by_key_nonempty by blast
  then have "selected_tip d = Some t" by (simp add: selected_tip_def max_by_chain_key_eq [OF sub])
  then show ?thesis
    using max_by_key_in [OF t] max_by_key_ge [OF t] by (simp add: tips_list_def)
qed

lemma tips_in_ids: "wf_dag H d \<Longrightarrow> t \<in> fset (tips d) \<Longrightarrow> t \<in> ids d"
  using wf_dagD(3) by blast

lemma selected_chain_ok:
  assumes "wf_dag H d"
  shows "\<exists>t xs. selected_tip d = Some t \<and> selected_chain d = Some xs \<and> sp_chain d xs \<and> last xs = t"
proof -
  obtain t where t: "selected_tip d = Some t" "t \<in> fset (tips d)" using selected_tip_ok [OF assms] by blast
  obtain pre where "chain_loop d t [t] = Some (pre @ [t])" "sp_chain d (pre @ [t])"
    using chain_loop_ok [OF assms tips_in_ids [OF assms t(2)], of "[]"] by auto
  with t show ?thesis by (intro exI [of _ t] exI [of _ "pre @ [t]"]) (simp add: selected_chain_def)
qed

section \<open>The order\<close>

lemma mergeset_order_ok:
  assumes "wf_dag H d" "(p, x) \<in> sp_edges d"
  shows "\<exists>ms. mergeset_order d x = Some ms \<and> distinct ms
    \<and> set ms = mergeset_set d p (parents (node_block (nd d x))) \<and> sorted (map (topo_key d) ms)"
proof -
  note D = wf_dagD [OF assms(1)]
  have x: "x \<in> ids d" "selected_parent (ghostdag (nd d x)) = Some p" using assms(2) by (auto simp: sp_edges_def)
  note sub = wf_parents_in [OF assms(1) x(1)]
  have "finite (mergeset_set d p (parents (node_block (nd d x))))" using D(1) sub by simp
  then show ?thesis
    using x nd_lookup [OF x(1)] mergeset_ordered_eq [OF D(1) sub, of p] by (simp add: mergeset_order_def)
qed

lemma spine_loop_append:
  "spine_loop d (xs @ ys) order = Option.bind (spine_loop d xs order) (spine_loop d ys)"
  by (induction xs arbitrary: order) (auto split: bind_splits)

lemma spine_ok:
  assumes "wf_dag H d" "sp_chain d xs"
  shows "last xs \<in> ids d \<and> (\<exists>s. spine_loop d xs [] = Some s \<and> distinct s
    \<and> set s = insert (last xs) (past d (last xs)) \<and> topo d {} s \<and> subseq xs s)"
  using assms(2)
proof (induction rule: sp_chain.induct)
  case sp_chain_genesis
  note D = wf_dagD [OF assms(1)]
  have "past d (genesis d) = {}"
    using past_eq_new_past [OF nd_lookup [OF D(2)]] D(9) by (simp add: new_past_def)
  moreover have "mergeset_order d (genesis d) = Some []"
    using nd_lookup [OF D(2)] D(10) by (simp add: mergeset_order_def genesis_ghostdag_def)
  ultimately show ?case using D(2) by simp
next
  case (sp_chain_snoc xs y)
  note D = wf_dagD [OF assms(1)]
  let ?p = "last xs" and ?ps = "parents (node_block (nd d y))"
  have y: "y \<in> ids d" "selected_parent (ghostdag (nd d y)) = Some ?p"
    using sp_chain_snoc(2) by (auto simp: sp_edges_def)
  note P = selected_parent_in_past [OF assms(1) y]
  obtain s where s: "spine_loop d xs [] = Some s" "distinct s" "set s = insert ?p (past d ?p)"
      "topo d {} s" "subseq xs s" using sp_chain_snoc(3) by blast
  obtain ms where ms: "mergeset_order d y = Some ms" "distinct ms" "set ms = mergeset_set d ?p ?ps"
      "sorted (map (topo_key d) ms)" using mergeset_order_ok [OF assms(1) sp_chain_snoc(2)] by blast
  have py: "past d y = set s \<union> set ms"
    using past_eq_new_past [OF nd_lookup [OF y(1)]] new_past_split [OF P(1)] s(3) ms(3) by simp
  have disj: "set s \<inter> set ms = {}" using s(3) ms(3) by (auto simp: mergeset_set_def past_def)
  have yn: "y \<notin> set s \<union> set ms" using py anc_irrefl [OF D(1)] by (auto simp: past_def)
  have "topo d (set s) ms"
  proof (rule topo_sorted [OF D(1,6) ms(4,2)])
    show "set ms \<subseteq> ids d" using ms(3) mergeset_subset [OF D(1) wf_parents_in [OF assms(1) y(1)]] by simp
    show "\<forall>x \<in> set ms. past d x \<subseteq> set s \<union> set ms"
      unfolding py [symmetric] using py by (auto simp: past_def dest: anc_trans)
  qed
  then have "topo d {} (s @ ms @ [y])" using s(4) py by (simp add: topo_append)
  moreover have "spine_loop d (xs @ [y]) [] = Some (s @ ms @ [y])" using s(1) ms(1) by (simp add: spine_loop_append)
  moreover have "subseq (xs @ [y]) (s @ ms @ [y])"
    using s(5) by (metis append_assoc list_emb_append2 list_emb_append_mono subseq_order.order_refl append.assoc)
  ultimately show ?case using s(2) ms(2) disj yn py y(1) by auto
qed

lemma linearize_ok:
  assumes "wf_dag H d"
  shows "\<exists>xs chain. linearize d = Some xs \<and> distinct xs \<and> set xs = ids d \<and> topo d {} xs
    \<and> selected_chain d = Some chain \<and> subseq chain xs"
proof -
  note D = wf_dagD [OF assms]
  obtain t chain where c: "selected_tip d = Some t" "selected_chain d = Some chain" "sp_chain d chain" "last chain = t"
    using selected_chain_ok [OF assms] by blast
  obtain s where s: "spine_loop d chain [] = Some s" "distinct s" "set s = insert t (past d t)"
      "topo d {} s" "subseq chain s" "t \<in> ids d" using spine_ok [OF assms c(3)] c(4) by blast
  let ?tail = "filter (\<lambda>b. b \<notin> set s) (sorted_list_of_fset (fmdom (nodes d)))"
  let ?l = "sort_key (topo_key d) ?tail"
  have st: "set ?tail = ids d - set s" by (auto simp: ids_def)
  have sub: "set s \<subseteq> ids d" using s(3,6) past_subset [OF D(1)] by auto
  have "topo d (set s) ?l"
    by (rule topo_sorted [OF D(1,6)]) (use st sub past_subset [OF D(1)] in auto)
  moreover have "subseq chain (s @ ?l)" using s(5) by (metis append_Nil2 list_emb_append2 list_emb_append_mono list_emb_Nil)
  ultimately show ?thesis
    using s c(2) st sub
    by (intro exI [of _ "s @ ?l"] exI [of _ chain]) (auto simp: linearize_def topo_append Let_def)
qed

end
