(* ===== verification/DagProps.thy ===== *)
theory DagProps
  imports Ordering
begin

text \<open>
  The consensus properties of the block DAG: the k-cluster invariant, blue score and blue work,
  and that the consensus data depends on the blocks alone.
\<close>

section \<open>Blue sets\<close>

text \<open>The selected parent starts the new blue set and has none of it in its anticone.\<close>

lemma seed_ids:
  assumes "wf_dag H d" "sp \<in> ids d"
  defines "m \<equiv> blue_anticone_sizes (ghostdag (nd d sp))"
  shows "blue_ids (fmupd sp 0 m) = insert sp (blue_ids m)"
    "b \<in> insert sp (blue_ids m) \<Longrightarrow> anticone_in d (insert sp (blue_ids m)) b = (if b = sp then {} else anticone_in d (blue_ids m) b)"
proof -
  show "blue_ids (fmupd sp 0 m) = insert sp (blue_ids m)" by (simp add: blue_ids_def)
  have "anc d c sp" if "c \<in> blue_ids m" for c
    using wf_dagD(8) [OF assms(1,2)] that by (auto simp: past_def m_def)
  then show "anticone_in d (insert sp (blue_ids m)) b = (if b = sp then {} else anticone_in d (blue_ids m) b)"
    if "b \<in> insert sp (blue_ids m)" using that by (auto simp: anticone_in_def in_anticone_exact [OF wf_dagD(1) [OF assms(1)]])
qed

lemma seed_counted:
  assumes "wf_dag H d" "sp \<in> ids d" "counted d (blue_anticone_sizes (ghostdag (nd d sp)))"
  shows "counted d (fmupd sp 0 (blue_anticone_sizes (ghostdag (nd d sp))))"
proof -
  let ?m = "blue_anticone_sizes (ghostdag (nd d sp))"
  note S = seed_ids [OF assms(1,2)]
  have "s = word_of_nat (card (anticone_in d (insert sp (blue_ids ?m)) b))" if "fmlookup (fmupd sp 0 ?m) b = Some s" for b s
  proof -
    have "b \<in> insert sp (blue_ids ?m)" using that S(1) by (auto simp: blue_ids_def fmlookup_dom_iff split: if_splits)
    then show ?thesis using that S(2) assms(3) by (auto simp: counted_def split: if_splits)
  qed
  then show ?thesis by (simp add: counted_def S(1))
qed

lemma seed_cluster:
  assumes "wf_dag H d" "sp \<in> ids d" "cluster_ok d (blue_anticone_sizes (ghostdag (nd d sp)))"
  shows "cluster_ok d (fmupd sp 0 (blue_anticone_sizes (ghostdag (nd d sp))))"
  using assms(3) seed_counted [OF assms(1,2)] seed_ids [OF assms(1,2)] by (auto simp: cluster_ok_counted)

lemma blue_data:
  assumes "wf_dag H d" "x \<in> ids d"
  shows "(dag_k d \<noteq> - 1 \<longrightarrow> cluster_ok d (blue_anticone_sizes (ghostdag (nd d x))))
    \<and> counted d (blue_anticone_sizes (ghostdag (nd d x)))
    \<and> (dag_k d = - 1 \<longrightarrow> blue_ids (blue_anticone_sizes (ghostdag (nd d x))) = past d x)
    \<and> blue_score (ghostdag (nd d x)) = card (blue_ids (blue_anticone_sizes (ghostdag (nd d x))))
    \<and> blue_work (ghostdag (nd d x))
        = (\<Sum>b \<in> blue_ids (blue_anticone_sizes (ghostdag (nd d x))). work (node_block (nd d b)))"
  using assms(2)
proof (induction "card (past d x)" arbitrary: x rule: less_induct)
  case less
  note D = wf_dagD [OF assms(1)]
  show ?case
  proof (cases "x = genesis d")
    case True
    moreover have "past d (genesis d) = {}"
      using past_eq_new_past [OF nd_lookup [OF D(2)]] D(9) by (simp add: new_past_def)
    ultimately show ?thesis using D(10) by (simp add: genesis_ghostdag_def cluster_ok_def counted_def blue_ids_def)
  next
    case False
    let ?gd = "ghostdag (nd d x)" and ?ps = "parents (node_block (nd d x))"
    obtain sp where sp: "sp \<in> set ?ps" "gd_spec d ?ps sp ?gd"
      "colour_mergeset d (sort_key (topo_key d) (sorted_list_of_set (mergeset_set d sp ?ps)))
        (fmupd sp 0 (blue_anticone_sizes (ghostdag (nd d sp)))) [] []
      = Some (blue_anticone_sizes ?gd, mergeset_blues ?gd, mergeset_reds ?gd)"
      using compute_ghostdag_ok [OF D(1) D(11) [OF less.prems False] wf_parents_in [OF assms(1) less.prems]]
        D(12) [OF less.prems False] by auto
    let ?m = "blue_anticone_sizes (ghostdag (nd d sp))"
    note sub = wf_parents_in [OF assms(1) less.prems]
    have spi: "sp \<in> ids d" "anc d sp x"
      using sp(1) sub anc_parent [OF nd_lookup [OF less.prems]] by auto
    note IH = less.hyps [OF past_card_less [OF D(1) spi(2)] spi(1)]
    note M = gd_spec_mergeset [OF D(1) sub sp(2)]
    have fin: "finite (mergeset_set d sp ?ps)" using D(1) sub by simp
    have bp: "blue_ids ?m \<subseteq> past d sp" by (rule D(8) [OF spi(1)])
    have disj: "mergeset_set d sp ?ps \<inter> insert sp (blue_ids ?m) = {}"
      using bp by (auto simp: mergeset_set_def past_def)
    have spm: "sp \<notin> blue_ids ?m" using bp anc_irrefl [OF D(1)] by (auto simp: past_def)
    have bl: "distinct (mergeset_blues ?gd)" "set (mergeset_blues ?gd) \<inter> insert sp (blue_ids ?m) = {}"
      using M(1,3) disj by auto
    have ids: "blue_ids (blue_anticone_sizes ?gd) = insert sp (blue_ids ?m) \<union> set (mergeset_blues ?gd)"
      using sp(2) by (simp add: gd_spec_def)
    have "cluster_ok d (blue_anticone_sizes ?gd)" if "dag_k d \<noteq> - 1"
      by (rule colour_mergeset_cluster [OF that seed_cluster [OF assms(1) spi(1)] _ _ sp(3)])
        (use IH that fin disj in \<open>auto simp: blue_ids_def\<close>)
    moreover have "counted d (blue_anticone_sizes ?gd)"
      by (rule colour_mergeset_counted [OF seed_counted [OF assms(1) spi(1)] _ _ sp(3)])
        (use IH fin disj in \<open>auto simp: blue_ids_def\<close>)
    moreover have "blue_ids (blue_anticone_sizes ?gd) = past d x" if k: "dag_k d = - 1"
    proof -
      have "mergeset_reds ?gd = []" by (rule colour_mergeset_wraps [OF k sp(3)])
      then have "blue_ids (blue_anticone_sizes ?gd) = insert sp (past d sp) \<union> mergeset_set d sp ?ps"
        using M(1) IH k unfolding ids by simp
      then show ?thesis
        using past_eq_new_past [OF nd_lookup [OF less.prems]] new_past_split [OF sp(1), of d] by blast
    qed
    moreover have "blue_score ?gd = card (blue_ids (blue_anticone_sizes ?gd))"
      using IH sp(2) spm bl unfolding ids gd_spec_def
      by (subst card_Un_disjoint) (auto simp: distinct_card)
    moreover have "blue_work ?gd
        = (\<Sum>b \<in> blue_ids (blue_anticone_sizes ?gd). work (node_block (nd d b)))"
      using IH sp(2) spm bl unfolding ids gd_spec_def
      by (subst sum.union_disjoint) (auto simp: sum_list_distinct_conv_sum_set add.commute)
    ultimately show ?thesis by blast
  qed
qed

section \<open>Two DAGs with the same blocks\<close>

lemma same_blocks_edges:
  assumes "ids d' = ids d" "\<And>x. x \<in> ids d \<Longrightarrow> node_block (nd d' x) = node_block (nd d x)"
  shows "dag_edges d' = dag_edges d"
proof -
  have "(p, x) \<in> dag_edges d' \<longleftrightarrow> (p, x) \<in> dag_edges d" for p x
  proof (cases "x \<in> ids d")
    case True
    then show ?thesis using assms edges_nd [of x d] edges_nd [of x d'] by simp
  next
    case False
    then show ?thesis using assms(1) edges_target by blast
  qed
  then show ?thesis by auto
qed

lemma common_blocks_anc:
  assumes "wf_dag H d" "wf_dag H' d'" "\<And>x. x \<in> ids d \<inter> ids d' \<Longrightarrow> node_block (nd d' x) = node_block (nd d x)" "x \<in> ids d \<inter> ids d'"
  shows "anc d' y x \<longleftrightarrow> anc d y x" "past d x \<subseteq> ids d \<inter> ids d'"
proof -
  let ?S = "ids d \<inter> ids d'"
  have e: "(p, z) \<in> dag_edges d' \<longleftrightarrow> (p, z) \<in> dag_edges d" if "z \<in> ?S" for p z
    using that assms(3) edges_nd [of z d] edges_nd [of z d'] by auto
  have src: "p \<in> ?S" if "(p, z) \<in> dag_edges d" "z \<in> ?S" for p z
    using graph_okD(1) [OF wf_dagD(1) [OF assms(1)]] graph_okD(1) [OF wf_dagD(1) [OF assms(2)]] e that by blast
  have down: "y \<in> ?S \<and> (y, x) \<in> (dag_edges d')\<^sup>+" if "(y, x) \<in> (dag_edges d)\<^sup>+" "x \<in> ?S" for x y
    using that
  proof (induction rule: converse_trancl_induct)
    case (step y z)
    then show ?case using e src by (meson trancl_into_trancl2)
  qed (use e src in blast)
  have up: "(y, x) \<in> (dag_edges d)\<^sup>+" if "(y, x) \<in> (dag_edges d')\<^sup>+" "x \<in> ?S" for x
    using that
  proof (induction rule: trancl_induct)
    case (step z w)
    then show ?case using e src by (meson trancl_into_trancl)
  qed (use e in blast)
  show "anc d' y x \<longleftrightarrow> anc d y x" using down [of y x] up [of x] assms(4) by (auto simp: anc_def)
  show "past d x \<subseteq> ?S" using down [of _ x] assms(4) by (auto simp: past_def anc_def)
qed

text \<open>Two DAGs give the blocks they have in common the same data.\<close>

lemma common_blocks_agree:
  assumes "wf_dag H d" "wf_dag H d'" "dag_k d' = dag_k d" "genesis d' = genesis d"
    and "\<And>x. x \<in> ids d \<inter> ids d' \<Longrightarrow> node_block (nd d' x) = node_block (nd d x)"
  shows "agree_on d d' (ids d \<inter> ids d')"
proof -
  note D = wf_dagD [OF assms(1)] and D' = wf_dagD [OF assms(2)] and A = common_blocks_anc [OF assms(1,2,5)]
  have past: "past d' x = past d x" if "x \<in> ids d \<inter> ids d'" for x
    using A(1) [OF _ that] by (auto simp: past_def)
  have "same_data (nd d x) (nd d' x)" if "x \<in> ids d \<inter> ids d'" for x
    using that
  proof (induction "card (past d x)" arbitrary: x rule: less_induct)
    case less
    note S = less.prems
    have x: "x \<in> ids d" "x \<in> ids d'" using S by auto
    have size: "past_size (nd d' x) = past_size (nd d x)" using D(6) [OF x(1)] D'(6) [OF x(2)] past [OF S] by simp
    have "ghostdag (nd d' x) = ghostdag (nd d x)"
    proof (cases "x = genesis d")
      case True
      then show ?thesis using D(10) D'(10) assms(4) by simp
    next
      case False
      let ?ps = "parents (node_block (nd d x))" and ?S = "past d x"
      have sub: "?S \<subseteq> ids d \<inter> ids d'" by (rule A(2) [OF _ S])
      have closed: "past d y \<subseteq> ?S" if "y \<in> ?S" for y using that by (auto simp: past_def dest: anc_trans)
      have "same_data (nd d y) (nd d' y)" if "y \<in> ?S" for y
        using less.hyps [of y] past_card_less [OF D(1), of y x] sub that by (auto simp: past_def)
      then have "agree_on d d' ?S" unfolding agree_on_def using assms(3) sub closed by auto
      moreover have "set ?ps \<subseteq> ?S" using anc_parent [OF nd_lookup [OF x(1)]] by (auto simp: past_def)
      moreover have "blue_ids (blue_anticone_sizes (ghostdag (nd d y))) \<subseteq> ?S" if "y \<in> ?S" for y
        using D(8) [of y] closed that sub by blast
      ultimately have "compute_ghostdag d' ?ps = compute_ghostdag d ?ps"
        using compute_ghostdag_agree [OF D(1) D'(1) _ D(11) [OF x(1) False]] by blast
      then show ?thesis using D(12) [OF x(1) False] D'(12) [OF x(2)] False assms(4) assms(5) [OF S] by simp
    qed
    with size assms(5) [OF S] show ?case by (simp add: same_data_def)
  qed
  then show ?thesis using assms(3) A(2) by (auto simp: agree_on_def)
qed

lemma sub_blocks_agree:
  assumes "wf_dag H d" "wf_dag H d'" "dag_k d' = dag_k d" "genesis d' = genesis d" "ids d \<subseteq> ids d'"
    and "\<And>x. x \<in> ids d \<Longrightarrow> node_block (nd d' x) = node_block (nd d x)"
  shows "agree_on d d' (ids d)"
proof -
  have "ids d \<inter> ids d' = ids d" using assms(5) by blast
  then show ?thesis using common_blocks_agree [OF assms(1-4)] assms(6) by auto
qed

section \<open>DAGs that agree on a past-closed part\<close>

text \<open>
  Two well-formed DAGs that agree on a set of blocks closed under ancestors give those blocks the
  same selected chain, mergesets and order.
\<close>

lemma agree_lookup:
  assumes "agree_on d d' S" "x \<in> S"
  shows "ghostdag (nd d' x) = ghostdag (nd d x)" "node_block (nd d' x) = node_block (nd d x)"
    "fmlookup (nodes d) x = Some (nd d x)" "fmlookup (nodes d') x = Some (nd d' x)"
  using agree_onD(2-4) [OF assms(1)] assms(2) nd_lookup [of x d] nd_lookup [of x d']
  by (auto simp: same_data_def)

lemma agree_mergeset_ordered:
  assumes "wf_dag H d" "wf_dag H d'" "agree_on d d' S" "set ps \<subseteq> S" "sp \<in> S"
  shows "mergeset_ordered d' sp ps = mergeset_ordered d sp ps"
proof -
  note G = wf_dagD(1) [OF assms(1)] wf_dagD(1) [OF assms(2)] and sub = agree_onD(2,3) [OF assms(3)]
  have ps: "set ps \<subseteq> ids d" "set ps \<subseteq> ids d'" using assms(4) sub by auto
  have "finite (mergeset_set d sp ps)" using G(1) ps(1) by simp
  then have "sort_key (topo_key d') (sorted_list_of_set (mergeset_set d sp ps))
      = sort_key (topo_key d) (sorted_list_of_set (mergeset_set d sp ps))"
    using agree_topo [OF assms(3)] agree_mergeset(2) [OF assms(3-5)] by (intro sort_key_cong_on) auto
  then show ?thesis
    by (simp add: mergeset_ordered_eq [OF G(1) ps(1)] mergeset_ordered_eq [OF G(2) ps(2)]
        agree_mergeset(1) [OF assms(3-5)])
qed

lemma agree_parents:
  assumes "wf_dag H d" "agree_on d d' S" "x \<in> S"
  shows "set (parents (node_block (nd d x))) \<subseteq> S"
    "selected_parent (ghostdag (nd d x)) = Some p \<Longrightarrow> p \<in> S \<and> anc d p x"
proof -
  have x: "x \<in> ids d" using agree_onD(2) [OF assms(2)] assms(3) by blast
  show "set (parents (node_block (nd d x))) \<subseteq> S"
    using anc_parent [OF nd_lookup [OF x]] agree_onD(5) [OF assms(2,3)] by blast
  show "p \<in> S \<and> anc d p x" if "selected_parent (ghostdag (nd d x)) = Some p"
    using selected_parent_in_past(3) [OF assms(1) x that] agree_onD(5) [OF assms(2,3)] by blast
qed

lemma agree_mergeset_order:
  assumes "wf_dag H d" "wf_dag H d'" "agree_on d d' S" "x \<in> S"
  shows "mergeset_order d' x = mergeset_order d x"
proof (cases "selected_parent (ghostdag (nd d x))")
  case (Some p)
  note P = agree_parents [OF assms(1,3,4)]
  show ?thesis
    using agree_lookup [OF assms(3,4)] agree_mergeset_ordered [OF assms(1-3) P(1)] P(2) [OF Some] Some
    by (simp add: mergeset_order_def)
qed (use agree_lookup [OF assms(3,4)] in \<open>simp add: mergeset_order_def\<close>)

lemma agree_chain:
  assumes "wf_dag H d" "agree_on d d' S" "x \<in> S"
  shows "chain_loop d' x acc = chain_loop d x acc"
  using assms(3)
proof (induction "card (past d x)" arbitrary: x acc rule: less_induct)
  case less
  note L = agree_lookup [OF assms(2) less.prems]
  show ?case
  proof (cases "selected_parent (ghostdag (nd d x))")
    case None
    then show ?thesis using L by (simp add: chain_loop.simps [of d x] chain_loop.simps [of d' x] dag_ghostdag_def)
  next
    case (Some p)
    have P: "p \<in> S" "anc d p x" using agree_parents(2) [OF assms(1,2) less.prems Some] by auto
    have "chain_loop d' p (p # acc) = chain_loop d p (p # acc)"
      by (rule less.hyps [OF past_card_less [OF wf_dagD(1) [OF assms(1)] P(2)] P(1)])
    then show ?thesis using L Some
      by (simp add: chain_loop.simps [of d x] chain_loop.simps [of d' x] dag_ghostdag_def)
  qed
qed

lemma agree_spine:
  assumes "wf_dag H d" "wf_dag H d'" "agree_on d d' S"
  shows "set xs \<subseteq> S \<Longrightarrow> spine_loop d' xs order = spine_loop d xs order"
  by (induction xs arbitrary: order) (simp_all add: agree_mergeset_order [OF assms])

text \<open>Two well-formed DAGs over the same blocks, and what follows for the order.\<close>

definition same_blocks :: "digest \<Rightarrow> dag \<Rightarrow> dag \<Rightarrow> bool" where
  "same_blocks H d d' \<longleftrightarrow> wf_dag H d \<and> wf_dag H d' \<and> dag_k d' = dag_k d \<and> genesis d' = genesis d
     \<and> ids d' = ids d \<and> (\<forall>x \<in> ids d. node_block (nd d' x) = node_block (nd d x))"

lemma same_blocks_agree: "same_blocks H d d' \<Longrightarrow> agree_on d d' (ids d)"
  by (rule sub_blocks_agree [of H]) (simp_all add: same_blocks_def)

lemma same_blocks_lookup:
  assumes "same_blocks H d d'" "x \<in> ids d"
  shows "ghostdag (nd d' x) = ghostdag (nd d x)" "node_block (nd d' x) = node_block (nd d x)"
    "fmlookup (nodes d) x = Some (nd d x)" "fmlookup (nodes d') x = Some (nd d' x)"
  using agree_onD(4) [OF same_blocks_agree [OF assms(1)] assms(2)] assms nd_lookup [of x d] nd_lookup [of x d']
  by (auto simp: same_data_def same_blocks_def)

lemma same_blocks_tips:
  assumes "same_blocks H d d'"
  shows "tips d' = tips d"
proof -
  have "dag_edges d' = dag_edges d" using assms by (intro same_blocks_edges) (auto simp: same_blocks_def)
  then have "fset (tips d') = fset (tips d)"
    using assms wf_dagD(3) [of H d] wf_dagD(3) [of H d'] by (simp add: same_blocks_def)
  then show ?thesis by (simp add: fset_inject)
qed

lemma same_blocks_max:
  assumes "same_blocks H d d'" "set ps \<subseteq> ids d"
  shows "max_by_chain_key d' ps = max_by_chain_key d ps"
proof -
  have "max_by_key (ckey d') ps = max_by_key (ckey d) ps"
    using agree_ckey [OF same_blocks_agree [OF assms(1)]] assms(2) by (intro max_by_key_cong) auto
  moreover have "set ps \<subseteq> ids d'" using assms by (simp add: same_blocks_def)
  ultimately show ?thesis by (simp add: max_by_chain_key_eq assms(2))
qed

lemma same_blocks_chain:
  assumes "same_blocks H d d'" "x \<in> ids d"
  shows "chain_loop d' x acc = chain_loop d x acc"
  by (rule agree_chain [of H, OF _ same_blocks_agree [OF assms(1)] assms(2)]) (use assms(1) in \<open>simp add: same_blocks_def\<close>)

lemma same_blocks_spine:
  assumes "same_blocks H d d'"
  shows "set xs \<subseteq> ids d \<Longrightarrow> spine_loop d' xs order = spine_loop d xs order"
  by (rule agree_spine [of H, OF _ _ same_blocks_agree [OF assms]]) (use assms in \<open>simp_all add: same_blocks_def\<close>)

lemma sp_chain_ids: "wf_dag H d \<Longrightarrow> sp_chain d xs \<Longrightarrow> set xs \<subseteq> ids d"
  by (rotate_tac, induction rule: sp_chain.induct) (auto simp: sp_edges_def dest: wf_dagD(2))

lemma same_blocks_tip:
  assumes "same_blocks H d d'"
  shows "selected_tip d' = selected_tip d"
proof -
  have gen: "genesis d' = genesis d" and wf: "wf_dag H d" using assms by (auto simp: same_blocks_def)
  have "set (tips_list d) \<subseteq> ids d" using tips_in_ids [OF wf] by (auto simp: tips_list_def)
  then show ?thesis
    using same_blocks_max [OF assms] unfolding selected_tip_def tips_list_def same_blocks_tips [OF assms] gen
    by simp
qed

lemma same_blocks_selected_chain:
  assumes "same_blocks H d d'"
  shows "selected_chain d' = selected_chain d"
proof -
  have wf: "wf_dag H d" using assms by (simp add: same_blocks_def)
  obtain u where u: "selected_tip d = Some u" "u \<in> fset (tips d)" using selected_tip_ok [OF wf] by blast
  then show ?thesis
    using same_blocks_chain [OF assms tips_in_ids [OF wf u(2)]] same_blocks_tip [OF assms]
    by (simp add: selected_chain_def)
qed

lemma same_blocks_linearize:
  assumes "same_blocks H d d'"
  shows "linearize d' = linearize d"
proof -
  have wf: "wf_dag H d" and ids: "ids d' = ids d" using assms by (auto simp: same_blocks_def)
  obtain xs where c: "selected_chain d = Some xs" "sp_chain d xs" using selected_chain_ok [OF wf] by blast
  have "fmdom (nodes d') = fmdom (nodes d)" using ids by (simp add: ids_def fset_inject)
  moreover have "sort_key (topo_key d') ys = sort_key (topo_key d) ys" if "set ys \<subseteq> ids d" for ys
    using agree_topo [OF same_blocks_agree [OF assms]] that by (intro sort_key_cong_on) auto
  moreover have "set (filter P (sorted_list_of_fset (fmdom (nodes d)))) \<subseteq> ids d" for P
    by (auto simp: ids_def)
  ultimately show ?thesis
    using c(1) same_blocks_selected_chain [OF assms] same_blocks_spine [OF assms sp_chain_ids [OF wf c(2)]]
    by (simp add: linearize_def)
qed

lemma same_blocksI:
  assumes "wf_dag H d" "wf_dag H d'" "dag_k d' = dag_k d" "genesis d' = genesis d" "dag_block d' = dag_block d"
  shows "same_blocks H d d'"
proof -
  have in_ids: "x \<in> ids e \<longleftrightarrow> dag_block e x \<noteq> None" for e x by (auto simp: ids_lookup dag_block_def)
  have ids: "ids d' = ids d" using in_ids [of _ d] in_ids [of _ d'] assms(5) by auto
  have "node_block (nd d' x) = node_block (nd d x)" if "x \<in> ids d" for x
    using fun_cong [OF assms(5), of x] nd_lookup [of x d] nd_lookup [of x d'] that ids by (simp add: dag_block_def)
  then show ?thesis using assms ids by (simp add: same_blocks_def)
qed

lemma same_blocks_ghostdag:
  assumes "same_blocks H d d'"
  shows "dag_ghostdag d' x = dag_ghostdag d x"
proof (cases "x \<in> ids d")
  case True
  then show ?thesis using same_blocks_lookup [OF assms True] by (simp add: dag_ghostdag_def)
next
  case False
  then have "x \<notin> ids d'" using assms by (simp add: same_blocks_def)
  then have "fmlookup (nodes d) x = None" "fmlookup (nodes d') x = None" using False by (auto simp: ids_lookup)
  then show ?thesis by (simp add: dag_ghostdag_def)
qed

lemmas same_blocks_consensus =
  same_blocks_ghostdag same_blocks_tips same_blocks_tip same_blocks_selected_chain same_blocks_linearize

section \<open>Previewing an insertion\<close>

lemma preview_ok:
  assumes "wf_dag H d"
  shows "\<exists>res. preview H d b = Some res
    \<and> (\<forall>e. res = Inl e \<longrightarrow> check_structure d (block_ident H b) b = Inl e)
    \<and> (\<forall>pv. res = Inr pv \<longrightarrow> check_structure d (block_ident H b) b = Inr () \<and> set (parents b) \<subseteq> ids d
         \<and> max_by_key (ckey d) (parents b) = Some (preview_selected_parent pv)
         \<and> preview_selected_parent pv \<in> ids d \<and> set (preview_mergeset pv) \<subseteq> ids d
         \<and> mergeset_ordered d (preview_selected_parent pv) (parents b) = Some (preview_mergeset pv))"
proof (cases "check_structure d (block_ident H b) b")
  case (Inl e)
  then show ?thesis by (simp add: preview_def)
next
  case (Inr u)
  note G = wf_dagD(1) [OF assms]
  have S: "parents b \<noteq> []" "set (parents b) \<subseteq> ids d" using Inr check_structure_ok by blast+
  obtain sp where sp: "max_by_key (ckey d) (parents b) = Some sp" using max_by_key_nonempty [OF S(1)] by blast
  then have spi: "sp \<in> ids d" using max_by_key_in [OF sp] S(2) by blast
  let ?ms = "sort_key (topo_key d) (sorted_list_of_set (mergeset_set d sp (parents b)))"
  have fin: "finite (mergeset_set d sp (parents b))" using G S(2) by simp
  have "preview H d b = Some (Inr \<lparr>preview_selected_parent = sp, preview_mergeset = ?ms\<rparr>)"
    using Inr sp by (simp add: preview_def max_by_chain_key_eq [OF S(2)] mergeset_ordered_eq [OF G S(2)])
  then show ?thesis
    using Inr sp spi S fin mergeset_subset [OF G S(2)] mergeset_ordered_eq [OF G S(2), of sp] by simp
qed

lemma preview_insert:
  assumes "wf_dag H d" "Suc (card (ids d)) \<le> ROOT_CAPACITY" "dag_insert H v d b = Some (Inr (i, d'))"
  shows "\<exists>pv. preview H d b = Some (Inr pv) \<and> wf_dag H d' \<and> agree_on d d' (ids d) \<and> ids d' = insert i (ids d)
    \<and> i \<notin> ids d \<and> node_block (nd d' i) = b \<and> genesis d' = genesis d
    \<and> selected_parent (ghostdag (nd d' i)) = Some (preview_selected_parent pv)
    \<and> mergeset_order d' i = Some (preview_mergeset pv)
    \<and> mset (preview_mergeset pv) = mset (mergeset_blues (ghostdag (nd d' i))) + mset (mergeset_reds (ghostdag (nd d' i)))"
proof -
  note I = dag_insert_InrD [OF assms]
  obtain gd sp where gd: "max_by_key (ckey d) (parents b) = Some sp" "gd_spec d (parents b) sp gd"
    and W: "wired d i b sp gd d'" using I(4) by blast
  have S: "i \<notin> ids d" "set (parents b) \<subseteq> ids d" "check_structure d (block_ident H b) b = Inr ()"
    using I(1,3) by (auto simp: acceptable_def check_structure_ok)
  obtain pv where pv: "preview H d b = Some (Inr pv)" "preview_selected_parent pv = sp" "sp \<in> ids d"
      "mergeset_ordered d sp (parents b) = Some (preview_mergeset pv)"
    using preview_ok [OF assms(1), of b] S(3) gd(1) by (metis Inl_Inr_False obj_sumE option.inject)
  note G = wf_dagD(1) [OF assms(1)]
  note A = wired_agree [OF G W]
  have n: "ids d' = insert i (ids d)" "node_block (nd d' i) = b" "ghostdag (nd d' i) = gd" "genesis d' = genesis d"
    using W by (auto simp: wired_def)
  have sel: "selected_parent gd = Some sp" using gd(2) by (simp add: gd_spec_def)
  have "mergeset_ordered d' sp (parents b) = Some (preview_mergeset pv)"
    using agree_mergeset_ordered [OF assms(1) I(2) A S(2) pv(3)] pv(4) by simp
  then have mo: "mergeset_order d' i = Some (preview_mergeset pv)"
    using nd_lookup [of i d'] n sel by (simp add: mergeset_order_def)
  have fin: "finite (mergeset_set d sp (parents b))" using G S(2) by simp
  have "preview_mergeset pv = sort_key (topo_key d) (sorted_list_of_set (mergeset_set d sp (parents b)))"
    using pv(4) mergeset_ordered_eq [OF G S(2), of sp] by simp
  then have "mset (preview_mergeset pv) = mset (mergeset_blues gd) + mset (mergeset_reds gd)"
    using gd(2) fin mset_set_set [of "sorted_list_of_set (mergeset_set d sp (parents b))"] by (simp add: gd_spec_def)
  then show ?thesis using pv(1,2) I(2) A n S(1) sel mo by auto
qed

end
