(* ===== verification/Consensus.thy ===== *)
theory Consensus
  imports DagProps
begin

text \<open>
  What the consensus layer guarantees, stated for every reachable DAG.  The witnesses run the
  model: a genesis, two parallel blocks and a block that merges them, under a digest that tells
  these four blocks apart.
\<close>

section \<open>A small DAG\<close>

definition demo_H :: digest where
  "demo_H bs = word_of_nat (length bs)"

definition demo_g :: block where
  "demo_g = block_genesis 1 0 0 []"

definition demo_a :: block where
  "demo_a = block_new [block_ident demo_H demo_g] 1 5 0 []"

definition demo_b :: block where
  "demo_b = block_new [block_ident demo_H demo_g] 1 6 0 [7]"

definition demo_m :: block where
  "demo_m = block_new [block_ident demo_H demo_a, block_ident demo_H demo_b] 1 7 0 []"

lemma demo_ids:
  "block_ident demo_H demo_g = BlockId 48" "block_ident demo_H demo_a = BlockId 80"
  "block_ident demo_H demo_b = BlockId 81" "block_ident demo_H demo_m = BlockId 112"
proof -
  show g: "block_ident demo_H demo_g = BlockId 48"
    by (simp add: block_ident_def demo_H_def demo_g_def id_preimage_def)
  show a: "block_ident demo_H demo_a = BlockId 80"
    by (simp add: block_ident_def demo_H_def demo_a_def id_preimage_def block_new_def g)
  show b: "block_ident demo_H demo_b = BlockId 81"
    by (simp add: block_ident_def demo_H_def demo_b_def id_preimage_def block_new_def g)
  have "parents demo_m = [BlockId 80, BlockId 81]" "payload demo_m = []"
    unfolding demo_m_def a b by (simp_all add: block_new_def less_eq_block_id_def)
  then show "block_ident demo_H demo_m = BlockId 112"
    by (simp add: block_ident_def demo_H_def id_preimage_def)
qed

lemma demo_parents:
  "set (parents demo_a) = {BlockId 48}" "set (parents demo_b) = {BlockId 48}"
  "set (parents demo_m) = {BlockId 80, BlockId 81}"
  unfolding demo_m_def demo_ids(2,3) unfolding demo_a_def demo_b_def demo_ids by simp_all

lemma demo_small: "card S \<le> 4 \<Longrightarrow> card S < ROOT_CAPACITY"
  by (simp add: ROOT_CAPACITY_def u64_max_def)

lemma demo_run:
  "\<exists>d0 d1 d2 d3. dag_new demo_H 3 demo_g = Some d0
     \<and> dag_insert demo_H None d0 demo_a = Some (Inr (BlockId 80, d1))
     \<and> dag_insert demo_H None d1 demo_b = Some (Inr (BlockId 81, d2))
     \<and> dag_insert demo_H None d2 demo_m = Some (Inr (BlockId 112, d3))
     \<and> reachable demo_H 3 demo_g d2 \<and> reachable demo_H 3 demo_g d3
     \<and> ids d2 = {BlockId 48, BlockId 80, BlockId 81}
     \<and> ids d3 = {BlockId 48, BlockId 80, BlockId 81, BlockId 112}
     \<and> dag_edges d3 = {(BlockId 48, BlockId 80), (BlockId 48, BlockId 81),
          (BlockId 80, BlockId 112), (BlockId 81, BlockId 112)}"
proof -
  have g: "parents demo_g = []" by (simp add: demo_g_def)
  obtain d0 where d0: "dag_new demo_H 3 demo_g = Some d0" "wf_dag demo_H d0" "ids d0 = {BlockId 48}"
      "difficulty d0 = None" "\<not> require_pow d0"
    using dag_new_ok [OF g, of demo_H 3] unfolding demo_ids by blast
  have e0: "dag_edges d0 = {}"
  proof -
    have "dag_edges d0 \<subseteq> ids d0 \<times> ids d0" using graph_okD(1) [OF wf_dagD(1) [OF d0(2)]] .
    moreover have "(BlockId 48, BlockId 48) \<notin> dag_edges d0"
      using anc_irrefl [OF wf_dagD(1) [OF d0(2)], of "BlockId 48"] by (auto simp: anc_def)
    ultimately show ?thesis using d0(3) by auto
  qed
  have p: "set (parents demo_a) = {BlockId 48}" "set (parents demo_b) = {BlockId 48}"
      "set (parents demo_m) = {BlockId 80, BlockId 81}"
    by (simp_all add: demo_parents)
  then have ne: "parents demo_a \<noteq> []" "parents demo_b \<noteq> []" "parents demo_m \<noteq> []" by auto
  obtain d1 where d1: "dag_insert demo_H None d0 demo_a = Some (Inr (BlockId 80, d1))" "wf_dag demo_H d1"
      "ids d1 = {BlockId 80, BlockId 48}" "difficulty d1 = None" "\<not> require_pow d1"
      "dag_edges d1 = {(BlockId 48, BlockId 80)}"
    using insert_plain [OF d0(2,4,5), of demo_a] ne p demo_small [of "ids d0"] unfolding demo_ids d0(3) e0 by auto
  obtain d2 where d2: "dag_insert demo_H None d1 demo_b = Some (Inr (BlockId 81, d2))" "wf_dag demo_H d2"
      "ids d2 = {BlockId 81, BlockId 80, BlockId 48}" "difficulty d2 = None" "\<not> require_pow d2"
      "dag_edges d2 = {(BlockId 48, BlockId 80), (BlockId 48, BlockId 81)}"
    using insert_plain [OF d1(2,4,5), of demo_b] ne p demo_small [of "ids d1"] unfolding demo_ids d1(3,6) by (auto simp: insert_commute)
  obtain d3 where d3: "dag_insert demo_H None d2 demo_m = Some (Inr (BlockId 112, d3))" "wf_dag demo_H d3"
      "ids d3 = {BlockId 112, BlockId 81, BlockId 80, BlockId 48}"
      "dag_edges d3 = {(BlockId 48, BlockId 80), (BlockId 48, BlockId 81),
          (BlockId 80, BlockId 112), (BlockId 81, BlockId 112)}"
    using insert_plain [OF d2(2,4,5), of demo_m] ne p demo_small [of "ids d2"] unfolding demo_ids d2(3,6) by (auto simp: insert_commute)
  have len: "dag_len d0 < ROOT_CAPACITY" "dag_len d1 < ROOT_CAPACITY" "dag_len d2 < ROOT_CAPACITY"
    using demo_small [of "ids d0"] demo_small [of "ids d1"] demo_small [of "ids d2"]
    by (simp_all add: dag_len_ids d0(3) d1(3) d2(3))
  have r2: "reachable demo_H 3 demo_g d2"
    using reachable_insert [OF reachable_insert [OF reachable_new [OF d0(1)] len(1) d1(1)] len(2) d2(1)] .
  have r3: "reachable demo_H 3 demo_g d3" by (rule reachable_insert [OF r2 len(3) d3(1)])
  have i2: "ids d2 = {BlockId 48, BlockId 80, BlockId 81}"
    and i3: "ids d3 = {BlockId 48, BlockId 80, BlockId 81, BlockId 112}"
    using d2(3) d3(3) by auto
  show ?thesis
    by (intro exI [of _ d0] exI [of _ d1] exI [of _ d2] exI [of _ d3] conjI
        d0(1) d1(1) d2(1) d3(1) r2 r3 i2 i3 d3(4))
qed

section \<open>The block store\<close>

text \<open>
  C2: every DAG reached from a genesis by insertions and policy switches satisfies the invariant:
  ids are digests, parents are present, past sizes, child sets and tips mirror the graph, the
  oracle represents it, and each block's consensus data is what the colouring computes.
\<close>

theorem reachable_well_formed:
  assumes "reachable H k g d" "parents g = []"
  shows "wf_dag H d"
  using reachable_wf [OF assms] by blast

theorem reachable_well_formed_witness:
  "\<exists>d. reachable demo_H 3 demo_g d \<and> card (ids d) = 4 \<and> wf_dag demo_H d"
proof -
  obtain d where d: "reachable demo_H 3 demo_g d" "ids d = {BlockId 48, BlockId 80, BlockId 81, BlockId 112}"
    using demo_run by blast
  moreover have "wf_dag demo_H d" by (rule reachable_well_formed [OF d(1)]) (simp add: demo_g_def)
  ultimately show ?thesis by (intro exI [of _ d]) simp
qed

text \<open>
  C1: the interval oracle answers ancestor queries exactly on every reachable DAG, after any number
  of incremental insertions and reindexes: \<open>is_ancestor\<close> is the transitive closure of the parent
  edges, and \<open>is_chain_ancestor\<close> that of the selected-parent edges.
\<close>

theorem ancestor_queries_exact:
  assumes "reachable H k g d" "parents g = []"
  shows "(dag_is_ancestor d x y \<longleftrightarrow> (x, y) \<in> (dag_edges d)\<^sup>+)
    \<and> (is_chain_ancestor (dag_reach d) x y \<longleftrightarrow> (x, y) \<in> (sp_edges d)\<^sup>+)"
proof -
  have wf: "wf_dag H d" using reachable_wf [OF assms] by blast
  note D = wf_dagD [OF wf]
  have "x \<in> ids d" if "(x, y) \<in> (sp_edges d)\<^sup>+"
    using that lay_invD(2) [of "dag_reach d"] graph_okD(2) [OF D(1)] D(4)
    by (metis reach_inv_def rootedD(3) SigmaD1 subsetD trancl_subset_Sigma)
  then show ?thesis
    using dag_is_ancestor_exact [OF D(1)] is_chain_ancestor_exact [OF graph_okD(2) [OF D(1)]] D(4)
    by (auto simp: anc_def)
qed

theorem ancestor_queries_exact_witness:
  "\<exists>d. reachable demo_H 3 demo_g d \<and> dag_is_ancestor d (BlockId 48) (BlockId 112)
     \<and> \<not> dag_is_ancestor d (BlockId 80) (BlockId 81)"
proof -
  obtain d where d: "reachable demo_H 3 demo_g d" "dag_edges d = {(BlockId 48, BlockId 80),
      (BlockId 48, BlockId 81), (BlockId 80, BlockId 112), (BlockId 81, BlockId 112)}"
    using demo_run by blast
  have g: "parents demo_g = []" by (simp add: demo_g_def)
  have "(BlockId 48, BlockId 80) \<in> dag_edges d" "(BlockId 80, BlockId 112) \<in> dag_edges d" using d(2) by auto
  then have "(BlockId 48, BlockId 112) \<in> (dag_edges d)\<^sup>+" by (meson r_into_trancl trancl_into_trancl)
  moreover have "(y = BlockId 81 \<longrightarrow> x = BlockId 48) \<and> y \<noteq> BlockId 48" if "(x, y) \<in> (dag_edges d)\<^sup>+" for x y
    using that by (induction rule: trancl_induct) (auto simp: d(2))
  then have "(BlockId 80, BlockId 81) \<notin> (dag_edges d)\<^sup>+" by fastforce
  ultimately show ?thesis using ancestor_queries_exact [OF d(1) g] d(1) by blast
qed

text \<open>
  C7: \<open>insert\<close> never panics below the capacity of the interval space, and it succeeds exactly on the
  blocks the rules allow: new id, known parents, accepted by the validator, and, where enforced, a
  timestamp no older than any parent's, the work the retarget asks for and a mined id.
\<close>

theorem insert_total:
  assumes "reachable H k g d" "parents g = []" "dag_len d < ROOT_CAPACITY"
  shows "\<exists>res. dag_insert H v d b = Some res \<and> ((\<exists>i d'. res = Inr (i, d')) \<longleftrightarrow> acceptable H v d b)"
proof -
  have "wf_dag H d" "Suc (card (ids d)) \<le> ROOT_CAPACITY"
    using reachable_wf [OF assms(1,2)] assms(3) by (auto simp: dag_len_ids)
  from dag_insert_cases [OF this, of v b] show ?thesis by auto
qed

theorem insert_total_witness:
  "\<exists>d. reachable demo_H 3 demo_g d
     \<and> dag_insert demo_H (Some (\<lambda>_ _. Inl ''no'')) d demo_a = Some (Inl (DuplicateBlock (BlockId 80)))
     \<and> \<not> acceptable demo_H (Some (\<lambda>_ _. Inl ''no'')) d demo_a"
proof -
  obtain d where d: "reachable demo_H 3 demo_g d" "ids d = {BlockId 48, BlockId 80, BlockId 81, BlockId 112}"
    using demo_run by blast
  have "contains d (BlockId 80)" using d(2) by (simp add: contains_ids)
  then have dup: "dag_insert demo_H v d demo_a = Some (Inl (DuplicateBlock (BlockId 80)))" for v
    by (simp add: dag_insert_def check_structure_def demo_ids Let_def)
  have "parents demo_g = []" "dag_len d < ROOT_CAPACITY"
    using demo_small [of "ids d"] d(2) by (simp_all add: demo_g_def dag_len_ids)
  from insert_total [OF d(1) this, of "Some (\<lambda>_ _. Inl ''no'')" demo_a] dup d(1) show ?thesis by fastforce
qed

text \<open>
  C29: the DAG is append-only: an insertion adds the one block, keeps the block, past size and
  consensus data of every older one and every ancestor answer about them, and gives the new block
  exactly its parents and their pasts as ancestors.
\<close>

theorem insert_append_only:
  assumes "reachable H k g d" "parents g = []" "dag_len d < ROOT_CAPACITY"
    and "dag_insert H v d b = Some (Inr (i, d'))"
  shows "i = block_ident H b \<and> ids d' = insert i (ids d) \<and> i \<notin> ids d
    \<and> dag_block d' i = Some b
    \<and> (\<forall>x \<in> ids d. dag_block d' x = dag_block d x \<and> dag_ghostdag d' x = dag_ghostdag d x
          \<and> topo_key d' x = topo_key d x)
    \<and> (\<forall>x. \<forall>y \<in> ids d. dag_is_ancestor d' x y = dag_is_ancestor d x y)
    \<and> (\<forall>x. dag_is_ancestor d' x i \<longleftrightarrow> (\<exists>p \<in> set (parents b). x = p \<or> dag_is_ancestor d x p))"
proof -
  have wf: "wf_dag H d" "Suc (card (ids d)) \<le> ROOT_CAPACITY"
    using reachable_wf [OF assms(1,2)] assms(3) by (auto simp: dag_len_ids)
  note I = dag_insert_InrD [OF wf assms(4)]
  obtain gd sp where W: "wired d i b sp gd d'" using I(4) by blast
  have S: "i \<notin> ids d" "set (parents b) \<subseteq> ids d" using I(1,3) by (auto simp: acceptable_def)
  note G = wf_dagD(1) [OF wf(1)] and G' = wf_dagD(1) [OF I(2)]
  note A = wired_agree [OF G W] and anc' = wired_anc [OF G W S]
  have ids': "ids d' = insert i (ids d)" "node_block (nd d' i) = b" using W by (auto simp: wired_def)
  have old: "dag_block d' x = dag_block d x \<and> dag_ghostdag d' x = dag_ghostdag d x" if "x \<in> ids d" for x
  proof -
    have "fmlookup (nodes d') x = Some (nd d' x)" "fmlookup (nodes d) x = Some (nd d x)"
      using that ids' by (auto intro: nd_lookup)
    then show ?thesis
      using agree_onD(4) [OF A that] by (simp add: dag_block_def dag_ghostdag_def same_data_def)
  qed
  have "dag_is_ancestor d' x y = dag_is_ancestor d x y" if "y \<in> ids d" for x y
    using agree_anc [OF A that] by (simp add: dag_is_ancestor_exact [OF G] dag_is_ancestor_exact [OF G'])
  moreover have "dag_is_ancestor d' x i \<longleftrightarrow> (\<exists>p \<in> set (parents b). x = p \<or> dag_is_ancestor d x p)" for x
    using anc_in_ids [OF G, of x i] S(1)
    by (auto simp: dag_is_ancestor_exact [OF G] dag_is_ancestor_exact [OF G'] anc' extend_past_def new_past_def)
  moreover have "dag_block d' i = Some b" using nd_lookup [of i d'] ids' by (simp add: dag_block_def)
  ultimately show ?thesis using I(1) ids' S(1) old agree_topo [OF A] by blast
qed

theorem insert_append_only_witness:
  "\<exists>d d'. dag_insert demo_H None d demo_m = Some (Inr (BlockId 112, d'))
     \<and> dag_is_ancestor d' (BlockId 81) (BlockId 112) \<and> dag_block d' (BlockId 112) = Some demo_m"
proof -
  obtain d d' where d: "reachable demo_H 3 demo_g d" "ids d = {BlockId 48, BlockId 80, BlockId 81}"
      "dag_insert demo_H None d demo_m = Some (Inr (BlockId 112, d'))"
    using demo_run by blast
  have "parents demo_g = []" "dag_len d < ROOT_CAPACITY"
    using demo_small [of "ids d"] d(2) by (simp_all add: demo_g_def dag_len_ids)
  from insert_append_only [OF d(1) this d(3)] d(3) show ?thesis
    unfolding demo_parents by (intro exI [of _ d] exI [of _ d']) auto
qed

section \<open>GHOSTDAG\<close>

text \<open>
  C30: the backward walk collects exactly the mergeset, \<open>past(block) - (past(sp) + {sp})\<close>, each block
  once, and the sort puts every block after those of its ancestors that are merged with it.
\<close>

theorem mergeset_ordered_spec:
  assumes "reachable H k g d" "parents g = []" "set ps \<subseteq> ids d"
  shows "\<exists>ms. mergeset_ordered d sp ps = Some ms \<and> distinct ms
    \<and> set ms = {x. (\<exists>p \<in> set ps. x = p \<or> anc d x p) \<and> x \<noteq> sp \<and> \<not> anc d x sp}
    \<and> (\<forall>i < length ms. \<forall>x. anc d x (ms ! i) \<and> x \<in> set ms \<longrightarrow> x \<in> set (take i ms))"
proof -
  have wf: "wf_dag H d" using reachable_wf [OF assms(1,2)] by blast
  note D = wf_dagD [OF wf]
  let ?M = "mergeset_set d sp ps" and ?ms = "sort_key (topo_key d) (sorted_list_of_set (mergeset_set d sp ps))"
  have fin: "finite ?M" using D(1) assms(3) by simp
  have set: "set ?ms = ?M" "distinct ?ms" using fin by simp_all
  have "topo d (ids d - ?M) ?ms"
    by (rule topo_sorted [OF D(1,6)]) (use set mergeset_subset [OF D(1) assms(3)] in \<open>auto dest: subsetD [OF past_subset [OF D(1)]]\<close>)
  then have "past d (?ms ! i) \<subseteq> (ids d - ?M) \<union> set (take i ?ms)" if "i < length ?ms" for i
    using topo_nth that by blast
  then have "\<forall>i < length ?ms. \<forall>x. anc d x (?ms ! i) \<and> x \<in> set ?ms \<longrightarrow> x \<in> set (take i ?ms)"
    unfolding set(1) past_def by blast
  then show ?thesis
    using mergeset_ordered_eq [OF D(1) assms(3), of sp] set by (auto simp: mergeset_set_def new_past_def)
qed

theorem mergeset_ordered_spec_witness:
  "\<exists>d. reachable demo_H 3 demo_g d \<and>
     (\<exists>ms. mergeset_ordered d (BlockId 80) [BlockId 80, BlockId 81] = Some ms \<and> BlockId 81 \<in> set ms \<and> BlockId 48 \<notin> set ms)"
proof -
  obtain d where d: "reachable demo_H 3 demo_g d" "ids d = {BlockId 48, BlockId 80, BlockId 81, BlockId 112}"
      "dag_edges d = {(BlockId 48, BlockId 80), (BlockId 48, BlockId 81), (BlockId 80, BlockId 112), (BlockId 81, BlockId 112)}"
    using demo_run by blast
  have g: "parents demo_g = []" by (simp add: demo_g_def)
  have "(y = BlockId 80 \<longrightarrow> x = BlockId 48) \<and> y \<noteq> BlockId 48" if "(x, y) \<in> (dag_edges d)\<^sup>+" for x y
    using that by (induction rule: trancl_induct) (auto simp: d(3))
  then have "\<not> anc d (BlockId 81) (BlockId 80)" unfolding anc_def by fastforce
  moreover have "anc d (BlockId 48) (BlockId 80)" using d(3) by (auto simp: anc_def)
  ultimately show ?thesis
    using mergeset_ordered_spec [OF d(1) g, of "[BlockId 80, BlockId 81]" "BlockId 80"] d(1,2)
    by (intro exI [of _ d]) auto
qed

text \<open>
  C31: the k-cluster rule, for every iteration order of the size map.  Given a size map that counts
  blue anticones, \<open>try_colour_blue\<close> returns the blues in the candidate's anticone when the blue set
  with the candidate is still a k-cluster, and \<open>None\<close> when some block of it would see more than
  \<open>k\<close> blues in its anticone.  The exception is \<open>k = 65535\<close>, the largest \<open>u16\<close> (\<open>- 1\<close> as a word): the
  code adds one before it compares, no \<open>u16\<close> exceeds \<open>k\<close>, and every candidate is accepted.
\<close>

theorem try_colour_blue_rule:
  assumes "cluster_ok d m" "c \<notin> blue_ids m"
    and "distinct (map fst es)" "set es = {(b, s). fmlookup m b = Some s}"
  shows "case try_colour_blue d c es of
      Some incs \<Rightarrow> distinct incs \<and> set incs = anticone_in d (blue_ids m) c
        \<and> (dag_k d = - 1 \<or> (\<forall>b \<in> insert c (blue_ids m). card (anticone_in d (insert c (blue_ids m)) b) \<le> unat (dag_k d)))
    | None \<Rightarrow> dag_k d \<noteq> - 1 \<and> (\<exists>b \<in> insert c (blue_ids m). unat (dag_k d) < card (anticone_in d (insert c (blue_ids m)) b))"
proof (cases "try_colour_blue d c es")
  case None
  then have "dag_k d \<noteq> - 1" by (auto simp: try_colour_wraps)
  then show ?thesis using None try_colour_rule [OF _ assms] by (auto simp: not_le)
next
  case (Some incs)
  have "fst ` set es = blue_ids m" unfolding assms(4) by (force simp: blue_ids_def fmlookup_fmdom)
  moreover have "incs = filter (\<lambda>b. in_anticone d b c) (map fst es)"
    using try_colour_loop_sub Some unfolding try_colour_blue_def by fastforce
  ultimately have "distinct incs" "set incs = anticone_in d (blue_ids m) c"
    using assms(3) in_anticone_sym by (auto simp: anticone_in_def)
  then show ?thesis using Some try_colour_rule [OF _ assms] by auto
qed

theorem try_colour_blue_rule_witness:
  "\<exists>d. reachable demo_H 3 demo_g d \<and>
     (case try_colour_blue d (BlockId 80) [(BlockId 81, 0)] of
        Some incs \<Rightarrow> set incs = anticone_in d {BlockId 81} (BlockId 80)
      | None \<Rightarrow> (\<exists>b \<in> {BlockId 80, BlockId 81}. 3 < card (anticone_in d {BlockId 80, BlockId 81} b)))"
proof -
  obtain d where d: "reachable demo_H 3 demo_g d" using demo_run by blast
  have k: "dag_k d = 3" using reachable_wf [OF d] by (simp add: demo_g_def)
  let ?m = "fmupd (BlockId 81) 0 fmempty :: (block_id, u16) fmap"
  have m: "blue_ids ?m = {BlockId 81}" by (simp add: blue_ids_def)
  have "anticone_in d {BlockId 81} (BlockId 81) = {}" by (auto simp: anticone_in_def in_anticone_def)
  then have "cluster_ok d ?m" unfolding cluster_ok_def m by simp
  moreover have "set [(BlockId 81, 0)] = {(b, s). fmlookup ?m b = Some s}" by (auto split: if_splits)
  moreover have "BlockId 80 \<notin> blue_ids ?m" "distinct (map fst [(BlockId 81, 0 :: u16)])"
    by (simp_all add: m)
  ultimately show ?thesis
    using try_colour_blue_rule [of d ?m "BlockId 80" "[(BlockId 81, 0)]"] d unfolding m k
    by (intro exI [of _ d]) (auto split: option.splits)
qed

text \<open>
  C3: in every reachable DAG each block's blue set lies in its past, the recorded sizes are the
  numbers of blue blocks in each blue block's anticone as \<open>u16\<close> values, the blue score is the size
  of the blue set, and the blue work its total work (modulo the \<open>u128\<close> range).  For every \<open>k\<close> but
  65535, the largest \<open>u16\<close> (\<open>- 1\<close> as a word), the blue set is a k-cluster: the recorded sizes are
  exact and none exceeds \<open>k\<close>.  At \<open>k = 65535\<close> the rule is dead, since its comparisons wrap: the
  blue set is the whole past, however wide that is.
\<close>

theorem blue_set_k_cluster:
  assumes "reachable H k g d" "parents g = []" "dag_ghostdag d x = Some gd"
  shows "blue_ids (blue_anticone_sizes gd) \<subseteq> past d x
    \<and> (\<forall>b \<in> blue_ids (blue_anticone_sizes gd). \<exists>s. fmlookup (blue_anticone_sizes gd) b = Some s
         \<and> s = word_of_nat (card {c \<in> blue_ids (blue_anticone_sizes gd). b \<noteq> c \<and> \<not> anc d b c \<and> \<not> anc d c b})
         \<and> (k \<noteq> - 1 \<longrightarrow>
              unat s = card {c \<in> blue_ids (blue_anticone_sizes gd). b \<noteq> c \<and> \<not> anc d b c \<and> \<not> anc d c b}
              \<and> unat s \<le> unat k))
    \<and> (k = - 1 \<longrightarrow> blue_ids (blue_anticone_sizes gd) = past d x)
    \<and> blue_score gd = card (blue_ids (blue_anticone_sizes gd))
    \<and> blue_work gd = (\<Sum>b \<in> blue_ids (blue_anticone_sizes gd). work (node_block (nd d b)))"
proof -
  have wf: "wf_dag H d" "dag_k d = k" using reachable_wf [OF assms(1,2)] by auto
  have x: "x \<in> ids d" "gd = ghostdag (nd d x)"
    using assms(3) by (auto simp: dag_ghostdag_def ids_lookup nd_def)
  note B = blue_data [OF wf(1) x(1)]
  let ?S = "blue_ids (blue_anticone_sizes gd)"
  have anti: "anticone_in d ?S b = {c \<in> ?S. b \<noteq> c \<and> \<not> anc d b c \<and> \<not> anc d c b}" for b
    by (simp add: anticone_in_def in_anticone_exact [OF wf_dagD(1) [OF wf(1)]])
  have "\<exists>s. fmlookup (blue_anticone_sizes gd) b = Some s \<and> s = word_of_nat (card (anticone_in d ?S b))
      \<and> (k \<noteq> - 1 \<longrightarrow> unat s = card (anticone_in d ?S b) \<and> unat s \<le> unat k)" if b: "b \<in> ?S" for b
  proof -
    obtain s where s: "fmlookup (blue_anticone_sizes gd) b = Some s"
      using b by (auto simp: blue_ids_def fmlookup_fmdom)
    moreover have "s = word_of_nat (card (anticone_in d ?S b))" using B s x(2) unfolding counted_def by blast
    moreover have "unat s = card (anticone_in d ?S b) \<and> unat s \<le> unat k" if "k \<noteq> - 1"
      using B s x(2) wf(2) that unfolding cluster_ok_def by blast
    ultimately show ?thesis by blast
  qed
  then show ?thesis using B wf(2) x(2) wf_dagD(8) [OF wf(1) x(1)] unfolding anti by blast
qed

theorem blue_set_k_cluster_witness:
  "\<exists>d gd. reachable demo_H 3 demo_g d \<and> dag_ghostdag d (BlockId 112) = Some gd
     \<and> blue_score gd = card (blue_ids (blue_anticone_sizes gd))
     \<and> (\<forall>b \<in> blue_ids (blue_anticone_sizes gd). \<exists>s. fmlookup (blue_anticone_sizes gd) b = Some s \<and> unat s \<le> 3)"
proof -
  obtain d where d: "reachable demo_H 3 demo_g d" "ids d = {BlockId 48, BlockId 80, BlockId 81, BlockId 112}"
    using demo_run by blast
  have gd: "dag_ghostdag d (BlockId 112) = Some (ghostdag (nd d (BlockId 112)))"
    using nd_lookup [of "BlockId 112" d] d(2) by (simp add: dag_ghostdag_def)
  have "parents demo_g = []" by (simp add: demo_g_def)
  note K = blue_set_k_cluster [OF d(1) this gd]
  have "(3 :: u16) \<noteq> - 1" by simp
  then have "\<forall>b \<in> blue_ids (blue_anticone_sizes (ghostdag (nd d (BlockId 112)))).
      \<exists>s. fmlookup (blue_anticone_sizes (ghostdag (nd d (BlockId 112)))) b = Some s \<and> unat s \<le> 3"
    using K by fastforce
  then show ?thesis using d(1) gd K by blast
qed

text \<open>
  What the wrap at \<open>k = 65535\<close> lets through: of any set of pairwise parallel blocks in the past of a
  block, each is blue and has all the others in its blue anticone, so a set of more than \<open>k + 1\<close>
  breaks the k-cluster rule.
\<close>

lemma largest_k_unbounded:
  assumes "reachable H (- 1) g d" "parents g = []" "dag_ghostdag d x = Some gd"
    and "A \<subseteq> past d x" "\<And>a b. a \<in> A \<Longrightarrow> b \<in> A \<Longrightarrow> \<not> anc d a b" "b \<in> A"
  shows "card A \<le> Suc (card {c \<in> blue_ids (blue_anticone_sizes gd). b \<noteq> c \<and> \<not> anc d b c \<and> \<not> anc d c b})"
proof -
  have wf: "wf_dag H d" "dag_k d = - 1" using reachable_wf [OF assms(1,2)] by auto
  have x: "x \<in> ids d" "gd = ghostdag (nd d x)"
    using assms(3) by (auto simp: dag_ghostdag_def ids_lookup nd_def)
  let ?T = "{c \<in> blue_ids (blue_anticone_sizes gd). b \<noteq> c \<and> \<not> anc d b c \<and> \<not> anc d c b}"
  have "A \<subseteq> insert b ?T" using assms(4-6) blue_data [OF wf(1) x(1)] wf(2) x(2) by auto
  then have "card A \<le> card (insert b ?T)" by (intro card_mono) simp_all
  then show ?thesis by (simp add: card_insert_if split: if_splits)
qed

text \<open>
  \<open>preview\<close> and \<open>insert\<close> agree: whenever an insertion succeeds, the preview of the same block on
  the same DAG succeeds too and names the selected parent and the mergeset the block then gets.
\<close>

lemma preview_matches_insert:
  assumes "reachable H k g d" "parents g = []" "dag_len d < ROOT_CAPACITY"
    and "dag_insert H v d b = Some (Inr (i, d'))"
  shows "\<exists>pv gd. preview H d b = Some (Inr pv) \<and> dag_ghostdag d' i = Some gd
    \<and> selected_parent gd = Some (preview_selected_parent pv)
    \<and> mset (preview_mergeset pv) = mset (mergeset_blues gd) + mset (mergeset_reds gd)
    \<and> mergeset_order d' i = Some (preview_mergeset pv)"
proof -
  have wf: "wf_dag H d" "Suc (card (ids d)) \<le> ROOT_CAPACITY"
    using reachable_wf [OF assms(1,2)] assms(3) by (auto simp: dag_len_ids)
  then show ?thesis
    using preview_insert [OF wf assms(4)] nd_lookup [of i d'] by (auto simp: dag_ghostdag_def)
qed

lemma preview_matches_insert_example:
  "\<exists>d d' pv gd. dag_insert demo_H None d demo_m = Some (Inr (BlockId 112, d'))
     \<and> preview demo_H d demo_m = Some (Inr pv) \<and> dag_ghostdag d' (BlockId 112) = Some gd
     \<and> selected_parent gd = Some (preview_selected_parent pv)"
proof -
  obtain d d' where d: "reachable demo_H 3 demo_g d" "ids d = {BlockId 48, BlockId 80, BlockId 81}"
      "dag_insert demo_H None d demo_m = Some (Inr (BlockId 112, d'))"
    using demo_run by blast
  have "parents demo_g = []" "dag_len d < ROOT_CAPACITY"
    using demo_small [of "ids d"] d(2) by (simp_all add: demo_g_def dag_len_ids)
  from preview_matches_insert [OF d(1) this d(3)] d(3) show ?thesis by blast
qed

text \<open>
  The enforced rules decide: with difficulty on, a structurally valid block enters exactly when it
  carries the work \<open>next_work_target\<close> hands to miners and is no older than any parent; with proof of
  work on, exactly when its id times its work stays below \<open>2^256\<close>.
\<close>

lemma insert_rules:
  assumes "reachable H k g d" "parents g = []" "dag_len d < ROOT_CAPACITY"
    and "block_ident H b \<notin> ids d" "parents b \<noteq> []" "set (parents b) \<subseteq> ids d"
  shows "(\<exists>i d'. dag_insert H None d b = Some (Inr (i, d'))) \<longleftrightarrow>
     (difficulty d \<noteq> None \<longrightarrow> next_work_target d (parents b) = Some (Some (work b))
        \<and> (\<forall>p \<in> set (parents b). timestamp_ms (node_block (nd d p)) \<le> timestamp_ms b))
   \<and> (require_pow d \<longrightarrow> unat (id_word (block_ident H b)) * max 1 (unat (work b)) < 2 ^ 256)"
proof -
  have wf: "wf_dag H d" "Suc (card (ids d)) \<le> ROOT_CAPACITY"
    using reachable_wf [OF assms(1,2)] assms(3) by (auto simp: dag_len_ids)
  obtain sp where sp: "max_by_key (ckey d) (parents b) = Some sp" using max_by_key_nonempty [OF assms(5)] by blast
  have spi: "sp \<in> ids d" using max_by_key_in [OF sp] assms(6) by blast
  have "next_work_target d (parents b) = Some (Some (required_work d r sp))" if "difficulty d = Some r" for r
    using required_work_eq [OF wf(1) spi, of r] sp that
    by (auto simp: next_work_target_def max_by_chain_key_eq [OF assms(6)] split: bind_splits)
  then have "acceptable H None d b \<longleftrightarrow>
     (difficulty d \<noteq> None \<longrightarrow> next_work_target d (parents b) = Some (Some (work b))
        \<and> (\<forall>p \<in> set (parents b). timestamp_ms (node_block (nd d p)) \<le> timestamp_ms b))
   \<and> (require_pow d \<longrightarrow> unat (id_word (block_ident H b)) * max 1 (unat (work b)) < 2 ^ 256)"
    using assms(4-6) sp by (auto simp: acceptable_def validate_def meets_target_iff split: option.splits)
  then show ?thesis using dag_insert_cases [OF wf, of None b] by auto
qed

lemma insert_rules_example:
  "\<exists>d. reachable demo_H 3 demo_g d \<and> difficulty d = Some retarget_default \<and>
     ((\<exists>i d'. dag_insert demo_H None d demo_m = Some (Inr (i, d'))) \<longleftrightarrow>
        next_work_target d (parents demo_m) = Some (Some 1)
        \<and> (\<forall>p \<in> {BlockId 80, BlockId 81}. timestamp_ms (node_block (nd d p)) \<le> 7))"
proof -
  obtain d0 d1 d2 where d: "reachable demo_H 3 demo_g d2" "ids d2 = {BlockId 48, BlockId 80, BlockId 81}"
    using demo_run by blast
  obtain d' where d': "d' = set_proof_of_work (set_difficulty d2 retarget_default) False" by blast
  have r: "reachable demo_H 3 demo_g d'" unfolding d' by (intro reachable_pow reachable_difficulty d(1))
  have i: "ids d' = {BlockId 48, BlockId 80, BlockId 81}" "difficulty d' = Some retarget_default" "\<not> require_pow d'"
    using d(2) by (simp_all add: d' set_proof_of_work_def set_difficulty_def)
  have g: "parents demo_g = []" by (simp add: demo_g_def)
  have l: "dag_len d' < ROOT_CAPACITY" using demo_small [of "ids d'"] i by (simp add: dag_len_ids)
  have n: "block_ident demo_H demo_m \<notin> ids d'" "parents demo_m \<noteq> []" "set (parents demo_m) \<subseteq> ids d'"
    using demo_parents(3) by (auto simp: demo_ids i)
  have w: "work demo_m = 1" "timestamp_ms demo_m = 7" by (simp_all add: demo_m_def)
  from insert_rules [OF r g l n] r i show ?thesis unfolding w demo_parents by (intro exI [of _ d']) simp
qed

section \<open>Agreement between nodes\<close>

text \<open>
  C4: convergence: two nodes that reached their DAGs by any two insertion orders (and any validators
  and policy switches) and hold the same blocks agree on every block's consensus data, on the tips,
  on the selected chain and on the total order.
\<close>

theorem consensus_converges:
  assumes "reachable H k g d" "reachable H k g d'" "parents g = []" "dag_block d' = dag_block d"
  shows "(\<forall>x. dag_ghostdag d' x = dag_ghostdag d x) \<and> tips d' = tips d
    \<and> selected_tip d' = selected_tip d \<and> selected_chain d' = selected_chain d \<and> linearize d' = linearize d"
proof -
  have S: "same_blocks H d d'"
    using reachable_wf [OF assms(1,3)] reachable_wf [OF assms(2,3)] assms(4) by (intro same_blocksI) simp_all
  show ?thesis using same_blocks_consensus [OF S] by blast
qed

text \<open>The two parallel blocks, inserted in either order.\<close>

lemma demo_two_orders:
  "\<exists>d d' e e' f. reachable demo_H 3 demo_g f
     \<and> dag_insert demo_H None f demo_a = Some (Inr (BlockId 80, d)) \<and> dag_insert demo_H None d demo_b = Some (Inr (BlockId 81, d'))
     \<and> dag_insert demo_H None f demo_b = Some (Inr (BlockId 81, e)) \<and> dag_insert demo_H None e demo_a = Some (Inr (BlockId 80, e'))
     \<and> reachable demo_H 3 demo_g d' \<and> reachable demo_H 3 demo_g e' \<and> dag_block e' = dag_block d'"
proof -
  have g: "parents demo_g = []" by (simp add: demo_g_def)
  obtain f where f: "dag_new demo_H 3 demo_g = Some f" "wf_dag demo_H f" "ids f = {BlockId 48}"
      "difficulty f = None" "\<not> require_pow f"
    using dag_new_ok [OF g, of demo_H 3] unfolding demo_ids by blast
  have ne: "parents demo_a \<noteq> []" "parents demo_b \<noteq> []" using demo_parents by auto
  have pl: "\<exists>d'. dag_insert demo_H None d b = Some (Inr (block_ident demo_H b, d')) \<and> wf_dag demo_H d'
      \<and> ids d' = insert (block_ident demo_H b) (ids d) \<and> difficulty d' = None \<and> \<not> require_pow d'
      \<and> dag_block d' = (dag_block d)(block_ident demo_H b \<mapsto> b) \<and> dag_len d < ROOT_CAPACITY"
    if "wf_dag demo_H d" "difficulty d = None" "\<not> require_pow d" "block_ident demo_H b \<notin> ids d"
      "BlockId 48 \<in> ids d" "b = demo_a \<or> b = demo_b" "card (ids d) \<le> 4" for d b
    using insert_plain [OF that(1-4)] demo_parents ne demo_small [OF that(7)] that(5,6) by (auto simp: dag_len_ids)
  obtain d where d: "dag_insert demo_H None f demo_a = Some (Inr (BlockId 80, d))" "wf_dag demo_H d"
      "ids d = {BlockId 80, BlockId 48}" "difficulty d = None" "\<not> require_pow d"
      "dag_block d = (dag_block f)(BlockId 80 \<mapsto> demo_a)" "dag_len f < ROOT_CAPACITY"
    using pl [OF f(2,4,5), of demo_a] unfolding demo_ids f(3) by auto
  obtain d' where d': "dag_insert demo_H None d demo_b = Some (Inr (BlockId 81, d'))"
      "dag_block d' = (dag_block d)(BlockId 81 \<mapsto> demo_b)" "dag_len d < ROOT_CAPACITY"
    using pl [OF d(2,4,5), of demo_b] unfolding demo_ids d(3) by auto
  obtain e where e: "dag_insert demo_H None f demo_b = Some (Inr (BlockId 81, e))" "wf_dag demo_H e"
      "ids e = {BlockId 81, BlockId 48}" "difficulty e = None" "\<not> require_pow e"
      "dag_block e = (dag_block f)(BlockId 81 \<mapsto> demo_b)"
    using pl [OF f(2,4,5), of demo_b] unfolding demo_ids f(3) by auto
  obtain e' where e': "dag_insert demo_H None e demo_a = Some (Inr (BlockId 80, e'))"
      "dag_block e' = (dag_block e)(BlockId 80 \<mapsto> demo_a)" "dag_len e < ROOT_CAPACITY"
    using pl [OF e(2,4,5), of demo_a] unfolding demo_ids e(3) by auto
  have "dag_block e' = dag_block d'" unfolding d'(2) e'(2) d(6) e(6) by (rule fun_upd_twist) simp
  moreover note r = reachable_new [OF f(1)]
  moreover have "reachable demo_H 3 demo_g d'"
    by (rule reachable_insert [OF reachable_insert [OF r d(7) d(1)] d'(3,1)])
  moreover have "reachable demo_H 3 demo_g e'"
    by (rule reachable_insert [OF reachable_insert [OF r d(7) e(1)] e'(3,1)])
  ultimately show ?thesis using d(1) d'(1) e(1) e'(1)
    by (intro exI [of _ d] exI [of _ d'] exI [of _ e] exI [of _ e'] exI [of _ f] conjI)
qed

theorem consensus_converges_witness:
  "\<exists>d d' e e' f. dag_insert demo_H None f demo_a = Some (Inr (BlockId 80, d)) \<and> dag_insert demo_H None d demo_b = Some (Inr (BlockId 81, d'))
     \<and> dag_insert demo_H None f demo_b = Some (Inr (BlockId 81, e)) \<and> dag_insert demo_H None e demo_a = Some (Inr (BlockId 80, e'))
     \<and> linearize e' = linearize d'"
proof -
  obtain d d' e e' f where x: "dag_insert demo_H None f demo_a = Some (Inr (BlockId 80, d))"
      "dag_insert demo_H None d demo_b = Some (Inr (BlockId 81, d'))"
      "dag_insert demo_H None f demo_b = Some (Inr (BlockId 81, e))"
      "dag_insert demo_H None e demo_a = Some (Inr (BlockId 80, e'))"
      "reachable demo_H 3 demo_g d'" "reachable demo_H 3 demo_g e'" "dag_block e' = dag_block d'"
    using demo_two_orders by blast
  have "linearize e' = linearize d'"
    using consensus_converges [OF x(5,6) _ x(7)] by (simp add: demo_g_def)
  with x show ?thesis by blast
qed

text \<open>
  C5: \<open>linearize\<close> never fails on a reachable DAG and is a total order of its blocks: every block
  exactly once, each after all of its ancestors, with the selected chain (from genesis to the
  heaviest tip) as a subsequence.
\<close>

theorem linearize_topological:
  assumes "reachable H k g d" "parents g = []"
  shows "\<exists>xs chain tip. linearize d = Some xs \<and> distinct xs \<and> set xs = ids d
    \<and> (\<forall>i < length xs. \<forall>x. anc d x (xs ! i) \<longrightarrow> x \<in> set (take i xs))
    \<and> selected_chain d = Some chain \<and> selected_tip d = Some tip \<and> subseq chain xs
    \<and> hd chain = genesis d \<and> last chain = tip
    \<and> (\<forall>t \<in> fset (tips d). ckey d t \<le> ckey d tip)"
proof -
  have wf: "wf_dag H d" using reachable_wf [OF assms] by blast
  obtain xs chain where x: "linearize d = Some xs" "distinct xs" "set xs = ids d" "topo d {} xs"
      "selected_chain d = Some chain" "subseq chain xs" using linearize_ok [OF wf] by blast
  obtain tip where t: "selected_tip d = Some tip" "sp_chain d chain" "last chain = tip"
    using selected_chain_ok [OF wf] x(5) by auto
  have "hd chain = genesis d"
    using t(2) by (induction rule: sp_chain.induct) (auto simp: hd_append dest: sp_chain_nonempty)
  moreover have "\<forall>i < length xs. \<forall>y. anc d y (xs ! i) \<longrightarrow> y \<in> set (take i xs)"
    using topo_nth [OF x(4)] by (auto simp: past_def)
  moreover have "\<forall>u \<in> fset (tips d). ckey d u \<le> ckey d tip" using selected_tip_ok [OF wf] t(1) by auto
  ultimately show ?thesis using x t by blast
qed

theorem linearize_topological_witness:
  "\<exists>d xs. reachable demo_H 3 demo_g d \<and> linearize d = Some xs
     \<and> set xs = {BlockId 48, BlockId 80, BlockId 81, BlockId 112} \<and> length xs = 4"
proof -
  obtain d where d: "reachable demo_H 3 demo_g d" "ids d = {BlockId 48, BlockId 80, BlockId 81, BlockId 112}"
    using demo_run by blast
  from linearize_topological [OF d(1)] obtain xs where
    x: "linearize d = Some xs" "distinct xs" "set xs = ids d" by (auto simp: demo_g_def)
  then have "length xs = 4" using distinct_card [OF x(2)] d(2) by simp
  with x d show ?thesis by (intro exI [of _ d] exI [of _ xs]) simp
qed

end
