(* ===== verification/Snapshot.thy ===== *)
theory Snapshot
  imports Consensus
begin

text \<open>
  \<open>crates/kovanica-dag/src/snapshot.rs\<close>: the stored encoding of a block, the snapshot of a
  whole DAG and its replay.  A \<open>Reader\<close> is its unread suffix (theory \<open>Bytes\<close>); both of its
  failures are \<open>UnexpectedEof\<close>.
\<close>

datatype snapshot_error =
    BadMagic
  | UnsupportedVersion u16
  | UnexpectedEof
  | TrailingBytes
  | Rebuild dag_error

record dag_snapshot =
  snap_k :: u16
  snap_blocks :: "block list"

definition MAGIC :: "byte list" where
  "MAGIC = [0x4B, 0x56, 0x44, 0x47]"

definition VERSION :: u16 where
  "VERSION = 3"

section \<open>Blocks\<close>

definition encode_block :: "block \<Rightarrow> byte list" where
  "encode_block b =
     len_bytes (parents b) @ concat (map as_bytes (parents b))
     @ to_le_bytes (work b) @ to_le_bytes (timestamp_ms b) @ to_le_bytes (nonce b)
     @ len_bytes (payload b) @ payload b"

definition read_block_id :: "'e \<Rightarrow> byte list \<Rightarrow> 'e + (block_id \<times> byte list)" where
  "read_block_id eof bs = rbind (read_be_word eof bs) (\<lambda>(w, r). Inr (BlockId w, r))"

definition read_block :: "byte list \<Rightarrow> snapshot_error + (block \<times> byte list)" where
  "read_block bs =
     rbind (read_count UnexpectedEof UnexpectedEof 32 bs) (\<lambda>(n_parents, bs).
     rbind (read_many (read_block_id UnexpectedEof) n_parents bs) (\<lambda>(ps, bs).
     rbind (read_word UnexpectedEof bs) (\<lambda>(w, bs).
     rbind (read_word UnexpectedEof bs) (\<lambda>(ts, bs).
     rbind (read_word UnexpectedEof bs) (\<lambda>(n, bs).
     rbind (read_count UnexpectedEof UnexpectedEof 1 bs) (\<lambda>(payload_len, bs).
     rbind (read_array UnexpectedEof payload_len bs) (\<lambda>(pl, bs).
       Inr (block_new ps w ts n pl, bs))))))))"

definition decode_block :: "byte list \<Rightarrow> snapshot_error + block" where
  "decode_block bs = rbind (read_block bs) (\<lambda>(b, r). if r \<noteq> [] then Inl TrailingBytes else Inr b)"

section \<open>Snapshots\<close>

definition decode_snapshot :: "byte list \<Rightarrow> snapshot_error + dag_snapshot" where
  "decode_snapshot bs =
     rbind (read_array UnexpectedEof 4 bs) (\<lambda>(magic, bs).
     if magic \<noteq> MAGIC then Inl BadMagic
     else rbind (read_word UnexpectedEof bs) (\<lambda>(version, bs).
     if version \<noteq> VERSION then Inl (UnsupportedVersion version)
     else rbind (read_word UnexpectedEof bs) (\<lambda>(k, bs).
     rbind (read_count UnexpectedEof UnexpectedEof 48 bs) (\<lambda>(count, bs).
     rbind (read_many read_block count bs) (\<lambda>(blocks, bs).
     if bs \<noteq> [] then Inl TrailingBytes
     else Inr \<lparr>snap_k = k, snap_blocks = blocks\<rparr>)))))"

definition write_snapshot :: "dag \<Rightarrow> byte list option" where
  "write_snapshot d = do {
     order \<leftarrow> linearize d;
     blocks \<leftarrow> those (map (dag_block d) order);
     Some (MAGIC @ to_le_bytes VERSION @ to_le_bytes (dag_k d) @ len_bytes order
           @ concat (map encode_block blocks))
   }"

fun replay :: "digest \<Rightarrow> dag \<Rightarrow> block list \<Rightarrow> (snapshot_error + dag) option" where
  "replay H d [] = Some (Inr d)"
| "replay H d (b # bs) = do {
     res \<leftarrow> dag_insert H None d b;
     (case res of
        Inl e \<Rightarrow> Some (Inl (Rebuild e))
      | Inr (i, d') \<Rightarrow> replay H d' bs)
   }"

definition read_snapshot :: "digest \<Rightarrow> byte list \<Rightarrow> (snapshot_error + dag) option" where
  "read_snapshot H bs =
     (case decode_snapshot bs of
        Inl e \<Rightarrow> Some (Inl e)
      | Inr s \<Rightarrow>
        (case snap_blocks s of
           [] \<Rightarrow> Some (Inl UnexpectedEof)
         | g # blocks \<Rightarrow> do {
             d \<leftarrow> dag_new H (snap_k s) g;
             replay H d blocks
           }))"

section \<open>The block codec\<close>

lemma read_block_id_append [codec_simps]: "read_block_id eof (as_bytes i @ bs) = Inr (i, bs)"
  by (cases i) (simp add: read_block_id_def as_bytes_def codec_simps)

lemma read_block_id_more [dec_more]:
  "read_block_id eof bs = Inr (i, r) \<Longrightarrow> read_block_id eof (bs @ ys) = Inr (i, r @ ys)"
  by (auto simp: read_block_id_def rbind_eq_Inr dec_more)

interpretation ids_codec: canonical_codec "read_block_id eof" as_bytes "\<lambda>_. True" 32 for eof
proof unfold_locales
  fix bs x r assume "read_block_id eof bs = Inr (x, r)"
  then show "bs = as_bytes x @ r \<and> True"
    by (auto simp: read_block_id_def rbind_eq_Inr as_bytes_def intro: read_be_word_InrD)
qed (simp_all add: codec_simps dec_more)

lemma read_block_enc:
  assumes "wf_block b"
  shows "read_block (encode_block b @ bs) = Inr (b, bs)"
proof -
  have w: "length (parents b) < 2 ^ 64" "length (payload b) < 2 ^ 64" "block_new (parents b) (work b) (timestamp_ms b) (nonce b) (payload b) = b"
    using assms by (auto simp: wf_block_def block_new_parents)
  have "list_all (\<lambda>_. True) (parents b)" by (simp add: list_all_iff)
  then have ps: "read_many (read_block_id UnexpectedEof) (length (parents b)) (concat (map as_bytes (parents b)) @ r) = Inr (parents b, r)" for r
    by (rule ids_codec.read_many_enc)
  have ln: "32 * length (parents b) \<le> length (concat (map as_bytes (parents b)))"
    by (rule ids_codec.width_concat)
  show ?thesis
    using w ln by (simp add: read_block_def encode_block_def codec_simps ps)
qed

lemma read_block_more [dec_more]:
  "read_block bs = Inr (b, r) \<Longrightarrow> read_block (bs @ ys) = Inr (b, r @ ys)"
  by (auto simp: read_block_def dec_more ids_codec.read_many_more elim!: rbind_InrE)

interpretation block_codec: codec read_block encode_block wf_block 48
proof unfold_locales
  show "48 \<le> length (encode_block b)" for b by (simp add: encode_block_def)
qed (simp_all add: read_block_enc dec_more)

text \<open>The only way a block fails to decode is by running out of input.\<close>

lemma read_block_id_Inl: "read_block_id eof bs = Inl e \<Longrightarrow> e = eof"
  by (auto simp: read_block_id_def rbind_eq_Inl dest: read_be_word_Inl)

lemma read_block_ids_Inl: "read_many (read_block_id eof) n bs = Inl e \<Longrightarrow> e = eof"
  by (rule read_many_Inl [of "read_block_id eof"]) (rule read_block_id_Inl)

lemma read_block_Inl: "read_block bs = Inl e \<Longrightarrow> e = UnexpectedEof"
  by (auto simp: read_block_def rbind_eq_Inl
      dest: read_count_Inl read_word_Inl read_array_Inl read_block_ids_Inl)

lemma encode_block_preimage: "encode_block b = id_preimage b"
  by (simp add: encode_block_def id_preimage_def)

section \<open>The framing of a snapshot\<close>

definition snapshot_bytes :: "u16 \<Rightarrow> block list \<Rightarrow> byte list" where
  "snapshot_bytes k bs = MAGIC @ to_le_bytes VERSION @ to_le_bytes k @ len_bytes bs @ concat (map encode_block bs)"

lemma read_magic [codec_simps]: "read_array eof 4 (MAGIC @ bs) = Inr (MAGIC, bs)"
  by (rule read_array_append) (simp add: MAGIC_def)

lemma len_bytes_cong: "length xs = length ys \<Longrightarrow> len_bytes xs = len_bytes ys"
  by (simp add: len_bytes_def)

lemma decode_snapshot_bytes:
  assumes "list_all wf_block bs" "length bs < 2 ^ 64"
  shows "decode_snapshot (snapshot_bytes k bs) = Inr \<lparr>snap_k = k, snap_blocks = bs\<rparr>"
  using assms block_codec.width_concat [of bs] block_codec.read_many_enc [OF assms(1), of "[]"]
  by (simp add: decode_snapshot_def snapshot_bytes_def codec_simps)

text \<open>
  Decoding as one stable reader: \<open>decode_snapshot\<close> is \<open>read_snapshot_frame\<close> followed by the
  check that nothing is left.
\<close>

definition read_snapshot_frame :: "byte list \<Rightarrow> snapshot_error + (dag_snapshot \<times> byte list)" where
  "read_snapshot_frame bs =
     rbind (read_array UnexpectedEof 4 bs) (\<lambda>(magic, bs).
     if magic \<noteq> MAGIC then Inl BadMagic
     else rbind (read_word UnexpectedEof bs) (\<lambda>(version, bs).
     if version \<noteq> VERSION then Inl (UnsupportedVersion version)
     else rbind (read_word UnexpectedEof bs) (\<lambda>(k, bs).
     rbind (read_count UnexpectedEof UnexpectedEof 48 bs) (\<lambda>(count, bs).
     rbind (read_many read_block count bs) (\<lambda>(blocks, bs).
       Inr (\<lparr>snap_k = k, snap_blocks = blocks\<rparr>, bs))))))"

lemma decode_snapshot_frame:
  "decode_snapshot bs = rbind (read_snapshot_frame bs) (\<lambda>(s, r). if r \<noteq> [] then Inl TrailingBytes else Inr s)"
  unfolding decode_snapshot_def read_snapshot_frame_def rbind_assoc
  by (intro rbind_cong) (auto simp: rbind_assoc intro!: rbind_cong)

lemma read_snapshot_frame_more [dec_more]:
  "read_snapshot_frame bs = Inr (s, r) \<Longrightarrow> read_snapshot_frame (bs @ ys) = Inr (s, r @ ys)"
  by (auto simp: read_snapshot_frame_def dec_more block_codec.read_many_more elim!: rbind_InrE split: if_splits)

text \<open>Every failure but a short input is final: more input does not repair it.\<close>

lemma read_snapshot_frame_Inl_more:
  assumes "read_snapshot_frame bs = Inl e" "e \<noteq> UnexpectedEof"
  shows "read_snapshot_frame (bs @ ys) = Inl e"
proof -
  have rm: "read_many read_block n r = Inl e' \<Longrightarrow> e' = UnexpectedEof" for n r e'
    by (rule read_many_Inl [of read_block]) (rule read_block_Inl)
  from assms show ?thesis
    by (auto simp: read_snapshot_frame_def rbind_eq_Inl read_array_more read_word_more
        dest: read_array_Inl read_word_Inl read_count_Inl rm split: if_splits)
qed

lemma read_snapshot_frame_bytes:
  assumes "list_all wf_block bs" "length bs < 2 ^ 64"
  shows "read_snapshot_frame (snapshot_bytes k bs @ ys) = Inr (\<lparr>snap_k = k, snap_blocks = bs\<rparr>, ys)"
  using assms block_codec.width_concat [of bs] block_codec.read_many_enc [OF assms(1), of ys]
  by (simp add: read_snapshot_frame_def snapshot_bytes_def codec_simps)

lemma decode_snapshot_truncated:
  assumes "list_all wf_block bs" "length bs < 2 ^ 64" "snapshot_bytes k bs = p @ s" "s \<noteq> []"
  shows "decode_snapshot p = Inl UnexpectedEof"
proof -
  let ?x = "\<lparr>snap_k = k, snap_blocks = bs\<rparr>"
  have full: "read_snapshot_frame (p @ s) = Inr (?x, [])"
    using read_snapshot_frame_bytes [OF assms(1,2), of k "[]"] assms(3) by simp
  have "read_snapshot_frame p = Inl UnexpectedEof"
  proof (cases "read_snapshot_frame p")
    case (Inl e)
    then show ?thesis using read_snapshot_frame_Inl_more [OF Inl, of s] full by auto
  next
    case (Inr a)
    then show ?thesis using read_snapshot_frame_more [of p "fst a" "snd a" s] full assms(4) by simp
  qed
  then show ?thesis by (simp add: decode_snapshot_frame)
qed

section \<open>Replaying a snapshot\<close>

lemma replay_ok:
  assumes "wf_dag H d" "wf_dag H e" "difficulty e = None" "\<not> require_pow e"
    and "genesis d \<in> ids e" "distinct xs" "set xs \<inter> ids e = {}" "set xs \<subseteq> ids d" "topo d (ids e) xs"
    and "card (ids e) + length xs \<le> ROOT_CAPACITY"
  shows "\<exists>e'. replay H e (map (\<lambda>x. node_block (nd d x)) xs) = Some (Inr e') \<and> wf_dag H e'
    \<and> dag_k e' = dag_k e \<and> genesis e' = genesis e
    \<and> dag_block e' = (\<lambda>x. if x \<in> set xs then dag_block d x else dag_block e x)
    \<and> (reachable H k g e \<longrightarrow> reachable H k g e')"
  using assms(2-)
proof (induction xs arbitrary: e)
  case (Cons x xs)
  note D = wf_dagD [OF assms(1)]
  let ?b = "node_block (nd d x)"
  have x: "x \<in> ids d" "x \<noteq> genesis d" "block_ident H ?b = x" "x \<notin> ids e"
    using Cons.prems D(5) [of x] by auto
  have ps: "set (parents ?b) \<subseteq> ids e"
  proof
    fix p assume "p \<in> set (parents ?b)"
    then have "(p, x) \<in> dag_edges d" using nd_lookup [OF x(1)] by (auto simp: dag_edges_def)
    then have "p \<in> past d x" by (auto simp: past_def anc_def)
    then show "p \<in> ids e" using Cons.prems by auto
  qed
  obtain e1 where e1: "dag_insert H None e ?b = Some (Inr (x, e1))" "wf_dag H e1" "ids e1 = insert x (ids e)"
      "difficulty e1 = None" "\<not> require_pow e1" "dag_block e1 = (dag_block e)(x \<mapsto> ?b)"
      "dag_k e1 = dag_k e" "genesis e1 = genesis e"
    using insert_plain [OF Cons.prems(1,2,3), of ?b] D(11) [OF x(1,2)] ps x Cons.prems(9) by auto
  obtain e' where e': "replay H e1 (map (\<lambda>x. node_block (nd d x)) xs) = Some (Inr e')" "wf_dag H e'"
      "dag_k e' = dag_k e1" "genesis e' = genesis e1"
      "dag_block e' = (\<lambda>y. if y \<in> set xs then dag_block d y else dag_block e1 y)"
      "reachable H k g e1 \<longrightarrow> reachable H k g e'"
    using Cons.IH [OF e1(2,4,5)] Cons.prems e1(3) x(4) by auto
  have "dag_block d x = Some ?b" using nd_lookup [OF x(1)] by (simp add: dag_block_def)
  then have "dag_block e' = (\<lambda>y. if y \<in> set (x # xs) then dag_block d y else dag_block e y)"
    using e'(5) e1(6) by (auto simp: fun_eq_iff)
  moreover have "reachable H k g e1" if "reachable H k g e"
    using reachable_insert [OF that _ e1(1)] Cons.prems(9) by (simp add: dag_len_ids)
  ultimately show ?case using e' e1 by auto
qed simp

lemma linearize_genesis_first:
  assumes "wf_dag H d" "linearize d = Some xs"
  shows "\<exists>ys. xs = genesis d # ys"
proof -
  note D = wf_dagD [OF assms(1)]
  obtain ys where xs: "set xs = ids d" "topo d {} xs" using linearize_ok [OF assms(1)] assms(2) by auto
  then obtain y ys where y: "xs = y # ys" using D(2) by (cases xs) auto
  have "y \<in> ids d" "past d y = {}" using xs y by auto
  moreover have "parents (node_block (nd d y)) = []"
    using past_eq_new_past [OF nd_lookup [of y d]] calculation
    by (cases "parents (node_block (nd d y))") (auto simp: new_past_def)
  ultimately have "y = genesis d" using D(11) by blast
  with y show ?thesis by blast
qed

lemma those_map_lookup:
  "set xs \<subseteq> ids d \<Longrightarrow> those (map (dag_block d) xs) = Some (map (\<lambda>x. node_block (nd d x)) xs)"
  by (induction xs) (auto simp: dag_block_def nd_lookup)

definition stored_wf :: "dag \<Rightarrow> bool" where
  "stored_wf d \<longleftrightarrow> (\<forall>x \<in> ids d. wf_block (node_block (nd d x)))"

lemma write_snapshot_eq:
  assumes "wf_dag H d" "stored_wf d"
  shows "\<exists>xs. linearize d = Some (genesis d # xs)
    \<and> write_snapshot d = Some (snapshot_bytes (dag_k d) (map (\<lambda>x. node_block (nd d x)) (genesis d # xs)))
    \<and> list_all wf_block (map (\<lambda>x. node_block (nd d x)) (genesis d # xs))
    \<and> distinct (genesis d # xs) \<and> set (genesis d # xs) = ids d \<and> topo d {} (genesis d # xs)
    \<and> Suc (length xs) \<le> ROOT_CAPACITY"
proof -
  obtain zs where z: "linearize d = Some zs" "distinct zs" "set zs = ids d" "topo d {} zs"
    using linearize_ok [OF assms(1)] by blast
  obtain xs where xs: "zs = genesis d # xs" using linearize_genesis_first [OF assms(1) z(1)] by blast
  have "length zs \<le> ROOT_CAPACITY" using wf_card_ids [OF assms(1)] distinct_card [OF z(2)] z(3) by simp
  moreover have "write_snapshot d = Some (snapshot_bytes (dag_k d) (map (\<lambda>x. node_block (nd d x)) zs))"
    using z by (simp add: write_snapshot_def those_map_lookup snapshot_bytes_def len_bytes_def)
  moreover have "list_all wf_block (map (\<lambda>x. node_block (nd d x)) zs)"
    using assms(2) z(3) by (simp add: list_all_iff stored_wf_def)
  ultimately show ?thesis using z xs by (intro exI [of _ xs]) simp
qed

lemma root_capacity_word: "n \<le> ROOT_CAPACITY \<Longrightarrow> n < 2 ^ 64"
  by (simp add: ROOT_CAPACITY_def u64_max_def)

lemma stored_wf_new: "parents g = [] \<Longrightarrow> dag_new H k g = Some d \<Longrightarrow> wf_block g \<Longrightarrow> stored_wf d"
  using dag_new_ok [of g H k] by (auto simp: stored_wf_def)

lemma stored_wf_insert:
  assumes "wf_dag H d" "card (ids d) < ROOT_CAPACITY" "dag_insert H v d b = Some (Inr (i, d'))"
    and "stored_wf d" "wf_block b"
  shows "stored_wf d'"
proof -
  have cap: "Suc (card (ids d)) \<le> ROOT_CAPACITY" using assms(2) by simp
  obtain gd sp where W: "wired d i b sp gd d'" using dag_insert_InrD(4) [OF assms(1) cap assms(3)] by blast
  show ?thesis unfolding stored_wf_def
  proof
    fix x assume "x \<in> ids d'"
    then consider "x = i" | "x \<in> ids d" using W by (auto simp: wired_def)
    then show "wf_block (node_block (nd d' x))"
    proof cases
      case 1
      then show ?thesis using W assms(5) by (simp add: wired_def)
    next
      case 2
      then show ?thesis using W assms(4) by (auto simp: wired_def stored_wf_def)
    qed
  qed
qed

section \<open>Properties\<close>

text \<open>
  A well-formed block survives encoding and decoding, alone or with any bytes behind it,
  and every proper prefix of its encoding is refused as \<open>UnexpectedEof\<close>.
\<close>

lemma block_roundtrip:
  assumes "wf_block b"
  shows "decode_block (encode_block b) = Inr b
    \<and> (\<forall>c cs. decode_block (encode_block b @ c # cs) = Inl TrailingBytes)
    \<and> (\<forall>n < length (encode_block b). decode_block (take n (encode_block b)) = Inl UnexpectedEof)"
proof -
  have "decode_block (take n (encode_block b)) = Inl UnexpectedEof" if n: "n < length (encode_block b)" for n
  proof -
    have "encode_block b = take n (encode_block b) @ drop n (encode_block b)" "drop n (encode_block b) \<noteq> []"
      using n by simp_all
    from block_codec.dec_truncated [OF assms this] obtain e where e: "read_block (take n (encode_block b)) = Inl e" by blast
    then show ?thesis using read_block_Inl [OF e] by (simp add: decode_block_def)
  qed
  then show ?thesis using read_block_enc [OF assms] read_block_enc [OF assms, of "[]"] by (simp add: decode_block_def)
qed

lemma block_roundtrip_example:
  "decode_block (encode_block demo_m) = Inr demo_m \<and> decode_block (take 100 (encode_block demo_m)) = Inl UnexpectedEof"
proof -
  have "wf_block demo_m" unfolding demo_m_def by (intro wf_block_new) simp_all
  moreover have "100 < length (encode_block demo_m)"
  proof -
    have "length (parents demo_m) = 2" unfolding demo_m_def demo_ids(2,3)
      by (simp add: block_new_def less_eq_block_id_def)
    then show ?thesis by (simp add: encode_block_def length_concat comp_def sum_list_triv)
  qed
  ultimately show ?thesis using block_roundtrip [of demo_m] by blast
qed

text \<open>
  The bytes hashed into a block's id determine the block: two well-formed blocks with the same
  preimage are equal, so an id identifies one block as long as the hash has no collision.
\<close>

lemma id_preimage_injective:
  assumes "wf_block b" "wf_block c" "inj_on H {id_preimage b, id_preimage c}"
  shows "block_ident H b = block_ident H c \<longleftrightarrow> b = c"
proof
  assume "block_ident H b = block_ident H c"
  then have "H (id_preimage b) = H (id_preimage c)" by (simp add: block_ident_def)
  then have "id_preimage b = id_preimage c" using inj_onD [OF assms(3)] by blast
  then have "encode_block b @ [] = encode_block c @ []" by (simp add: encode_block_preimage)
  then show "b = c" using block_codec.enc_inj [OF assms(1,2)] by blast
qed simp

lemma inj_on_pair: "f x \<noteq> f y \<Longrightarrow> inj_on f {x, y}"
  by (auto simp: inj_on_def)

lemma id_preimage_injective_example:
  "block_ident demo_H demo_a \<noteq> block_ident demo_H demo_b \<and> demo_a \<noteq> demo_b"
proof -
  have wf: "wf_block demo_a" "wf_block demo_b" unfolding demo_a_def demo_b_def by (auto intro!: wf_block_new)
  have ne: "block_ident demo_H demo_a \<noteq> block_ident demo_H demo_b" by (simp add: demo_ids)
  then have "inj_on demo_H {id_preimage demo_a, id_preimage demo_b}"
    by (intro inj_on_pair) (simp add: block_ident_def)
  from id_preimage_injective [OF wf this] ne show ?thesis by blast
qed

text \<open>
  C16: writing a snapshot of any reachable DAG succeeds, and reading it back rebuilds a DAG with the
  same blocks and therefore the same consensus data: ghostdag data, tips, selected tip and chain,
  and total order.
\<close>

theorem snapshot_roundtrip:
  assumes "reachable H k g d" "parents g = []" "stored_wf d"
  shows "\<exists>bytes d'. write_snapshot d = Some bytes \<and> read_snapshot H bytes = Some (Inr d') \<and> reachable H k g d'
    \<and> dag_k d' = dag_k d \<and> genesis d' = genesis d \<and> dag_block d' = dag_block d
    \<and> (\<forall>x. dag_ghostdag d' x = dag_ghostdag d x) \<and> tips d' = tips d
    \<and> selected_tip d' = selected_tip d \<and> selected_chain d' = selected_chain d \<and> linearize d' = linearize d"
proof -
  have wf: "wf_dag H d" "dag_k d = k" "genesis d = block_ident H g" "node_block (nd d (genesis d)) = g"
    using reachable_wf [OF assms(1,2)] by auto
  obtain xs where xs: "write_snapshot d = Some (snapshot_bytes k (map (\<lambda>x. node_block (nd d x)) (genesis d # xs)))"
      "list_all wf_block (map (\<lambda>x. node_block (nd d x)) (genesis d # xs))" "distinct (genesis d # xs)"
      "set (genesis d # xs) = ids d" "topo d {} (genesis d # xs)" "Suc (length xs) \<le> ROOT_CAPACITY"
    using write_snapshot_eq [OF wf(1) assms(3)] wf(2) by blast
  let ?bytes = "snapshot_bytes k (map (\<lambda>x. node_block (nd d x)) (genesis d # xs))"
  have dec: "decode_snapshot ?bytes = Inr \<lparr>snap_k = k, snap_blocks = g # map (\<lambda>x. node_block (nd d x)) xs\<rparr>"
    using decode_snapshot_bytes [OF xs(2), of k] root_capacity_word [OF xs(6)] wf(4) by simp
  obtain e where e: "dag_new H k g = Some e" "wf_dag H e" "ids e = {genesis d}" "dag_k e = k" "genesis e = genesis d"
      "difficulty e = None" "\<not> require_pow e" "node_block (nd e (genesis d)) = g"
    using dag_new_ok [OF assms(2), of H k] unfolding wf(3) by metis
  have pre: "genesis d \<in> ids e" "distinct xs" "set xs \<inter> ids e = {}" "set xs \<subseteq> ids d" "topo d (ids e) xs"
      "card (ids e) + length xs \<le> ROOT_CAPACITY"
    unfolding e(3) using xs(3-6) by auto
  obtain d' where d': "replay H e (map (\<lambda>x. node_block (nd d x)) xs) = Some (Inr d')" "wf_dag H d'" "dag_k d' = dag_k e"
      "genesis d' = genesis e" "dag_block d' = (\<lambda>x. if x \<in> set xs then dag_block d x else dag_block e x)"
      "reachable H k g d'"
    using replay_ok [OF wf(1) e(2,6,7) pre, of k g] reachable_new [OF e(1)] by blast
  have "dag_block e x = dag_block d x" if "x \<notin> set xs" for x
  proof (cases "x = genesis d")
    case True
    then show ?thesis using nd_lookup [of "genesis d" e] nd_lookup [of "genesis d" d] wf_dagD(2) [OF wf(1)] e(3,8) wf(4)
      by (simp add: dag_block_def)
  next
    case False
    then have "x \<notin> ids d" "x \<notin> ids e" using that xs(4) e(3) by auto
    then show ?thesis by (cases "fmlookup (nodes d) x"; cases "fmlookup (nodes e) x") (auto simp: dag_block_def ids_lookup)
  qed
  then have blocks: "dag_block d' = dag_block d" using d'(5) by auto
  have S: "same_blocks H d d'" using wf d' e blocks by (intro same_blocksI) simp_all
  have "read_snapshot H ?bytes = Some (Inr d')" using dec e(1) d'(1) by (simp add: read_snapshot_def)
  then show ?thesis using same_blocks_consensus [OF S] xs(1) blocks d' e wf(2) by auto
qed

text \<open>
  A damaged snapshot never yields a DAG: a snapshot cut short anywhere is refused as
  \<open>UnexpectedEof\<close>, one with anything appended as \<open>TrailingBytes\<close>.
\<close>

lemma snapshot_damage_detected:
  assumes "reachable H k g d" "parents g = []" "stored_wf d" "write_snapshot d = Some bytes"
  shows "(\<forall>n < length bytes. read_snapshot H (take n bytes) = Some (Inl UnexpectedEof))
    \<and> (\<forall>c cs. read_snapshot H (bytes @ c # cs) = Some (Inl TrailingBytes))"
proof -
  have wf: "wf_dag H d" using reachable_wf [OF assms(1,2)] by auto
  obtain bs where bs: "bytes = snapshot_bytes (dag_k d) bs" "list_all wf_block bs" "length bs \<le> ROOT_CAPACITY"
    using write_snapshot_eq [OF wf assms(3)] assms(4) by (metis length_Cons length_map option.inject)
  note w = root_capacity_word [OF bs(3)]
  have "decode_snapshot (take n bytes) = Inl UnexpectedEof" if n: "n < length bytes" for n
    by (rule decode_snapshot_truncated [OF bs(2) w, of "dag_k d" _ "drop n bytes"]) (use n bs(1) in simp_all)
  moreover have "decode_snapshot (bytes @ c # cs) = Inl TrailingBytes" for c cs
    using read_snapshot_frame_bytes [OF bs(2) w, of "dag_k d" "c # cs"] bs(1) by (simp add: decode_snapshot_frame)
  ultimately show ?thesis by (simp add: read_snapshot_def)
qed

lemma demo_stored: "\<exists>d. reachable demo_H 3 demo_g d \<and> stored_wf d \<and> ids d = {BlockId 48, BlockId 80, BlockId 81, BlockId 112}"
proof -
  obtain d0 d1 d2 d3 where d: "dag_new demo_H 3 demo_g = Some d0"
      "dag_insert demo_H None d0 demo_a = Some (Inr (BlockId 80, d1))"
      "dag_insert demo_H None d1 demo_b = Some (Inr (BlockId 81, d2))"
      "dag_insert demo_H None d2 demo_m = Some (Inr (BlockId 112, d3))"
      "reachable demo_H 3 demo_g d2" "reachable demo_H 3 demo_g d3"
      "ids d2 = {BlockId 48, BlockId 80, BlockId 81}" "ids d3 = {BlockId 48, BlockId 80, BlockId 81, BlockId 112}"
    using demo_run by blast
  have g: "parents demo_g = []" by (simp add: demo_g_def)
  have W: "wf_block demo_g" "wf_block demo_a" "wf_block demo_b" "wf_block demo_m"
    unfolding demo_g_def demo_a_def demo_b_def demo_m_def by (auto intro!: wf_block_new wf_block_genesis)
  obtain i0: "ids d0 = {BlockId 48}" and w0: "wf_dag demo_H d0"
    using dag_new_ok [OF g, of demo_H 3] d(1) unfolding demo_ids by auto
  have c0: "card (ids d0) < ROOT_CAPACITY" by (rule demo_small) (simp add: i0)
  then have cap0: "Suc (card (ids d0)) \<le> ROOT_CAPACITY" by simp
  have w1: "wf_dag demo_H d1" and i1: "ids d1 = {BlockId 80, BlockId 48}"
    using dag_insert_InrD(2,4) [OF w0 cap0 d(2)] i0 by (auto simp: wired_def)
  have c1: "card (ids d1) < ROOT_CAPACITY" by (rule demo_small) (simp add: i1)
  have c2: "card (ids d2) < ROOT_CAPACITY" by (rule demo_small) (simp add: d(7))
  have "stored_wf d0" by (rule stored_wf_new [OF g d(1) W(1)])
  then have "stored_wf d1" by (rule stored_wf_insert [OF w0 c0 d(2) _ W(2)])
  then have "stored_wf d2" by (rule stored_wf_insert [OF w1 c1 d(3) _ W(3)])
  then have "stored_wf d3" using reachable_wf [OF d(5) g] by (intro stored_wf_insert [OF _ c2 d(4) _ W(4)]) auto
  then show ?thesis using d by blast
qed

theorem snapshot_roundtrip_witness:
  "\<exists>d bytes d'. ids d = {BlockId 48, BlockId 80, BlockId 81, BlockId 112} \<and> write_snapshot d = Some bytes
     \<and> read_snapshot demo_H bytes = Some (Inr d') \<and> dag_block d' = dag_block d"
proof -
  obtain d where d: "reachable demo_H 3 demo_g d" "stored_wf d" "ids d = {BlockId 48, BlockId 80, BlockId 81, BlockId 112}"
    using demo_stored by blast
  have "parents demo_g = []" by (simp add: demo_g_def)
  from snapshot_roundtrip [OF d(1) this d(2)] d(3) show ?thesis by blast
qed

lemma snapshot_damage_detected_example:
  "\<exists>d bytes. ids d = {BlockId 48, BlockId 80, BlockId 81, BlockId 112} \<and> write_snapshot d = Some bytes
     \<and> (\<forall>n < length bytes. read_snapshot demo_H (take n bytes) = Some (Inl UnexpectedEof))"
proof -
  obtain d where d: "reachable demo_H 3 demo_g d" "stored_wf d" "ids d = {BlockId 48, BlockId 80, BlockId 81, BlockId 112}"
    using demo_stored by blast
  have g: "parents demo_g = []" by (simp add: demo_g_def)
  obtain bytes where b: "write_snapshot d = Some bytes"
    using reachable_wf [OF d(1) g] write_snapshot_eq [OF _ d(2)] by blast
  from snapshot_damage_detected [OF d(1) g d(2) b] b d(3) show ?thesis by blast
qed

end
