(* ===== verification/Keys.thy ===== *)
theory Keys
  imports Bytes
begin

text \<open>
  \<open>crates/kovanica-state/src/keys.rs\<close>: addresses and key pairs.  BLAKE3 and ed25519 are not
  under \<open>src/\<close>: the record \<open>crypto\<close> holds the functions of those libraries the source calls,
  over unspecified types of signing and verifying keys, and every definition that uses them
  takes it as an argument.  A 32- or 64-byte array is the word its bytes spell in big-endian
  order.
\<close>

record ('sk, 'vk) crypto =
  blake3 :: "byte list \<Rightarrow> 256 word"
  signing_from_bytes :: "256 word \<Rightarrow> 'sk"
  verifying_key :: "'sk \<Rightarrow> 'vk"
  vk_to_bytes :: "'vk \<Rightarrow> 256 word"
  vk_from_bytes :: "256 word \<Rightarrow> 'vk option"
  sign_bytes :: "'sk \<Rightarrow> byte list \<Rightarrow> 512 word"
  verify_strict :: "'vk \<Rightarrow> byte list \<Rightarrow> 512 word \<Rightarrow> bool"

datatype address = Address "256 word"

fun address_bytes :: "address \<Rightarrow> byte list" where
  "address_bytes (Address w) = to_be_bytes w"

fun address_word :: "address \<Rightarrow> 256 word" where
  "address_word (Address w) = w"

record 'sk key_pair =
  signing :: 'sk

definition from_seed :: "('sk, 'vk) crypto \<Rightarrow> 256 word \<Rightarrow> 'sk key_pair" where
  "from_seed C seed = \<lparr>signing = signing_from_bytes C seed\<rparr>"

definition from_u64 :: "('sk, 'vk) crypto \<Rightarrow> u64 \<Rightarrow> 'sk key_pair" where
  "from_u64 C seed = from_seed C (from_be_bytes (to_le_bytes seed @ replicate 24 0))"

definition key_address :: "('sk, 'vk) crypto \<Rightarrow> 'sk key_pair \<Rightarrow> address" where
  "key_address C kp = Address (vk_to_bytes C (verifying_key C (signing kp)))"

definition key_sign :: "('sk, 'vk) crypto \<Rightarrow> 'sk key_pair \<Rightarrow> byte list \<Rightarrow> 512 word" where
  "key_sign C kp m = sign_bytes C (signing kp) m"

definition verify :: "('sk, 'vk) crypto \<Rightarrow> address \<Rightarrow> byte list \<Rightarrow> 512 word \<Rightarrow> bool" where
  "verify C a m s =
     (case vk_from_bytes C (address_word a) of
        None \<Rightarrow> False
      | Some vk \<Rightarrow> verify_strict C vk m s)"

section \<open>What the source relies on\<close>

text \<open>
  The documented behaviour of the signature scheme: the bytes of a verifying key read back as
  that key, and a signature made with a signing key verifies under its verifying key.
\<close>

definition ed25519_correct :: "('sk, 'vk) crypto \<Rightarrow> bool" where
  "ed25519_correct C \<longleftrightarrow>
     (\<forall>sk. vk_from_bytes C (vk_to_bytes C (verifying_key C sk)) = Some (verifying_key C sk))
   \<and> (\<forall>sk m. verify_strict C (verifying_key C sk) m (sign_bytes C sk m))"

lemma verify_sign: "ed25519_correct C \<Longrightarrow> verify C (key_address C kp) m (key_sign C kp m)"
  by (simp add: ed25519_correct_def verify_def key_address_def key_sign_def)

end
