(* ===== verification/Tx.thy ===== *)
theory Tx
  imports Keys
begin

text \<open>
  \<open>crates/kovanica-state/src/tx.rs\<close>: transactions, their canonical encoding, the signature
  hash and the id, and the payload of a block.
\<close>

section \<open>Data\<close>

datatype tx_id = TxId "256 word"

datatype out_point = OutPoint (op_tx: tx_id) (op_index: u32)

datatype sig = Sig "512 word"

record tx_input =
  outpoint :: out_point
  signature :: sig

record tx_output =
  out_value :: u64
  owner :: address

record transaction =
  inputs :: "tx_input list"
  outputs :: "tx_output list"
  tag :: "byte list"

datatype decode_error = UnexpectedEof | TrailingBytes

fun tx_id_word :: "tx_id \<Rightarrow> 256 word" where
  "tx_id_word (TxId w) = w"

definition tx_id_bytes :: "tx_id \<Rightarrow> byte list" where
  "tx_id_bytes i = to_be_bytes (tx_id_word i)"

fun sig_bytes :: "sig \<Rightarrow> byte list" where
  "sig_bytes (Sig w) = to_be_bytes w"

fun sig_word :: "sig \<Rightarrow> 512 word" where
  "sig_word (Sig w) = w"

definition sig_zero :: sig where
  "sig_zero = Sig 0"

text \<open>The derived orders: an id by its bytes, an outpoint by its id and then its index.\<close>

instantiation tx_id :: linorder
begin

definition less_eq_tx_id :: "tx_id \<Rightarrow> tx_id \<Rightarrow> bool" where
  "less_eq_tx_id a b \<longleftrightarrow> tx_id_word a \<le> tx_id_word b"

definition less_tx_id :: "tx_id \<Rightarrow> tx_id \<Rightarrow> bool" where
  "less_tx_id a b \<longleftrightarrow> tx_id_word a < tx_id_word b"

instance
proof
  fix x y z :: tx_id
  show "x < y \<longleftrightarrow> x \<le> y \<and> \<not> y \<le> x" by (auto simp: less_eq_tx_id_def less_tx_id_def)
  show "x \<le> x" by (simp add: less_eq_tx_id_def)
  show "x \<le> y \<Longrightarrow> y \<le> z \<Longrightarrow> x \<le> z" by (auto simp: less_eq_tx_id_def)
  show "x \<le> y \<Longrightarrow> y \<le> x \<Longrightarrow> x = y" by (cases x; cases y) (auto simp: less_eq_tx_id_def)
  show "x \<le> y \<or> y \<le> x" by (auto simp: less_eq_tx_id_def)
qed

end

instantiation out_point :: linorder
begin

definition less_eq_out_point :: "out_point \<Rightarrow> out_point \<Rightarrow> bool" where
  "less_eq_out_point a b \<longleftrightarrow> (op_tx a, op_index a) \<le> (op_tx b, op_index b)"

definition less_out_point :: "out_point \<Rightarrow> out_point \<Rightarrow> bool" where
  "less_out_point a b \<longleftrightarrow> (op_tx a, op_index a) < (op_tx b, op_index b)"

instance
proof
  fix x y z :: out_point
  show "x < y \<longleftrightarrow> x \<le> y \<and> \<not> y \<le> x" by (auto simp: less_eq_out_point_def less_out_point_def)
  show "x \<le> x" by (simp add: less_eq_out_point_def)
  show "x \<le> y \<Longrightarrow> y \<le> z \<Longrightarrow> x \<le> z" by (auto simp: less_eq_out_point_def)
  show "x \<le> y \<Longrightarrow> y \<le> x \<Longrightarrow> x = y"
    by (cases x; cases y) (auto simp: less_eq_out_point_def)
  show "x \<le> y \<or> y \<le> x" unfolding less_eq_out_point_def by (rule linear)
qed

end

section \<open>Encoding\<close>

definition encode_input :: "bool \<Rightarrow> tx_input \<Rightarrow> byte list" where
  "encode_input with_signatures i =
     tx_id_bytes (op_tx (outpoint i)) @ to_le_bytes (op_index (outpoint i))
     @ (if with_signatures then sig_bytes (signature i) else [])"

definition encode_output :: "tx_output \<Rightarrow> byte list" where
  "encode_output out = to_le_bytes (out_value out) @ address_bytes (owner out)"

definition encode_into :: "bool \<Rightarrow> transaction \<Rightarrow> byte list" where
  "encode_into with_signatures tx =
     len_bytes (inputs tx) @ concat (map (encode_input with_signatures) (inputs tx))
     @ len_bytes (outputs tx) @ concat (map encode_output (outputs tx))
     @ len_bytes (tag tx) @ tag tx"

definition encode :: "transaction \<Rightarrow> byte list" where
  "encode tx = encode_into True tx"

definition sighash :: "('sk, 'vk) crypto \<Rightarrow> transaction \<Rightarrow> byte list" where
  "sighash C tx = to_be_bytes (blake3 C (encode_into False tx))"

definition tx_ident :: "('sk, 'vk) crypto \<Rightarrow> transaction \<Rightarrow> tx_id" where
  "tx_ident C tx = TxId (blake3 C (encode tx))"

definition is_coinbase :: "transaction \<Rightarrow> bool" where
  "is_coinbase tx \<longleftrightarrow> inputs tx = []"

section \<open>Constructors\<close>

definition coinbase :: "tx_output list \<Rightarrow> byte list \<Rightarrow> transaction" where
  "coinbase outs tg = \<lparr>inputs = [], outputs = outs, tag = tg\<rparr>"

definition unsigned_tx :: "out_point list \<Rightarrow> tx_output list \<Rightarrow> byte list \<Rightarrow> transaction" where
  "unsigned_tx ops outs tg =
     \<lparr>inputs = map (\<lambda>op. \<lparr>outpoint = op, signature = sig_zero\<rparr>) ops, outputs = outs, tag = tg\<rparr>"

text \<open>\<open>if let Some(input) = self.inputs.get_mut(index)\<close>: out of range, nothing changes.\<close>

definition attach_signature :: "transaction \<Rightarrow> nat \<Rightarrow> sig \<Rightarrow> transaction" where
  "attach_signature tx index s =
     (if index < length (inputs tx)
      then tx\<lparr>inputs := (inputs tx)[index := (inputs tx ! index)\<lparr>signature := s\<rparr>]\<rparr>
      else tx)"

fun sign_loop :: "('sk, 'vk) crypto \<Rightarrow> byte list \<Rightarrow> nat \<Rightarrow> (out_point \<times> 'sk key_pair) list \<Rightarrow> transaction
    \<Rightarrow> transaction" where
  "sign_loop C h i [] tx = tx"
| "sign_loop C h i ((op, kp) # rest) tx =
     sign_loop C h (Suc i) rest
       (tx\<lparr>inputs := (inputs tx)[i := (inputs tx ! i)\<lparr>signature := Sig (key_sign C kp h)\<rparr>]\<rparr>)"

definition signed_tx ::
    "('sk, 'vk) crypto \<Rightarrow> (out_point \<times> 'sk key_pair) list \<Rightarrow> tx_output list \<Rightarrow> byte list \<Rightarrow> transaction" where
  "signed_tx C spends outs tg =
     (let tx = \<lparr>inputs = map (\<lambda>(op, kp). \<lparr>outpoint = op, signature = sig_zero\<rparr>) spends,
                outputs = outs, tag = tg\<rparr>
      in sign_loop C (sighash C tx) 0 spends tx)"

section \<open>Decoding\<close>

definition read_input :: "byte list \<Rightarrow> decode_error + (tx_input \<times> byte list)" where
  "read_input bs =
     rbind (read_be_word UnexpectedEof bs) (\<lambda>(t, bs).
     rbind (read_word UnexpectedEof bs) (\<lambda>(index, bs).
     rbind (read_be_word UnexpectedEof bs) (\<lambda>(s, bs).
       Inr (\<lparr>outpoint = OutPoint (TxId t) index, signature = Sig s\<rparr>, bs))))"

definition read_output :: "byte list \<Rightarrow> decode_error + (tx_output \<times> byte list)" where
  "read_output bs =
     rbind (read_word UnexpectedEof bs) (\<lambda>(v, bs).
     rbind (read_be_word UnexpectedEof bs) (\<lambda>(a, bs).
       Inr (\<lparr>out_value = v, owner = Address a\<rparr>, bs)))"

definition read_transaction :: "byte list \<Rightarrow> decode_error + (transaction \<times> byte list)" where
  "read_transaction bs =
     rbind (read_count UnexpectedEof UnexpectedEof 100 bs) (\<lambda>(n_inputs, bs).
     rbind (read_many read_input n_inputs bs) (\<lambda>(ins, bs).
     rbind (read_count UnexpectedEof UnexpectedEof 40 bs) (\<lambda>(n_outputs, bs).
     rbind (read_many read_output n_outputs bs) (\<lambda>(outs, bs).
     rbind (read_count UnexpectedEof UnexpectedEof 1 bs) (\<lambda>(tag_len, bs).
     rbind (read_array UnexpectedEof tag_len bs) (\<lambda>(tg, bs).
       Inr (\<lparr>inputs = ins, outputs = outs, tag = tg\<rparr>, bs)))))))"

definition encode_block_payload :: "transaction list \<Rightarrow> byte list" where
  "encode_block_payload txs = len_bytes txs @ concat (map (encode_into True) txs)"

definition decode_block_payload :: "byte list \<Rightarrow> decode_error + transaction list" where
  "decode_block_payload bs =
     rbind (read_count UnexpectedEof UnexpectedEof 24 bs) (\<lambda>(count, bs).
     rbind (read_many read_transaction count bs) (\<lambda>(txs, bs).
       if bs \<noteq> [] then Inl TrailingBytes else Inr txs))"

section \<open>The codecs\<close>

text \<open>Vectors of machine length: what every value of the Rust types satisfies.\<close>

definition wf_tx :: "transaction \<Rightarrow> bool" where
  "wf_tx tx \<longleftrightarrow> length (inputs tx) < 2 ^ 64 \<and> length (outputs tx) < 2 ^ 64 \<and> length (tag tx) < 2 ^ 64"

lemma byte_lengths [simp]:
  "length (tx_id_bytes i) = 32" "length (sig_bytes s) = 64" "length (address_bytes a) = 32"
  by (simp add: tx_id_bytes_def, cases s, simp, cases a, simp)

interpretation input_codec: canonical_codec read_input "encode_input True" "\<lambda>_. True" 100
proof unfold_locales
  show "read_input (encode_input True x @ bs) = Inr (x, bs)" for x bs
    by (cases x; cases "outpoint x"; cases "op_tx (outpoint x)"; cases "signature x")
      (simp add: read_input_def encode_input_def tx_id_bytes_def codec_simps)
  show "bs = encode_input True x @ r \<and> True" if "read_input bs = Inr (x, r)" for bs x r
    using that by (auto simp: read_input_def encode_input_def tx_id_bytes_def
        elim!: rbind_InrE dest!: read_be_word_InrD [rotated] read_word_InrD [rotated])
  show "read_input (bs @ ys) = Inr (x, r @ ys)" if "read_input bs = Inr (x, r)" for bs x r ys
    using that by (auto simp: read_input_def dec_more elim!: rbind_InrE)
qed (simp add: encode_input_def)

interpretation output_codec: canonical_codec read_output encode_output "\<lambda>_. True" 40
proof unfold_locales
  show "read_output (encode_output x @ bs) = Inr (x, bs)" for x bs
    by (cases x; cases "owner x") (simp add: read_output_def encode_output_def codec_simps)
  show "bs = encode_output x @ r \<and> True" if "read_output bs = Inr (x, r)" for bs x r
    using that by (auto simp: read_output_def encode_output_def
        elim!: rbind_InrE dest!: read_be_word_InrD [rotated] read_word_InrD [rotated])
  show "read_output (bs @ ys) = Inr (x, r @ ys)" if "read_output bs = Inr (x, r)" for bs x r ys
    using that by (auto simp: read_output_def dec_more elim!: rbind_InrE)
qed (simp add: encode_output_def)

lemma read_transaction_enc:
  assumes "wf_tx tx"
  shows "read_transaction (encode_into True tx @ bs) = Inr (tx, bs)"
proof -
  have ins: "read_many read_input (length (inputs tx)) (concat (map (encode_input True) (inputs tx)) @ r) = Inr (inputs tx, r)" for r
    by (rule input_codec.read_many_enc) (simp add: list_all_iff)
  have outs: "read_many read_output (length (outputs tx)) (concat (map encode_output (outputs tx)) @ r) = Inr (outputs tx, r)" for r
    by (rule output_codec.read_many_enc) (simp add: list_all_iff)
  show ?thesis
    using assms input_codec.width_concat [of "inputs tx"] output_codec.width_concat [of "outputs tx"]
    by (simp add: wf_tx_def read_transaction_def encode_into_def codec_simps ins outs)
qed

lemma read_transaction_InrD:
  assumes "read_transaction bs = Inr (tx, r)"
  shows "bs = encode_into True tx @ r \<and> wf_tx tx"
proof -
  from assms obtain n ins b1 b2 m outs b3 b4 k tg b5 where
    r: "read_count UnexpectedEof UnexpectedEof 100 bs = Inr (n, b1)" "read_many read_input n b1 = Inr (ins, b2)"
      "read_count UnexpectedEof UnexpectedEof 40 b2 = Inr (m, b3)" "read_many read_output m b3 = Inr (outs, b4)"
      "read_count UnexpectedEof UnexpectedEof 1 b4 = Inr (k, b5)" "read_array UnexpectedEof k b5 = Inr (tg, r)"
    and tx: "tx = \<lparr>inputs = ins, outputs = outs, tag = tg\<rparr>"
    by (auto simp: read_transaction_def elim!: rbind_InrE)
  have i: "bs = len_bytes ins @ concat (map (encode_input True) ins) @ b2 \<and> length ins < 2 ^ 64 \<and> list_all (\<lambda>_. True) ins"
    by (rule input_codec.read_counted_canonical [of UnexpectedEof UnexpectedEof 100]) (simp add: r(1,2))
  have o: "b2 = len_bytes outs @ concat (map encode_output outs) @ b4 \<and> length outs < 2 ^ 64 \<and> list_all (\<lambda>_. True) outs"
    by (rule output_codec.read_counted_canonical [of UnexpectedEof UnexpectedEof 40]) (simp add: r(3,4))
  from i o read_count_InrD [OF r(5)] read_array_InrD [OF r(6)] show ?thesis
    by (auto simp: tx encode_into_def wf_tx_def len_bytes_def)
qed

lemma read_transaction_more [dec_more]:
  "read_transaction bs = Inr (tx, r) \<Longrightarrow> read_transaction (bs @ ys) = Inr (tx, r @ ys)"
  by (auto simp: read_transaction_def dec_more input_codec.read_many_more output_codec.read_many_more elim!: rbind_InrE)

interpretation tx_codec: canonical_codec read_transaction "encode_into True" wf_tx 24
proof unfold_locales
  show "24 \<le> length (encode_into True tx)" for tx by (simp add: encode_into_def)
qed (simp_all add: read_transaction_enc read_transaction_InrD dec_more)

definition wf_txs :: "transaction list \<Rightarrow> bool" where
  "wf_txs txs \<longleftrightarrow> list_all wf_tx txs \<and> length txs < 2 ^ 64"

lemma decode_payload_enc: "wf_txs txs \<Longrightarrow> decode_block_payload (encode_block_payload txs) = Inr txs"
  using tx_codec.width_concat [of txs] tx_codec.read_many_enc [of txs "[]"]
  by (simp add: wf_txs_def decode_block_payload_def encode_block_payload_def codec_simps)

lemma decode_payload_InrD:
  assumes "decode_block_payload bs = Inr txs"
  shows "bs = encode_block_payload txs \<and> wf_txs txs"
proof -
  from assms obtain n b1 where r: "read_count UnexpectedEof UnexpectedEof 24 bs = Inr (n, b1)"
      "read_many read_transaction n b1 = Inr (txs, [])"
    by (auto simp: decode_block_payload_def elim!: rbind_InrE split: if_splits)
  have "bs = len_bytes txs @ concat (map (encode_into True) txs) @ [] \<and> length txs < 2 ^ 64 \<and> list_all wf_tx txs"
    by (rule tx_codec.read_counted_canonical [of UnexpectedEof UnexpectedEof 24]) (simp add: r)
  then show ?thesis by (simp add: encode_block_payload_def wf_txs_def)
qed

section \<open>Signing\<close>

lemma encode_unsigned_map:
  "map outpoint (inputs a) = map outpoint (inputs b) \<Longrightarrow> outputs a = outputs b \<Longrightarrow> tag a = tag b \<Longrightarrow>
   encode_into False a = encode_into False b"
proof -
  assume o: "map outpoint (inputs a) = map outpoint (inputs b)" "outputs a = outputs b" "tag a = tag b"
  let ?e = "\<lambda>op. tx_id_bytes (op_tx op) @ to_le_bytes (op_index op)"
  have e: "map (encode_input False) xs = map ?e (map outpoint xs)" for xs by (simp add: encode_input_def comp_def)
  have "length (inputs a) = length (inputs b)" using o(1) by (metis length_map)
  then show ?thesis using o unfolding encode_into_def e by (simp add: len_bytes_def)
qed

lemma sign_loop_ok:
  assumes "i + length spends \<le> length (inputs tx)"
  shows "length (inputs (sign_loop C h i spends tx)) = length (inputs tx)
    \<and> outputs (sign_loop C h i spends tx) = outputs tx \<and> tag (sign_loop C h i spends tx) = tag tx
    \<and> map outpoint (inputs (sign_loop C h i spends tx)) = map outpoint (inputs tx)
    \<and> (\<forall>j < length (inputs tx). signature (inputs (sign_loop C h i spends tx) ! j)
         = (if i \<le> j \<and> j < i + length spends then Sig (key_sign C (snd (spends ! (j - i))) h)
            else signature (inputs tx ! j)))"
  using assms
proof (induction spends arbitrary: i tx)
  case (Cons s rest)
  obtain op kp where s: "s = (op, kp)" by (cases s)
  let ?tx = "tx\<lparr>inputs := (inputs tx)[i := (inputs tx ! i)\<lparr>signature := Sig (key_sign C kp h)\<rparr>]\<rparr>"
  have i: "i < length (inputs tx)" "Suc i + length rest \<le> length (inputs ?tx)" using Cons.prems by auto
  have m: "map outpoint (inputs ?tx) = map outpoint (inputs tx)"
    using i(1) by (simp add: map_update list_update_same_conv)
  show ?case using Cons.IH [OF i(2)] i(1) m s
    by (auto simp: nth_list_update nth_Cons' split: if_splits)
qed auto

lemma signed_tx_ok:
  fixes C spends outs tg
  defines "tx \<equiv> signed_tx C spends outs tg"
  shows "length (inputs tx) = length spends" "outputs tx = outs" "tag tx = tg"
    "map outpoint (inputs tx) = map fst spends"
    "sighash C tx = sighash C (unsigned_tx (map fst spends) outs tg)"
    "j < length spends \<Longrightarrow> signature (inputs tx ! j) = Sig (key_sign C (snd (spends ! j)) (sighash C tx))"
proof -
  let ?u = "unsigned_tx (map fst spends) outs tg"
  have u: "\<lparr>inputs = map (\<lambda>(op, kp). \<lparr>outpoint = op, signature = sig_zero\<rparr>) spends, outputs = outs, tag = tg\<rparr> = ?u"
    by (simp add: unsigned_tx_def comp_def case_prod_unfold)
  have tx: "tx = sign_loop C (sighash C ?u) 0 spends ?u" by (simp add: tx_def signed_tx_def u Let_def)
  have len: "length (inputs ?u) = length spends" by (simp add: unsigned_tx_def)
  note L = sign_loop_ok [of 0 spends ?u C "sighash C ?u", folded tx, unfolded len, simplified]
  have "map outpoint (inputs ?u) = map fst spends" by (simp add: unsigned_tx_def comp_def)
  with L show 1: "length (inputs tx) = length spends" "outputs tx = outs" "tag tx = tg"
      "map outpoint (inputs tx) = map fst spends" by (simp_all add: unsigned_tx_def)
  have "encode_into False tx = encode_into False ?u" by (rule encode_unsigned_map) (use L in auto)
  then show 2: "sighash C tx = sighash C ?u" by (simp add: sighash_def)
  show "signature (inputs tx ! j) = Sig (key_sign C (snd (spends ! j)) (sighash C tx))" if "j < length spends"
    using L that 2 by simp
qed

section \<open>Properties\<close>

text \<open>
  The payload encoding is canonical: a byte string decodes to a list of transactions exactly
  when it is the encoding of that list, so decoding and encoding are inverse to each other and
  no two byte strings carry the same transactions.
\<close>

lemma payload_canonical:
  "decode_block_payload bs = Inr txs \<longleftrightarrow> bs = encode_block_payload txs \<and> wf_txs txs"
  using decode_payload_enc decode_payload_InrD by blast

text \<open>
  Every input of a transaction built by \<open>Transaction::signed\<close> carries a signature that verifies
  against the address of its key pair over the transaction's own signature hash, and signing
  changes neither that hash nor the outpoints, outputs and tag.
\<close>

lemma signed_verifies:
  assumes "ed25519_correct C" "j < length spends"
  shows "outpoint (inputs (signed_tx C spends outs tg) ! j) = fst (spends ! j)
    \<and> verify C (key_address C (snd (spends ! j))) (sighash C (signed_tx C spends outs tg))
        (sig_word (signature (inputs (signed_tx C spends outs tg) ! j)))
    \<and> sighash C (signed_tx C spends outs tg) = sighash C (unsigned_tx (map fst spends) outs tg)"
proof -
  let ?tx = "signed_tx C spends outs tg"
  note S = signed_tx_ok [where C = C and spends = spends and outs = outs and tg = tg]
  have "outpoint (inputs ?tx ! j) = map outpoint (inputs ?tx) ! j" using assms(2) S(1) by simp
  then have "outpoint (inputs ?tx ! j) = fst (spends ! j)" using assms(2) by (simp add: S(4))
  moreover have "sig_word (signature (inputs ?tx ! j)) = key_sign C (snd (spends ! j)) (sighash C ?tx)"
    using S(6) [OF assms(2)] by simp
  ultimately show ?thesis using verify_sign [OF assms(1)] S(5) by simp
qed

text \<open>
  A scheme for the witnesses: a key is a 64-bit word, its signature repeats the key with the length
  of the message, and the hash is the length of the input.
\<close>

definition demo_crypto :: "(u64, u64) crypto" where
  "demo_crypto = \<lparr>blake3 = (\<lambda>bs. word_of_nat (length bs)), signing_from_bytes = ucast, verifying_key = (\<lambda>sk. sk),
     vk_to_bytes = ucast, vk_from_bytes = (\<lambda>w. Some (ucast w)),
     sign_bytes = (\<lambda>sk m. ucast sk + word_of_nat (length m)),
     verify_strict = (\<lambda>vk m s. s = ucast vk + word_of_nat (length m))\<rparr>"

lemma demo_crypto_correct: "ed25519_correct demo_crypto"
proof -
  have "ucast (ucast w :: 256 word) = w" for w :: u64
    by (rule ucast_up_ucast_id) (simp add: is_up)
  then show ?thesis by (simp add: ed25519_correct_def demo_crypto_def)
qed

lemma signed_verifies_example:
  "let tx = signed_tx demo_crypto [(OutPoint (TxId 7) 3, from_u64 demo_crypto 9)] [] [1] in
     verify demo_crypto (key_address demo_crypto (from_u64 demo_crypto 9)) (sighash demo_crypto tx)
       (sig_word (signature (inputs tx ! 0)))"
  unfolding Let_def
  using signed_verifies [OF demo_crypto_correct, of 0 "[(OutPoint (TxId 7) 3, from_u64 demo_crypto 9)]" "[]" "[1]"]
  unfolding list.size nth_Cons_0 snd_conv by blast

text \<open>
  an id commits to the whole transaction: as long as the hash does not collide on the two
  encodings, transactions of machine size have the same id only if they are equal, signatures
  included.
\<close>

lemma tx_ident_binding:
  assumes "wf_tx a" "wf_tx b" "inj_on (blake3 C) {encode a, encode b}"
  shows "tx_ident C a = tx_ident C b \<longleftrightarrow> a = b"
proof
  assume "tx_ident C a = tx_ident C b"
  then have "blake3 C (encode a) = blake3 C (encode b)" by (simp add: tx_ident_def)
  then have "encode a = encode b" using inj_onD [OF assms(3)] by blast
  then have "encode_into True a @ [] = encode_into True b @ []" by (simp add: encode_def)
  then show "a = b" using tx_codec.enc_inj [OF assms(1,2)] by blast
qed simp

lemma tx_ident_binding_example:
  "tx_ident demo_crypto (coinbase [] [1]) \<noteq> tx_ident demo_crypto (coinbase [] [1, 2])
     \<and> coinbase [] [1] \<noteq> coinbase [] [1, 2]"
proof -
  let ?a = "coinbase [] [1]" and ?b = "coinbase [] [1, 2]"
  have wf: "wf_tx ?a" "wf_tx ?b" by (simp_all add: wf_tx_def coinbase_def)
  have "blake3 demo_crypto (encode ?a) \<noteq> blake3 demo_crypto (encode ?b)"
    by (simp add: demo_crypto_def encode_def encode_into_def coinbase_def)
  then have "inj_on (blake3 demo_crypto) {encode ?a, encode ?b}" by (auto simp: inj_on_def)
  from tx_ident_binding [OF wf this] show ?thesis by (simp add: coinbase_def)
qed

end
