(* ===== verification/Utxo.thy ===== *)
theory Utxo
  imports Tx
begin

text \<open>
  \<open>crates/kovanica-state/src/utxo.rs\<close>: the set of unspent outputs, a \<open>HashMap\<close> from outpoints
  to outputs.  The sums of the source run over the values of the map in an unspecified order;
  here they run in the order of the outpoints, and \<open>total_value_sum\<close> shows that the sum is
  that of the set and does not overflow.
\<close>

type_synonym utxo_set = "(out_point, tx_output) fmap"

definition utxo_new :: utxo_set where
  "utxo_new = fmempty"

definition utxo_get :: "utxo_set \<Rightarrow> out_point \<Rightarrow> tx_output option" where
  "utxo_get u op = fmlookup u op"

definition utxo_contains :: "utxo_set \<Rightarrow> out_point \<Rightarrow> bool" where
  "utxo_contains u op \<longleftrightarrow> op |\<in>| fmdom u"

text \<open>The map after the insertion, and the output it replaced.\<close>

definition utxo_insert :: "utxo_set \<Rightarrow> out_point \<Rightarrow> tx_output \<Rightarrow> utxo_set \<times> tx_output option" where
  "utxo_insert u op out = (fmupd op out u, fmlookup u op)"

definition utxo_remove :: "utxo_set \<Rightarrow> out_point \<Rightarrow> utxo_set \<times> tx_output option" where
  "utxo_remove u op = (fmdrop op u, fmlookup u op)"

definition utxo_len :: "utxo_set \<Rightarrow> nat" where
  "utxo_len u = fcard (fmdom u)"

definition utxo_is_empty :: "utxo_set \<Rightarrow> bool" where
  "utxo_is_empty u \<longleftrightarrow> fmdom u = {||}"

definition utxo_iter :: "utxo_set \<Rightarrow> (out_point \<times> tx_output) list" where
  "utxo_iter u = sorted_list_of_fmap u"

definition total_value :: "utxo_set \<Rightarrow> u128" where
  "total_value u = sum_list (map (\<lambda>(op, out). ucast (out_value out)) (utxo_iter u))"

definition balance :: "utxo_set \<Rightarrow> address \<Rightarrow> u128" where
  "balance u a =
     sum_list (map (\<lambda>(op, out). ucast (out_value out)) (filter (\<lambda>(op, out). owner out = a) (utxo_iter u)))"

section \<open>The value of a set\<close>

definition utxo_sum :: "utxo_set \<Rightarrow> nat" where
  "utxo_sum u = (\<Sum>op \<in> fset (fmdom u). unat (out_value (the (fmlookup u op))))"

definition utxo_sum_of :: "utxo_set \<Rightarrow> address \<Rightarrow> nat" where
  "utxo_sum_of u a =
     (\<Sum>op \<in> {op \<in> fset (fmdom u). owner (the (fmlookup u op)) = a}. unat (out_value (the (fmlookup u op))))"

lemma utxo_sum_empty [simp]: "utxo_sum fmempty = 0"
  by (simp add: utxo_sum_def)

lemma utxo_sum_upd:
  assumes "fmlookup u op = None"
  shows "utxo_sum (fmupd op out u) = unat (out_value out) + utxo_sum u"
proof -
  have "op \<notin> fset (fmdom u)" using assms by (simp add: fmdom_notI)
  moreover have "(\<Sum>x \<in> fset (fmdom u). unat (out_value (the (fmlookup (fmupd op out u) x)))) = utxo_sum u"
    unfolding utxo_sum_def by (rule sum.cong) (use calculation in auto)
  ultimately show ?thesis unfolding utxo_sum_def by (simp add: fmdom_fmupd)
qed

lemma utxo_sum_drop:
  assumes "fmlookup u op = Some out"
  shows "utxo_sum u = unat (out_value out) + utxo_sum (fmdrop op u)"
proof -
  have m: "op \<in> fset (fmdom u)" using assms by (simp add: fmdomI)
  have "(\<Sum>x \<in> fset (fmdom u) - {op}. unat (out_value (the (fmlookup (fmdrop op u) x))))
      = (\<Sum>x \<in> fset (fmdom u) - {op}. unat (out_value (the (fmlookup u x))))"
    by (rule sum.cong) auto
  then show ?thesis
    unfolding utxo_sum_def using sum.remove [OF _ m, of "\<lambda>x. unat (out_value (the (fmlookup u x)))"] assms
    by simp
qed

lemma utxo_sum_replace:
  "fmlookup u op = Some out \<Longrightarrow> utxo_sum (fmupd op out' u) + unat (out_value out) = unat (out_value out') + utxo_sum u"
  using utxo_sum_drop [of u op out] utxo_sum_drop [of "fmupd op out' u" op out'] by (simp add: fmdrop_fmupd_same)

lemma unat_sum_list_ucast:
  fixes ws :: "u64 list"
  assumes "length ws < 2 ^ 64"
  shows "unat (sum_list (map ucast ws) :: u128) = sum_list (map unat ws)"
proof -
  have b: "sum_list (map unat vs) \<le> length vs * (2 ^ 64 - 1)" for vs :: "u64 list"
  proof (induction vs)
    case (Cons v vs)
    have "unat v < 2 ^ 64" using unsigned_less [of v] by simp
    with Cons show ?case by simp
  qed simp
  have "unat (sum_list (map ucast vs) :: u128) = sum_list (map unat vs)" if "length vs \<le> length ws" for vs :: "u64 list"
    using that
  proof (induction vs)
    case (Cons v vs)
    have "unat v < 2 ^ 64" using unsigned_less [of v, where 'a = nat] by simp
    then have "unat v < 2 ^ 128" by simp
    then have u: "unat (ucast v :: u128) = unat v" by (simp add: unsigned_ucast_eq take_bit_nat_eq_self)
    have "sum_list (map unat (v # vs)) < 2 ^ 128"
    proof -
      have "length (v # vs) \<le> 2 ^ 64 - 1" using Cons.prems assms by simp
      then have "length (v # vs) * (2 ^ 64 - 1) \<le> (2 ^ 64 - 1) * (2 ^ 64 - 1)" by (rule mult_le_mono1)
      with b [of "v # vs"] have "sum_list (map unat (v # vs)) \<le> (2 ^ 64 - 1) * (2 ^ 64 - 1)" by (rule order_trans)
      then show ?thesis by simp
    qed
    then show ?case using Cons u by (simp add: unat_word_ariths)
  qed simp
  then show ?thesis by blast
qed

lemma map_fst_iter: "map fst (utxo_iter u) = sorted_list_of_fset (fmdom u)"
  by (simp add: utxo_iter_def sorted_list_of_fmap_def comp_def)

lemma iter_eq: "utxo_iter u = map (\<lambda>op. (op, the (fmlookup u op))) (sorted_list_of_fset (fmdom u))"
  by (simp add: utxo_iter_def sorted_list_of_fmap_def)

lemma total_value_sum:
  assumes "utxo_len u < 2 ^ 64"
  shows "unat (total_value u) = utxo_sum u"
proof -
  let ?xs = "sorted_list_of_fset (fmdom u)"
  let ?ws = "map (\<lambda>op. out_value (the (fmlookup u op))) ?xs"
  have "total_value u = sum_list (map ucast ?ws)" by (simp add: total_value_def iter_eq comp_def)
  moreover have "length ?ws < 2 ^ 64" using assms by (simp add: utxo_len_def)
  moreover have "sum_list (map unat ?ws) = utxo_sum u"
    unfolding utxo_sum_def by (simp add: comp_def sum_list_distinct_conv_sum_set)
  ultimately show ?thesis using unat_sum_list_ucast by metis
qed

lemma balance_sum_of:
  assumes "utxo_len u < 2 ^ 64"
  shows "unat (balance u a) = utxo_sum_of u a"
proof -
  let ?xs = "filter (\<lambda>op. owner (the (fmlookup u op)) = a) (sorted_list_of_fset (fmdom u))"
  let ?ws = "map (\<lambda>op. out_value (the (fmlookup u op))) ?xs"
  have "balance u a = sum_list (map ucast ?ws)"
    by (simp add: balance_def iter_eq comp_def filter_map)
  moreover have "length ?ws < 2 ^ 64"
    using assms length_filter_le [of "\<lambda>op. owner (the (fmlookup u op)) = a" "sorted_list_of_fset (fmdom u)"]
    by (simp add: utxo_len_def)
  moreover have "sum_list (map unat ?ws) = utxo_sum_of u a"
    unfolding utxo_sum_of_def by (simp add: comp_def sum_list_distinct_conv_sum_set)
  ultimately show ?thesis using unat_sum_list_ucast by metis
qed

end
