(* ===== verification/Text.thy ===== *)
theory Text
  imports Utxo
begin

text \<open>
  The renderings the source puts into messages: decimal numbers, lowercase hex (\<open>hex::encode\<close>)
  and the \<open>Debug\<close> form of an outpoint.  A string is its UTF-8 bytes; the ellipsis of the
  shortened ids is the three bytes \<open>E2 80 A6\<close>.
\<close>

fun decimal :: "nat \<Rightarrow> string" where
  "decimal n = (if n < 10 then [char_of (48 + n)] else decimal (n div 10) @ [char_of (48 + n mod 10)])"

declare decimal.simps [simp del]

definition hex_digit :: "nat \<Rightarrow> char" where
  "hex_digit n = char_of (if n < 10 then 48 + n else 87 + n)"

definition to_hex :: "byte list \<Rightarrow> string" where
  "to_hex bs = concat (map (\<lambda>b. [hex_digit (unat b div 16), hex_digit (unat b mod 16)]) bs)"

definition ellipsis :: string where
  "ellipsis = [CHR 0xE2, CHR 0x80, CHR 0xA6]"

definition debug_tx_id :: "tx_id \<Rightarrow> string" where
  "debug_tx_id i = ''TxId('' @ take 8 (to_hex (tx_id_bytes i)) @ ellipsis @ '')''"

definition debug_out_point :: "out_point \<Rightarrow> string" where
  "debug_out_point op =
     ''OutPoint { tx: '' @ debug_tx_id (op_tx op) @ '', index: '' @ decimal (unat (op_index op)) @ '' }''"

lemma length_to_hex [simp]: "length (to_hex bs) = 2 * length bs"
  by (simp add: to_hex_def length_concat comp_def sum_list_triv)

end
