(* ===== verification/Validation.thy ===== *)
theory Validation
  imports Text Ghostdag
begin

text \<open>
  \<open>crates/kovanica-state/src/validation.rs\<close>: the context-free checks of a payload and the
  validator that runs them when a block enters the DAG.
\<close>

datatype block_validation_error =
    Payload decode_error
  | MisplacedCoinbase nat
  | NoOutputs nat
  | DuplicateInput nat out_point
  | ZeroValueOutput nat nat
  | ValueOverflow nat

fun display_decode_error :: "decode_error \<Rightarrow> string" where
  "display_decode_error decode_error.UnexpectedEof = ''unexpected end of payload''"
| "display_decode_error decode_error.TrailingBytes = ''trailing bytes after payload''"

fun display_validation_error :: "block_validation_error \<Rightarrow> string" where
  "display_validation_error (Payload e) = ''payload decode: '' @ display_decode_error e"
| "display_validation_error (MisplacedCoinbase i) = ''misplaced coinbase at tx '' @ decimal i"
| "display_validation_error (NoOutputs i) = ''tx '' @ decimal i @ '' has no outputs''"
| "display_validation_error (DuplicateInput i op) =
     ''tx '' @ decimal i @ '' spends '' @ debug_out_point op @ '' twice''"
| "display_validation_error (ZeroValueOutput i j) =
     ''tx '' @ decimal i @ '' output '' @ decimal j @ '' has zero value''"
| "display_validation_error (ValueOverflow i) = ''tx '' @ decimal i @ '' output values overflow''"

fun check_duplicates :: "nat \<Rightarrow> tx_input list \<Rightarrow> out_point fset \<Rightarrow> block_validation_error + unit" where
  "check_duplicates index [] seen = Inr ()"
| "check_duplicates index (i # rest) seen =
     (if outpoint i |\<in>| seen then Inl (DuplicateInput index (outpoint i))
      else check_duplicates index rest (finsert (outpoint i) seen))"

fun check_outputs :: "nat \<Rightarrow> nat \<Rightarrow> tx_output list \<Rightarrow> u64 \<Rightarrow> block_validation_error + unit" where
  "check_outputs index j [] s = Inr ()"
| "check_outputs index j (out # rest) s =
     (if out_value out = 0 then Inl (ZeroValueOutput index j)
      else case checked_add s (out_value out) of
             None \<Rightarrow> Inl (ValueOverflow index)
           | Some s \<Rightarrow> check_outputs index (Suc j) rest s)"

definition validate_tx_structure :: "nat \<Rightarrow> transaction \<Rightarrow> block_validation_error + unit" where
  "validate_tx_structure index tx =
     (if is_coinbase tx \<and> index \<noteq> 0 then Inl (MisplacedCoinbase index)
      else if \<not> is_coinbase tx \<and> outputs tx = [] then Inl (NoOutputs index)
      else rbind (check_duplicates index (inputs tx) {||}) (\<lambda>_. check_outputs index 0 (outputs tx) 0))"

fun validate_txs :: "nat \<Rightarrow> transaction list \<Rightarrow> block_validation_error + unit" where
  "validate_txs i [] = Inr ()"
| "validate_txs i (tx # rest) = rbind (validate_tx_structure i tx) (\<lambda>_. validate_txs (Suc i) rest)"

definition validate_block_payload :: "byte list \<Rightarrow> block_validation_error + unit" where
  "validate_block_payload bs =
     rbind (map_err Payload (decode_block_payload bs)) (\<lambda>txs. validate_txs 0 txs)"

definition tx_structure_validator :: validator where
  "tx_structure_validator =
     Some (\<lambda>b d. map_err display_validation_error (validate_block_payload (payload b)))"

section \<open>The rules\<close>

definition outputs_sum :: "tx_output list \<Rightarrow> nat" where
  "outputs_sum outs = sum_list (map (unat \<circ> out_value) outs)"

text \<open>What the outputs of any transaction satisfy, and the shape of a block.\<close>

definition outputs_ok :: "tx_output list \<Rightarrow> bool" where
  "outputs_ok outs \<longleftrightarrow> (\<forall>out \<in> set outs. out_value out \<noteq> 0) \<and> outputs_sum outs < 2 ^ 64"

definition tx_structure_ok :: "transaction \<Rightarrow> bool" where
  "tx_structure_ok tx \<longleftrightarrow> distinct (map outpoint (inputs tx)) \<and> outputs_ok (outputs tx)
     \<and> (is_coinbase tx \<or> outputs tx \<noteq> [])"

definition block_structure_ok :: "transaction list \<Rightarrow> bool" where
  "block_structure_ok txs \<longleftrightarrow> (\<forall>tx \<in> set txs. tx_structure_ok tx) \<and> (\<forall>tx \<in> set (tl txs). \<not> is_coinbase tx)"

lemma outputs_sum_simps [simp]:
  "outputs_sum [] = 0" "outputs_sum (x # xs) = unat (out_value x) + outputs_sum xs"
  by (simp_all add: outputs_sum_def)

lemma check_duplicates_ok:
  "check_duplicates index is seen = Inr () \<longleftrightarrow>
     distinct (map outpoint is) \<and> fset seen \<inter> outpoint ` set is = {}"
  by (induction "is" arbitrary: seen) auto

lemma check_outputs_ok:
  "check_outputs index j outs s = Inr () \<longleftrightarrow>
     (\<forall>out \<in> set outs. out_value out \<noteq> 0) \<and> (outs = [] \<or> unat s + outputs_sum outs < 2 ^ 64)"
proof (induction outs arbitrary: j s)
  case (Cons out rest)
  show ?case
  proof (cases "checked_add s (out_value out)")
    case None
    then have "2 ^ 64 \<le> unat s + unat (out_value out)" by (simp add: checked_add_None_iff)
    with None show ?thesis by auto
  next
    case (Some t)
    then have t: "unat t = unat s + unat (out_value out)" by (simp add: checked_add_Some_iff)
    have "unat t < 2 ^ 64" using unsigned_less [of t, where 'a = nat] by simp
    with Some t Cons.IH [of "Suc j" t] show ?thesis by (cases rest) auto
  qed
qed simp

lemma check_outputs_zero: "check_outputs index j outs 0 = Inr () \<longleftrightarrow> outputs_ok outs"
  unfolding check_outputs_ok outputs_ok_def by (cases outs) auto

lemma validate_tx_structure_ok:
  "validate_tx_structure i tx = Inr () \<longleftrightarrow> tx_structure_ok tx \<and> (is_coinbase tx \<longrightarrow> i = 0)"
  using check_duplicates_ok [of i "inputs tx" "{||}"] check_outputs_zero [of i 0 "outputs tx"]
  by (auto simp: validate_tx_structure_def tx_structure_ok_def rbind_eq_Inr)

lemma validate_txs_ok:
  "validate_txs i txs = Inr () \<longleftrightarrow> (\<forall>tx \<in> set txs. tx_structure_ok tx)
     \<and> (\<forall>tx \<in> set (if i = 0 then tl txs else txs). \<not> is_coinbase tx)"
proof (induction txs arbitrary: i)
  case (Cons tx rest)
  show ?case using Cons.IH [of "Suc i"] by (auto simp: rbind_eq_Inr validate_tx_structure_ok)
qed simp

section \<open>Properties\<close>

text \<open>
  C34: the structural validator accepts a payload exactly when it is the encoding of transactions
  that obey the context-free rules: every transaction spends distinct outpoints, pays only
  non-zero amounts whose sum fits in 64 bits, has an output unless it mints, and only the
  first one mints.
\<close>

theorem validate_payload_exact:
  "validate_block_payload bs = Inr () \<longleftrightarrow>
     (\<exists>txs. bs = encode_block_payload txs \<and> wf_txs txs \<and> block_structure_ok txs)"
proof
  assume "validate_block_payload bs = Inr ()"
  then obtain txs where "decode_block_payload bs = Inr txs" "validate_txs 0 txs = Inr ()"
    by (auto simp: validate_block_payload_def rbind_eq_Inr)
  then show "\<exists>txs. bs = encode_block_payload txs \<and> wf_txs txs \<and> block_structure_ok txs"
    using decode_payload_InrD by (auto simp: validate_txs_ok block_structure_ok_def)
next
  assume "\<exists>txs. bs = encode_block_payload txs \<and> wf_txs txs \<and> block_structure_ok txs"
  then show "validate_block_payload bs = Inr ()"
    by (auto simp: validate_block_payload_def decode_payload_enc validate_txs_ok block_structure_ok_def)
qed

end
