(* ===== verification/Apply.thy ===== *)
theory Apply
  imports Validation Ordering
begin

text \<open>
  \<open>crates/kovanica-state/src/ledger.rs\<close>, first half: the atomic state transition of one block and
  the run over a whole DAG.  A function that takes \<open>&mut UtxoSet\<close> returns the set beside its
  result; the inner functions return it only on success, because the caller throws the staging
  copy away on an error.
\<close>

datatype ledger_error =
    MissingInput out_point
  | DuplicateInput out_point
  | OutputAlreadyExists out_point
  | BadSignature tx_id nat
  | ValueNotConserved tx_id u64 u64
  | ValueOverflow
  | EmptyTransaction tx_id
  | ZeroValueOutput tx_id
  | MisplacedCoinbase tx_id
  | CoinbaseOverspend u64 u64
  | Payload decode_error

record block_summary =
  fees :: u64
  minted :: u64

section \<open>One block\<close>

fun check_inputs ::
    "('sk, 'vk) crypto \<Rightarrow> transaction \<Rightarrow> utxo_set \<Rightarrow> nat \<Rightarrow> tx_input list \<Rightarrow> out_point fset \<Rightarrow> u64
     \<Rightarrow> ledger_error + u64" where
  "check_inputs C tx u i [] seen s = Inr s"
| "check_inputs C tx u i (inp # rest) seen s =
     (if outpoint inp |\<in>| seen then Inl (DuplicateInput (outpoint inp))
      else case utxo_get u (outpoint inp) of
        None \<Rightarrow> Inl (MissingInput (outpoint inp))
      | Some prev \<Rightarrow>
          if \<not> verify C (owner prev) (sighash C tx) (sig_word (signature inp))
          then Inl (BadSignature (tx_ident C tx) i)
          else case checked_add s (out_value prev) of
            None \<Rightarrow> Inl ValueOverflow
          | Some s \<Rightarrow> check_inputs C tx u (Suc i) rest (finsert (outpoint inp) seen) s)"

fun sum_outputs :: "tx_id \<Rightarrow> tx_output list \<Rightarrow> u64 \<Rightarrow> ledger_error + u64" where
  "sum_outputs t [] s = Inr s"
| "sum_outputs t (out # rest) s =
     (if out_value out = 0 then Inl (ZeroValueOutput t)
      else case checked_add s (out_value out) of
             None \<Rightarrow> Inl ValueOverflow
           | Some s \<Rightarrow> sum_outputs t rest s)"

fun remove_inputs :: "tx_input list \<Rightarrow> utxo_set \<Rightarrow> utxo_set" where
  "remove_inputs [] u = u"
| "remove_inputs (inp # rest) u = remove_inputs rest (fst (utxo_remove u (outpoint inp)))"

fun add_outputs :: "tx_id \<Rightarrow> nat \<Rightarrow> tx_output list \<Rightarrow> utxo_set \<Rightarrow> ledger_error + utxo_set" where
  "add_outputs t i [] u = Inr u"
| "add_outputs t i (out # rest) u =
     (let op = OutPoint t (word_of_nat i); (u', old) = utxo_insert u op out in
      if old \<noteq> None then Inl (OutputAlreadyExists op) else add_outputs t (Suc i) rest u')"

definition apply_regular ::
    "('sk, 'vk) crypto \<Rightarrow> utxo_set \<Rightarrow> transaction \<Rightarrow> ledger_error + (u64 \<times> utxo_set)" where
  "apply_regular C u tx =
     (if inputs tx = [] \<or> outputs tx = [] then Inl (EmptyTransaction (tx_ident C tx))
      else rbind (check_inputs C tx u 0 (inputs tx) {||} 0) (\<lambda>sum_in.
           rbind (sum_outputs (tx_ident C tx) (outputs tx) 0) (\<lambda>sum_out.
           if sum_out > sum_in then Inl (ValueNotConserved (tx_ident C tx) sum_in sum_out)
           else rbind (add_outputs (tx_ident C tx) 0 (outputs tx) (remove_inputs (inputs tx) u)) (\<lambda>u'.
                Inr (sum_in - sum_out, u')))))"

definition apply_coinbase ::
    "('sk, 'vk) crypto \<Rightarrow> utxo_set \<Rightarrow> transaction \<Rightarrow> u64 \<Rightarrow> ledger_error + (u64 \<times> utxo_set)" where
  "apply_coinbase C u cb allowed =
     rbind (sum_outputs (tx_ident C cb) (outputs cb) 0) (\<lambda>claimed.
     if claimed > allowed then Inl (CoinbaseOverspend claimed allowed)
     else rbind (add_outputs (tx_ident C cb) 0 (outputs cb) u) (\<lambda>u'. Inr (claimed, u')))"

fun apply_txs ::
    "('sk, 'vk) crypto \<Rightarrow> nat \<Rightarrow> transaction list \<Rightarrow> utxo_set \<Rightarrow> transaction option \<Rightarrow> u64
     \<Rightarrow> ledger_error + (utxo_set \<times> transaction option \<times> u64)" where
  "apply_txs C i [] u cb total_fees = Inr (u, cb, total_fees)"
| "apply_txs C i (tx # rest) u cb total_fees =
     (if is_coinbase tx then
        (if i \<noteq> 0 then Inl (MisplacedCoinbase (tx_ident C tx))
         else apply_txs C (Suc i) rest u (Some tx) total_fees)
      else rbind (apply_regular C u tx) (\<lambda>(fee, u).
           case checked_add total_fees fee of
             None \<Rightarrow> Inl ValueOverflow
           | Some total_fees \<Rightarrow> apply_txs C (Suc i) rest u cb total_fees))"

definition apply_staged ::
    "('sk, 'vk) crypto \<Rightarrow> utxo_set \<Rightarrow> transaction list \<Rightarrow> u64 \<Rightarrow> ledger_error + (utxo_set \<times> block_summary)" where
  "apply_staged C staging txs subsidy =
     rbind (apply_txs C 0 txs staging None 0) (\<lambda>(staging, cb, total_fees).
     case checked_add subsidy total_fees of
       None \<Rightarrow> Inl ValueOverflow
     | Some allowed \<Rightarrow>
         (case cb of
            Some cb \<Rightarrow> rbind (apply_coinbase C staging cb allowed) (\<lambda>(m, staging).
                         Inr (staging, \<lparr>fees = total_fees, minted = m\<rparr>))
          | None \<Rightarrow> Inr (staging, \<lparr>fees = total_fees, minted = 0\<rparr>)))"

definition apply_block ::
    "('sk, 'vk) crypto \<Rightarrow> utxo_set \<Rightarrow> transaction list \<Rightarrow> u64 \<Rightarrow> utxo_set \<times> (ledger_error + block_summary)" where
  "apply_block C u txs subsidy =
     (case apply_staged C u txs subsidy of
        Inl e \<Rightarrow> (u, Inl e)
      | Inr (staging, s) \<Rightarrow> (staging, Inr s))"

section \<open>A whole DAG\<close>

record ledger_run =
  run_utxo :: utxo_set
  accepted :: "block_id list"
  rejected :: "(block_id \<times> ledger_error) list"

definition run_default :: ledger_run where
  "run_default = \<lparr>run_utxo = utxo_new, accepted = [], rejected = []\<rparr>"

definition run_block ::
    "('sk, 'vk) crypto \<Rightarrow> u64 \<Rightarrow> ledger_run \<Rightarrow> block_id \<Rightarrow> byte list \<Rightarrow> ledger_run" where
  "run_block C subsidy run i bs =
     (case decode_block_payload bs of
        Inr txs \<Rightarrow>
          (case apply_block C (run_utxo run) txs subsidy of
             (u, Inr _) \<Rightarrow> run\<lparr>run_utxo := u, accepted := accepted run @ [i]\<rparr>
           | (u, Inl e) \<Rightarrow> run\<lparr>run_utxo := u, rejected := rejected run @ [(i, e)]\<rparr>)
      | Inl e \<Rightarrow> run\<lparr>rejected := rejected run @ [(i, Payload e)]\<rparr>)"

fun run_loop :: "('sk, 'vk) crypto \<Rightarrow> dag \<Rightarrow> u64 \<Rightarrow> block_id list \<Rightarrow> ledger_run \<Rightarrow> ledger_run option" where
  "run_loop C d subsidy [] run = Some run"
| "run_loop C d subsidy (i # rest) run = do {
     b \<leftarrow> dag_block d i;
     run_loop C d subsidy rest (run_block C subsidy run i (payload b))
   }"

definition apply_dag :: "('sk, 'vk) crypto \<Rightarrow> dag \<Rightarrow> u64 \<Rightarrow> ledger_run option" where
  "apply_dag C d subsidy = do {
     order \<leftarrow> linearize d;
     run_loop C d subsidy order run_default
   }"

end
