(* ===== verification/ApplyProps.thy ===== *)
theory ApplyProps
  imports Apply
begin

text \<open>
  The rules of the state transition: what one transaction needs and does, conservation of value,
  and that an output leaves the set only through a spend its owner signed.
\<close>

section \<open>Inputs\<close>

definition inputs_sum :: "utxo_set \<Rightarrow> tx_input list \<Rightarrow> nat" where
  "inputs_sum u ins = sum_list (map (\<lambda>inp. unat (out_value (the (fmlookup u (outpoint inp))))) ins)"

text \<open>The signature of \<open>inp\<close> is one of the owner of \<open>out\<close> over \<open>tx\<close>.\<close>

definition authorised :: "('sk, 'vk) crypto \<Rightarrow> transaction \<Rightarrow> tx_input \<Rightarrow> tx_output \<Rightarrow> bool" where
  "authorised C tx inp out \<longleftrightarrow> verify C (owner out) (sighash C tx) (sig_word (signature inp))"

definition spendable :: "('sk, 'vk) crypto \<Rightarrow> utxo_set \<Rightarrow> transaction \<Rightarrow> tx_input \<Rightarrow> bool" where
  "spendable C u tx inp \<longleftrightarrow>
     (case fmlookup u (outpoint inp) of None \<Rightarrow> False | Some out \<Rightarrow> authorised C tx inp out)"

lemma spendableE:
  assumes "spendable C u tx inp"
  obtains out where "fmlookup u (outpoint inp) = Some out" "authorised C tx inp out"
  using assms by (auto simp: spendable_def split: option.splits)

lemma inputs_sum_simps [simp]:
  "inputs_sum u [] = 0"
  "inputs_sum u (inp # ins) = unat (out_value (the (fmlookup u (outpoint inp)))) + inputs_sum u ins"
  by (simp_all add: inputs_sum_def)

lemma check_inputs_ok:
  "check_inputs C tx u i ins seen s = Inr t \<longleftrightarrow>
     distinct (map outpoint ins) \<and> fset seen \<inter> outpoint ` set ins = {}
     \<and> (\<forall>inp \<in> set ins. spendable C u tx inp) \<and> unat t = unat s + inputs_sum u ins"
proof (induction ins arbitrary: i seen s)
  case Nil
  then show ?case by (auto simp: word_unat_eq_iff)
next
  case (Cons inp rest)
  show ?case
  proof (cases "outpoint inp |\<notin>| seen \<and> spendable C u tx inp")
    case False
    then show ?thesis by (auto simp: utxo_get_def spendable_def authorised_def split: option.splits)
  next
    case True
    then obtain prev where prev: "fmlookup u (outpoint inp) = Some prev" "authorised C tx inp prev"
      by (auto elim: spendableE)
    let ?rec = "case checked_add s (out_value prev) of None \<Rightarrow> Inl ValueOverflow
        | Some s \<Rightarrow> check_inputs C tx u (Suc i) rest (finsert (outpoint inp) seen) s"
    have eq: "check_inputs C tx u i (inp # rest) seen s = ?rec"
      using True prev by (simp add: utxo_get_def authorised_def)
    show ?thesis
    proof (cases "checked_add s (out_value prev)")
      case None
      then have "2 ^ 64 \<le> unat s + unat (out_value prev)" by (simp add: checked_add_None_iff)
      moreover have "unat t < 2 ^ 64" using unsigned_less [of t, where 'a = nat] by simp
      ultimately show ?thesis using eq None prev by auto
    next
      case (Some r)
      then have "unat r = unat s + unat (out_value prev)" by (simp add: checked_add_Some_iff)
      then show ?thesis
        unfolding eq Some option.case Cons.IH using True prev(1) by auto
    qed
  qed
qed

lemma check_inputs_start:
  "check_inputs C tx u 0 (inputs tx) {||} 0 = Inr t \<longleftrightarrow>
     distinct (map outpoint (inputs tx)) \<and> (\<forall>inp \<in> set (inputs tx). spendable C u tx inp)
     \<and> unat t = inputs_sum u (inputs tx)"
  by (simp add: check_inputs_ok)

lemma remove_inputs_eq: "remove_inputs ins u = fmdrop_fset (fset_of_list (map outpoint ins)) u"
proof (induction ins arbitrary: u)
  case (Cons inp rest)
  show ?case unfolding remove_inputs.simps Cons.IH
    by (rule fmap_ext) (auto simp: utxo_remove_def fset_of_list.rep_eq)
qed (simp add: fmdrop_fset_null)

lemma remove_inputs_lookup:
  "fmlookup (remove_inputs ins u) op = (if op \<in> outpoint ` set ins then None else fmlookup u op)"
  by (simp add: remove_inputs_eq fset_of_list.rep_eq)

lemma remove_inputs_sum:
  assumes "distinct (map outpoint ins)" "\<And>inp. inp \<in> set ins \<Longrightarrow> fmlookup u (outpoint inp) \<noteq> None"
  shows "utxo_sum u = inputs_sum u ins + utxo_sum (remove_inputs ins u)"
  using assms
proof (induction ins arbitrary: u)
  case (Cons inp rest)
  obtain prev where prev: "fmlookup u (outpoint inp) = Some prev" using Cons.prems(2) by fastforce
  let ?u = "fmdrop (outpoint inp) u"
  have same: "fmlookup ?u (outpoint x) = fmlookup u (outpoint x)" if "x \<in> set rest" for x
    using Cons.prems(1) that by (metis distinct.simps(2) fmlookup_drop image_eqI list.map(2) list.set_map)
  have "inputs_sum ?u rest = inputs_sum u rest"
    unfolding inputs_sum_def using same by (metis (no_types, lifting) map_eq_conv)
  moreover have "utxo_sum ?u = inputs_sum ?u rest + utxo_sum (remove_inputs rest ?u)"
    by (rule Cons.IH) (use Cons.prems same in auto)
  ultimately show ?case using utxo_sum_drop [OF prev] prev by (simp add: utxo_remove_def)
qed simp

section \<open>Outputs\<close>

lemma sum_outputs_ok:
  "sum_outputs t outs s = Inr r \<longleftrightarrow> (\<forall>out \<in> set outs. out_value out \<noteq> 0) \<and> unat r = unat s + outputs_sum outs"
proof (induction outs arbitrary: s)
  case Nil
  then show ?case by (auto simp: word_unat_eq_iff)
next
  case (Cons out rest)
  show ?case
  proof (cases "checked_add s (out_value out)")
    case None
    then have "2 ^ 64 \<le> unat s + unat (out_value out)" by (simp add: checked_add_None_iff)
    moreover have "unat r < 2 ^ 64" using unsigned_less [of r, where 'a = nat] by simp
    ultimately show ?thesis using None by auto
  next
    case (Some q)
    then have "unat q = unat s + unat (out_value out)" by (simp add: checked_add_Some_iff)
    then show ?thesis using Some Cons.IH [of q] by auto
  qed
qed

lemma sum_outputs_start:
  "sum_outputs t outs 0 = Inr r \<longleftrightarrow> outputs_ok outs \<and> unat r = outputs_sum outs"
  using unsigned_less [of r, where 'a = nat] by (auto simp: sum_outputs_ok outputs_ok_def)

text \<open>The outpoints of the outputs numbered from \<open>i\<close>, with the \<open>as u32\<close> of the source.\<close>

definition points :: "tx_id \<Rightarrow> nat \<Rightarrow> nat \<Rightarrow> out_point list" where
  "points t i n = map (\<lambda>j. OutPoint t (word_of_nat j)) [i..<i + n]"

definition created :: "tx_id \<Rightarrow> nat \<Rightarrow> tx_output list \<Rightarrow> utxo_set" where
  "created t i outs = fmap_of_list (zip (points t i (length outs)) outs)"

lemma points_Suc: "points t i (Suc n) = OutPoint t (word_of_nat i) # points t (Suc i) n"
  by (simp add: points_def upt_rec)

lemma length_points [simp]: "length (points t i n) = n"
  by (simp add: points_def)

lemma points_tx: "op \<in> set (points t i n) \<Longrightarrow> op_tx op = t"
  by (auto simp: points_def)

lemma fmdom_created: "fset (fmdom (created t i outs)) = set (points t i (length outs))"
  by (simp add: created_def fset_of_list.rep_eq image_set [symmetric])

lemma add_outputs_ok:
  "add_outputs t i outs u = Inr u' \<longleftrightarrow>
     distinct (points t i (length outs)) \<and> set (points t i (length outs)) \<inter> fset (fmdom u) = {}
     \<and> u' = u ++\<^sub>f created t i outs"
proof (induction outs arbitrary: i u)
  case Nil
  then show ?case by (auto simp: points_def created_def)
next
  case (Cons out rest)
  let ?op = "OutPoint t (word_of_nat i)" and ?ps = "points t (Suc i) (length rest)"
  have c: "created t i (out # rest) = fmupd ?op out (created t (Suc i) rest)"
    by (simp add: created_def points_Suc)
  have "fmupd ?op out u ++\<^sub>f created t (Suc i) rest = u ++\<^sub>f fmupd ?op out (created t (Suc i) rest)"
    if "?op \<notin> set ?ps"
  proof (rule fmap_ext)
    fix x
    have "?op |\<notin>| fmdom (created t (Suc i) rest)" using that fmdom_created by simp
    then show "fmlookup (fmupd ?op out u ++\<^sub>f created t (Suc i) rest) x
        = fmlookup (u ++\<^sub>f fmupd ?op out (created t (Suc i) rest)) x" by (auto simp: fmlookup_add)
  qed
  note app = this
  show ?case
  proof (cases "?op |\<in>| fmdom u")
    case True
    then have "fmlookup u ?op \<noteq> None" by (auto simp: fmlookup_dom_iff)
    then show ?thesis using True by (simp add: utxo_insert_def Let_def points_Suc)
  next
    case False
    then have step: "add_outputs t i (out # rest) u = add_outputs t (Suc i) rest (fmupd ?op out u)"
      by (simp add: utxo_insert_def Let_def fmdom_notD)
    show ?thesis unfolding step Cons.IH c using False app by (auto simp: points_Suc)
  qed
qed

lemma add_outputs_sum: "add_outputs t i outs u = Inr u' \<Longrightarrow> utxo_sum u' = utxo_sum u + outputs_sum outs"
proof (induction outs arbitrary: i u)
  case (Cons out rest)
  let ?op = "OutPoint t (word_of_nat i)"
  have n: "fmlookup u ?op = None" and r: "add_outputs t (Suc i) rest (fmupd ?op out u) = Inr u'"
    using Cons.prems by (auto simp: utxo_insert_def Let_def split: if_splits)
  show ?case using Cons.IH [OF r] utxo_sum_upd [OF n] by simp
qed simp

section \<open>One transaction\<close>

text \<open>The six rules of the module, and that the created outpoints are new.\<close>

definition regular_ok :: "('sk, 'vk) crypto \<Rightarrow> utxo_set \<Rightarrow> transaction \<Rightarrow> bool" where
  "regular_ok C u tx \<longleftrightarrow>
     inputs tx \<noteq> [] \<and> outputs tx \<noteq> []
   \<and> distinct (map outpoint (inputs tx))
   \<and> (\<forall>inp \<in> set (inputs tx). spendable C u tx inp)
   \<and> outputs_ok (outputs tx)
   \<and> inputs_sum u (inputs tx) < 2 ^ 64 \<and> outputs_sum (outputs tx) \<le> inputs_sum u (inputs tx)
   \<and> distinct (points (tx_ident C tx) 0 (length (outputs tx)))
   \<and> set (points (tx_ident C tx) 0 (length (outputs tx)))
       \<inter> fset (fmdom (remove_inputs (inputs tx) u)) = {}"

definition regular_result :: "('sk, 'vk) crypto \<Rightarrow> utxo_set \<Rightarrow> transaction \<Rightarrow> utxo_set" where
  "regular_result C u tx = remove_inputs (inputs tx) u ++\<^sub>f created (tx_ident C tx) 0 (outputs tx)"

lemma apply_regular_ok:
  "apply_regular C u tx = Inr (fee, u') \<longleftrightarrow>
     regular_ok C u tx \<and> unat fee = inputs_sum u (inputs tx) - outputs_sum (outputs tx)
     \<and> u' = regular_result C u tx"
proof (cases "regular_ok C u tx")
  case True
  then have R: "inputs tx \<noteq> []" "outputs tx \<noteq> []" "inputs_sum u (inputs tx) < 2 ^ 64"
      "outputs_sum (outputs tx) \<le> inputs_sum u (inputs tx)" "outputs_sum (outputs tx) < 2 ^ 64"
    by (auto simp: regular_ok_def)
  define si so where "si = (word_of_nat (inputs_sum u (inputs tx)) :: u64)" and "so = (word_of_nat (outputs_sum (outputs tx)) :: u64)"
  have si: "unat si = inputs_sum u (inputs tx)" "unat so = outputs_sum (outputs tx)"
    using R(3,5) by (simp_all add: si_def so_def unat_of_nat)
  have "check_inputs C tx u 0 (inputs tx) {||} 0 = Inr si"
    unfolding check_inputs_start using True si by (simp add: regular_ok_def)
  moreover have "sum_outputs (tx_ident C tx) (outputs tx) 0 = Inr so"
    unfolding sum_outputs_start using True si by (simp add: regular_ok_def)
  moreover have "add_outputs (tx_ident C tx) 0 (outputs tx) (remove_inputs (inputs tx) u) = Inr (regular_result C u tx)"
    unfolding add_outputs_ok using True by (simp add: regular_ok_def regular_result_def)
  moreover have le: "so \<le> si" using R(4) si by (simp add: word_le_nat_alt)
  ultimately have "apply_regular C u tx = Inr (si - so, regular_result C u tx)"
    using R(1,2) by (simp add: apply_regular_def not_less)
  moreover have "unat (si - so) = inputs_sum u (inputs tx) - outputs_sum (outputs tx)"
    using le si by (simp add: unat_sub)
  ultimately show ?thesis using True by (auto simp: word_unat_eq_iff)
next
  case False
  have "regular_ok C u tx" if app: "apply_regular C u tx = Inr (fee, u')"
  proof -
    from app obtain si so w where
      "inputs tx \<noteq> []" "outputs tx \<noteq> []" "check_inputs C tx u 0 (inputs tx) {||} 0 = Inr si"
      "sum_outputs (tx_ident C tx) (outputs tx) 0 = Inr so" "\<not> si < so"
      "add_outputs (tx_ident C tx) 0 (outputs tx) (remove_inputs (inputs tx) u) = Inr w"
      by (auto simp: apply_regular_def rbind_eq_Inr split: if_splits)
    then show ?thesis
      using unsigned_less [of si, where 'a = nat]
      by (auto simp: regular_ok_def check_inputs_start sum_outputs_start add_outputs_ok word_less_nat_alt not_less)
  qed
  with False show ?thesis by blast
qed

lemma regular_lookup:
  assumes "regular_ok C u tx"
  shows "fmlookup (regular_result C u tx) op =
    (if op \<in> set (points (tx_ident C tx) 0 (length (outputs tx))) then fmlookup (created (tx_ident C tx) 0 (outputs tx)) op
     else if op \<in> outpoint ` set (inputs tx) then None else fmlookup u op)"
  using fmdom_created [of "tx_ident C tx" 0 "outputs tx"]
  by (auto simp: regular_result_def remove_inputs_lookup)

lemma regular_sum:
  assumes "regular_ok C u tx"
  shows "utxo_sum (regular_result C u tx) + (inputs_sum u (inputs tx) - outputs_sum (outputs tx)) = utxo_sum u"
proof -
  have "add_outputs (tx_ident C tx) 0 (outputs tx) (remove_inputs (inputs tx) u) = Inr (regular_result C u tx)"
    unfolding add_outputs_ok using assms by (simp add: regular_ok_def regular_result_def)
  from add_outputs_sum [OF this] have "utxo_sum (regular_result C u tx) = utxo_sum (remove_inputs (inputs tx) u) + outputs_sum (outputs tx)" .
  moreover have "utxo_sum u = inputs_sum u (inputs tx) + utxo_sum (remove_inputs (inputs tx) u)"
    using assms by (intro remove_inputs_sum) (auto simp: regular_ok_def spendable_def split: option.splits)
  ultimately show ?thesis using assms by (simp add: regular_ok_def)
qed

lemma regular_structure: "regular_ok C u tx \<Longrightarrow> tx_structure_ok tx \<and> \<not> is_coinbase tx"
  by (simp add: regular_ok_def tx_structure_ok_def is_coinbase_def)

section \<open>One block\<close>

text \<open>
  The reference: the regular transactions in turn, each against the set the one before it left,
  then the outputs of the coinbase.
\<close>

fun regular_run :: "('sk, 'vk) crypto \<Rightarrow> utxo_set \<Rightarrow> transaction list \<Rightarrow> utxo_set option" where
  "regular_run C u [] = Some u"
| "regular_run C u (tx # rest) =
     (if regular_ok C u tx then regular_run C (regular_result C u tx) rest else None)"

definition has_coinbase :: "transaction list \<Rightarrow> bool" where
  "has_coinbase txs \<longleftrightarrow> txs \<noteq> [] \<and> is_coinbase (hd txs)"

definition regulars :: "transaction list \<Rightarrow> transaction list" where
  "regulars txs = (if has_coinbase txs then tl txs else txs)"

definition issued :: "transaction list \<Rightarrow> tx_output list" where
  "issued txs = (if has_coinbase txs then outputs (hd txs) else [])"

definition coinbase_ident :: "('sk, 'vk) crypto \<Rightarrow> transaction list \<Rightarrow> tx_id" where
  "coinbase_ident C txs = tx_ident C (hd txs)"

lemma apply_txs_regular:
  assumes "apply_txs C (Suc i) txs u cb f = Inr (u', cb', f')"
  shows "regular_run C u txs = Some u' \<and> cb' = cb \<and> utxo_sum u' + unat f' = utxo_sum u + unat f"
  using assms
proof (induction txs arbitrary: i u f)
  case (Cons tx rest)
  then obtain fee u1 f1 where r: "apply_regular C u tx = Inr (fee, u1)" "checked_add f fee = Some f1"
      "apply_txs C (Suc (Suc i)) rest u1 cb f1 = Inr (u', cb', f')"
    by (auto elim!: rbind_InrE split: if_splits option.splits)
  have R: "regular_ok C u tx" "u1 = regular_result C u tx"
    and fee: "unat fee = inputs_sum u (inputs tx) - outputs_sum (outputs tx)"
    using r(1) by (auto simp: apply_regular_ok)
  have "unat f1 = unat f + unat fee" using r(2) by (simp add: checked_add_Some_iff)
  then show ?case using Cons.IH [OF r(3)] regular_sum [OF R(1)] R fee by simp
qed simp

lemma apply_txs_block:
  assumes "apply_txs C 0 txs u None 0 = Inr (u', cb', f')"
  shows "regular_run C u (regulars txs) = Some u' \<and> cb' = (if has_coinbase txs then Some (hd txs) else None)
    \<and> utxo_sum u' + unat f' = utxo_sum u"
proof (cases txs)
  case Nil
  then show ?thesis using assms by (simp add: regulars_def has_coinbase_def)
next
  case (Cons tx rest)
  show ?thesis
  proof (cases "is_coinbase tx")
    case True
    then have "apply_txs C (Suc 0) rest u (Some tx) 0 = Inr (u', cb', f')" using assms Cons by simp
    from apply_txs_regular [OF this] True Cons show ?thesis by (simp add: regulars_def has_coinbase_def)
  next
    case False
    from assms Cons False obtain fee u1 f1 where r: "apply_regular C u tx = Inr (fee, u1)" "checked_add 0 fee = Some f1"
        "apply_txs C (Suc 0) rest u1 None f1 = Inr (u', cb', f')"
      by (auto elim!: rbind_InrE split: option.splits)
    have R: "regular_ok C u tx" "u1 = regular_result C u tx"
      and fee: "unat fee = inputs_sum u (inputs tx) - outputs_sum (outputs tx)"
      using r(1) by (auto simp: apply_regular_ok)
    have "unat f1 = unat fee" using r(2) by (simp add: checked_add_Some_iff)
    then show ?thesis
      using apply_txs_regular [OF r(3)] regular_sum [OF R(1)] R fee False Cons
      by (simp add: regulars_def has_coinbase_def)
  qed
qed

lemma apply_block_InrD:
  assumes "apply_block C u txs subsidy = (u', Inr s)"
  shows "\<exists>mid. regular_run C u (regulars txs) = Some mid \<and> utxo_sum mid + unat (fees s) = utxo_sum u
    \<and> unat (minted s) = outputs_sum (issued txs) \<and> unat (minted s) \<le> unat subsidy + unat (fees s)
    \<and> outputs_ok (issued txs) \<and> utxo_sum u' = utxo_sum mid + unat (minted s)
    \<and> distinct (points (coinbase_ident C txs) 0 (length (issued txs)))
    \<and> set (points (coinbase_ident C txs) 0 (length (issued txs))) \<inter> fset (fmdom mid) = {}
    \<and> u' = mid ++\<^sub>f created (coinbase_ident C txs) 0 (issued txs)"
proof -
  from assms have "apply_staged C u txs subsidy = Inr (u', s)"
    by (auto simp: apply_block_def split: sum.splits)
  then obtain mid cb f allowed where
    m: "apply_txs C 0 txs u None 0 = Inr (mid, cb, f)" "checked_add subsidy f = Some allowed" and
    r: "(case cb of Some cb \<Rightarrow> rbind (apply_coinbase C mid cb allowed) (\<lambda>(m, st). Inr (st, \<lparr>fees = f, minted = m\<rparr>))
          | None \<Rightarrow> Inr (mid, \<lparr>fees = f, minted = 0\<rparr>)) = Inr (u', s)"
    by (auto simp: apply_staged_def elim!: rbind_InrE split: option.splits)
  note T = apply_txs_block [OF m(1)]
  have al: "unat allowed = unat subsidy + unat f" using m(2) by (simp add: checked_add_Some_iff)
  show ?thesis
  proof (cases "has_coinbase txs")
    case False
    then show ?thesis using T r
      by (intro exI [of _ mid]) (auto simp: issued_def outputs_ok_def points_def created_def)
  next
    case True
    then have cb: "cb = Some (hd txs)" using T by simp
    from r cb obtain claimed where c: "sum_outputs (tx_ident C (hd txs)) (outputs (hd txs)) 0 = Inr claimed"
        "\<not> allowed < claimed" "add_outputs (tx_ident C (hd txs)) 0 (outputs (hd txs)) mid = Inr u'"
        "s = \<lparr>fees = f, minted = claimed\<rparr>"
      by (auto simp: apply_coinbase_def elim!: rbind_InrE split: if_splits)
    have "unat claimed \<le> unat allowed" using c(2) by (simp add: word_less_nat_alt not_less)
    moreover note add_outputs_sum [OF c(3)]
    ultimately show ?thesis
      using T c(1,4) c(3) [unfolded add_outputs_ok] True al
      by (intro exI [of _ mid]) (simp add: issued_def coinbase_ident_def sum_outputs_start)
  qed
qed

lemma apply_block_InlD: "apply_block C u txs subsidy = (u', Inl e) \<Longrightarrow> u' = u"
  by (auto simp: apply_block_def split: sum.splits)

lemma regular_run_structure: "regular_run C u txs = Some u' \<Longrightarrow> tx \<in> set txs \<Longrightarrow> tx_structure_ok tx \<and> \<not> is_coinbase tx"
  by (induction txs arbitrary: u) (auto dest: regular_structure split: if_splits)

lemma regular_run_theft:
  assumes "regular_run C u txs = Some u'" "fmlookup u op = Some out"
  shows "fmlookup u' op = Some out
    \<or> (\<exists>tx \<in> set txs. \<exists>inp \<in> set (inputs tx). outpoint inp = op \<and> authorised C tx inp out)"
  using assms
proof (induction txs arbitrary: u)
  case (Cons tx rest)
  then have ok: "regular_ok C u tx" and run: "regular_run C (regular_result C u tx) rest = Some u'"
    by (auto split: if_splits)
  show ?case
  proof (cases "op \<in> outpoint ` set (inputs tx)")
    case True
    then obtain inp where inp: "inp \<in> set (inputs tx)" "outpoint inp = op" by auto
    then have "spendable C u tx inp" using ok by (simp add: regular_ok_def)
    then have "authorised C tx inp out" using inp Cons.prems(2) by (auto elim: spendableE)
    with inp show ?thesis by auto
  next
    case False
    then have "fmlookup (remove_inputs (inputs tx) u) op = Some out" using Cons.prems(2) by (simp add: remove_inputs_lookup)
    then have "op \<in> fset (fmdom (remove_inputs (inputs tx) u))" by (simp add: fmdomI)
    then have "op \<notin> set (points (tx_ident C tx) 0 (length (outputs tx)))" using ok by (auto simp: regular_ok_def)
    then have "fmlookup (regular_result C u tx) op = Some out" using regular_lookup [OF ok] False Cons.prems(2) by simp
    from Cons.IH [OF run this] show ?thesis by auto
  qed
qed simp

lemma regular_run_missing:
  assumes "regular_run C u txs = Some u'" "fmlookup u op = None"
    and "j < length txs" "op \<in> outpoint ` set (inputs (txs ! j))"
  shows "\<exists>k < j. tx_ident C (txs ! k) = op_tx op"
  using assms
proof (induction txs arbitrary: u j)
  case (Cons tx rest)
  then have ok: "regular_ok C u tx" and run: "regular_run C (regular_result C u tx) rest = Some u'"
    by (auto split: if_splits)
  show ?case
  proof (cases j)
    case 0
    then show ?thesis using Cons.prems(2,4) ok by (force simp: regular_ok_def spendable_def)
  next
    case (Suc l)
    show ?thesis
    proof (cases "op \<in> set (points (tx_ident C tx) 0 (length (outputs tx)))")
      case True
      then show ?thesis using points_tx [OF True] Suc by (intro exI [of _ 0]) simp
    next
      case False
      then have "fmlookup (regular_result C u tx) op = None" using regular_lookup [OF ok] Cons.prems(2) by simp
      from Cons.IH [OF run this, of l] Cons.prems(3,4) Suc obtain k where "k < l" "tx_ident C (rest ! k) = op_tx op" by auto
      then show ?thesis using Suc by (intro exI [of _ "Suc k"]) simp
    qed
  qed
qed simp

lemma regular_run_double:
  assumes "regular_run C u txs = Some u'" "i < j" "j < length txs"
    and "op \<in> outpoint ` set (inputs (txs ! i))" "op \<in> outpoint ` set (inputs (txs ! j))"
  shows "\<exists>k. i \<le> k \<and> k < j \<and> tx_ident C (txs ! k) = op_tx op"
  using assms
proof (induction txs arbitrary: u i j)
  case (Cons tx rest)
  then have ok: "regular_ok C u tx" and run: "regular_run C (regular_result C u tx) rest = Some u'"
    by (auto split: if_splits)
  obtain l where l: "j = Suc l" "l < length rest" using Cons.prems(2,3) by (cases j) auto
  have opl: "op \<in> outpoint ` set (inputs (rest ! l))" using Cons.prems(5) l by simp
  show ?case
  proof (cases i)
    case 0
    show ?thesis
    proof (cases "op \<in> set (points (tx_ident C tx) 0 (length (outputs tx)))")
      case True
      then show ?thesis using points_tx [OF True] 0 l by (intro exI [of _ 0]) simp
    next
      case False
      then have "fmlookup (regular_result C u tx) op = None"
        using regular_lookup [OF ok, of op] Cons.prems(4) 0 by (simp split: if_splits)
      from regular_run_missing [OF run this l(2) opl] obtain k where "k < l" "tx_ident C (rest ! k) = op_tx op" by blast
      then show ?thesis using 0 l by (intro exI [of _ "Suc k"]) simp
    qed
  next
    case (Suc m)
    have "m < l" "op \<in> outpoint ` set (inputs (rest ! m))" using Cons.prems(2,4) Suc l by auto
    from Cons.IH [OF run this(1) l(2) this(2) opl] obtain k where "m \<le> k" "k < l" "tx_ident C (rest ! k) = op_tx op" by blast
    then show ?thesis using Suc l by (intro exI [of _ "Suc k"]) simp
  qed
qed simp

lemma apply_block_validates:
  assumes "apply_block C u txs subsidy = (u', Inr s)" "wf_txs txs"
  shows "validate_block_payload (encode_block_payload txs) = Inr ()"
proof -
  obtain mid where m: "regular_run C u (regulars txs) = Some mid" "outputs_ok (issued txs)"
    using apply_block_InrD [OF assms(1)] by blast
  have "tx_structure_ok tx" if "tx \<in> set txs" for tx
  proof (cases "tx \<in> set (regulars txs)")
    case True
    then show ?thesis using regular_run_structure [OF m(1)] by blast
  next
    case False
    then have "has_coinbase txs" "tx = hd txs" using that by (cases txs; auto simp: regulars_def split: if_splits)+
    then show ?thesis using m(2) by (simp add: tx_structure_ok_def issued_def has_coinbase_def is_coinbase_def)
  qed
  moreover have "\<not> is_coinbase tx" if "tx \<in> set (tl txs)" for tx
  proof -
    have "tx \<in> set (regulars txs)" using that by (cases txs) (auto simp: regulars_def)
    then show ?thesis using regular_run_structure [OF m(1)] by blast
  qed
  ultimately show ?thesis
    using decode_payload_enc [OF assms(2)] by (simp add: validate_block_payload_def validate_txs_ok)
qed

section \<open>Properties\<close>

text \<open>
  A regular transaction is applied exactly when it obeys the six rules of the module and its
  outpoints are new; the result is the set without the spent outputs and with the created
  ones, and the fee is what the inputs carry beyond the outputs.
\<close>

lemma apply_regular_exact:
  "apply_regular C u tx = Inr (fee, u') \<longleftrightarrow>
     regular_ok C u tx \<and> unat fee = inputs_sum u (inputs tx) - outputs_sum (outputs tx)
     \<and> u' = remove_inputs (inputs tx) u ++\<^sub>f created (tx_ident C tx) 0 (outputs tx)"
  by (simp add: apply_regular_ok regular_result_def)

text \<open>
  C17: \<open>apply_block\<close> is atomic and conserves value: an error leaves the set as it was; on success
  the value of the set changes by what was minted less the fees, the coinbase takes at most
  the subsidy and the fees, and so the set never grows by more than the subsidy.
\<close>

theorem apply_block_conserves:
  "case apply_block C u txs subsidy of
     (u', Inl e) \<Rightarrow> u' = u
   | (u', Inr s) \<Rightarrow> utxo_sum u' + unat (fees s) = utxo_sum u + unat (minted s)
        \<and> unat (minted s) \<le> unat subsidy + unat (fees s) \<and> utxo_sum u' \<le> utxo_sum u + unat subsidy"
proof -
  obtain u' r where r: "apply_block C u txs subsidy = (u', r)" by fastforce
  show ?thesis
  proof (cases r)
    case (Inl e)
    then show ?thesis using r apply_block_InlD [of C u txs subsidy u' e] by simp
  next
    case (Inr s)
    then show ?thesis using r apply_block_InrD [of C u txs subsidy u' s] by auto
  qed
qed

definition demo_key :: "u64 key_pair" where
  "demo_key = \<lparr>signing = 9\<rparr>"

definition demo_coin :: out_point where
  "demo_coin = OutPoint (TxId 7) 3"

definition demo_owner :: address where
  "demo_owner = key_address demo_crypto demo_key"

definition demo_utxo :: utxo_set where
  "demo_utxo = fmap_of_list [(demo_coin, \<lparr>out_value = 100, owner = demo_owner\<rparr>)]"

definition demo_spend :: transaction where
  "demo_spend = signed_tx demo_crypto [(demo_coin, demo_key)] [\<lparr>out_value = 60, owner = Address 1\<rparr>] [5]"

definition demo_mint :: transaction where
  "demo_mint = coinbase [\<lparr>out_value = 50, owner = Address 2\<rparr>] [1, 2]"

lemma demo_spend_sel:
  "outputs demo_spend = [\<lparr>out_value = 60, owner = Address 1\<rparr>]" "tag demo_spend = [5]"
  "map outpoint (inputs demo_spend) = [demo_coin]" "length (inputs demo_spend) = 1"
  using signed_tx_ok(1-4) [where C = demo_crypto and spends = "[(demo_coin, demo_key)]"]
  by (simp_all add: demo_spend_def)

lemma demo_spend_input: "\<exists>inp. inputs demo_spend = [inp] \<and> outpoint inp = demo_coin
    \<and> authorised demo_crypto demo_spend inp \<lparr>out_value = 100, owner = demo_owner\<rparr>"
proof -
  obtain inp where i: "inputs demo_spend = [inp]" using demo_spend_sel(4) by (auto simp: length_Suc_conv)
  have "signature (inputs demo_spend ! 0) = Sig (key_sign demo_crypto (snd ([(demo_coin, demo_key)] ! 0)) (sighash demo_crypto demo_spend))"
    unfolding demo_spend_def by (rule signed_tx_ok(6)) simp
  then have "authorised demo_crypto demo_spend inp \<lparr>out_value = 100, owner = demo_owner\<rparr>"
    using verify_sign [OF demo_crypto_correct, of demo_key] i by (simp add: authorised_def demo_owner_def)
  then show ?thesis using i demo_spend_sel(3) by simp
qed

lemma demo_idents: "tx_ident demo_crypto demo_spend = TxId 165" "tx_ident demo_crypto demo_mint = TxId 66"
proof -
  obtain inp where "inputs demo_spend = [inp]" using demo_spend_input by blast
  then show "tx_ident demo_crypto demo_spend = TxId 165"
    by (simp add: tx_ident_def encode_def encode_into_def demo_spend_sel encode_input_def encode_output_def demo_crypto_def)
  show "tx_ident demo_crypto demo_mint = TxId 66"
    by (simp add: tx_ident_def encode_def encode_into_def demo_mint_def coinbase_def encode_output_def demo_crypto_def)
qed

lemma demo_regular: "regular_ok demo_crypto demo_utxo demo_spend" "inputs_sum demo_utxo (inputs demo_spend) = 100"
proof -
  obtain inp where i: "inputs demo_spend = [inp]" "outpoint inp = demo_coin"
      "authorised demo_crypto demo_spend inp \<lparr>out_value = 100, owner = demo_owner\<rparr>"
    using demo_spend_input by blast
  then show 1: "inputs_sum demo_utxo (inputs demo_spend) = 100" by (simp add: demo_utxo_def)
  show "regular_ok demo_crypto demo_utxo demo_spend"
    using i 1 unfolding regular_ok_def demo_idents
    by (simp add: demo_spend_sel spendable_def demo_utxo_def outputs_ok_def points_def remove_inputs_eq demo_coin_def)
qed

lemma demo_apply: "\<exists>u. apply_block demo_crypto demo_utxo [demo_mint, demo_spend] 20 = (u, Inr \<lparr>fees = 40, minted = 50\<rparr>)"
proof -
  let ?m = "regular_result demo_crypto demo_utxo demo_spend"
  let ?u = "?m ++\<^sub>f created (TxId 66) 0 (outputs demo_mint)"
  have r: "apply_regular demo_crypto demo_utxo demo_spend = Inr (40, ?m)"
    unfolding apply_regular_ok using demo_regular by (simp add: demo_spend_sel)
  have nc: "\<not> is_coinbase demo_spend" "is_coinbase demo_mint"
    using demo_spend_sel(4) by (auto simp: is_coinbase_def demo_mint_def coinbase_def)
  have t: "apply_txs demo_crypto 0 [demo_mint, demo_spend] demo_utxo None 0 = Inr (?m, Some demo_mint, 40)"
    using r nc by (simp add: checked_add_def)
  have "fmlookup ?m (OutPoint (TxId 66) 0) = None"
    unfolding regular_lookup [OF demo_regular(1)] unfolding demo_idents
    by (simp add: demo_spend_sel points_def demo_utxo_def demo_coin_def)
  then have "add_outputs (TxId 66) 0 (outputs demo_mint) ?m = Inr ?u"
    unfolding add_outputs_ok by (simp add: demo_mint_def coinbase_def points_def fmdom_notI)
  moreover have "sum_outputs (TxId 66) (outputs demo_mint) 0 = Inr 50"
    by (simp add: demo_mint_def coinbase_def checked_add_def)
  ultimately have "apply_coinbase demo_crypto ?m demo_mint 60 = Inr (50, ?u)"
    by (simp add: apply_coinbase_def demo_idents)
  then show ?thesis using t by (simp add: apply_block_def apply_staged_def checked_add_def)
qed

text \<open>
  C22: no theft: if a block applies, every output of the set before it is still there unchanged
  afterwards, unless some transaction of the block names its outpoint with a signature that
  verifies against the output's owner.
\<close>

theorem apply_block_no_theft:
  assumes "apply_block C u txs subsidy = (u', Inr s)" "utxo_get u op = Some out" "utxo_get u' op \<noteq> Some out"
  shows "\<exists>tx \<in> set txs. \<exists>inp \<in> set (inputs tx). outpoint inp = op
    \<and> verify C (owner out) (sighash C tx) (sig_word (signature inp))"
proof -
  obtain mid where m: "regular_run C u (regulars txs) = Some mid"
      "set (points (coinbase_ident C txs) 0 (length (issued txs))) \<inter> fset (fmdom mid) = {}"
      "u' = mid ++\<^sub>f created (coinbase_ident C txs) 0 (issued txs)"
    using apply_block_InrD [OF assms(1)] by blast
  have "fmlookup mid op \<noteq> Some out"
  proof
    assume o: "fmlookup mid op = Some out"
    then have "op |\<in>| fmdom mid" by (rule fmdomI)
    then have "op |\<notin>| fmdom (created (coinbase_ident C txs) 0 (issued txs))" using m(2) fmdom_created by blast
    then show False using assms(3) m(3) o by (simp add: utxo_get_def fmlookup_add)
  qed
  then obtain tx inp where "tx \<in> set (regulars txs)" "inp \<in> set (inputs tx)" "outpoint inp = op" "authorised C tx inp out"
    using regular_run_theft [OF m(1), of op out] assms(2) by (auto simp: utxo_get_def)
  moreover have "set (regulars txs) \<subseteq> set txs" by (cases txs) (auto simp: regulars_def)
  ultimately show ?thesis by (auto simp: authorised_def)
qed

theorem apply_block_no_theft_witness:
  "\<exists>tx \<in> {demo_mint, demo_spend}. \<exists>inp \<in> set (inputs tx). outpoint inp = demo_coin
     \<and> verify demo_crypto demo_owner (sighash demo_crypto tx) (sig_word (signature inp))"
proof -
  obtain u where u: "apply_block demo_crypto demo_utxo [demo_mint, demo_spend] 20 = (u, Inr \<lparr>fees = 40, minted = 50\<rparr>)"
    using demo_apply by blast
  obtain mid where m: "regular_run demo_crypto demo_utxo (regulars [demo_mint, demo_spend]) = Some mid"
      "u = mid ++\<^sub>f created (coinbase_ident demo_crypto [demo_mint, demo_spend]) 0 (issued [demo_mint, demo_spend])"
    using apply_block_InrD [OF u] by blast
  have nc: "is_coinbase demo_mint" by (simp add: is_coinbase_def demo_mint_def coinbase_def)
  then have mid: "mid = regular_result demo_crypto demo_utxo demo_spend"
    using m(1) demo_regular(1) by (simp add: regulars_def has_coinbase_def)
  have "fmlookup mid demo_coin = None"
    unfolding mid regular_lookup [OF demo_regular(1)] unfolding demo_idents
    using demo_spend_input by (auto simp: demo_spend_sel points_def demo_coin_def)
  moreover have "fmlookup (created (TxId 66) 0 (outputs demo_mint)) demo_coin = None"
    by (simp add: created_def points_def demo_coin_def demo_mint_def coinbase_def)
  ultimately have "utxo_get u demo_coin = None"
    unfolding m(2) utxo_get_def using nc demo_idents by (simp add: coinbase_ident_def issued_def has_coinbase_def fmlookup_add)
  then have g: "utxo_get u demo_coin \<noteq> Some \<lparr>out_value = 100, owner = demo_owner\<rparr>" by simp
  have o: "utxo_get demo_utxo demo_coin = Some \<lparr>out_value = 100, owner = demo_owner\<rparr>"
    by (simp add: utxo_get_def demo_utxo_def)
  from apply_block_no_theft [OF u o g] show ?thesis by simp
qed

text \<open>
  C23: no double spend: if two transactions of an applied block name the same outpoint, some
  transaction from the first of them on, but before the second, has created it anew; with ids
  that commit to their transactions this does not happen.
\<close>

theorem apply_block_no_double_spend:
  assumes "apply_block C u txs subsidy = (u', Inr s)" "i < j" "j < length txs"
    and "op \<in> outpoint ` set (inputs (txs ! i))" "op \<in> outpoint ` set (inputs (txs ! j))"
  shows "\<exists>k. i \<le> k \<and> k < j \<and> tx_ident C (txs ! k) = op_tx op"
proof -
  obtain mid where m: "regular_run C u (regulars txs) = Some mid" using apply_block_InrD [OF assms(1)] by blast
  show ?thesis
  proof (cases "has_coinbase txs")
    case False
    then show ?thesis using regular_run_double [OF m] assms(2-) by (simp add: regulars_def)
  next
    case True
    then obtain cb rest where t: "txs = cb # rest" "inputs cb = []"
      by (cases txs) (auto simp: has_coinbase_def is_coinbase_def)
    then obtain a b where ab: "i = Suc a" "j = Suc b" using assms(2,4) by (cases i; cases j) auto
    from regular_run_double [OF m, of a b op] assms(2-) True t ab obtain k where
      "a \<le> k" "k < b" "tx_ident C (rest ! k) = op_tx op" by (auto simp: regulars_def)
    then show ?thesis using t ab by (intro exI [of _ "Suc k"]) simp
  qed
qed

text \<open>With a hash made to collide, a transaction that creates the very outpoint it spends.\<close>

definition demo_loop :: transaction where
  "demo_loop = signed_tx demo_crypto [(OutPoint (TxId 164) 0, demo_key)] [\<lparr>out_value = 60, owner = demo_owner\<rparr>] []"

definition demo_loop_utxo :: utxo_set where
  "demo_loop_utxo = fmap_of_list [(OutPoint (TxId 164) 0, \<lparr>out_value = 60, owner = demo_owner\<rparr>)]"

lemma demo_loop_facts:
  "\<exists>inp. inputs demo_loop = [inp] \<and> outpoint inp = OutPoint (TxId 164) 0
     \<and> authorised demo_crypto demo_loop inp \<lparr>out_value = 60, owner = demo_owner\<rparr>"
  "outputs demo_loop = [\<lparr>out_value = 60, owner = demo_owner\<rparr>]" "tag demo_loop = []"
proof -
  note S = signed_tx_ok [where C = demo_crypto and spends = "[(OutPoint (TxId 164) 0, demo_key)]"
      and outs = "[\<lparr>out_value = 60, owner = demo_owner\<rparr>]" and tg = "[]", folded demo_loop_def]
  show o: "outputs demo_loop = [\<lparr>out_value = 60, owner = demo_owner\<rparr>]" "tag demo_loop = []" by (rule S(2,3))+
  obtain inp where i: "inputs demo_loop = [inp]" using S(1) by (auto simp: length_Suc_conv)
  have "authorised demo_crypto demo_loop inp \<lparr>out_value = 60, owner = demo_owner\<rparr>"
    using verify_sign [OF demo_crypto_correct, of demo_key] S(6) [of 0] i by (simp add: authorised_def demo_owner_def)
  then show "\<exists>inp. inputs demo_loop = [inp] \<and> outpoint inp = OutPoint (TxId 164) 0
     \<and> authorised demo_crypto demo_loop inp \<lparr>out_value = 60, owner = demo_owner\<rparr>" using i S(4) by simp
qed

lemma demo_loop_run: "\<exists>u s. apply_block demo_crypto demo_loop_utxo [demo_loop, demo_loop] 0 = (u, Inr s)"
proof -
  obtain inp where i: "inputs demo_loop = [inp]" "outpoint inp = OutPoint (TxId 164) 0"
      "authorised demo_crypto demo_loop inp \<lparr>out_value = 60, owner = demo_owner\<rparr>" using demo_loop_facts(1) by blast
  have t: "tx_ident demo_crypto demo_loop = TxId 164"
    using i by (simp add: tx_ident_def encode_def encode_into_def demo_loop_facts encode_input_def encode_output_def demo_crypto_def)
  have ok: "regular_ok demo_crypto demo_loop_utxo demo_loop"
    using i unfolding regular_ok_def t
    by (simp add: demo_loop_facts demo_loop_utxo_def spendable_def outputs_ok_def points_def remove_inputs_eq)
  have same: "regular_result demo_crypto demo_loop_utxo demo_loop = demo_loop_utxo"
    unfolding regular_result_def t using i
    by (intro fmap_ext) (simp add: demo_loop_facts utxo_remove_def created_def points_def demo_loop_utxo_def)
  have "inputs_sum demo_loop_utxo (inputs demo_loop) = 60" using i by (simp add: demo_loop_utxo_def)
  then have "apply_regular demo_crypto demo_loop_utxo demo_loop = Inr (0, demo_loop_utxo)"
    unfolding apply_regular_ok same using ok by (simp add: demo_loop_facts)
  moreover have "\<not> is_coinbase demo_loop" using i by (simp add: is_coinbase_def)
  ultimately show ?thesis by (simp add: apply_block_def apply_staged_def checked_add_def)
qed

theorem apply_block_no_double_spend_witness: "tx_ident demo_crypto demo_loop = op_tx (OutPoint (TxId 164) 0)"
proof -
  obtain u s where r: "apply_block demo_crypto demo_loop_utxo [demo_loop, demo_loop] 0 = (u, Inr s)" using demo_loop_run by blast
  have o: "OutPoint (TxId 164) 0 \<in> outpoint ` set (inputs demo_loop)" using demo_loop_facts(1) by auto
  have l: "(0::nat) < 1" "1 < length [demo_loop, demo_loop]" by simp_all
  have "OutPoint (TxId 164) 0 \<in> outpoint ` set (inputs ([demo_loop, demo_loop] ! 0))"
      "OutPoint (TxId 164) 0 \<in> outpoint ` set (inputs ([demo_loop, demo_loop] ! 1))" using o by simp_all
  from apply_block_no_double_spend [OF r l this] show ?thesis by auto
qed

text \<open>
  what the ledger applies, the structural validator accepts: the transactions of an applied
  block obey every context-free rule, so installing the validator on the DAG never refuses a
  block the stateful check has passed.
\<close>

lemma apply_block_structure:
  assumes "apply_block C u txs subsidy = (u', Inr s)" "wf_txs txs"
  shows "validate_block_payload (encode_block_payload txs) = Inr ()"
  by (rule apply_block_validates [OF assms])

lemma apply_block_structure_example:
  "validate_block_payload (encode_block_payload [demo_mint, demo_spend]) = Inr ()"
proof -
  obtain u where u: "apply_block demo_crypto demo_utxo [demo_mint, demo_spend] 20 = (u, Inr \<lparr>fees = 40, minted = 50\<rparr>)"
    using demo_apply by blast
  have "wf_txs [demo_mint, demo_spend]"
    by (simp add: wf_txs_def wf_tx_def demo_spend_sel) (simp add: demo_mint_def coinbase_def)
  from apply_block_structure [OF u this] show ?thesis .
qed

end
