(* ===== verification/Views.thy ===== *)
theory Views
  imports ApplyProps DagProps
begin

text \<open>
  The view of a block: its past and itself in the recursive GHOSTDAG order, and the state that
  applying those blocks gives.  The order of a block's view is the order of its selected
  parent's view, then its mergeset, then the block; the linearization of a DAG is the view
  of its selected tip followed by the blocks outside it.
\<close>

definition view_order :: "dag \<Rightarrow> block_id \<Rightarrow> block_id list option" where
  "view_order d x = do { chain \<leftarrow> chain_loop d x [x]; spine_loop d chain [] }"

lemma chain_loop_acc:
  assumes "wf_dag H d" "x \<in> ids d"
  shows "chain_loop d x (x # acc) = map_option (\<lambda>c. c @ acc) (chain_loop d x [x])"
  using assms(2)
proof (induction "card (past d x)" arbitrary: x acc rule: less_induct)
  case less
  have b: "Option.bind (dag_ghostdag d x) selected_parent = selected_parent (ghostdag (nd d x))"
    using nd_lookup [OF less.prems] by (simp add: dag_ghostdag_def)
  show ?case
  proof (cases "selected_parent (ghostdag (nd d x))")
    case None
    then show ?thesis using b by (simp add: chain_loop.simps [of d x])
  next
    case (Some p)
    note P = selected_parent_in_past [OF assms(1) less.prems Some]
    have lt: "card (past d p) < card (past d x)" by (rule past_card_less [OF wf_dagD(1) [OF assms(1)] P(3)])
    have step: "chain_loop d x (x # ys) = chain_loop d p (p # x # ys)" for ys
      using b Some by (simp add: chain_loop.simps [of d x])
    show ?thesis unfolding step less.hyps [OF lt P(2), of "x # acc"] less.hyps [OF lt P(2), of "[x]"]
      by (simp add: option.map_comp comp_def)
  qed
qed

lemma view_order_genesis:
  assumes "wf_dag H d"
  shows "view_order d (genesis d) = Some [genesis d]"
proof -
  note D = wf_dagD [OF assms]
  have l: "fmlookup (nodes d) (genesis d) = Some (nd d (genesis d))" by (rule nd_lookup [OF D(2)])
  then have "chain_loop d (genesis d) [genesis d] = Some [genesis d]"
    using D(10) by (simp add: chain_loop.simps [of d] dag_ghostdag_def genesis_ghostdag_def)
  then show ?thesis using l D(10) by (simp add: view_order_def mergeset_order_def genesis_ghostdag_def)
qed

lemma view_order_step:
  assumes "wf_dag H d" "x \<in> ids d" "selected_parent (ghostdag (nd d x)) = Some p"
  shows "view_order d x = do { vp \<leftarrow> view_order d p; ms \<leftarrow> mergeset_order d x; Some (vp @ ms @ [x]) }"
proof -
  note P = selected_parent_in_past [OF assms]
  have "Option.bind (dag_ghostdag d x) selected_parent = Some p"
    using nd_lookup [OF assms(2)] assms(3) by (simp add: dag_ghostdag_def)
  then have "chain_loop d x [x] = chain_loop d p (p # [x])" by (simp add: chain_loop.simps [of d x])
  then have c: "chain_loop d x [x] = map_option (\<lambda>c. c @ [x]) (chain_loop d p [p])"
    using chain_loop_acc [OF assms(1) P(2), of "[x]"] by simp
  show ?thesis unfolding view_order_def c
    by (cases "chain_loop d p [p]") (simp_all add: spine_loop_append split: bind_splits)
qed

lemma view_order_ok:
  assumes "wf_dag H d" "x \<in> ids d"
  shows "\<exists>xs. view_order d x = Some xs \<and> distinct xs \<and> set xs = insert x (past d x) \<and> topo d {} xs \<and> last xs = x \<and> xs \<noteq> []"
proof -
  obtain pre where pre: "chain_loop d x [x] = Some (pre @ [x])" "sp_chain d (pre @ [x])"
    using chain_loop_ok [OF assms, of "[]"] by auto
  obtain s where s: "spine_loop d (pre @ [x]) [] = Some s" "distinct s" "set s = insert x (past d x)" "topo d {} s"
    using spine_ok [OF assms(1) pre(2)] by auto
  have "last s = x \<and> s \<noteq> []"
    using s(1) by (auto simp: spine_loop_append split: bind_splits)
  then show ?thesis using pre(1) s by (auto simp: view_order_def)
qed

lemma view_order_agree:
  assumes "wf_dag H d" "wf_dag H d'" "agree_on d d' S" "x \<in> S"
  shows "view_order d' x = view_order d x"
proof -
  have x: "x \<in> ids d" using agree_onD(2) [OF assms(3)] assms(4) by blast
  obtain pre where pre: "chain_loop d x [x] = Some (pre @ [x])" "sp_chain d (pre @ [x])"
    using chain_loop_ok [OF assms(1) x, of "[]"] by auto
  have "set (pre @ [x]) \<subseteq> insert x (past d x)"
    using spine_ok [OF assms(1) pre(2)] by (auto dest: list_emb_set)
  then have "set (pre @ [x]) \<subseteq> S" using agree_onD(5) [OF assms(3,4)] assms(4) by (auto simp: past_def)
  then show ?thesis
    using agree_chain [OF assms(1,3,4)] pre(1) agree_spine [OF assms(1-3)] by (simp add: view_order_def)
qed

lemma linearize_view:
  assumes "wf_dag H d"
  shows "\<exists>t xs ys. selected_tip d = Some t \<and> t \<in> ids d \<and> view_order d t = Some xs \<and> linearize d = Some (xs @ ys)"
proof -
  obtain t where t: "selected_tip d = Some t" "t \<in> fset (tips d)" using selected_tip_ok [OF assms] by blast
  then have ti: "t \<in> ids d" using tips_in_ids [OF assms] by blast
  obtain xs where xs: "view_order d t = Some xs" using view_order_ok [OF assms ti] by blast
  then obtain c where "chain_loop d t [t] = Some c" "spine_loop d c [] = Some xs"
    by (auto simp: view_order_def split: bind_splits)
  then show ?thesis using t(1) ti xs by (auto simp: linearize_def selected_chain_def Let_def)
qed

section \<open>Folding payloads\<close>

text \<open>One block's effect when its rejection is ignored, and the fold of a list of blocks.\<close>

definition apply_payload :: "('sk, 'vk) crypto \<Rightarrow> u64 \<Rightarrow> utxo_set \<Rightarrow> byte list \<Rightarrow> utxo_set" where
  "apply_payload C subsidy u bs =
     (case decode_block_payload bs of Inl _ \<Rightarrow> u | Inr txs \<Rightarrow> fst (apply_block C u txs subsidy))"

definition fold_blocks :: "('sk, 'vk) crypto \<Rightarrow> u64 \<Rightarrow> dag \<Rightarrow> block_id list \<Rightarrow> utxo_set \<Rightarrow> utxo_set" where
  "fold_blocks C subsidy d xs u = foldl (\<lambda>u x. apply_payload C subsidy u (payload (node_block (nd d x)))) u xs"

definition view_state :: "('sk, 'vk) crypto \<Rightarrow> u64 \<Rightarrow> dag \<Rightarrow> block_id \<Rightarrow> utxo_set" where
  "view_state C subsidy d x = fold_blocks C subsidy d (the (view_order d x)) fmempty"

lemma fold_blocks_append: "fold_blocks C s d (xs @ ys) u = fold_blocks C s d ys (fold_blocks C s d xs u)"
  by (simp add: fold_blocks_def)

lemma fold_blocks_Nil [simp]: "fold_blocks C s d [] u = u"
  by (simp add: fold_blocks_def)

lemma fold_blocks_Cons: "fold_blocks C s d (x # xs) u = fold_blocks C s d xs (apply_payload C s u (payload (node_block (nd d x))))"
  by (simp add: fold_blocks_def)

lemma fold_blocks_cong:
  "(\<And>x. x \<in> set xs \<Longrightarrow> node_block (nd d' x) = node_block (nd d x)) \<Longrightarrow> fold_blocks C s d' xs u = fold_blocks C s d xs u"
  by (induction xs arbitrary: u) (simp_all add: fold_blocks_Cons)

lemma view_state_agree:
  assumes "wf_dag H d" "wf_dag H d'" "agree_on d d' S" "x \<in> S"
  shows "view_state C s d' x = view_state C s d x"
proof -
  have x: "x \<in> ids d" using agree_onD(2) [OF assms(3)] assms(4) by blast
  obtain xs where xs: "view_order d x = Some xs" "set xs = insert x (past d x)" using view_order_ok [OF assms(1) x] by blast
  have "set xs \<subseteq> S" using xs(2) assms(4) agree_onD(5) [OF assms(3,4)] by (auto simp: past_def)
  then have "fold_blocks C s d' xs fmempty = fold_blocks C s d xs fmempty"
    using agree_lookup(2) [OF assms(3)] by (intro fold_blocks_cong) blast
  then show ?thesis using view_order_agree [OF assms] xs(1) by (simp add: view_state_def)
qed

lemma view_state_step:
  assumes "wf_dag H d" "x \<in> ids d" "selected_parent (ghostdag (nd d x)) = Some p" "mergeset_order d x = Some ms"
  shows "view_state C s d x
    = apply_payload C s (fold_blocks C s d ms (view_state C s d p)) (payload (node_block (nd d x)))"
proof -
  obtain vp where "view_order d p = Some vp"
    using view_order_ok [OF assms(1) selected_parent_in_past(2) [OF assms(1-3)]] by blast
  then show ?thesis
    unfolding view_state_def view_order_step [OF assms(1-3)] using assms(4)
    by (simp add: fold_blocks_append fold_blocks_Cons)
qed

lemma view_state_genesis:
  "wf_dag H d \<Longrightarrow> view_state C s d (genesis d) = apply_payload C s fmempty (payload (node_block (nd d (genesis d))))"
  by (simp add: view_state_def view_order_genesis fold_blocks_Cons)

section \<open>Running a DAG\<close>

lemma run_block_utxo [simp]: "run_utxo (run_block C s run i bs) = apply_payload C s (run_utxo run) bs"
proof (cases "decode_block_payload bs")
  case (Inr txs)
  then show ?thesis
    by (cases "apply_block C (run_utxo run) txs s"; cases "snd (apply_block C (run_utxo run) txs s)")
      (simp_all add: run_block_def apply_payload_def)
qed (simp add: run_block_def apply_payload_def)

lemma run_block_lists:
  "accepted (run_block C s run i bs) = accepted run @ [i] \<and> rejected (run_block C s run i bs) = rejected run
     \<and> utxo_sum (run_utxo (run_block C s run i bs)) \<le> utxo_sum (run_utxo run) + unat s
   \<or> accepted (run_block C s run i bs) = accepted run
     \<and> (\<exists>e. rejected (run_block C s run i bs) = rejected run @ [(i, e)])
     \<and> run_utxo (run_block C s run i bs) = run_utxo run"
proof (cases "decode_block_payload bs")
  case (Inr txs)
  obtain u r where a: "apply_block C (run_utxo run) txs s = (u, r)" by fastforce
  show ?thesis
  proof (cases r)
    case (Inl e)
    then show ?thesis using Inr a apply_block_InlD [of C "run_utxo run" txs s u e]
      by (simp add: run_block_def apply_payload_def)
  next
    case ok: (Inr w)
    have "utxo_sum u \<le> utxo_sum (run_utxo run) + unat s"
      using apply_block_InrD [of C "run_utxo run" txs s u w] a ok by auto
    then show ?thesis using Inr a ok by (simp add: run_block_def apply_payload_def)
  qed
qed (simp add: run_block_def apply_payload_def)

lemma run_loop_ok:
  assumes "set xs \<subseteq> ids d"
  shows "\<exists>run'. run_loop C d s xs run = Some run' \<and> run_utxo run' = fold_blocks C s d xs (run_utxo run)
    \<and> mset (accepted run' @ map fst (rejected run')) = mset (accepted run @ map fst (rejected run)) + mset xs
    \<and> utxo_sum (run_utxo run') + length (accepted run) * unat s \<le> utxo_sum (run_utxo run) + length (accepted run') * unat s
    \<and> (\<exists>zs. accepted run' = accepted run @ zs \<and> subseq zs xs)"
  using assms
proof (induction xs arbitrary: run)
  case (Cons x xs)
  then have b: "dag_block d x = Some (node_block (nd d x))" by (simp add: dag_block_def nd_lookup)
  let ?r = "run_block C s run x (payload (node_block (nd d x)))"
  obtain run' where r: "run_loop C d s xs ?r = Some run'" "run_utxo run' = fold_blocks C s d xs (run_utxo ?r)"
      "mset (accepted run' @ map fst (rejected run')) = mset (accepted ?r @ map fst (rejected ?r)) + mset xs"
      "utxo_sum (run_utxo run') + length (accepted ?r) * unat s \<le> utxo_sum (run_utxo ?r) + length (accepted run') * unat s"
      "\<exists>zs. accepted run' = accepted ?r @ zs \<and> subseq zs xs"
    using Cons.IH [of ?r] Cons.prems by auto
  have "run_loop C d s (x # xs) run = Some run'" using b r(1) by simp
  moreover have "run_utxo run' = fold_blocks C s d (x # xs) (run_utxo run)" using r(2) by (simp add: fold_blocks_Cons)
  moreover have "mset (accepted run' @ map fst (rejected run')) = mset (accepted run @ map fst (rejected run)) + mset (x # xs)"
    using r(3) run_block_lists [of C s run x "payload (node_block (nd d x))"] by auto
  moreover have "utxo_sum (run_utxo run') + length (accepted run) * unat s \<le> utxo_sum (run_utxo run) + length (accepted run') * unat s"
    using r(4) run_block_lists [of C s run x "payload (node_block (nd d x))"] by auto
  moreover have "\<exists>zs. accepted run' = accepted run @ zs \<and> subseq zs (x # xs)"
    using r(5) run_block_lists [of C s run x "payload (node_block (nd d x))"] by (auto intro: subseq_Cons')
  ultimately show ?case by blast
qed simp

lemma apply_dag_ok:
  assumes "wf_dag H d"
  shows "\<exists>run xs. linearize d = Some xs \<and> apply_dag C d s = Some run \<and> run_utxo run = fold_blocks C s d xs fmempty
    \<and> mset (accepted run @ map fst (rejected run)) = mset xs \<and> subseq (accepted run) xs
    \<and> utxo_sum (run_utxo run) \<le> length (accepted run) * unat s"
proof -
  obtain xs where xs: "linearize d = Some xs" "set xs = ids d" using linearize_ok [OF assms] by blast
  obtain run where r: "run_loop C d s xs run_default = Some run"
      "run_utxo run = fold_blocks C s d xs (run_utxo run_default)"
      "mset (accepted run @ map fst (rejected run)) = mset (accepted run_default @ map fst (rejected run_default)) + mset xs"
      "utxo_sum (run_utxo run) + length (accepted run_default) * unat s
        \<le> utxo_sum (run_utxo run_default) + length (accepted run) * unat s"
      "\<exists>zs. accepted run = accepted run_default @ zs \<and> subseq zs xs"
    using run_loop_ok [of xs d C s run_default] xs(2) by blast
  then show ?thesis using xs(1)
    by (intro exI [of _ run] exI [of _ xs]) (simp add: apply_dag_def run_default_def utxo_new_def)
qed

end
