(* ===== verification/Ledger.thy ===== *)
theory Ledger
  imports Apply Snapshot
begin

text \<open>
  \<open>crates/kovanica-state/src/ledger.rs\<close>, second half: the ledger, a DAG with the state of every
  block's view, its insertion, finality and pruning, the current state, and its snapshot.
  BLAKE3 is \<open>blake3 C\<close> for blocks and transactions alike.  The validator of the underlying DAG is
  always \<open>TxStructureValidator\<close>.  As in the DAG, a blue score is a natural number; an outer
  \<open>None\<close> is a panic.
\<close>

datatype ledger_insert_error =
    Dag dag_error
  | State ledger_error
  | Finality nat nat

record ledger =
  ledger_dag :: dag
  subsidy :: u64
  ledger_genesis :: block_id
  finality_depth :: u64
  states :: "(block_id, utxo_set) fmap"

definition ledger_new ::
    "('sk, 'vk) crypto \<Rightarrow> u16 \<Rightarrow> u64 \<Rightarrow> transaction list \<Rightarrow> (ledger_error + ledger) option" where
  "ledger_new C k sub genesis_txs =
     (case apply_block C utxo_new genesis_txs sub of
        (_, Inl e) \<Rightarrow> Some (Inl e)
      | (state, Inr _) \<Rightarrow> do {
          let gen = block_genesis 1 0 0 (encode_block_payload genesis_txs);
          d \<leftarrow> dag_new (blake3 C) k gen;
          Some (Inr \<lparr>ledger_dag = d, subsidy = sub, ledger_genesis = block_ident (blake3 C) gen,
                     finality_depth = - 1, states = fmupd (block_ident (blake3 C) gen) state fmempty\<rparr>)
        })"

definition with_finality ::
    "('sk, 'vk) crypto \<Rightarrow> u16 \<Rightarrow> u64 \<Rightarrow> transaction list \<Rightarrow> u64 \<Rightarrow> (ledger_error + ledger) option" where
  "with_finality C k sub genesis_txs depth = do {
     res \<leftarrow> ledger_new C k sub genesis_txs;
     Some (case res of Inl e \<Rightarrow> Inl e | Inr l \<Rightarrow> Inr (l\<lparr>finality_depth := depth\<rparr>))
   }"

definition ledger_set_difficulty :: "ledger \<Rightarrow> retarget \<Rightarrow> ledger" where
  "ledger_set_difficulty l r = l\<lparr>ledger_dag := set_difficulty (ledger_dag l) r\<rparr>"

definition ledger_set_proof_of_work :: "ledger \<Rightarrow> bool \<Rightarrow> ledger" where
  "ledger_set_proof_of_work l enabled = l\<lparr>ledger_dag := set_proof_of_work (ledger_dag l) enabled\<rparr>"

definition ledger_view :: "ledger \<Rightarrow> block_id \<Rightarrow> utxo_set option" where
  "ledger_view l b = fmlookup (states l) b"

text \<open>\<open>ghostdag(id).map_or(0, |g| g.blue_score)\<close>.\<close>

definition score_of :: "dag \<Rightarrow> block_id \<Rightarrow> nat" where
  "score_of d b = (case dag_ghostdag d b of None \<Rightarrow> 0 | Some g \<Rightarrow> blue_score g)"

definition finality_score :: "ledger \<Rightarrow> nat option" where
  "finality_score l =
     (if finality_depth l = - 1 then Some 0
      else do {
        tip \<leftarrow> selected_tip (ledger_dag l);
        Some (score_of (ledger_dag l) tip - unat (finality_depth l))
      })"

text \<open>The states of the blocks below the threshold are removed.\<close>

definition prune :: "ledger \<Rightarrow> ledger option" where
  "prune l = do {
     threshold \<leftarrow> finality_score l;
     Some (if threshold = 0 then l
           else l\<lparr>states := fmfilter (\<lambda>b. \<not> (case dag_ghostdag (ledger_dag l) b of
                                              None \<Rightarrow> False | Some g \<Rightarrow> blue_score g < threshold)) (states l)\<rparr>)
   }"

text \<open>The loop over the mergeset, with \<open>let _ = apply_block(..)\<close>.\<close>

fun apply_merged ::
    "('sk, 'vk) crypto \<Rightarrow> u64 \<Rightarrow> dag \<Rightarrow> block_id list \<Rightarrow> utxo_set \<Rightarrow> utxo_set option" where
  "apply_merged C sub d [] state = Some state"
| "apply_merged C sub d (b # rest) state = do {
     blk \<leftarrow> dag_block d b;
     apply_merged C sub d rest
       (case decode_block_payload (payload blk) of
          Inr txs \<Rightarrow> fst (apply_block C state txs sub)
        | Inl _ \<Rightarrow> state)
   }"

definition ledger_insert ::
    "('sk, 'vk) crypto \<Rightarrow> ledger \<Rightarrow> block_id list \<Rightarrow> u128 \<Rightarrow> u64 \<Rightarrow> u64 \<Rightarrow> transaction list
     \<Rightarrow> (ledger_insert_error + block_id \<times> ledger) option" where
  "ledger_insert C l ps w ts n txs = do {
     let blk = block_new ps w ts n (encode_block_payload txs);
     pre \<leftarrow> preview (blake3 C) (ledger_dag l) blk;
     (case pre of
        Inl e \<Rightarrow> Some (Inl (Dag e))
      | Inr pv \<Rightarrow> do {
          let parent_score = score_of (ledger_dag l) (preview_selected_parent pv);
          fin \<leftarrow> finality_score l;
          if parent_score < fin then Some (Inl (Finality parent_score fin))
          else do {
            state \<leftarrow> fmlookup (states l) (preview_selected_parent pv);
            state \<leftarrow> apply_merged C (subsidy l) (ledger_dag l) (preview_mergeset pv) state;
            (case apply_block C state txs (subsidy l) of
               (_, Inl e) \<Rightarrow> Some (Inl (State e))
             | (state, Inr _) \<Rightarrow> do {
                 res \<leftarrow> dag_insert (blake3 C) tx_structure_validator (ledger_dag l) blk;
                 (case res of
                    Inl e \<Rightarrow> Some (Inl (Dag e))
                  | Inr (i, d) \<Rightarrow> do {
                      l \<leftarrow> prune (l\<lparr>ledger_dag := d, states := fmupd i state (states l)\<rparr>);
                      Some (Inr (i, l))
                    })
               })
          }
        })
   }"

text \<open>\<open>iter().position(..)\<close>; out of the list it is a failed \<open>expect\<close>.\<close>

fun position :: "block_id \<Rightarrow> block_id list \<Rightarrow> nat option" where
  "position x [] = None"
| "position x (y # ys) = (if y = x then Some 0 else map_option Suc (position x ys))"

definition ledger_state :: "('sk, 'vk) crypto \<Rightarrow> ledger \<Rightarrow> utxo_set option" where
  "ledger_state C l = do {
     order \<leftarrow> linearize (ledger_dag l);
     tip \<leftarrow> selected_tip (ledger_dag l);
     tip_pos \<leftarrow> position tip order;
     state \<leftarrow> fmlookup (states l) tip;
     apply_merged C (subsidy l) (ledger_dag l) (drop (tip_pos + 1) order) state
   }"

section \<open>Snapshots\<close>

datatype ledger_snapshot_error =
    BadMagic
  | UnsupportedVersion u16
  | SnapshotDag snapshot_error
  | Payload decode_error
  | Genesis ledger_error
  | Rebuild ledger_insert_error
  | Empty

definition LEDGER_MAGIC :: "byte list" where
  "LEDGER_MAGIC = [0x4B, 0x56, 0x4C, 0x47]"

definition LEDGER_VERSION :: u16 where
  "LEDGER_VERSION = 1"

definition ledger_write_snapshot :: "ledger \<Rightarrow> byte list option" where
  "ledger_write_snapshot l = do {
     bytes \<leftarrow> write_snapshot (ledger_dag l);
     Some (LEDGER_MAGIC @ to_le_bytes LEDGER_VERSION @ to_le_bytes (subsidy l) @ bytes)
   }"

fun replay_ledger ::
    "('sk, 'vk) crypto \<Rightarrow> ledger \<Rightarrow> block list \<Rightarrow> (ledger_snapshot_error + ledger) option" where
  "replay_ledger C l [] = Some (Inr l)"
| "replay_ledger C l (b # rest) =
     (case decode_block_payload (payload b) of
        Inl e \<Rightarrow> Some (Inl (Payload e))
      | Inr txs \<Rightarrow> do {
          res \<leftarrow> ledger_insert C l (parents b) (work b) (timestamp_ms b) (nonce b) txs;
          (case res of
             Inl e \<Rightarrow> Some (Inl (Rebuild e))
           | Inr (i, l) \<Rightarrow> replay_ledger C l rest)
        })"

text \<open>Starting a ledger from the first stored block, then replaying the others.\<close>

definition rebuild_ledger ::
    "('sk, 'vk) crypto \<Rightarrow> u16 \<Rightarrow> u64 \<Rightarrow> block \<Rightarrow> block list \<Rightarrow> (ledger_snapshot_error + ledger) option" where
  "rebuild_ledger C k sub gen blocks =
     (case decode_block_payload (payload gen) of
        Inl e \<Rightarrow> Some (Inl (Payload e))
      | Inr genesis_txs \<Rightarrow> do {
          res \<leftarrow> ledger_new C k sub genesis_txs;
          (case res of
             Inl e \<Rightarrow> Some (Inl (Genesis e))
           | Inr l \<Rightarrow> replay_ledger C l blocks)
        })"

definition ledger_read_snapshot ::
    "('sk, 'vk) crypto \<Rightarrow> byte list \<Rightarrow> (ledger_snapshot_error + ledger) option" where
  "ledger_read_snapshot C bs =
     (if length bs < 4 \<or> take 4 bs \<noteq> LEDGER_MAGIC then Some (Inl BadMagic)
      else if length bs < 14 then Some (Inl (SnapshotDag snapshot_error.UnexpectedEof))
      else let version = from_le_bytes (take 2 (drop 4 bs)) in
        if version \<noteq> LEDGER_VERSION then Some (Inl (UnsupportedVersion version))
        else let sub = from_le_bytes (take 8 (drop 6 bs)) in
          (case decode_snapshot (drop 14 bs) of
             Inl e \<Rightarrow> Some (Inl (SnapshotDag e))
           | Inr s \<Rightarrow>
               (case snap_blocks s of
                  [] \<Rightarrow> Some (Inl Empty)
                | gen # blocks \<Rightarrow> rebuild_ledger C (snap_k s) sub gen blocks)))"

end
