(* ===== verification/LedgerInv.thy ===== *)
theory LedgerInv
  imports Ledger Views
begin

text \<open>
  The invariant of a ledger: the DAG is well formed, every stored state is the state of its
  block's view, and every block's own transactions apply in that view.  It is kept by every
  operation, and it makes the incremental state the state of a run over the whole DAG.
\<close>

section \<open>The invariant\<close>

text \<open>The state a block's own transactions are checked against.\<close>

definition pre_state :: "('sk, 'vk) crypto \<Rightarrow> u64 \<Rightarrow> dag \<Rightarrow> block_id \<Rightarrow> utxo_set" where
  "pre_state C s d x =
     (case selected_parent (ghostdag (nd d x)) of
        None \<Rightarrow> fmempty
      | Some p \<Rightarrow> fold_blocks C s d (the (mergeset_order d x)) (view_state C s d p))"

definition own_valid :: "('sk, 'vk) crypto \<Rightarrow> u64 \<Rightarrow> dag \<Rightarrow> block_id \<Rightarrow> bool" where
  "own_valid C s d x \<longleftrightarrow>
     (\<exists>txs u w. wf_txs txs \<and> payload (node_block (nd d x)) = encode_block_payload txs
        \<and> apply_block C (pre_state C s d x) txs s = (u, Inr w))"

definition ledger_inv :: "('sk, 'vk) crypto \<Rightarrow> ledger \<Rightarrow> bool" where
  "ledger_inv C l \<longleftrightarrow>
     wf_dag (blake3 C) (ledger_dag l) \<and> ledger_genesis l = genesis (ledger_dag l)
   \<and> (\<exists>bs. node_block (nd (ledger_dag l) (genesis (ledger_dag l))) = block_genesis 1 0 0 bs)
   \<and> stored_wf (ledger_dag l)
   \<and> (\<forall>x \<in> ids (ledger_dag l). own_valid C (subsidy l) (ledger_dag l) x)
   \<and> (\<forall>x u. fmlookup (states l) x = Some u \<longrightarrow>
        x \<in> ids (ledger_dag l) \<and> u = view_state C (subsidy l) (ledger_dag l) x)
   \<and> (finality_depth l = - 1 \<longrightarrow> fset (fmdom (states l)) = ids (ledger_dag l))"

lemma ledger_invD:
  assumes "ledger_inv C l"
  shows "wf_dag (blake3 C) (ledger_dag l)" "ledger_genesis l = genesis (ledger_dag l)"
    "\<exists>bs. node_block (nd (ledger_dag l) (genesis (ledger_dag l))) = block_genesis 1 0 0 bs"
    "stored_wf (ledger_dag l)"
    "x \<in> ids (ledger_dag l) \<Longrightarrow> own_valid C (subsidy l) (ledger_dag l) x"
    "fmlookup (states l) x = Some u \<Longrightarrow> x \<in> ids (ledger_dag l) \<and> u = view_state C (subsidy l) (ledger_dag l) x"
    "finality_depth l = - 1 \<Longrightarrow> fset (fmdom (states l)) = ids (ledger_dag l)"
  using assms by (auto simp: ledger_inv_def)

lemma full_lookup:
  assumes "ledger_inv C l" "finality_depth l = - 1" "x \<in> ids (ledger_dag l)"
  shows "fmlookup (states l) x = Some (view_state C (subsidy l) (ledger_dag l) x)"
proof -
  have "x |\<in>| fmdom (states l)" using ledger_invD(7) [OF assms(1,2)] assms(3) by blast
  then obtain u where "fmlookup (states l) x = Some u" by (auto simp: fmlookup_dom_iff)
  then show ?thesis using ledger_invD(6) [OF assms(1)] by blast
qed

lemma apply_merged_fold:
  "set xs \<subseteq> ids d \<Longrightarrow> apply_merged C s d xs u = Some (fold_blocks C s d xs u)"
  by (induction xs arbitrary: u)
    (auto simp: dag_block_def nd_lookup fold_blocks_Cons apply_payload_def split: sum.splits)

lemma selected_parent_None_iff:
  "wf_dag H d \<Longrightarrow> x \<in> ids d \<Longrightarrow> selected_parent (ghostdag (nd d x)) = None \<longleftrightarrow> x = genesis d"
  using selected_parent_None [of H d x] wf_dagD(10) [of H d] by (auto simp: genesis_ghostdag_def)

lemma view_state_pre:
  assumes "wf_dag H d" "x \<in> ids d"
  shows "view_state C s d x = apply_payload C s (pre_state C s d x) (payload (node_block (nd d x)))"
proof (cases "selected_parent (ghostdag (nd d x))")
  case None
  then show ?thesis
    using selected_parent_None_iff [OF assms] view_state_genesis [OF assms(1)] by (simp add: pre_state_def)
next
  case (Some p)
  obtain ms where ms: "mergeset_order d x = Some ms"
    using mergeset_order_ok [OF assms(1), of p x] assms(2) Some by (auto simp: sp_edges_def)
  then show ?thesis using Some by (simp add: pre_state_def view_state_step [OF assms Some ms])
qed

lemma mergeset_order_subset:
  assumes "wf_dag H d" "x \<in> ids d" "mergeset_order d x = Some ms"
  shows "set ms \<subseteq> past d x"
proof (cases "selected_parent (ghostdag (nd d x))")
  case None
  then show ?thesis using assms nd_lookup [OF assms(2)] by (simp add: mergeset_order_def)
next
  case (Some p)
  obtain vp where "view_order d p = Some vp"
    using view_order_ok [OF assms(1) selected_parent_in_past(2) [OF assms(1,2) Some]] by blast
  then have "view_order d x = Some (vp @ ms @ [x])" using view_order_step [OF assms(1,2) Some] assms(3) by simp
  then show ?thesis using view_order_ok [OF assms(1,2)] by auto
qed

lemma pre_state_agree:
  assumes "wf_dag H d" "wf_dag H d'" "agree_on d d' S" "x \<in> S"
  shows "pre_state C s d' x = pre_state C s d x"
proof (cases "selected_parent (ghostdag (nd d x))")
  case None
  then show ?thesis using agree_lookup(1) [OF assms(3,4)] by (simp add: pre_state_def)
next
  case (Some p)
  have x: "x \<in> ids d" using agree_onD(2) [OF assms(3)] assms(4) by blast
  obtain ms where ms: "mergeset_order d x = Some ms"
    using mergeset_order_ok [OF assms(1), of p x] x Some by (auto simp: sp_edges_def)
  have "set ms \<subseteq> S" using mergeset_order_subset [OF assms(1) x ms] agree_onD(5) [OF assms(3,4)] by (auto simp: past_def)
  then have "fold_blocks C s d' ms u = fold_blocks C s d ms u" for u
    using agree_lookup(2) [OF assms(3)] by (intro fold_blocks_cong) blast
  then show ?thesis
    using agree_lookup(1) [OF assms(3,4)] Some ms agree_mergeset_order [OF assms]
      agree_parents(2) [OF assms(1,3,4) Some]
    by (simp add: pre_state_def view_state_agree [OF assms(1-3)])
qed

lemma own_valid_agree:
  assumes "wf_dag H d" "wf_dag H d'" "agree_on d d' S" "x \<in> S"
  shows "own_valid C s d' x \<longleftrightarrow> own_valid C s d x"
  using agree_lookup(2) [OF assms(3,4)] by (simp add: own_valid_def pre_state_agree [OF assms])

section \<open>Creating a ledger\<close>

lemma apply_payload_enc: "wf_txs txs \<Longrightarrow> apply_payload C s u (encode_block_payload txs) = fst (apply_block C u txs s)"
  by (simp add: apply_payload_def decode_payload_enc)

lemma ledger_new_ok:
  assumes "wf_txs txs" "length (encode_block_payload txs) < 2 ^ 64"
  shows "\<exists>res. ledger_new C k s txs = Some res
    \<and> (\<forall>e. res = Inl e \<longleftrightarrow> snd (apply_block C fmempty txs s) = Inl e)
    \<and> (\<forall>l. res = Inr l \<longrightarrow> ledger_inv C l \<and> subsidy l = s \<and> finality_depth l = - 1 \<and> difficulty (ledger_dag l) = None
         \<and> \<not> require_pow (ledger_dag l) \<and> ids (ledger_dag l) = {genesis (ledger_dag l)} \<and> dag_k (ledger_dag l) = k
         \<and> node_block (nd (ledger_dag l) (genesis (ledger_dag l))) = block_genesis 1 0 0 (encode_block_payload txs)
         \<and> genesis (ledger_dag l) = block_ident (blake3 C) (block_genesis 1 0 0 (encode_block_payload txs)))"
proof -
  let ?g = "block_genesis 1 0 0 (encode_block_payload txs)"
  obtain u r where a: "apply_block C fmempty txs s = (u, r)" by fastforce
  show ?thesis
  proof (cases r)
    case (Inl e)
    then show ?thesis using a by (simp add: ledger_new_def utxo_new_def)
  next
    case (Inr w)
    obtain d where d: "dag_new (blake3 C) k ?g = Some d" "wf_dag (blake3 C) d" "ids d = {block_ident (blake3 C) ?g}"
        "dag_k d = k" "genesis d = block_ident (blake3 C) ?g" "difficulty d = None" "\<not> require_pow d" "node_block (nd d (genesis d)) = ?g"
      using dag_new_ok [of ?g "blake3 C" k] by auto
    let ?l = "\<lparr>ledger_dag = d, subsidy = s, ledger_genesis = block_ident (blake3 C) ?g, finality_depth = - 1,
        states = fmupd (block_ident (blake3 C) ?g) u fmempty\<rparr>"
    have new: "ledger_new C k s txs = Some (Inr ?l)" using a Inr d(1) by (simp add: ledger_new_def utxo_new_def Let_def)
    have pre: "pre_state C s d (genesis d) = fmempty"
      using wf_dagD(10) [OF d(2)] by (simp add: pre_state_def genesis_ghostdag_def)
    have own: "own_valid C s d (genesis d)"
      unfolding own_valid_def pre d(8) using a Inr assms(1) by auto
    have "view_state C s d (genesis d) = u"
      using d(8) a by (simp add: view_state_genesis [OF d(2)] apply_payload_enc [OF assms(1)])
    moreover have "stored_wf d" using stored_wf_new [OF _ d(1)] assms(2) by (simp add: wf_block_genesis)
    ultimately have "ledger_inv C ?l" using d own by (auto simp: ledger_inv_def split: if_splits)
    then show ?thesis using new a Inr d by auto
  qed
qed

section \<open>Finality and pruning\<close>

lemma finality_score_total: "wf_dag H (ledger_dag l) \<Longrightarrow> \<exists>n. finality_score l = Some n"
  using selected_tip_ok [of H "ledger_dag l"] by (auto simp: finality_score_def)

lemma finality_off [simp]: "finality_depth l = - 1 \<Longrightarrow> finality_score l = Some 0"
  by (simp add: finality_score_def)

lemma prune_ok:
  assumes "wf_dag H (ledger_dag l)"
  shows "\<exists>l'. prune l = Some l' \<and> ledger_dag l' = ledger_dag l \<and> subsidy l' = subsidy l
    \<and> ledger_genesis l' = ledger_genesis l \<and> finality_depth l' = finality_depth l
    \<and> (\<forall>x u. fmlookup (states l') x = Some u \<longrightarrow> fmlookup (states l) x = Some u)
    \<and> (finality_depth l = - 1 \<longrightarrow> l' = l)"
proof -
  obtain n where "finality_score l = Some n" using finality_score_total [OF assms] by blast
  then show ?thesis by (cases "n = 0") (auto simp: prune_def)
qed

section \<open>Inserting a block\<close>

text \<open>The sizes every Rust vector has.\<close>

definition machine_sized :: "block_id list \<Rightarrow> transaction list \<Rightarrow> bool" where
  "machine_sized ps txs \<longleftrightarrow> wf_txs txs \<and> length ps < 2 ^ 64 \<and> length (encode_block_payload txs) < 2 ^ 64"

text \<open>The state in the view of a block that would be inserted on \<open>ps\<close>.\<close>

definition candidate_state :: "('sk, 'vk) crypto \<Rightarrow> u64 \<Rightarrow> dag \<Rightarrow> block_id list \<Rightarrow> utxo_set" where
  "candidate_state C s d ps =
     (let sp = the (max_by_key (ckey d) ps)
      in fold_blocks C s d (the (mergeset_ordered d sp ps)) (view_state C s d sp))"

lemma insert_inv_step:
  assumes "ledger_inv C l" "wf_dag (blake3 C) d'" "agree_on (ledger_dag l) d' (ids (ledger_dag l))"
    and "ids d' = insert i (ids (ledger_dag l))" "i \<notin> ids (ledger_dag l)" "genesis d' = genesis (ledger_dag l)"
    and "own_valid C (subsidy l) d' i" "u = view_state C (subsidy l) d' i" "wf_block (node_block (nd d' i))"
  shows "ledger_inv C (l\<lparr>ledger_dag := d', states := fmupd i u (states l)\<rparr>)"
proof -
  note I = ledger_invD [OF assms(1)]
  note A = agree_lookup [OF assms(3)]
  have "stored_wf d'" using I(4) A(2) assms(4,9) by (auto simp: stored_wf_def)
  moreover have "own_valid C (subsidy l) d' x" if "x \<in> ids d'" for x
    using that assms(4,7) I(5) [of x] own_valid_agree [OF I(1) assms(2,3), of x C "subsidy l"] by auto
  moreover have "view_state C (subsidy l) d' x = view_state C (subsidy l) (ledger_dag l) x" if "x \<in> ids (ledger_dag l)" for x
    by (rule view_state_agree [OF I(1) assms(2,3) that])
  moreover have "node_block (nd d' (genesis d')) = node_block (nd (ledger_dag l) (genesis (ledger_dag l)))"
    using A(2) [of "genesis (ledger_dag l)"] assms(6) wf_dagD(2) [OF I(1)] by simp
  ultimately show ?thesis
    using I(2,3,7) assms(2,4,5,6,8) I(6)
    unfolding ledger_inv_def by (auto split: if_splits)
qed

lemma ledger_insert_InrD:
  assumes "ledger_inv C l" "Suc (card (ids (ledger_dag l))) \<le> ROOT_CAPACITY" "machine_sized ps txs"
    and "ledger_insert C l ps w ts n txs = Some (Inr (i, l'))"
  shows "i = block_ident (blake3 C) (block_new ps w ts n (encode_block_payload txs))" "ledger_inv C l'"
    "dag_insert (blake3 C) tx_structure_validator (ledger_dag l) (block_new ps w ts n (encode_block_payload txs))
       = Some (Inr (i, ledger_dag l'))"
    "subsidy l' = subsidy l" "finality_depth l' = finality_depth l"
    "prune (l\<lparr>ledger_dag := ledger_dag l', states := fmupd i (view_state C (subsidy l) (ledger_dag l') i) (states l)\<rparr>) = Some l'"
proof -
  let ?b = "block_new ps w ts n (encode_block_payload txs)" and ?d = "ledger_dag l" and ?s = "subsidy l"
  note I = ledger_invD [OF assms(1)]
  from assms(4) obtain pv st0 st u wt d' where
    pv: "preview (blake3 C) ?d ?b = Some (Inr pv)" and
    st: "fmlookup (states l) (preview_selected_parent pv) = Some st0"
      "apply_merged C ?s ?d (preview_mergeset pv) st0 = Some st"
      "apply_block C st txs ?s = (u, Inr wt)" and
    ins: "dag_insert (blake3 C) tx_structure_validator ?d ?b = Some (Inr (i, d'))" and
    pr: "prune (l\<lparr>ledger_dag := d', states := fmupd i u (states l)\<rparr>) = Some l'"
    by (auto simp: ledger_insert_def Let_def split: bind_splits sum.splits prod.splits if_splits)
  obtain pv' where P: "preview (blake3 C) ?d ?b = Some (Inr pv')" "wf_dag (blake3 C) d'" "agree_on ?d d' (ids ?d)"
      "ids d' = insert i (ids ?d)" "i \<notin> ids ?d" "node_block (nd d' i) = ?b" "genesis d' = genesis ?d"
      "selected_parent (ghostdag (nd d' i)) = Some (preview_selected_parent pv')" "mergeset_order d' i = Some (preview_mergeset pv')"
    using preview_insert [OF I(1) assms(2) ins] by blast
  have [simp]: "pv' = pv" using P(1) pv by simp
  have V: "preview_selected_parent pv \<in> ids ?d" "set (preview_mergeset pv) \<subseteq> ids ?d"
    using preview_ok [OF I(1), of ?b] pv by auto
  have st0: "st0 = view_state C ?s ?d (preview_selected_parent pv)" using I(6) [OF st(1)] by simp
  have "st = fold_blocks C ?s ?d (preview_mergeset pv) st0" using st(2) by (simp add: apply_merged_fold [OF V(2)])
  also have "\<dots> = fold_blocks C ?s d' (preview_mergeset pv) (view_state C ?s d' (preview_selected_parent pv))"
  proof -
    have "fold_blocks C ?s d' (preview_mergeset pv) st0 = fold_blocks C ?s ?d (preview_mergeset pv) st0"
      using agree_lookup(2) [OF P(3)] V(2) by (intro fold_blocks_cong) blast
    then show ?thesis using st0 V(1) by (simp add: view_state_agree [OF I(1) P(2,3)])
  qed
  finally have pre: "pre_state C ?s d' i = st" using P(8,9) by (simp add: pre_state_def)
  have wt: "wf_txs txs" using assms(3) by (simp add: machine_sized_def)
  have own: "own_valid C ?s d' i" unfolding own_valid_def pre P(6) using st(3) wt by auto
  have vs: "u = view_state C ?s d' i"
    using view_state_pre [OF P(2), of i C ?s] P(4,6) pre st(3) by (simp add: apply_payload_enc [OF wt])
  have wb: "wf_block (node_block (nd d' i))" unfolding P(6) using assms(3) by (simp add: machine_sized_def wf_block_new)
  let ?l = "l\<lparr>ledger_dag := d', states := fmupd i u (states l)\<rparr>"
  have inv: "ledger_inv C ?l" by (rule insert_inv_step [OF assms(1) P(2-5,7) own vs wb])
  have L: "ledger_dag l' = d'" "subsidy l' = ?s" "ledger_genesis l' = ledger_genesis l" "finality_depth l' = finality_depth l"
      "\<And>x u. fmlookup (states l') x = Some u \<Longrightarrow> fmlookup (states ?l) x = Some u" "finality_depth l = - 1 \<Longrightarrow> l' = ?l"
    using prune_ok [of "blake3 C" ?l] pr P(2) by auto
  show "prune (l\<lparr>ledger_dag := ledger_dag l', states := fmupd i (view_state C ?s (ledger_dag l') i) (states l)\<rparr>) = Some l'"
    using pr L(1) vs by simp
  show "i = block_ident (blake3 C) ?b" using dag_insert_InrD(1) [OF I(1) assms(2) ins] .
  show "dag_insert (blake3 C) tx_structure_validator ?d ?b = Some (Inr (i, ledger_dag l'))" using ins L(1) by simp
  show "subsidy l' = subsidy l" "finality_depth l' = finality_depth l" using L by auto
  show "ledger_inv C l'"
  proof (cases "finality_depth l = - 1")
    case True
    then show ?thesis using inv L(6) by simp
  next
    case False
    then show ?thesis using inv L(1-5) unfolding ledger_inv_def by (simp del: fmupd_lookup)
  qed
qed

lemma ledger_insert_stored:
  assumes "ledger_inv C l" "Suc (card (ids (ledger_dag l))) \<le> ROOT_CAPACITY" "machine_sized ps txs"
    and "ledger_insert C l ps w ts n txs = Some (Inr (i, l'))"
  shows "i \<notin> ids (ledger_dag l)" "ids (ledger_dag l') = insert i (ids (ledger_dag l))"
    "dag_block (ledger_dag l') i = Some (block_new ps w ts n (encode_block_payload txs))"
    "x \<in> ids (ledger_dag l) \<Longrightarrow> node_block (nd (ledger_dag l') x) = node_block (nd (ledger_dag l) x)"
    "genesis (ledger_dag l') = genesis (ledger_dag l)" "dag_k (ledger_dag l') = dag_k (ledger_dag l)"
proof -
  let ?b = "block_new ps w ts n (encode_block_payload txs)"
  note R = dag_insert_InrD [OF ledger_invD(1) [OF assms(1)] assms(2) ledger_insert_InrD(3) [OF assms]]
  show fresh: "i \<notin> ids (ledger_dag l)" using R(1,3) by (simp add: acceptable_def)
  obtain gd sp where W: "wired (ledger_dag l) i ?b sp gd (ledger_dag l')" using R(4) by blast
  then show ids: "ids (ledger_dag l') = insert i (ids (ledger_dag l))" by (simp add: wired_def)
  show "dag_block (ledger_dag l') i = Some ?b" using W ids by (simp add: dag_block_def nd_lookup wired_def)
  show "x \<in> ids (ledger_dag l) \<Longrightarrow> node_block (nd (ledger_dag l') x) = node_block (nd (ledger_dag l) x)"
    using W fresh by (auto simp: wired_def)
  show "genesis (ledger_dag l') = genesis (ledger_dag l)" "dag_k (ledger_dag l') = dag_k (ledger_dag l)"
    using W by (simp_all add: wired_def)
qed

text \<open>
  Where the selected parent is not final and has its state, insertion answers and the rules
  decide; with finality off this is every parent.
\<close>

lemma acceptable_validator:
  assumes "validate v b d = Inr ()"
  shows "acceptable H v d b \<longleftrightarrow> acceptable H None d b"
  using assms by (simp add: acceptable_def validate_def [of None])

lemma ledger_insert_general:
  assumes "ledger_inv C l" "finality_score l = Some f" "Suc (card (ids (ledger_dag l))) \<le> ROOT_CAPACITY" "machine_sized ps txs"
    and "b = block_new ps w ts n (encode_block_payload txs)"
    and "\<And>sp. max_by_key (ckey (ledger_dag l)) (parents b) = Some sp \<Longrightarrow> sp \<in> ids (ledger_dag l) \<Longrightarrow>
      f \<le> score_of (ledger_dag l) sp \<and> fmlookup (states l) sp \<noteq> None"
  shows "\<exists>res. ledger_insert C l ps w ts n txs = Some res
    \<and> ((\<exists>i l'. res = Inr (i, l')) \<longleftrightarrow> acceptable (blake3 C) None (ledger_dag l) b
         \<and> (\<exists>u m. apply_block C (candidate_state C (subsidy l) (ledger_dag l) (parents b)) txs (subsidy l) = (u, Inr m)))"
proof -
  let ?d = "ledger_dag l" and ?s = "subsidy l" and ?H = "blake3 C"
  note I = ledger_invD [OF assms(1)]
  obtain res where res: "preview ?H ?d b = Some res" "\<And>e. res = Inl e \<Longrightarrow> check_structure ?d (block_ident ?H b) b = Inl e"
      "\<And>pv. res = Inr pv \<Longrightarrow> max_by_key (ckey ?d) (parents b) = Some (preview_selected_parent pv)
         \<and> preview_selected_parent pv \<in> ids ?d \<and> set (preview_mergeset pv) \<subseteq> ids ?d
         \<and> mergeset_ordered ?d (preview_selected_parent pv) (parents b) = Some (preview_mergeset pv)"
    using preview_ok [OF I(1), of b] by auto
  show ?thesis
  proof (cases res)
    case (Inl e)
    have "\<not> acceptable ?H None ?d b"
      using res(2) [OF Inl] check_structure_ok [of ?d "block_ident ?H b" b] by (auto simp: acceptable_def)
    then show ?thesis using res(1) Inl by (simp add: ledger_insert_def assms(5) Let_def)
  next
    case (Inr pv)
    note V = res(3) [OF Inr]
    let ?c = "candidate_state C ?s ?d (parents b)"
    have c: "?c = fold_blocks C ?s ?d (preview_mergeset pv) (view_state C ?s ?d (preview_selected_parent pv))"
      using V by (simp add: candidate_state_def)
    have look: "fmlookup (states l) (preview_selected_parent pv) = Some (view_state C ?s ?d (preview_selected_parent pv))"
      using assms(6) V I(6) [of "preview_selected_parent pv"] by auto
    obtain u r where a: "apply_block C ?c txs ?s = (u, r)" by fastforce
    have merged: "apply_merged C ?s ?d (preview_mergeset pv) (view_state C ?s ?d (preview_selected_parent pv)) = Some ?c"
      using V by (simp add: apply_merged_fold c)
    have step: "ledger_insert C l ps w ts n txs = (case r of Inl e \<Rightarrow> Some (Inl (State e))
        | Inr _ \<Rightarrow> do { res \<leftarrow> dag_insert ?H tx_structure_validator ?d b;
            (case res of Inl e \<Rightarrow> Some (Inl (Dag e))
             | Inr (i, d) \<Rightarrow> do { l \<leftarrow> prune (l\<lparr>ledger_dag := d, states := fmupd i u (states l)\<rparr>); Some (Inr (i, l)) }) })"
      unfolding ledger_insert_def assms(5) [symmetric]
      using res(1) Inr assms(2) assms(6) V look merged a by (simp add: Let_def split: sum.splits)
    show ?thesis
    proof (cases r)
      case e: (Inl e)
      then show ?thesis using step a by simp
    next
      case ok: (Inr m)
      have "validate_block_payload (payload b) = Inr ()"
        using apply_block_validates [of C ?c txs ?s u m] a ok assms(4) by (simp add: assms(5) machine_sized_def)
      then have v: "validate tx_structure_validator b ?d = Inr ()" by (simp add: validate_def tx_structure_validator_def)
      obtain r2 where r2: "dag_insert ?H tx_structure_validator ?d b = Some r2"
          "acceptable ?H tx_structure_validator ?d b \<longleftrightarrow> (\<exists>i d'. r2 = Inr (i, d'))" "\<And>i d'. r2 = Inr (i, d') \<Longrightarrow> wf_dag ?H d'"
        using dag_insert_cases [OF I(1) assms(3), of tx_structure_validator b] by blast
      show ?thesis
      proof (cases r2)
        case (Inl e)
        then show ?thesis using step ok r2 acceptable_validator [OF v] by simp
      next
        case good: (Inr q)
        obtain i d' where q: "q = (i, d')" by (cases q)
        obtain l' where "prune (l\<lparr>ledger_dag := d', states := fmupd i u (states l)\<rparr>) = Some l'"
          using prune_ok [of ?H "l\<lparr>ledger_dag := d', states := fmupd i u (states l)\<rparr>"] r2(3) good q by auto
        then show ?thesis using step ok r2 acceptable_validator [OF v] a good q by simp
      qed
    qed
  qed
qed

lemma ledger_insert_cases:
  assumes "ledger_inv C l" "finality_depth l = - 1" "Suc (card (ids (ledger_dag l))) \<le> ROOT_CAPACITY" "machine_sized ps txs"
    and "b = block_new ps w ts n (encode_block_payload txs)"
  shows "\<exists>res. ledger_insert C l ps w ts n txs = Some res
    \<and> ((\<exists>i l'. res = Inr (i, l')) \<longleftrightarrow> acceptable (blake3 C) None (ledger_dag l) b
         \<and> (\<exists>u m. apply_block C (candidate_state C (subsidy l) (ledger_dag l) (parents b)) txs (subsidy l) = (u, Inr m)))"
  by (rule ledger_insert_general [OF assms(1) finality_off [OF assms(2)] assms(3-5)])
    (simp add: full_lookup [OF assms(1,2)])

section \<open>Reachable ledgers\<close>

inductive ledger_reachable :: "('sk, 'vk) crypto \<Rightarrow> ledger \<Rightarrow> bool" for C where
  reach_new: "machine_sized [] txs \<Longrightarrow> ledger_new C k s txs = Some (Inr l) \<Longrightarrow> ledger_reachable C l"
| reach_finality: "machine_sized [] txs \<Longrightarrow> with_finality C k s txs depth = Some (Inr l) \<Longrightarrow> ledger_reachable C l"
| reach_insert: "ledger_reachable C l \<Longrightarrow> dag_len (ledger_dag l) < ROOT_CAPACITY \<Longrightarrow> machine_sized ps txs \<Longrightarrow>
    ledger_insert C l ps w ts n txs = Some (Inr (i, l')) \<Longrightarrow> ledger_reachable C l'"
| reach_difficulty: "ledger_reachable C l \<Longrightarrow> ledger_reachable C (ledger_set_difficulty l r)"
| reach_pow: "ledger_reachable C l \<Longrightarrow> ledger_reachable C (ledger_set_proof_of_work l e)"

lemma inv_switch:
  assumes "ledger_inv C l" "d' = (ledger_dag l)\<lparr>difficulty := x\<rparr> \<or> d' = (ledger_dag l)\<lparr>require_pow := e\<rparr>"
  shows "ledger_inv C (l\<lparr>ledger_dag := d'\<rparr>)"
proof -
  note I = ledger_invD [OF assms(1)]
  let ?d = "ledger_dag l"
  have wf: "wf_dag (blake3 C) d'" by (rule wf_switch [OF I(1) assms(2)])
  have same: "ids d' = ids ?d" "nd d' = nd ?d" "dag_k d' = dag_k ?d" "genesis d' = genesis ?d" using assms(2) by auto
  have A: "agree_on ?d d' (ids ?d)" by (rule agree_refl [OF wf_dagD(1) [OF I(1)] same(3,1,2)])
  have "view_state C (subsidy l) d' x = view_state C (subsidy l) ?d x" if "x \<in> ids ?d" for x
    by (rule view_state_agree [OF I(1) wf A that])
  moreover have "own_valid C (subsidy l) d' x" if "x \<in> ids ?d" for x
    using own_valid_agree [OF I(1) wf A that, of C "subsidy l"] I(5) [OF that] by simp
  moreover have "stored_wf d'" using I(4) same by (simp add: stored_wf_def)
  ultimately show ?thesis using I(2,3,6,7) wf same unfolding ledger_inv_def by simp
qed

lemma ledger_reachable_inv: "ledger_reachable C l \<Longrightarrow> ledger_inv C l"
proof (induction rule: ledger_reachable.induct)
  case (reach_new txs k s l)
  then show ?case using ledger_new_ok [of txs C k s] by (auto simp: machine_sized_def)
next
  case (reach_finality txs k s depth l)
  then obtain l0 where l0: "ledger_new C k s txs = Some (Inr l0)" "l = l0\<lparr>finality_depth := depth\<rparr>"
    by (auto simp: with_finality_def split: bind_splits sum.splits)
  then have "ledger_inv C l0" using reach_finality(1) ledger_new_ok [of txs C k s] by (auto simp: machine_sized_def)
  moreover have "finality_depth l0 = - 1" using l0(1) reach_finality(1) ledger_new_ok [of txs C k s] by (auto simp: machine_sized_def)
  ultimately show ?case using l0(2) unfolding ledger_inv_def by simp
next
  case (reach_insert l ps txs w ts n i l')
  then have "Suc (card (ids (ledger_dag l))) \<le> ROOT_CAPACITY" by (simp add: dag_len_ids)
  from ledger_insert_InrD(2) [OF reach_insert.IH this reach_insert.hyps(3,4)] show ?case .
next
  case (reach_difficulty l r)
  show ?case unfolding ledger_set_difficulty_def set_difficulty_def
    by (rule inv_switch [OF reach_difficulty.IH]) (rule disjI1, rule refl)
next
  case (reach_pow l e)
  show ?case unfolding ledger_set_proof_of_work_def set_proof_of_work_def
    by (rule inv_switch [OF reach_pow.IH]) (rule disjI2, rule refl)
qed

section \<open>The current state\<close>

lemma position_append: "x \<notin> set xs \<Longrightarrow> position x (xs @ x # ys) = Some (length xs)"
  by (induction xs) auto

lemma ledger_state_run:
  assumes "ledger_inv C l" "selected_tip (ledger_dag l) = Some tip" "fmlookup (states l) tip \<noteq> None"
  shows "\<exists>run. apply_dag C (ledger_dag l) (subsidy l) = Some run \<and> ledger_state C l = Some (run_utxo run)"
proof -
  let ?d = "ledger_dag l" and ?s = "subsidy l"
  note I = ledger_invD [OF assms(1)]
  obtain xs ys where x: "tip \<in> ids ?d" "view_order ?d tip = Some xs" "linearize ?d = Some (xs @ ys)"
    using linearize_view [OF I(1)] assms(2) by auto
  have xs: "distinct xs" "last xs = tip" "xs \<noteq> []" using view_order_ok [OF I(1) x(1)] x(2) by auto
  define vs where "vs = butlast xs"
  have vs: "xs = vs @ [tip]" using append_butlast_last_id [OF xs(3)] xs(2) by (simp add: vs_def)
  then have tv: "tip \<notin> set vs" using xs(1) by simp
  obtain run where run: "apply_dag C ?d ?s = Some run" "run_utxo run = fold_blocks C ?s ?d (xs @ ys) fmempty"
    using apply_dag_ok [OF I(1), of C ?s] x(3) by auto
  have st: "fmlookup (states l) tip = Some (view_state C ?s ?d tip)" using assms(3) I(6) by auto
  have v: "view_state C ?s ?d tip = fold_blocks C ?s ?d xs fmempty" using x(2) by (simp add: view_state_def)
  have "set (xs @ ys) = ids ?d" using linearize_ok [OF I(1)] x(3) by auto
  then have "set ys \<subseteq> ids ?d" by auto
  then have "ledger_state C l = Some (fold_blocks C ?s ?d ys (view_state C ?s ?d tip))"
    using x(3) assms(2) st vs position_append [OF tv, of ys] by (simp add: ledger_state_def apply_merged_fold)
  then show ?thesis using run v by (simp add: fold_blocks_append)
qed

end
