(* ===== verification/LedgerReplay.thy ===== *)
theory LedgerReplay
  imports LedgerInv
begin

text \<open>
  Replaying the blocks of a ledger rebuilds it: the transactions of a block are checked against
  a state that depends on the block's past alone, so they are valid again whatever else the
  new ledger already holds.  The snapshot and the append-only log both rest on this.
\<close>

text \<open>
  A ledger another one's blocks can be replayed into: it has the same genesis, parameters and
  blocks (where they overlap), no finality or enforced difficulty, and if it enforces proof of
  work the other's new blocks are mined.
\<close>

definition peer_ledger :: "('sk, 'vk) crypto \<Rightarrow> ledger \<Rightarrow> ledger \<Rightarrow> bool" where
  "peer_ledger C l e \<longleftrightarrow>
     ledger_inv C e \<and> finality_depth e = - 1 \<and> difficulty (ledger_dag e) = None
   \<and> subsidy e = subsidy l \<and> dag_k (ledger_dag e) = dag_k (ledger_dag l)
   \<and> genesis (ledger_dag e) = genesis (ledger_dag l)
   \<and> (\<forall>x \<in> ids (ledger_dag e) \<inter> ids (ledger_dag l). node_block (nd (ledger_dag l) x) = node_block (nd (ledger_dag e) x))
   \<and> (require_pow (ledger_dag e) \<longrightarrow>
        (\<forall>x \<in> ids (ledger_dag l) - ids (ledger_dag e). is_mined (blake3 C) (node_block (nd (ledger_dag l) x))))"

text \<open>A ledger that enforces no policy, over some of the blocks of another.\<close>

definition plain_part :: "('sk, 'vk) crypto \<Rightarrow> ledger \<Rightarrow> ledger \<Rightarrow> bool" where
  "plain_part C l e \<longleftrightarrow>
     ledger_inv C e \<and> finality_depth e = - 1 \<and> difficulty (ledger_dag e) = None \<and> \<not> require_pow (ledger_dag e)
   \<and> subsidy e = subsidy l \<and> dag_k (ledger_dag e) = dag_k (ledger_dag l)
   \<and> genesis (ledger_dag e) = genesis (ledger_dag l) \<and> ids (ledger_dag e) \<subseteq> ids (ledger_dag l)
   \<and> (\<forall>x \<in> ids (ledger_dag e). node_block (nd (ledger_dag l) x) = node_block (nd (ledger_dag e) x))"

lemma plain_part_peer:
  "plain_part C l e \<longleftrightarrow> peer_ledger C l e \<and> \<not> require_pow (ledger_dag e) \<and> ids (ledger_dag e) \<subseteq> ids (ledger_dag l)"
  by (auto simp: plain_part_def peer_ledger_def)

lemma peer_agree:
  assumes "ledger_inv C l" "peer_ledger C l e"
  shows "agree_on (ledger_dag e) (ledger_dag l) (ids (ledger_dag e) \<inter> ids (ledger_dag l))"
  using assms ledger_invD(1) by (intro common_blocks_agree [of "blake3 C"]) (auto simp: peer_ledger_def)

lemma candidate_pre_state:
  assumes "wf_dag H d" "wf_dag H d'" "agree_on d d' S" "x \<in> ids d'" "x \<noteq> genesis d'"
    and "set (parents (node_block (nd d' x))) \<subseteq> S"
  shows "candidate_state C s d (parents (node_block (nd d' x))) = pre_state C s d' x"
proof -
  let ?ps = "parents (node_block (nd d' x))"
  note D = wf_dagD [OF assms(1)] and D' = wf_dagD [OF assms(2)]
  have ps: "set ?ps \<subseteq> ids d" "set ?ps \<subseteq> ids d'" using assms(6) agree_onD(2,3) [OF assms(3)] by auto
  obtain gd sp where gd: "compute_ghostdag d' ?ps = Some gd" "max_by_key (ckey d') ?ps = Some sp" "gd_spec d' ?ps sp gd"
    using compute_ghostdag_ok [OF D'(1) D'(11) [OF assms(4,5)] ps(2)] by blast
  have g: "ghostdag (nd d' x) = gd" using D'(12) [OF assms(4,5)] gd(1) by simp
  then have sel: "selected_parent (ghostdag (nd d' x)) = Some sp" using gd(3) by (simp add: gd_spec_def)
  have "max_by_key (ckey d) ?ps = max_by_key (ckey d') ?ps"
    by (rule max_by_key_cong) (use assms(6) agree_ckey [OF assms(3)] in force)
  then have sp: "max_by_key (ckey d) ?ps = Some sp" using gd(2) by simp
  have spi: "sp \<in> S" using max_by_key_in [OF sp] assms(6) by blast
  obtain ms where ms: "mergeset_ordered d sp ?ps = Some ms" "set ms = mergeset_set d sp ?ps"
    using mergeset_ordered_eq [OF D(1) ps(1), of sp] finite_mergeset [OF D(1) ps(1)] by auto
  have msS: "set ms \<subseteq> S" using ms(2) assms(6) agree_onD(5) [OF assms(3)] by (auto simp: mergeset_set_def new_past_def)
  have mo: "mergeset_order d' x = Some ms"
    using nd_lookup [OF assms(4)] sel ms(1) agree_mergeset_ordered [OF assms(1-3,6) spi] by (simp add: mergeset_order_def)
  have "fold_blocks C s d' ms u = fold_blocks C s d ms u" for u
    using agree_lookup(2) [OF assms(3)] msS by (intro fold_blocks_cong) blast
  then show ?thesis
    using sel mo sp ms(1) by (simp add: candidate_state_def pre_state_def view_state_agree [OF assms(1-3) spi])
qed

lemma stored_block:
  assumes "ledger_inv C l" "x \<in> ids (ledger_dag l)"
  defines "b \<equiv> node_block (nd (ledger_dag l) x)"
  shows "\<exists>txs. decode_block_payload (payload b) = Inr txs \<and> machine_sized (parents b) txs
    \<and> block_new (parents b) (work b) (timestamp_ms b) (nonce b) (encode_block_payload txs) = b
    \<and> (\<exists>u w. apply_block C (pre_state C (subsidy l) (ledger_dag l) x) txs (subsidy l) = (u, Inr w))"
proof -
  have wb: "wf_block b" using ledger_invD(4) [OF assms(1)] assms(2) by (simp add: stored_wf_def b_def)
  obtain txs u w where t: "wf_txs txs" "payload b = encode_block_payload txs"
      "apply_block C (pre_state C (subsidy l) (ledger_dag l) x) txs (subsidy l) = (u, Inr w)"
    using ledger_invD(5) [OF assms(1,2)] by (auto simp: own_valid_def b_def)
  have "machine_sized (parents b) txs" using wb t(1,2) by (simp add: machine_sized_def wf_block_def)
  moreover have "block_new (parents b) (work b) (timestamp_ms b) (nonce b) (encode_block_payload txs) = b"
    using block_new_parents [of b] wb t(2) by (simp add: wf_block_def)
  ultimately show ?thesis using t decode_payload_enc [OF t(1)] by auto
qed

lemma peer_step:
  assumes "ledger_inv C l" "peer_ledger C l e" "x \<in> ids (ledger_dag l)" "x \<notin> ids (ledger_dag e)"
    and "past (ledger_dag l) x \<subseteq> ids (ledger_dag e)" "Suc (card (ids (ledger_dag e))) \<le> ROOT_CAPACITY"
  defines "b \<equiv> node_block (nd (ledger_dag l) x)"
  assumes "decode_block_payload (payload b) = Inr txs"
  shows "\<exists>e'. ledger_insert C e (parents b) (work b) (timestamp_ms b) (nonce b) txs = Some (Inr (x, e'))
    \<and> peer_ledger C l e' \<and> ids (ledger_dag e') = insert x (ids (ledger_dag e)) \<and> require_pow (ledger_dag e') = require_pow (ledger_dag e)
    \<and> (\<forall>y \<in> ids (ledger_dag e). node_block (nd (ledger_dag e') y) = node_block (nd (ledger_dag e) y))"
proof -
  let ?d = "ledger_dag l" and ?e = "ledger_dag e" and ?H = "blake3 C"
  note I = ledger_invD [OF assms(1)]
  have E: "ledger_inv C e" "finality_depth e = - 1" "difficulty ?e = None" "subsidy e = subsidy l" "genesis ?e = genesis ?d"
      "require_pow ?e \<Longrightarrow> is_mined ?H b"
    using assms(2,3,4) by (auto simp: peer_ledger_def b_def)
  note J = ledger_invD [OF E(1)]
  note D = wf_dagD [OF I(1)]
  have ng: "x \<noteq> genesis ?d" using wf_dagD(2) [OF J(1)] E(5) assms(4) by auto
  obtain u w where t: "machine_sized (parents b) txs"
      "block_new (parents b) (work b) (timestamp_ms b) (nonce b) (encode_block_payload txs) = b"
      "apply_block C (pre_state C (subsidy l) ?d x) txs (subsidy l) = (u, Inr w)"
    using stored_block [OF assms(1,3)] assms(8) by (auto simp: b_def)
  have ps: "set (parents b) \<subseteq> ids ?e" "set (parents b) \<subseteq> ids ?d" "parents b \<noteq> []"
    using anc_parent [OF nd_lookup [OF assms(3)]] assms(5) D(11) [OF assms(3) ng] wf_parents_in [OF I(1) assms(3)]
    by (auto simp: past_def b_def)
  have bid: "block_ident ?H b = x" using D(5) [OF assms(3)] by (simp add: b_def)
  have "candidate_state C (subsidy e) ?e (parents b) = pre_state C (subsidy l) ?d x"
    unfolding E(4) b_def
    by (rule candidate_pre_state [OF J(1) I(1) peer_agree [OF assms(1,2)] assms(3) ng]) (use ps in \<open>simp add: b_def\<close>)
  moreover have "acceptable ?H None ?e b"
    using E(3,6) ng ps bid assms(4) by (auto simp: acceptable_def validate_def is_mined_def)
  ultimately obtain i e' where ins: "ledger_insert C e (parents b) (work b) (timestamp_ms b) (nonce b) txs = Some (Inr (i, e'))"
    using ledger_insert_cases [OF E(1,2) assms(6) t(1) t(2) [symmetric]] t(3) E(4) by auto
  note L = ledger_insert_InrD [OF E(1) assms(6) t(1) ins, unfolded t(2)]
  have i: "i = x" using L(1) bid by simp
  obtain gd sp where W: "wired ?e i b sp gd (ledger_dag e')" using dag_insert_InrD(4) [OF J(1) assms(6) L(3)] by blast
  then have "peer_ledger C l e'" "ids (ledger_dag e') = insert x (ids ?e)" "require_pow (ledger_dag e') = require_pow ?e"
      "\<forall>y \<in> ids ?e. node_block (nd (ledger_dag e') y) = node_block (nd ?e y)"
    using L(2,4,5) E(2) assms(2,4) i by (auto simp: peer_ledger_def wired_def b_def)
  then show ?thesis using ins i by auto
qed

lemma replay_step:
  assumes "ledger_inv C l" "plain_part C l e" "x \<in> ids (ledger_dag l)" "x \<notin> ids (ledger_dag e)"
    and "past (ledger_dag l) x \<subseteq> ids (ledger_dag e)" "Suc (card (ids (ledger_dag e))) \<le> ROOT_CAPACITY"
  defines "b \<equiv> node_block (nd (ledger_dag l) x)"
  shows "\<exists>txs e'. decode_block_payload (payload b) = Inr txs
    \<and> ledger_insert C e (parents b) (work b) (timestamp_ms b) (nonce b) txs = Some (Inr (x, e'))
    \<and> plain_part C l e' \<and> ids (ledger_dag e') = insert x (ids (ledger_dag e))"
proof -
  have P: "peer_ledger C l e" "\<not> require_pow (ledger_dag e)" "ids (ledger_dag e) \<subseteq> ids (ledger_dag l)"
    using assms(2) by (auto simp: plain_part_peer)
  obtain txs where t: "decode_block_payload (payload b) = Inr txs" using stored_block [OF assms(1,3)] by (auto simp: b_def)
  from peer_step [OF assms(1) P(1) assms(3-6) t [unfolded b_def]] show ?thesis
    using t P(2,3) assms(3) by (auto simp: plain_part_peer b_def)
qed

lemma replay_ledger_ok:
  assumes "ledger_inv C l" "plain_part C l e" "distinct xs" "set xs \<inter> ids (ledger_dag e) = {}" "set xs \<subseteq> ids (ledger_dag l)"
    and "topo (ledger_dag l) (ids (ledger_dag e)) xs" "card (ids (ledger_dag e)) + length xs \<le> ROOT_CAPACITY"
  shows "\<exists>e'. replay_ledger C e (map (\<lambda>x. node_block (nd (ledger_dag l) x)) xs) = Some (Inr e')
    \<and> plain_part C l e' \<and> ids (ledger_dag e') = ids (ledger_dag e) \<union> set xs"
  using assms(2-)
proof (induction xs arbitrary: e)
  case (Cons x xs)
  let ?b = "node_block (nd (ledger_dag l) x)"
  have x: "x \<in> ids (ledger_dag l)" "x \<notin> ids (ledger_dag e)" "past (ledger_dag l) x \<subseteq> ids (ledger_dag e)"
      "Suc (card (ids (ledger_dag e))) \<le> ROOT_CAPACITY"
    using Cons.prems by auto
  obtain txs e1 where e1: "decode_block_payload (payload ?b) = Inr txs"
      "ledger_insert C e (parents ?b) (work ?b) (timestamp_ms ?b) (nonce ?b) txs = Some (Inr (x, e1))"
      "plain_part C l e1" "ids (ledger_dag e1) = insert x (ids (ledger_dag e))"
    using replay_step [OF assms(1) Cons.prems(1) x] by blast
  have "set xs \<inter> ids (ledger_dag e1) = {}" "topo (ledger_dag l) (ids (ledger_dag e1)) xs"
      "card (ids (ledger_dag e1)) + length xs \<le> ROOT_CAPACITY"
    using Cons.prems e1(4) x(2) by auto
  from Cons.IH [OF e1(3) _ this(1) _ this(2,3)] Cons.prems obtain e' where
    "replay_ledger C e1 (map (\<lambda>x. node_block (nd (ledger_dag l) x)) xs) = Some (Inr e')" "plain_part C l e'"
    "ids (ledger_dag e') = ids (ledger_dag e1) \<union> set xs" by auto
  then show ?case using e1 by auto
qed simp

text \<open>From the first block on: what both persistence formats do with the decoded blocks.\<close>

lemma rebuild_ok:
  assumes "ledger_inv C l" "linearize (ledger_dag l) = Some (genesis (ledger_dag l) # xs)"
  shows "\<exists>l'. rebuild_ledger C (dag_k (ledger_dag l)) (subsidy l)
      (node_block (nd (ledger_dag l) (genesis (ledger_dag l)))) (map (\<lambda>x. node_block (nd (ledger_dag l) x)) xs) = Some (Inr l')
    \<and> plain_part C l l' \<and> ids (ledger_dag l') = ids (ledger_dag l)"
proof -
  let ?d = "ledger_dag l" and ?s = "subsidy l"
  let ?gb = "node_block (nd ?d (genesis ?d))"
  note I = ledger_invD [OF assms(1)]
  note D = wf_dagD [OF I(1)]
  have lin: "distinct (genesis ?d # xs)" "set (genesis ?d # xs) = ids ?d" "topo ?d {} (genesis ?d # xs)"
    using linearize_ok [OF I(1)] assms(2) by auto
  obtain txs u w where t: "wf_txs txs" "payload ?gb = encode_block_payload txs"
      "apply_block C (pre_state C ?s ?d (genesis ?d)) txs ?s = (u, Inr w)"
    using I(5) [OF D(2)] by (auto simp: own_valid_def)
  have pre: "pre_state C ?s ?d (genesis ?d) = fmempty" using D(10) by (simp add: pre_state_def genesis_ghostdag_def)
  have gb: "?gb = block_genesis 1 0 0 (encode_block_payload txs)" using I(3) t(2) by auto
  have sz: "length (encode_block_payload txs) < 2 ^ 64" using I(4) D(2) t(2) by (auto simp: stored_wf_def wf_block_def)
  have ap: "snd (apply_block C fmempty txs ?s) = Inr w" using t(3) pre by simp
  obtain res where res: "ledger_new C (dag_k ?d) ?s txs = Some res" "\<forall>e. res = Inl e \<longleftrightarrow> snd (apply_block C fmempty txs ?s) = Inl e"
    "\<forall>e. res = Inr e \<longrightarrow> ledger_inv C e \<and> subsidy e = ?s \<and> finality_depth e = - 1 \<and> difficulty (ledger_dag e) = None
         \<and> \<not> require_pow (ledger_dag e) \<and> ids (ledger_dag e) = {genesis (ledger_dag e)} \<and> dag_k (ledger_dag e) = dag_k ?d
         \<and> node_block (nd (ledger_dag e) (genesis (ledger_dag e))) = ?gb \<and> genesis (ledger_dag e) = block_ident (blake3 C) ?gb"
    using ledger_new_ok [OF t(1) sz, of C "dag_k ?d" ?s] unfolding gb [symmetric] by blast
  have "res \<noteq> Inl e" for e using res(2) ap by simp
  then obtain e where "res = Inr e" by (cases res) auto
  then have e: "ledger_new C (dag_k ?d) ?s txs = Some (Inr e)" "ledger_inv C e" "subsidy e = ?s" "finality_depth e = - 1"
      "difficulty (ledger_dag e) = None" "\<not> require_pow (ledger_dag e)" "ids (ledger_dag e) = {genesis (ledger_dag e)}"
      "dag_k (ledger_dag e) = dag_k ?d" "node_block (nd (ledger_dag e) (genesis (ledger_dag e))) = ?gb"
      "genesis (ledger_dag e) = block_ident (blake3 C) ?gb"
    using res by blast+
  have ge: "genesis (ledger_dag e) = genesis ?d" using e(10) D(5) [OF D(2)] by simp
  then have P: "plain_part C l e" using e D(2) by (auto simp: plain_part_def)
  have "card (ids (ledger_dag e)) + length xs \<le> ROOT_CAPACITY"
    using wf_card_ids [OF I(1)] distinct_card [OF lin(1)] lin(2) e(7) by simp
  then obtain l' where l': "replay_ledger C e (map (\<lambda>x. node_block (nd ?d x)) xs) = Some (Inr l')"
      "plain_part C l l'" "ids (ledger_dag l') = ids (ledger_dag e) \<union> set xs"
    using replay_ledger_ok [OF assms(1) P, of xs] lin e(7) ge by auto
  moreover have "rebuild_ledger C (dag_k ?d) ?s ?gb (map (\<lambda>x. node_block (nd ?d x)) xs) = Some (Inr l')"
    using t(2) decode_payload_enc [OF t(1)] e(1) l'(1) by (simp add: rebuild_ledger_def)
  moreover have "ids (ledger_dag l') = ids ?d" using l'(3) e(7) ge lin(2) by auto
  ultimately show ?thesis by blast
qed

end
