(* ===== verification/LedgerChain.thy ===== *)
theory LedgerChain
  imports LedgerInv
begin

text \<open>
  Running a ledger on concrete blocks: a block with one parent and no transactions, and the
  table of blue scores, blue work and work that such blocks build.  The hash reads a block's
  timestamp, so a block's id is its timestamp.
\<close>

definition clock_crypto :: "(u64, u64) crypto" where
  "clock_crypto = demo_crypto\<lparr>blake3 := (\<lambda>bs. word_of_nat (le_val (take 8 (drop 56 bs))))\<rparr>"

lemma le_val_to_le_u64: "le_val (to_le_bytes (w :: u64)) = unat w"
proof -
  have "unat w < 256 ^ 8" using unsigned_less [of w, where 'a = nat] by simp
  then show ?thesis unfolding to_le_bytes_def le_val_le_bytes by (intro mod_less) simp
qed

definition empty_block :: "block_id \<Rightarrow> u128 \<Rightarrow> u64 \<Rightarrow> block" where
  "empty_block p w ts = block_new [p] w ts 0 (encode_block_payload [])"

lemma empty_block_id: "block_ident (blake3 clock_crypto) (empty_block p w ts) = BlockId (word_of_nat (unat ts))"
  by (simp add: block_ident_def clock_crypto_def id_preimage_def empty_block_def block_new_def le_val_to_le_u64)

lemma apply_nothing: "apply_block C u [] s = (u, Inr \<lparr>fees = 0, minted = 0\<rparr>)"
  using unsigned_less [of s, where 'a = nat] by (simp add: apply_block_def apply_staged_def checked_add_def)

lemma nothing_sized: "length ps < 2 ^ 64 \<Longrightarrow> machine_sized ps []"
  by (simp add: machine_sized_def wf_txs_def encode_block_payload_def)

section \<open>One parent\<close>

type_synonym row = "nat \<times> u128 \<times> u128"

definition table :: "dag \<Rightarrow> block_id \<Rightarrow> row option" where
  "table d x = map_option (\<lambda>n. (blue_score (ghostdag n), blue_work (ghostdag n), work (node_block n))) (fmlookup (nodes d) x)"

fun row_key :: "(block_id \<Rightarrow> row option) \<Rightarrow> block_id \<Rightarrow> u128 \<times> nat \<times> block_id" where
  "row_key T x = (case T x of None \<Rightarrow> (0, 0, x) | Some (s, bw, w) \<Rightarrow> (bw, s, x))"

definition row_score :: "(block_id \<Rightarrow> row option) \<Rightarrow> block_id \<Rightarrow> nat" where
  "row_score T x = (case T x of None \<Rightarrow> 0 | Some (s, bw, w) \<Rightarrow> s)"

lemma table_in: "x \<in> ids d \<Longrightarrow> table d x = Some (blue_score (ghostdag (nd d x)), blue_work (ghostdag (nd d x)), work (node_block (nd d x)))"
  by (simp add: table_def nd_lookup)

lemma dom_table: "dom (table d) = ids d"
  by (auto simp: table_def ids_lookup)

lemma table_key: "x \<in> ids d \<Longrightarrow> row_key (table d) x = ckey d x"
  by (simp add: table_in ckey_def)

lemma table_score: "row_score (table d) x = score_of d x"
  by (simp add: row_score_def table_def score_of_def dag_ghostdag_def split: option.split)

lemma single_mergeset: "graph_ok d \<Longrightarrow> p \<in> ids d \<Longrightarrow> mergeset_set d p [p] = {}"
  by (auto simp: mergeset_set_def new_past_def)

lemma tip_of_table:
  assumes "wf_dag H d" "t \<in> fset (tips d)" "\<And>u. u \<in> fset (tips d) \<Longrightarrow> row_key (table d) u \<le> row_key (table d) t"
  shows "selected_tip d = Some t"
proof -
  obtain s where s: "selected_tip d = Some s" "s \<in> fset (tips d)" "\<forall>u \<in> fset (tips d). ckey d u \<le> ckey d s"
    using selected_tip_ok [OF assms(1)] by blast
  have "t \<in> ids d" "s \<in> ids d" using tips_in_ids [OF assms(1)] assms(2) s(2) by auto
  then have "ckey d s \<le> ckey d t" using assms(3) [OF s(2)] by (simp only: table_key)
  then have "ckey d s = ckey d t" using s(3) assms(2) by (meson antisym)
  then show ?thesis using s(1) by (simp add: ckey_def)
qed

section \<open>Steps\<close>

text \<open>A ledger whose DAG has table \<open>T\<close>, tips \<open>tps\<close>, states for the blocks \<open>st\<close> and threshold \<open>thr\<close>.\<close>

definition tabled ::
    "ledger \<Rightarrow> u64 \<Rightarrow> (block_id \<Rightarrow> row option) \<Rightarrow> block_id set \<Rightarrow> block_id set \<Rightarrow> nat \<Rightarrow> bool" where
  "tabled l depth T tps st thr \<longleftrightarrow>
     ledger_reachable clock_crypto l \<and> difficulty (ledger_dag l) = None \<and> \<not> require_pow (ledger_dag l)
   \<and> finality_depth l = depth \<and> table (ledger_dag l) = T \<and> fset (tips (ledger_dag l)) = tps
   \<and> fset (fmdom (states l)) = st \<and> finality_score l = Some thr"

lemma fmlookup_fmdom_fset: "x \<in> fset (fmdom m) \<longleftrightarrow> fmlookup m x \<noteq> None"
  by (auto simp: fmlookup_dom_iff)

lemma prune_dom:
  assumes "prune l = Some l'" "finality_score l = Some thr"
  shows "fset (fmdom (states l')) = {x \<in> fset (fmdom (states l)). thr \<le> score_of (ledger_dag l) x \<or> dag_ghostdag (ledger_dag l) x = None}"
  using assms by (auto simp: prune_def score_of_def not_less split: if_splits option.splits)

lemma finality_score_cong:
  "ledger_dag l' = ledger_dag l \<Longrightarrow> finality_depth l' = finality_depth l \<Longrightarrow> finality_score l' = finality_score l"
  by (simp add: finality_score_def)

lemma chain_step:
  assumes "tabled l depth T tps st thr" "depth \<noteq> - 1" "p \<in> st" "T p = Some (s, bw, w0)" "thr \<le> s" "T i = None"
    and "card (dom T) < ROOT_CAPACITY"
    and "T' = T(i \<mapsto> (Suc s, bw + w0, w))" "tps' = insert i (tps - {p})"
    and "t \<in> tps'" "\<And>u. u \<in> tps' \<Longrightarrow> row_key T' u \<le> row_key T' t" "thr' = row_score T' t - unat depth"
    and "st' = {x \<in> insert i st. thr' \<le> row_score T' x}" "i = BlockId (word_of_nat (unat ts))"
  shows "\<exists>l'. ledger_insert clock_crypto l [p] w ts 0 [] = Some (Inr (i, l'))
    \<and> tabled l' depth T' tps' st' thr'"
proof -
  let ?C = clock_crypto and ?d = "ledger_dag l" and ?b = "empty_block p w ts"
  have L: "ledger_reachable ?C l" "difficulty ?d = None" "\<not> require_pow ?d" "finality_depth l = depth" "table ?d = T"
      "fset (tips ?d) = tps" "fset (fmdom (states l)) = st" "finality_score l = Some thr"
    using assms(1) by (auto simp: tabled_def)
  note inv = ledger_reachable_inv [OF L(1)]
  note I = ledger_invD [OF inv]
  have p: "p \<in> ids ?d" using assms(4) L(5) dom_table [of ?d] by auto
  have ni: "i \<notin> ids ?d" using assms(6) L(5) dom_table [of ?d] by auto
  have ps: "parents ?b = [p]" by (simp add: empty_block_def block_new_def)
  have bid: "block_ident (blake3 ?C) ?b = i" unfolding assms(14) by (rule empty_block_id)
  have cap: "Suc (card (ids ?d)) \<le> ROOT_CAPACITY" using assms(7) L(5) dom_table [of ?d] by simp
  have sz: "machine_sized [p] []" by (rule nothing_sized) simp
  have acc: "acceptable (blake3 ?C) None ?d ?b" using L(2,3) ni p bid by (simp add: acceptable_def validate_def ps)
  have "thr \<le> score_of ?d p \<and> fmlookup (states l) p \<noteq> None"
    using assms(3-5) L(5,7) table_score [of ?d p] fmlookup_fmdom_fset [of p "states l"] by (simp add: row_score_def)
  then obtain j l' where ins: "ledger_insert ?C l [p] w ts 0 [] = Some (Inr (j, l'))"
    using ledger_insert_general [OF inv L(8) cap sz, of ?b w ts 0] acc
    unfolding ps by (auto simp: empty_block_def apply_nothing)
  note R = ledger_insert_InrD [OF inv cap sz ins, folded empty_block_def, unfolded bid]
  obtain gd sp where g: "max_by_key (ckey ?d) (parents ?b) = Some sp" "gd_spec ?d (parents ?b) sp gd" "wired ?d i ?b sp gd (ledger_dag l')"
    using dag_insert_InrD(4) [OF I(1) cap R(3) [unfolded R(1)]] by blast
  have sp: "sp = p" using g(1) by (simp add: ps)
  have "mset (mergeset_blues gd) + mset (mergeset_reds gd) = {#}"
    using g(2) single_mergeset [OF wf_dagD(1) [OF I(1)] p] by (simp add: gd_spec_def ps sp)
  then have gd: "blue_score gd = Suc s" "blue_work gd = bw + w0"
    using g(2) assms(4) L(5) table_in [OF p] by (auto simp: gd_spec_def sp)
  have A: "agree_on ?d (ledger_dag l') (ids ?d)" by (rule wired_agree [OF wf_dagD(1) [OF I(1)] g(3)])
  have W: "ids (ledger_dag l') = insert i (ids ?d)" "node_block (nd (ledger_dag l') i) = ?b" "ghostdag (nd (ledger_dag l') i) = gd"
      "fset (tips (ledger_dag l')) = tps'" "difficulty (ledger_dag l') = None" "\<not> require_pow (ledger_dag l')"
    using g(3) L(2,3,6) by (auto simp: wired_def ps assms(9))
  have T': "table (ledger_dag l') = T'"
  proof
    fix x
    consider "x = i" | "x \<noteq> i" "x \<in> ids ?d" | "x \<notin> ids (ledger_dag l')" using W(1) by blast
    then show "table (ledger_dag l') x = T' x"
    proof cases
      case 1
      then show ?thesis using table_in [of i "ledger_dag l'"] W(1-3) gd by (simp add: assms(8) empty_block_def)
    next
      case 2
      then show ?thesis using table_in [of x "ledger_dag l'"] table_in [of x ?d] agree_lookup(1,2) [OF A 2(2)] W(1) L(5)
        by (simp add: assms(8))
    next
      case 3
      then have "x \<noteq> i" "T x = None" "table (ledger_dag l') x = None"
        using W(1) L(5) dom_table [of ?d] dom_table [of "ledger_dag l'"] by blast+
      then show ?thesis by (simp add: assms(8))
    qed
  qed
  have cap': "dag_len ?d < ROOT_CAPACITY" using cap by (simp add: dag_len_ids)
  have reach: "ledger_reachable ?C l'" by (rule reach_insert [OF L(1) cap' sz ins])
  have "selected_tip (ledger_dag l') = Some t"
    using tip_of_table [OF ledger_invD(1) [OF R(2)], of t] assms(10,11) W(4) T' by simp
  then have fin: "finality_score l' = Some thr'"
    using R(5) L(4) assms(2,12) T' table_score [of "ledger_dag l'" t] by (simp add: finality_score_def)
  let ?l = "l\<lparr>ledger_dag := ledger_dag l', states := fmupd j (view_state ?C (subsidy l) (ledger_dag l') j) (states l)\<rparr>"
  have fl: "finality_score ?l = Some thr'" using fin R(5) by (subst finality_score_cong [of ?l l']) simp_all
  have "st \<subseteq> ids ?d" using I(6) L(7) fmlookup_fmdom_fset [of _ "states l"] by blast
  then have some: "dag_ghostdag (ledger_dag l') x \<noteq> None" if "x \<in> insert i st" for x
    using nd_lookup [of x "ledger_dag l'"] that W(1) by (auto simp: dag_ghostdag_def)
  have "fset (fmdom (states ?l)) = insert i st" using L(7) R(1) by simp
  then have "fset (fmdom (states l')) = {x \<in> insert i st. thr' \<le> score_of (ledger_dag l') x \<or> dag_ghostdag (ledger_dag l') x = None}"
    using prune_dom [OF R(6) fl] by simp
  then have "fset (fmdom (states l')) = {x \<in> insert i st. thr' \<le> score_of (ledger_dag l') x}"
    using some by blast
  then have st: "fset (fmdom (states l')) = st'"
    unfolding assms(13) T' [symmetric] table_score .
  show ?thesis
    using ins R(1,5) reach W(4-6) L(4) T' st fin by (auto simp: tabled_def)
qed

text \<open>A new ledger with no genesis transactions.\<close>

lemma chain_start:
  assumes "depth \<noteq> - 1"
  shows "\<exists>l. with_finality clock_crypto 3 50 [] depth = Some (Inr l)
    \<and> tabled l depth [BlockId 0 \<mapsto> (0, 0, 1)] {BlockId 0} {BlockId 0} 0"
proof -
  let ?C = clock_crypto and ?g = "block_genesis 1 0 0 (encode_block_payload [])"
  have sz: "machine_sized [] []" by (rule nothing_sized) simp
  have gid: "block_ident (blake3 ?C) ?g = BlockId 0"
    by (simp add: block_ident_def clock_crypto_def id_preimage_def block_genesis_def encode_block_payload_def)
  obtain res where res: "ledger_new ?C 3 50 [] = Some res" "\<forall>e. res = Inl e \<longleftrightarrow> snd (apply_block ?C fmempty [] 50) = Inl e"
      "\<forall>l. res = Inr l \<longrightarrow> ledger_inv ?C l \<and> finality_depth l = - 1 \<and> difficulty (ledger_dag l) = None
         \<and> \<not> require_pow (ledger_dag l) \<and> ids (ledger_dag l) = {genesis (ledger_dag l)}
         \<and> node_block (nd (ledger_dag l) (genesis (ledger_dag l))) = ?g \<and> genesis (ledger_dag l) = BlockId 0"
    using ledger_new_ok [of "[]" ?C 3 50] sz unfolding gid machine_sized_def by blast
  have "res \<noteq> Inl e" for e using res(2) by (simp add: apply_nothing)
  then obtain l0 where l0: "res = Inr l0" by (cases res) auto
  then have L: "ledger_inv ?C l0" "finality_depth l0 = - 1" "difficulty (ledger_dag l0) = None" "\<not> require_pow (ledger_dag l0)"
      "ids (ledger_dag l0) = {BlockId 0}" "node_block (nd (ledger_dag l0) (BlockId 0)) = ?g" "genesis (ledger_dag l0) = BlockId 0"
    using res(3) by auto
  note I = ledger_invD [OF L(1)]
  let ?l = "l0\<lparr>finality_depth := depth\<rparr>"
  have new: "with_finality ?C 3 50 [] depth = Some (Inr ?l)" using res(1) l0 by (simp add: with_finality_def)
  have T: "table (ledger_dag l0) = [BlockId 0 \<mapsto> (0, 0, 1)]"
  proof
    fix x
    show "table (ledger_dag l0) x = [BlockId 0 \<mapsto> (0, 0, 1)] x"
    proof (cases "x = BlockId 0")
      case True
      then show ?thesis using table_in [of x "ledger_dag l0"] L(5-7) wf_dagD(10) [OF I(1)] by (simp add: genesis_ghostdag_def)
    next
      case False
      then show ?thesis using dom_table [of "ledger_dag l0"] L(5) by (metis domIff fun_upd_apply singletonD)
    qed
  qed
  obtain t where t: "selected_tip (ledger_dag l0) = Some t" "t \<in> fset (tips (ledger_dag l0))" using selected_tip_ok [OF I(1)] by blast
  then have t0: "t = BlockId 0" using tips_in_ids [OF I(1) t(2)] L(5) by simp
  have "fset (tips (ledger_dag l0)) \<subseteq> {BlockId 0}" using tips_in_ids [OF I(1)] unfolding L(5) by blast
  then have tips: "fset (tips (ledger_dag l0)) = {BlockId 0}" using t(2) t0 by blast
  have "score_of (ledger_dag l0) (BlockId 0) = 0" using T table_score [of "ledger_dag l0" "BlockId 0"] by (simp add: row_score_def)
  then have "finality_score ?l = Some 0" using assms t(1) t0 by (simp add: finality_score_def)
  then have "tabled ?l depth [BlockId 0 \<mapsto> (0, 0, 1)] {BlockId 0} {BlockId 0} 0"
    using reach_finality [OF sz new] L(2-5) T tips I(7) by (simp add: tabled_def)
  then show ?thesis using new by blast
qed

text \<open>
  Finality depth 3: four blocks on a chain make the genesis block final and drop its state; a
  heavy side chain of two blocks, allowed because it starts on a block that is not final, then
  takes over with a lower blue score.
\<close>

definition fork_table :: "block_id \<Rightarrow> row option" where
  "fork_table = [BlockId 0 \<mapsto> (0, 0, 1), BlockId 1 \<mapsto> (1, 1, 1), BlockId 2 \<mapsto> (2, 2, 1), BlockId 3 \<mapsto> (3, 3, 1),
     BlockId 4 \<mapsto> (4, 4, 1), BlockId 5 \<mapsto> (2, 2, 1000), BlockId 6 \<mapsto> (3, 1002, 1)]"

lemma fork_run:
  "\<exists>l. tabled l 3 fork_table {BlockId 4, BlockId 6} {BlockId 1, BlockId 2, BlockId 3, BlockId 4, BlockId 5, BlockId 6} 0"
proof -
  note eval = row_score_def ROOT_CAPACITY_def u64_max_def
  let ?T0 = "[BlockId 0 \<mapsto> (0, 0, 1)] :: block_id \<Rightarrow> row option"
  let ?T1 = "?T0(BlockId 1 \<mapsto> (1, 1, 1))"
  let ?T2 = "?T1(BlockId 2 \<mapsto> (2, 2, 1))"
  let ?T3 = "?T2(BlockId 3 \<mapsto> (3, 3, 1))"
  let ?T4 = "?T3(BlockId 4 \<mapsto> (4, 4, 1))"
  let ?T5 = "?T4(BlockId 5 \<mapsto> (2, 2, 1000))"
  let ?T6 = "?T5(BlockId 6 \<mapsto> (3, 1002, 1))"
  obtain l0 where l0: "tabled l0 3 ?T0 {BlockId 0} {BlockId 0} 0"
    using chain_start [of 3] by auto
  have "\<exists>l. ledger_insert clock_crypto l0 [BlockId 0] 1 1 0 [] = Some (Inr (BlockId 1, l))
      \<and> tabled l 3 ?T1 {BlockId 1} {BlockId 0, BlockId 1} 0"
    by (rule chain_step [OF l0, of "BlockId 0" 0 0 1 "BlockId 1" _ 1 _ "BlockId 1"]) (auto simp: eval)
  then obtain l1 where l1: "tabled l1 3 ?T1 {BlockId 1} {BlockId 0, BlockId 1} 0" by blast
  have "\<exists>l. ledger_insert clock_crypto l1 [BlockId 1] 1 2 0 [] = Some (Inr (BlockId 2, l))
      \<and> tabled l 3 ?T2 {BlockId 2} {BlockId 0, BlockId 1, BlockId 2} 0"
    by (rule chain_step [OF l1, of "BlockId 1" 1 1 1 "BlockId 2" _ 1 _ "BlockId 2"]) (auto simp: eval)
  then obtain l2 where l2: "tabled l2 3 ?T2 {BlockId 2} {BlockId 0, BlockId 1, BlockId 2} 0" by blast
  have "\<exists>l. ledger_insert clock_crypto l2 [BlockId 2] 1 3 0 [] = Some (Inr (BlockId 3, l))
      \<and> tabled l 3 ?T3 {BlockId 3} {BlockId 0, BlockId 1, BlockId 2, BlockId 3} 0"
    by (rule chain_step [OF l2, of "BlockId 2" 2 2 1 "BlockId 3" _ 1 _ "BlockId 3"]) (auto simp: eval)
  then obtain l3 where l3: "tabled l3 3 ?T3 {BlockId 3} {BlockId 0, BlockId 1, BlockId 2, BlockId 3} 0" by blast
  have "\<exists>l. ledger_insert clock_crypto l3 [BlockId 3] 1 4 0 [] = Some (Inr (BlockId 4, l))
      \<and> tabled l 3 ?T4 {BlockId 4} {BlockId 1, BlockId 2, BlockId 3, BlockId 4} 1"
    by (rule chain_step [OF l3, of "BlockId 3" 3 3 1 "BlockId 4" _ 1 _ "BlockId 4"]) (auto simp: eval)
  then obtain l4 where l4: "tabled l4 3 ?T4 {BlockId 4} {BlockId 1, BlockId 2, BlockId 3, BlockId 4} 1" by blast
  have "\<exists>l. ledger_insert clock_crypto l4 [BlockId 1] 1000 5 0 [] = Some (Inr (BlockId 5, l))
      \<and> tabled l 3 ?T5 {BlockId 4, BlockId 5} {BlockId 1, BlockId 2, BlockId 3, BlockId 4, BlockId 5} 1"
    by (rule chain_step [OF l4, of "BlockId 1" 1 1 1 "BlockId 5" _ 1000 _ "BlockId 4"]) (auto simp: eval)
  then obtain l5 where l5: "tabled l5 3 ?T5 {BlockId 4, BlockId 5} {BlockId 1, BlockId 2, BlockId 3, BlockId 4, BlockId 5} 1" by blast
  have "\<exists>l. ledger_insert clock_crypto l5 [BlockId 5] 1 6 0 [] = Some (Inr (BlockId 6, l))
      \<and> tabled l 3 ?T6 {BlockId 4, BlockId 6} {BlockId 1, BlockId 2, BlockId 3, BlockId 4, BlockId 5, BlockId 6} 0"
    by (rule chain_step [OF l5, of "BlockId 5" 2 2 1000 "BlockId 6" _ 1 _ "BlockId 6"]) (auto simp: eval)
  then show ?thesis unfolding fork_table_def by blast
qed

end
