(* ===== verification/LedgerProps.thy ===== *)
theory LedgerProps
  imports LedgerReplay LedgerChain
begin

text \<open>
  The properties of the state layer that span the DAG and the ledger: the run over a DAG, the
  ledger's invariant, its current state, insertion, snapshots, and where finality fails.
\<close>

section \<open>Runs\<close>

text \<open>
  C25: \<open>apply_dag\<close> never fails on a reachable DAG: every block is accepted or rejected exactly once,
  the accepted ones in linearization order, and the value of the resulting set is at most the
  subsidy of each accepted block.
\<close>

theorem apply_dag_supply:
  assumes "reachable H k g d" "parents g = []"
  shows "\<exists>run xs. apply_dag C d sub = Some run \<and> linearize d = Some xs
    \<and> mset (accepted run @ map fst (rejected run)) = mset xs \<and> subseq (accepted run) xs
    \<and> utxo_sum (run_utxo run) \<le> length (accepted run) * unat sub"
  using apply_dag_ok [of H d C sub] reachable_wf [OF assms] by blast

theorem apply_dag_supply_witness:
  "\<exists>d run. ids d = {BlockId 48, BlockId 80, BlockId 81, BlockId 112} \<and> apply_dag demo_crypto d 20 = Some run
     \<and> utxo_sum (run_utxo run) \<le> length (accepted run) * 20"
proof -
  obtain d where d: "reachable demo_H 3 demo_g d" "ids d = {BlockId 48, BlockId 80, BlockId 81, BlockId 112}"
    using demo_run by blast
  have "parents demo_g = []" by (simp add: demo_g_def)
  from apply_dag_supply [OF d(1) this, of demo_crypto 20] d(2) show ?thesis by auto
qed

section \<open>The ledger\<close>

text \<open>
  C24: the invariant of every reachable ledger: each stored state is the state of its block's view,
  the transactions of every block apply in the state before it, and without finality every
  block has its state.
\<close>

theorem ledger_states_are_views:
  assumes "ledger_reachable C l"
  shows "wf_dag (blake3 C) (ledger_dag l)
    \<and> (\<forall>x u. ledger_view l x = Some u \<longrightarrow> u = view_state C (subsidy l) (ledger_dag l) x)
    \<and> (\<forall>x \<in> ids (ledger_dag l). own_valid C (subsidy l) (ledger_dag l) x)
    \<and> (finality_depth l = - 1 \<longrightarrow> fset (fmdom (states l)) = ids (ledger_dag l))"
  using ledger_invD [OF ledger_reachable_inv [OF assms]] by (auto simp: ledger_view_def)

lemma demo_ledger:
  "\<exists>l l'. ledger_new clock_crypto 3 50 [] = Some (Inr l) \<and> ledger_reachable clock_crypto l
     \<and> finality_depth l = - 1 \<and> ids (ledger_dag l) = {BlockId 0} \<and> difficulty (ledger_dag l) = None \<and> \<not> require_pow (ledger_dag l)
     \<and> ledger_insert clock_crypto l [BlockId 0] 1 1 0 [] = Some (Inr (BlockId 1, l')) \<and> ledger_reachable clock_crypto l'
     \<and> finality_depth l' = - 1 \<and> ids (ledger_dag l') = {BlockId 0, BlockId 1}"
proof -
  let ?C = clock_crypto and ?g = "block_genesis 1 0 0 (encode_block_payload [])"
  have sz: "machine_sized [] []" "machine_sized [BlockId 0] []" by (rule nothing_sized, simp)+
  have gid: "block_ident (blake3 ?C) ?g = BlockId 0"
    by (simp add: block_ident_def clock_crypto_def id_preimage_def block_genesis_def encode_block_payload_def)
  obtain res where res: "ledger_new ?C 3 50 [] = Some res" "\<forall>e. res = Inl e \<longleftrightarrow> snd (apply_block ?C fmempty [] 50) = Inl e"
      "\<forall>l. res = Inr l \<longrightarrow> ledger_inv ?C l \<and> finality_depth l = - 1 \<and> difficulty (ledger_dag l) = None
         \<and> \<not> require_pow (ledger_dag l) \<and> ids (ledger_dag l) = {genesis (ledger_dag l)} \<and> genesis (ledger_dag l) = BlockId 0"
    using ledger_new_ok [of "[]" ?C 3 50] sz unfolding gid machine_sized_def by blast
  have "res \<noteq> Inl e" for e using res(2) by (simp add: apply_nothing)
  then obtain l where r: "res = Inr l" by (cases res) auto
  then have L: "ledger_inv ?C l" "finality_depth l = - 1" "difficulty (ledger_dag l) = None" "\<not> require_pow (ledger_dag l)"
      "ids (ledger_dag l) = {BlockId 0}" using res(3) by auto
  have new: "ledger_new ?C 3 50 [] = Some (Inr l)" using res(1) r by simp
  have reach: "ledger_reachable ?C l" by (rule reach_new [OF sz(1) new])
  have cap: "Suc (card (ids (ledger_dag l))) \<le> ROOT_CAPACITY" by (simp add: L(5) ROOT_CAPACITY_def u64_max_def)
  let ?b = "empty_block (BlockId 0) 1 1"
  have ps: "parents ?b = [BlockId 0]" by (simp add: empty_block_def block_new_def)
  have bid: "block_ident (blake3 ?C) ?b = BlockId 1" using empty_block_id [of "BlockId 0" 1 1] by simp
  have "acceptable (blake3 ?C) None (ledger_dag l) ?b"
    using L(3-5) bid by (simp add: acceptable_def validate_def ps)
  then obtain i l' where ins: "ledger_insert ?C l [BlockId 0] 1 1 0 [] = Some (Inr (i, l'))"
    using ledger_insert_cases [OF L(1,2) cap sz(2), of ?b 1 1 0] by (auto simp: empty_block_def apply_nothing)
  note R = ledger_insert_InrD [OF L(1) cap sz(2) ins, folded empty_block_def, unfolded bid]
  obtain gd sp where "wired (ledger_dag l) i ?b sp gd (ledger_dag l')"
    using dag_insert_InrD(4) [OF ledger_invD(1) [OF L(1)] cap R(3)] by blast
  then have "ids (ledger_dag l') = {BlockId 0, BlockId 1}" using L(5) R(1) by (auto simp: wired_def)
  moreover have "ledger_reachable ?C l'" using reach_insert [OF reach _ sz(2) ins] cap by (simp add: dag_len_ids)
  ultimately show ?thesis using new reach L ins R(1,5) by auto
qed

theorem ledger_states_are_views_witness:
  "\<exists>l u. ids (ledger_dag l) = {BlockId 0, BlockId 1} \<and> ledger_view l (BlockId 1) = Some u
     \<and> u = view_state clock_crypto (subsidy l) (ledger_dag l) (BlockId 1)"
proof -
  obtain l where l: "ledger_reachable clock_crypto l" "finality_depth l = - 1" "ids (ledger_dag l) = {BlockId 0, BlockId 1}"
    using demo_ledger by blast
  have "BlockId 1 |\<in>| fmdom (states l)" using ledger_states_are_views [OF l(1)] l(2,3) by auto
  then obtain u where "ledger_view l (BlockId 1) = Some u" by (auto simp: fmlookup_dom_iff ledger_view_def)
  with ledger_states_are_views [OF l(1)] l(3) show ?thesis by blast
qed

text \<open>
  C20: the incremental state is the batch state: with finality off, \<open>ledger_state\<close> returns, and what it
  returns is the set \<open>apply_dag\<close> computes from scratch.
\<close>

theorem ledger_state_is_run:
  assumes "ledger_reachable C l" "finality_depth l = - 1"
  shows "\<exists>run. apply_dag C (ledger_dag l) (subsidy l) = Some run \<and> ledger_state C l = Some (run_utxo run)"
proof -
  note inv = ledger_reachable_inv [OF assms(1)]
  obtain t where t: "selected_tip (ledger_dag l) = Some t" "t \<in> fset (tips (ledger_dag l))"
    using selected_tip_ok [OF ledger_invD(1) [OF inv]] by blast
  have "fmlookup (states l) t \<noteq> None"
    using full_lookup [OF inv assms(2)] tips_in_ids [OF ledger_invD(1) [OF inv] t(2)] by simp
  then show ?thesis by (rule ledger_state_run [OF inv t(1)])
qed

theorem ledger_state_is_run_witness:
  "\<exists>l run. ids (ledger_dag l) = {BlockId 0, BlockId 1} \<and> apply_dag clock_crypto (ledger_dag l) (subsidy l) = Some run
     \<and> ledger_state clock_crypto l = Some (run_utxo run)"
proof -
  obtain l where l: "ledger_reachable clock_crypto l" "finality_depth l = - 1" "ids (ledger_dag l) = {BlockId 0, BlockId 1}"
    using demo_ledger by blast
  from ledger_state_is_run [OF l(1,2)] l(3) show ?thesis by blast
qed

text \<open>
  C21: with finality off, \<open>Ledger::insert\<close> never panics below the capacity of the index, and it
  succeeds exactly when the DAG's rules accept the block and its transactions apply in the
  state of its own view; the ledger then holds that state for the new block.
\<close>

theorem ledger_insert_decides:
  assumes "ledger_reachable C l" "finality_depth l = - 1" "dag_len (ledger_dag l) < ROOT_CAPACITY" "machine_sized ps txs"
    and "b = block_new ps w ts n (encode_block_payload txs)"
  shows "\<exists>res. ledger_insert C l ps w ts n txs = Some res
    \<and> ((\<exists>i l'. res = Inr (i, l')) \<longleftrightarrow> acceptable (blake3 C) None (ledger_dag l) b
         \<and> (\<exists>u m. apply_block C (candidate_state C (subsidy l) (ledger_dag l) (parents b)) txs (subsidy l) = (u, Inr m)))
    \<and> (\<forall>i l'. res = Inr (i, l') \<longrightarrow> i = block_ident (blake3 C) b
         \<and> ledger_view l' i = Some (view_state C (subsidy l') (ledger_dag l') i))"
proof -
  note inv = ledger_reachable_inv [OF assms(1)]
  have cap: "Suc (card (ids (ledger_dag l))) \<le> ROOT_CAPACITY" using assms(3) by (simp add: dag_len_ids)
  have "i = block_ident (blake3 C) b \<and> ledger_view l' i = Some (view_state C (subsidy l') (ledger_dag l') i)"
    if ins: "ledger_insert C l ps w ts n txs = Some (Inr (i, l'))" for i l'
  proof -
    note R = ledger_insert_InrD [OF inv cap assms(4) ins]
    have "i \<in> ids (ledger_dag l')"
      using dag_insert_InrD(4) [OF ledger_invD(1) [OF inv] cap R(3)] by (auto simp: wired_def)
    then show ?thesis using full_lookup [OF R(2)] R(1,5) assms(2,5) by (simp add: ledger_view_def)
  qed
  then show ?thesis using ledger_insert_cases [OF inv assms(2) cap assms(4,5)] by blast
qed

theorem ledger_insert_decides_witness:
  "\<exists>l res. ids (ledger_dag l) = {BlockId 0} \<and> ledger_insert clock_crypto l [BlockId 9] 1 1 0 [] = Some res
     \<and> \<not> (\<exists>i l'. res = Inr (i, l'))"
proof -
  obtain l where l: "ledger_reachable clock_crypto l" "finality_depth l = - 1" "ids (ledger_dag l) = {BlockId 0}"
    using demo_ledger by blast
  have cap: "dag_len (ledger_dag l) < ROOT_CAPACITY" by (simp add: dag_len_ids l(3) ROOT_CAPACITY_def u64_max_def)
  have sz: "machine_sized [BlockId 9] []" by (rule nothing_sized) simp
  have "\<not> acceptable (blake3 clock_crypto) None (ledger_dag l) (block_new [BlockId 9] 1 1 0 (encode_block_payload []))"
    by (simp add: acceptable_def l(3))
  then show ?thesis using ledger_insert_decides [OF l(1,2) cap sz refl, of 1 1 0] l(3) by blast
qed

section \<open>Persistence\<close>

lemma same_blocks_dag_block:
  assumes "same_blocks H d d'"
  shows "dag_block d' = dag_block d"
proof
  fix x
  show "dag_block d' x = dag_block d x"
  proof (cases "x \<in> ids d")
    case True
    then show ?thesis using same_blocks_lookup [OF assms True] by (simp add: dag_block_def)
  next
    case False
    then have "x \<notin> ids d'" using assms by (simp add: same_blocks_def)
    then have "fmlookup (nodes d) x = None" "fmlookup (nodes d') x = None" using False by (auto simp: ids_lookup)
    then show ?thesis by (simp add: dag_block_def)
  qed
qed

lemma apply_dag_cong:
  assumes "dag_block d' = dag_block d" "linearize d' = linearize d"
  shows "apply_dag C d' s = apply_dag C d s"
proof -
  have "run_loop C d' s xs r = run_loop C d s xs r" for xs r
    by (induction xs arbitrary: r) (simp_all add: assms(1))
  then show ?thesis by (simp add: apply_dag_def assms(2))
qed

lemma plain_part_consensus:
  assumes "ledger_inv C l" "plain_part C l l'" "ids (ledger_dag l') = ids (ledger_dag l)"
  shows "same_blocks (blake3 C) (ledger_dag l) (ledger_dag l')" "dag_block (ledger_dag l') = dag_block (ledger_dag l)"
    "x \<in> ids (ledger_dag l) \<Longrightarrow> fmlookup (states l') x = Some (view_state C (subsidy l) (ledger_dag l) x)"
    "apply_dag C (ledger_dag l') (subsidy l') = apply_dag C (ledger_dag l) (subsidy l)"
proof -
  have P: "ledger_inv C l'" "finality_depth l' = - 1" "subsidy l' = subsidy l"
    using assms(2) by (auto simp: plain_part_def)
  show S: "same_blocks (blake3 C) (ledger_dag l) (ledger_dag l')"
    using assms ledger_invD(1) [OF assms(1)] ledger_invD(1) [OF P(1)] by (simp add: same_blocks_def plain_part_def)
  show B: "dag_block (ledger_dag l') = dag_block (ledger_dag l)" by (rule same_blocks_dag_block [OF S])
  show "fmlookup (states l') x = Some (view_state C (subsidy l) (ledger_dag l) x)" if "x \<in> ids (ledger_dag l)"
    using full_lookup [OF P(1,2), of x] that assms(3) P(3)
      view_state_agree [OF ledger_invD(1) [OF assms(1)] ledger_invD(1) [OF P(1)] same_blocks_agree [OF S] that, of C "subsidy l"]
    by simp
  show "apply_dag C (ledger_dag l') (subsidy l') = apply_dag C (ledger_dag l) (subsidy l)"
    unfolding P(3) by (rule apply_dag_cong [OF B same_blocks_linearize [OF S]])
qed

text \<open>What both persistence formats promise of the ledger they rebuild.\<close>

lemma rebuilt_same:
  assumes "ledger_inv C l" "plain_part C l l'" "ids (ledger_dag l') = ids (ledger_dag l)"
  shows "subsidy l' = subsidy l \<and> dag_block (ledger_dag l') = dag_block (ledger_dag l) \<and> linearize (ledger_dag l') = linearize (ledger_dag l)
    \<and> (\<forall>x \<in> ids (ledger_dag l). ledger_view l' x = Some (view_state C (subsidy l) (ledger_dag l) x))
    \<and> (\<exists>run. apply_dag C (ledger_dag l) (subsidy l) = Some run \<and> ledger_state C l' = Some (run_utxo run))"
proof -
  note P = plain_part_consensus [OF assms]
  have J: "ledger_inv C l'" "finality_depth l' = - 1" "subsidy l' = subsidy l" using assms(2) by (auto simp: plain_part_def)
  obtain t where t: "selected_tip (ledger_dag l') = Some t" "t \<in> fset (tips (ledger_dag l'))"
    using selected_tip_ok [OF ledger_invD(1) [OF J(1)]] by blast
  have "fmlookup (states l') t \<noteq> None"
    using full_lookup [OF J(1,2)] tips_in_ids [OF ledger_invD(1) [OF J(1)] t(2)] by simp
  from ledger_state_run [OF J(1) t(1) this] show ?thesis
    using P same_blocks_linearize [OF P(1)] J(3) by (auto simp: ledger_view_def)
qed

text \<open>
  C33: reading back the snapshot of a reachable ledger rebuilds it: the same blocks, subsidy and total
  order, for every block the state of its view (also where the original had pruned it), and
  the current state is the one a run over the original DAG gives.
\<close>

theorem ledger_snapshot_roundtrip:
  assumes "ledger_reachable C l"
  shows "\<exists>bytes l' run. ledger_write_snapshot l = Some bytes \<and> ledger_read_snapshot C bytes = Some (Inr l')
    \<and> subsidy l' = subsidy l \<and> dag_block (ledger_dag l') = dag_block (ledger_dag l) \<and> linearize (ledger_dag l') = linearize (ledger_dag l)
    \<and> (\<forall>x \<in> ids (ledger_dag l). ledger_view l' x = Some (view_state C (subsidy l) (ledger_dag l) x))
    \<and> apply_dag C (ledger_dag l) (subsidy l) = Some run \<and> ledger_state C l' = Some (run_utxo run)"
proof -
  let ?d = "ledger_dag l"
  note inv = ledger_reachable_inv [OF assms]
  note I = ledger_invD [OF inv]
  obtain xs where xs: "linearize ?d = Some (genesis ?d # xs)"
      "write_snapshot ?d = Some (snapshot_bytes (dag_k ?d) (map (\<lambda>x. node_block (nd ?d x)) (genesis ?d # xs)))"
      "list_all wf_block (map (\<lambda>x. node_block (nd ?d x)) (genesis ?d # xs))" "Suc (length xs) \<le> ROOT_CAPACITY"
    using write_snapshot_eq [OF I(1,4)] by blast
  let ?body = "snapshot_bytes (dag_k ?d) (map (\<lambda>x. node_block (nd ?d x)) (genesis ?d # xs))"
  let ?bytes = "LEDGER_MAGIC @ to_le_bytes LEDGER_VERSION @ to_le_bytes (subsidy l) @ ?body"
  have dec: "decode_snapshot ?body = Inr \<lparr>snap_k = dag_k ?d, snap_blocks = map (\<lambda>x. node_block (nd ?d x)) (genesis ?d # xs)\<rparr>"
    using decode_snapshot_bytes [OF xs(3)] root_capacity_word [OF xs(4)] by simp
  obtain l' where l': "rebuild_ledger C (dag_k ?d) (subsidy l) (node_block (nd ?d (genesis ?d))) (map (\<lambda>x. node_block (nd ?d x)) xs) = Some (Inr l')"
      "plain_part C l l'" "ids (ledger_dag l') = ids ?d"
    using rebuild_ok [OF inv xs(1)] by blast
  have "ledger_read_snapshot C ?bytes = Some (Inr l')"
    using dec l'(1) by (simp add: ledger_read_snapshot_def LEDGER_MAGIC_def from_le_to_le Let_def)
  moreover have "ledger_write_snapshot l = Some ?bytes" using xs(2) by (simp add: ledger_write_snapshot_def)
  ultimately show ?thesis using rebuilt_same [OF inv l'(2,3)] by blast
qed

theorem ledger_snapshot_roundtrip_witness:
  "\<exists>l bytes l'. ids (ledger_dag l) = {BlockId 0, BlockId 1} \<and> ledger_write_snapshot l = Some bytes
     \<and> ledger_read_snapshot clock_crypto bytes = Some (Inr l') \<and> dag_block (ledger_dag l') = dag_block (ledger_dag l)"
proof -
  obtain l where l: "ledger_reachable clock_crypto l" "ids (ledger_dag l) = {BlockId 0, BlockId 1}"
    using demo_ledger by blast
  from ledger_snapshot_roundtrip [OF l(1)] l(2) show ?thesis by blast
qed

section \<open>Where finality fails\<close>

text \<open>
  C36: finality is not monotone, and insertion can panic: there is a reachable ledger with finality
  depth 3 in which the genesis block has been pruned as final, whose threshold has since
  fallen back to 0, and on which inserting a well-formed block on genesis fails the \<open>expect\<close>
  that a selected parent above the threshold has its state.
\<close>

theorem finality_panic:
  "\<exists>l. ledger_reachable clock_crypto l \<and> finality_depth l = 3 \<and> finality_score l = Some 0
     \<and> BlockId 0 \<in> ids (ledger_dag l) \<and> ledger_view l (BlockId 0) = None
     \<and> machine_sized [BlockId 0] [] \<and> ledger_insert clock_crypto l [BlockId 0] 1 7 0 [] = None"
proof -
  obtain l where t: "tabled l 3 fork_table {BlockId 4, BlockId 6} {BlockId 1, BlockId 2, BlockId 3, BlockId 4, BlockId 5, BlockId 6} 0"
    using fork_run by blast
  then have L: "ledger_reachable clock_crypto l" "finality_depth l = 3" "finality_score l = Some 0" "table (ledger_dag l) = fork_table"
      "fset (fmdom (states l)) = {BlockId 1, BlockId 2, BlockId 3, BlockId 4, BlockId 5, BlockId 6}"
    by (auto simp: tabled_def)
  let ?d = "ledger_dag l" and ?b = "empty_block (BlockId 0) 1 7"
  have ids: "BlockId 0 \<in> ids ?d" "BlockId 7 \<notin> ids ?d" 
    unfolding dom_table [symmetric] L(4) by (auto simp: fork_table_def)
  have st: "fmlookup (states l) (BlockId 0) = None" using L(5) fmlookup_fmdom_fset [of "BlockId 0" "states l"] by simp
  have ps: "parents ?b = [BlockId 0]" by (simp add: empty_block_def block_new_def)
  have bid: "block_ident (blake3 clock_crypto) ?b = BlockId 7" using empty_block_id [of "BlockId 0" 1 7] by simp
  have "check_structure ?d (block_ident (blake3 clock_crypto) ?b) ?b = Inr ()"
    unfolding check_structure_ok bid ps using ids by simp
  then obtain pv where pv: "preview (blake3 clock_crypto) ?d ?b = Some (Inr pv)"
      "max_by_key (ckey ?d) (parents ?b) = Some (preview_selected_parent pv)"
    using preview_ok [OF ledger_invD(1) [OF ledger_reachable_inv [OF L(1)]], of ?b]
    by (metis Inl_Inr_False obj_sumE)
  have "preview_selected_parent pv = BlockId 0" using pv(2) ps by simp
  then have "ledger_insert clock_crypto l [BlockId 0] 1 7 0 [] = None"
    using pv(1) L(3) st by (simp add: ledger_insert_def empty_block_def Let_def)
  moreover have "machine_sized [BlockId 0] []" by (rule nothing_sized) simp
  ultimately show ?thesis using L ids st by (auto simp: ledger_view_def)
qed

end
