(* ===== verification/Store.thy ===== *)
theory Store
  imports LedgerProps
begin

text \<open>
  \<open>crates/kovanica-state/src/store.rs\<close>: the append-only log.  A log file is its bytes: every write
  goes to the end, and every read of \<open>open\<close> is sequential, so the file is modelled by the bytes
  that are left to read.  Failures of the operating system are not modelled; the one \<open>Io\<close> error
  the code raises itself is.
\<close>

datatype store_error =
    Io string
  | BadMagic
  | UnsupportedVersion u16
  | Truncated
  | Block snapshot_error
  | Replay ledger_snapshot_error

definition STORE_MAGIC :: "byte list" where
  "STORE_MAGIC = [0x4B, 0x56, 0x4C, 0x46]"

definition STORE_VERSION :: u16 where
  "STORE_VERSION = 1"

definition MAX_RECORD :: nat where
  "MAX_RECORD = 16 * 1024 * 1024"

definition write_record :: "block \<Rightarrow> store_error + byte list" where
  "write_record b =
     (let body = encode_block b in
      if MAX_RECORD < length body then Inl (Io ''record too large'')
      else Inr (len_bytes body @ body))"

fun write_records :: "block list \<Rightarrow> store_error + byte list" where
  "write_records [] = Inr []"
| "write_records (b # bs) = rbind (write_record b) (\<lambda>r. rbind (write_records bs) (\<lambda>rs. Inr (r @ rs)))"

definition store_create :: "ledger \<Rightarrow> (store_error + byte list) option" where
  "store_create l = do {
     order \<leftarrow> linearize (ledger_dag l);
     blocks \<leftarrow> those (map (dag_block (ledger_dag l)) order);
     Some (rbind (write_records blocks) (\<lambda>rs.
       Inr (STORE_MAGIC @ to_le_bytes STORE_VERSION @ to_le_bytes (subsidy l) @ to_le_bytes (dag_k (ledger_dag l)) @ rs)))
   }"

definition store_append :: "byte list \<Rightarrow> block \<Rightarrow> store_error + byte list" where
  "store_append file b = rbind (write_record b) (\<lambda>r. Inr (file @ r))"

text \<open>\<open>None\<close>: fewer than eight bytes were left, which \<open>read_exact\<close> has consumed.\<close>

definition read_record :: "byte list \<Rightarrow> store_error + (block option \<times> byte list)" where
  "read_record bs =
     (if length bs < 8 then Inr (None, [])
      else let len = unat (from_le_bytes (take 8 bs) :: u64) in
        if len = 0 \<or> MAX_RECORD < len then Inl Truncated
        else rbind (read_array Truncated len (drop 8 bs)) (\<lambda>(body, rest).
             rbind (map_err Block (decode_block body)) (\<lambda>b. Inr (Some b, rest))))"

lemma read_record_shorter: "read_record bs = Inr (Some b, rest) \<Longrightarrow> length rest < length bs"
  by (auto simp: read_record_def Let_def read_array_def rbind_eq_Inr split: if_splits)

function open_loop :: "('sk, 'vk) crypto \<Rightarrow> ledger \<Rightarrow> byte list \<Rightarrow> (store_error + ledger) option" where
  "open_loop C l bs =
     (case read_record bs of
        Inl e \<Rightarrow> Some (Inl e)
      | Inr (None, _) \<Rightarrow> Some (Inr l)
      | Inr (Some b, rest) \<Rightarrow>
          (case decode_block_payload (payload b) of
             Inl e \<Rightarrow> Some (Inl (Replay (ledger_snapshot_error.Payload e)))
           | Inr txs \<Rightarrow>
               (case ledger_insert C l (parents b) (work b) (timestamp_ms b) (nonce b) txs of
                  None \<Rightarrow> None
                | Some (Inl e) \<Rightarrow> Some (Inl (Replay (ledger_snapshot_error.Rebuild e)))
                | Some (Inr (i, l')) \<Rightarrow> open_loop C l' rest)))"
  by pat_completeness auto
termination
  by (relation "measure (\<lambda>(C, l, bs). length bs)") (auto dest: read_record_shorter)

declare open_loop.simps [simp del]

definition store_open :: "('sk, 'vk) crypto \<Rightarrow> byte list \<Rightarrow> (store_error + ledger) option" where
  "store_open C file =
     (case rbind (read_array Truncated 4 file) (\<lambda>(magic, r).
           if magic \<noteq> STORE_MAGIC then Inl BadMagic
           else rbind (read_word Truncated r) (\<lambda>(version, r).
           if version \<noteq> STORE_VERSION then Inl (UnsupportedVersion version)
           else rbind (read_word Truncated r) (\<lambda>(sub :: u64, r).
           rbind (read_word Truncated r) (\<lambda>(k :: u16, r).
           rbind (read_record r) (\<lambda>(gen, r).
           (case gen of None \<Rightarrow> Inl Truncated | Some gen \<Rightarrow> Inr (sub, k, gen, r))))))) of
        Inl e \<Rightarrow> Some (Inl e)
      | Inr (sub, k, gen, r) \<Rightarrow>
          (case decode_block_payload (payload gen) of
             Inl e \<Rightarrow> Some (Inl (Replay (ledger_snapshot_error.Payload e)))
           | Inr genesis_txs \<Rightarrow> do {
               res \<leftarrow> ledger_new C k sub genesis_txs;
               (case res of
                  Inl e \<Rightarrow> Some (Inl (Replay (Genesis e)))
                | Inr l \<Rightarrow> open_loop C l r)
             }))"

section \<open>Records\<close>

definition storable :: "block \<Rightarrow> bool" where
  "storable b \<longleftrightarrow> wf_block b \<and> length (encode_block b) \<le> MAX_RECORD"

definition record_bytes :: "block \<Rightarrow> byte list" where
  "record_bytes b = len_bytes (encode_block b) @ encode_block b"

definition log_bytes :: "u64 \<Rightarrow> u16 \<Rightarrow> block list \<Rightarrow> byte list" where
  "log_bytes sub k bs =
     STORE_MAGIC @ to_le_bytes STORE_VERSION @ to_le_bytes sub @ to_le_bytes k @ concat (map record_bytes bs)"

lemma write_record_storable: "storable b \<Longrightarrow> write_record b = Inr (record_bytes b)"
  by (simp add: write_record_def storable_def record_bytes_def Let_def)

lemma write_records_storable: "list_all storable bs \<Longrightarrow> write_records bs = Inr (concat (map record_bytes bs))"
  by (induction bs) (simp_all add: write_record_storable)

lemma encode_block_nonempty: "encode_block b \<noteq> []"
proof -
  have "48 \<le> length (encode_block b)" by (rule block_codec.width_enc)
  then show ?thesis by auto
qed

lemma len_prefix:
  assumes "storable b"
  shows "unat (from_le_bytes (len_bytes (encode_block b)) :: u64) = length (encode_block b)"
proof -
  have "length (encode_block b) < 2 ^ 64" using assms by (simp add: storable_def MAX_RECORD_def)
  then show ?thesis by (simp add: len_bytes_def unat_of_nat)
qed

lemma decode_block_enc: "wf_block b \<Longrightarrow> decode_block (encode_block b) = Inr b"
  using read_block_enc [of b "[]"] by (simp add: decode_block_def)

lemma read_record_bytes:
  assumes "storable b"
  shows "read_record (record_bytes b @ rest) = Inr (Some b, rest)"
proof -
  have "take 8 (record_bytes b @ rest) = len_bytes (encode_block b)" "drop 8 (record_bytes b @ rest) = encode_block b @ rest"
    by (simp_all add: record_bytes_def)
  moreover have "\<not> length (record_bytes b @ rest) < 8" by (simp add: record_bytes_def)
  ultimately show ?thesis
    using len_prefix [OF assms] assms encode_block_nonempty [of b]
    by (simp add: read_record_def Let_def storable_def read_array_append decode_block_enc)
qed

text \<open>A record cut short: unnoticed inside the length, refused inside the body.\<close>

lemma read_record_torn:
  assumes "storable b" "n < length (record_bytes b)"
  shows "read_record (take n (record_bytes b)) = (if n < 8 then Inr (None, []) else Inl Truncated)"
proof (cases "n < 8")
  case True
  then show ?thesis using assms(2) by (simp add: read_record_def)
next
  case False
  let ?r = "take n (record_bytes b)"
  have l: "length ?r = n" using assms(2) by simp
  have "take 8 ?r = len_bytes (encode_block b)" "drop 8 ?r = take (n - 8) (encode_block b)"
    using False by (simp_all add: record_bytes_def min_def)
  moreover have "length (encode_block b) > n - 8" using assms(2) False by (simp add: record_bytes_def)
  ultimately show ?thesis
    using False l len_prefix [OF assms(1)] assms(1) encode_block_nonempty [of b]
    by (simp add: read_record_def Let_def storable_def read_array_def)
qed

section \<open>Opening\<close>

lemma open_loop_records:
  assumes "list_all storable bs"
  shows "open_loop C l (concat (map record_bytes bs) @ rest) =
    (case replay_ledger C l bs of
       None \<Rightarrow> None | Some (Inl e) \<Rightarrow> Some (Inl (Replay e)) | Some (Inr l') \<Rightarrow> open_loop C l' rest)"
  using assms
proof (induction bs arbitrary: l)
  case (Cons b bs)
  have step: "read_record (concat (map record_bytes (b # bs)) @ rest) = Inr (Some b, concat (map record_bytes bs) @ rest)"
    using read_record_bytes [of b "concat (map record_bytes bs) @ rest"] Cons.prems by simp
  have IH: "open_loop C l' (concat (map record_bytes bs) @ rest) =
    (case replay_ledger C l' bs of None \<Rightarrow> None | Some (Inl e) \<Rightarrow> Some (Inl (Replay e)) | Some (Inr l') \<Rightarrow> open_loop C l' rest)" for l'
    using Cons.IH Cons.prems by simp
  show ?case
    unfolding open_loop.simps [of C l "concat (map record_bytes (b # bs)) @ rest"] step
    by (simp add: IH split: option.split sum.split)
qed simp

lemma open_loop_end: "length bs < 8 \<Longrightarrow> open_loop C l bs = Some (Inr l)"
  by (simp add: open_loop.simps [of C l bs] read_record_def)

lemma open_loop_refused: "read_record bs = Inl e \<Longrightarrow> open_loop C l bs = Some (Inl e)"
  by (simp add: open_loop.simps [of C l bs])

lemma store_open_log:
  assumes "storable gen" "list_all storable bs"
  shows "store_open C (log_bytes sub k (gen # bs) @ rest) =
    (case rebuild_ledger C k sub gen bs of
       None \<Rightarrow> None | Some (Inl e) \<Rightarrow> Some (Inl (Replay e)) | Some (Inr l) \<Rightarrow> open_loop C l rest)"
proof -
  have m: "read_array Truncated 4 (STORE_MAGIC @ r) = Inr (STORE_MAGIC, r)" for r
    by (rule read_array_append) (simp add: STORE_MAGIC_def)
  have g: "read_record (record_bytes gen @ concat (map record_bytes bs) @ rest) = Inr (Some gen, concat (map record_bytes bs) @ rest)"
    by (rule read_record_bytes [OF assms(1)])
  show ?thesis
    by (simp add: store_open_def log_bytes_def m codec_simps g rebuild_ledger_def open_loop_records [OF assms(2)]
        split: sum.split option.split bind_split)
qed

section \<open>A log beside its ledger\<close>

text \<open>
  \<open>logged C file l\<close>: the file was created from a ledger and has since been given every inserted
  block; this is how the node uses the store.
\<close>

inductive logged :: "('sk, 'vk) crypto \<Rightarrow> byte list \<Rightarrow> ledger \<Rightarrow> bool" for C where
  log_create: "ledger_reachable C l \<Longrightarrow> store_create l = Some (Inr file) \<Longrightarrow> logged C file l"
| log_insert: "logged C file l \<Longrightarrow> dag_len (ledger_dag l) < ROOT_CAPACITY \<Longrightarrow> machine_sized ps txs \<Longrightarrow>
    ledger_insert C l ps w ts n txs = Some (Inr (i, l')) \<Longrightarrow> dag_block (ledger_dag l') i = Some b \<Longrightarrow>
    store_append file b = Inr file' \<Longrightarrow> logged C file' l'"

definition log_of :: "('sk, 'vk) crypto \<Rightarrow> byte list \<Rightarrow> ledger \<Rightarrow> bool" where
  "log_of C file l \<longleftrightarrow>
     (\<exists>gen bs l'. file = log_bytes (subsidy l) (dag_k (ledger_dag l)) (gen # bs) \<and> list_all storable (gen # bs)
        \<and> rebuild_ledger C (dag_k (ledger_dag l)) (subsidy l) gen bs = Some (Inr l')
        \<and> plain_part C l l' \<and> ids (ledger_dag l') = ids (ledger_dag l))"

lemma write_record_Inr: "wf_block b \<Longrightarrow> write_record b = Inr r \<longleftrightarrow> storable b \<and> r = record_bytes b"
  by (auto simp: write_record_def storable_def record_bytes_def Let_def)

lemma write_records_Inr:
  "list_all wf_block bs \<Longrightarrow> write_records bs = Inr r \<longleftrightarrow> list_all storable bs \<and> r = concat (map record_bytes bs)"
  by (induction bs arbitrary: r) (auto simp: rbind_eq_Inr write_record_Inr)

lemma log_bytes_snoc: "log_bytes s k bs @ record_bytes b = log_bytes s k (bs @ [b])"
  by (simp add: log_bytes_def)

lemma replay_ledger_append:
  "replay_ledger C l bs = Some (Inr l') \<Longrightarrow> replay_ledger C l (bs @ cs) = replay_ledger C l' cs"
  by (induction bs arbitrary: l) (auto split: sum.splits bind_splits)

lemma rebuild_ledger_append:
  "rebuild_ledger C k s gen bs = Some (Inr l') \<Longrightarrow> rebuild_ledger C k s gen (bs @ cs) = replay_ledger C l' cs"
  by (auto simp: rebuild_ledger_def replay_ledger_append split: sum.splits bind_splits)

lemma store_create_log:
  assumes "ledger_inv C l"
  shows "\<exists>xs. linearize (ledger_dag l) = Some (genesis (ledger_dag l) # xs)
    \<and> (\<forall>file. store_create l = Some (Inr file) \<longleftrightarrow>
         list_all storable (map (\<lambda>x. node_block (nd (ledger_dag l) x)) (genesis (ledger_dag l) # xs))
       \<and> file = log_bytes (subsidy l) (dag_k (ledger_dag l)) (map (\<lambda>x. node_block (nd (ledger_dag l) x)) (genesis (ledger_dag l) # xs)))"
proof -
  let ?d = "ledger_dag l" and ?blk = "\<lambda>x. node_block (nd (ledger_dag l) x)"
  note I = ledger_invD [OF assms]
  obtain xs where xs: "linearize ?d = Some (genesis ?d # xs)" "list_all wf_block (map ?blk (genesis ?d # xs))"
      "set (genesis ?d # xs) = ids ?d"
    using write_snapshot_eq [OF I(1,4)] by blast
  have "those (map (dag_block ?d) ys) = Some (map ?blk ys)" if "set ys \<subseteq> ids ?d" for ys
    using that by (induction ys) (auto simp: dag_block_def nd_lookup)
  then have "those (map (dag_block ?d) (genesis ?d # xs)) = Some (map ?blk (genesis ?d # xs))" using xs(3) by blast
  then have "store_create l = Some (Inr f) \<longleftrightarrow> list_all storable (map ?blk (genesis ?d # xs))
       \<and> f = log_bytes (subsidy l) (dag_k ?d) (map ?blk (genesis ?d # xs))" for f
    using xs(1) write_records_Inr [OF xs(2)] by (auto simp: store_create_def log_bytes_def rbind_eq_Inr)
  then show ?thesis using xs(1) by blast
qed

lemma log_of_create:
  assumes "ledger_inv C l" "store_create l = Some (Inr file)"
  shows "log_of C file l"
proof -
  let ?d = "ledger_dag l" and ?blk = "\<lambda>x. node_block (nd (ledger_dag l) x)"
  obtain xs where xs: "linearize ?d = Some (genesis ?d # xs)" "list_all storable (map ?blk (genesis ?d # xs))"
      "file = log_bytes (subsidy l) (dag_k ?d) (map ?blk (genesis ?d # xs))"
    using store_create_log [OF assms(1)] assms(2) by blast
  from rebuild_ok [OF assms(1) xs(1)] xs(2,3) show ?thesis unfolding log_of_def list.map by blast
qed

lemma log_of_append:
  assumes "log_of C file l" "ledger_inv C l" "Suc (card (ids (ledger_dag l))) \<le> ROOT_CAPACITY" "machine_sized ps txs"
    and "ledger_insert C l ps w ts n txs = Some (Inr (i, l2))" "dag_block (ledger_dag l2) i = Some b" "store_append file b = Inr file2"
  shows "log_of C file2 l2"
proof -
  let ?d = "ledger_dag l" and ?d2 = "ledger_dag l2" and ?b = "block_new ps w ts n (encode_block_payload txs)"
  note R = ledger_insert_InrD [OF assms(2-5)]
  note I = ledger_invD [OF assms(2)]
  note W = ledger_insert_stored [OF assms(2-5)]
  have b: "b = ?b" using assms(6) W(3) by simp
  have nb: "node_block (nd ?d2 i) = b" using assms(6) W(2) by (simp add: dag_block_def nd_lookup)
  obtain gen bs l' where L: "file = log_bytes (subsidy l) (dag_k ?d) (gen # bs)" "list_all storable (gen # bs)"
      "rebuild_ledger C (dag_k ?d) (subsidy l) gen bs = Some (Inr l')" "plain_part C l l'" "ids (ledger_dag l') = ids ?d"
    using assms(1) by (auto simp: log_of_def)
  have P: "plain_part C l2 l'" using L(4,5) R(4) W unfolding plain_part_def by auto
  have G: "graph_ok ?d2" using wf_dagD(1) [OF ledger_invD(1) [OF R(2)]] .
  have "past ?d2 i \<subseteq> ids ?d"
    using past_subset [OF G, of i] anc_irrefl [OF G, of i] W(2) by (auto simp: past_def)
  then obtain txs' l3 where S: "decode_block_payload (payload b) = Inr txs'"
      "ledger_insert C l' (parents b) (work b) (timestamp_ms b) (nonce b) txs' = Some (Inr (i, l3))"
      "plain_part C l2 l3" "ids (ledger_dag l3) = insert i (ids ?d)"
    using replay_step [OF R(2) P, of i] W(1,2) L(5) assms(3) nb by auto
  have "wf_block b" unfolding b using assms(4) by (simp add: machine_sized_def wf_block_new)
  then have "storable b" "file2 = log_bytes (subsidy l) (dag_k ?d) (gen # bs @ [b])"
    using assms(7) L(1) log_bytes_snoc [of _ _ "gen # bs" b] by (auto simp: store_append_def rbind_eq_Inr write_record_Inr)
  moreover have "rebuild_ledger C (dag_k ?d) (subsidy l) gen (bs @ [b]) = Some (Inr l3)"
    using rebuild_ledger_append [OF L(3), of "[b]"] S(1,2) by simp
  ultimately show ?thesis
    using L(2) S(3,4) W(2,6) R(4) unfolding log_of_def by (intro exI [of _ gen] exI [of _ "bs @ [b]"] exI [of _ l3]) simp
qed

lemma logged_ok: "logged C file l \<Longrightarrow> ledger_reachable C l \<and> log_of C file l"
proof (induction rule: logged.induct)
  case (log_create l f)
  then show ?case using log_of_create [OF ledger_reachable_inv] by blast
next
  case (log_insert f l ps txs w ts n i l' b f')
  have L: "ledger_reachable C l" "log_of C f l" using log_insert.IH by blast+
  have "Suc (card (ids (ledger_dag l))) \<le> ROOT_CAPACITY" using log_insert.hyps(2) by (simp add: dag_len_ids)
  from log_of_append [OF L(2) ledger_reachable_inv [OF L(1)] this log_insert.hyps(3-6)]
    reach_insert [OF L(1) log_insert.hyps(2-4)] show ?case by blast
qed

lemma log_of_open:
  assumes "log_of C file l"
  shows "\<exists>l'. (\<forall>rest. store_open C (file @ rest) = open_loop C l' rest) \<and> plain_part C l l' \<and> ids (ledger_dag l') = ids (ledger_dag l)"
  using assms by (auto simp: log_of_def store_open_log)

text \<open>
  C26: recovery: opening a log that was created from a ledger and then given every inserted block
  rebuilds that ledger: the same blocks, subsidy and total order, every block's state, and
  the current state of a run over the original DAG.
\<close>

theorem store_recovers:
  assumes "logged C file l"
  shows "\<exists>l' run. store_open C file = Some (Inr l') \<and> subsidy l' = subsidy l
    \<and> dag_block (ledger_dag l') = dag_block (ledger_dag l) \<and> linearize (ledger_dag l') = linearize (ledger_dag l)
    \<and> (\<forall>x \<in> ids (ledger_dag l). ledger_view l' x = Some (view_state C (subsidy l) (ledger_dag l) x))
    \<and> apply_dag C (ledger_dag l) (subsidy l) = Some run \<and> ledger_state C l' = Some (run_utxo run)"
proof -
  have L: "ledger_inv C l" "log_of C file l" using logged_ok [OF assms] ledger_reachable_inv by auto
  obtain l' where "store_open C (file @ []) = open_loop C l' []" "plain_part C l l'" "ids (ledger_dag l') = ids (ledger_dag l)"
    using log_of_open [OF L(2)] by blast
  then show ?thesis using rebuilt_same [OF L(1), of l'] by (auto simp: open_loop_end)
qed

lemma demo_log:
  "\<exists>file l. logged clock_crypto file l \<and> ids (ledger_dag l) = {BlockId 0, BlockId 1}
     \<and> dag_block (ledger_dag l) (BlockId 1) = Some (empty_block (BlockId 0) 1 1)"
proof -
  let ?C = clock_crypto and ?g = "block_genesis 1 0 0 (encode_block_payload [])" and ?b = "empty_block (BlockId 0) 1 1"
  obtain l l' where l: "ledger_new ?C 3 50 [] = Some (Inr l)" "ledger_reachable ?C l" "ids (ledger_dag l) = {BlockId 0}"
      "ledger_insert ?C l [BlockId 0] 1 1 0 [] = Some (Inr (BlockId 1, l'))" "ids (ledger_dag l') = {BlockId 0, BlockId 1}"
    using demo_ledger by blast
  have sz: "machine_sized [BlockId 0] []" by (rule nothing_sized) simp
  note inv = ledger_reachable_inv [OF l(2)]
  have cap: "dag_len (ledger_dag l) < ROOT_CAPACITY" by (simp add: dag_len_ids l(3) ROOT_CAPACITY_def u64_max_def)
  have gen: "node_block (nd (ledger_dag l) (genesis (ledger_dag l))) = ?g" "ids (ledger_dag l) = {genesis (ledger_dag l)}"
    using ledger_new_ok [of "[]" ?C 3 50] l(1) sz by (auto simp: machine_sized_def)
  have st: "storable ?g" "storable ?b"
    by (simp_all add: storable_def wf_block_def encode_block_def block_genesis_def empty_block_def block_new_def
        encode_block_payload_def MAX_RECORD_def)
  obtain xs where xs: "linearize (ledger_dag l) = Some (genesis (ledger_dag l) # xs)"
      "\<And>f. store_create l = Some (Inr f) \<longleftrightarrow>
         list_all storable (map (\<lambda>x. node_block (nd (ledger_dag l) x)) (genesis (ledger_dag l) # xs))
       \<and> f = log_bytes (subsidy l) (dag_k (ledger_dag l)) (map (\<lambda>x. node_block (nd (ledger_dag l) x)) (genesis (ledger_dag l) # xs))"
    using store_create_log [OF inv] by blast
  have "set (genesis (ledger_dag l) # xs) = ids (ledger_dag l)" "distinct (genesis (ledger_dag l) # xs)"
    using linearize_ok [OF ledger_invD(1) [OF inv]] xs(1) by auto
  then have "xs = []" using gen(2) by (cases xs) auto
  then obtain f where f: "store_create l = Some (Inr f)" using xs(2) gen(1) st(1) by auto
  have c: "Suc (card (ids (ledger_dag l))) \<le> ROOT_CAPACITY" using cap by (simp add: dag_len_ids)
  have b: "dag_block (ledger_dag l') (BlockId 1) = Some ?b"
    using ledger_insert_stored(3) [OF inv c sz l(4)] by (simp add: empty_block_def)
  have "store_append f ?b = Inr (f @ record_bytes ?b)" using st(2) by (simp add: store_append_def write_record_storable)
  from log_insert [OF log_create [OF l(2) f] cap sz l(4) b this] l(5) b show ?thesis by blast
qed

theorem store_recovers_witness:
  "\<exists>file l l'. ids (ledger_dag l) = {BlockId 0, BlockId 1} \<and> logged clock_crypto file l
     \<and> store_open clock_crypto file = Some (Inr l') \<and> dag_block (ledger_dag l') = dag_block (ledger_dag l)"
proof -
  obtain f l where l: "logged clock_crypto f l" "ids (ledger_dag l) = {BlockId 0, BlockId 1}" using demo_log by blast
  from store_recovers [OF l(1)] l show ?thesis by blast
qed

text \<open>
  C37: a record that was only partly written: cut inside its body the log is refused as truncated, cut
  inside its length it opens as if the record had never been started.
\<close>

theorem store_torn_tail:
  assumes "logged C file l" "wf_block b" "store_append file b = Inr file'" "length file \<le> n" "n < length file'"
  shows "store_open C (take n file') = (if n < length file + 8 then store_open C file else Some (Inl Truncated))"
proof -
  have b: "storable b" "file' = file @ record_bytes b"
    using assms(2,3) by (auto simp: store_append_def rbind_eq_Inr write_record_Inr)
  obtain l' where o: "\<And>rest. store_open C (file @ rest) = open_loop C l' rest"
    using log_of_open logged_ok [OF assms(1)] by blast
  have t: "take n file' = file @ take (n - length file) (record_bytes b)" using assms(4) b(2) by simp
  have "n - length file < length (record_bytes b)" using assms(4,5) b(2) by simp
  note torn = read_record_torn [OF b(1) this]
  show ?thesis
  proof (cases "n < length file + 8")
    case True
    then have "open_loop C l' (take (n - length file) (record_bytes b)) = Some (Inr l')" using assms(4) by (intro open_loop_end) auto
    then show ?thesis using True o [of "[]"] by (simp add: t o open_loop_end)
  next
    case False
    then show ?thesis using torn by (simp add: t o open_loop_refused)
  qed
qed

theorem store_torn_tail_witness:
  "\<exists>file l. logged clock_crypto file l \<and> store_open clock_crypto (file @ take 7 (record_bytes (block_genesis 1 0 9 [])))
     = store_open clock_crypto file
   \<and> store_open clock_crypto (file @ take 8 (record_bytes (block_genesis 1 0 9 []))) = Some (Inl Truncated)"
proof -
  let ?b = "block_genesis 1 0 9 []"
  obtain f l where l: "logged clock_crypto f l" using demo_log by blast
  have b: "wf_block ?b" "storable ?b"
    by (simp_all add: storable_def wf_block_def encode_block_def block_genesis_def block_new_def MAX_RECORD_def)
  have a: "store_append f ?b = Inr (f @ record_bytes ?b)" using b(2) by (simp add: store_append_def write_record_storable)
  have len: "8 < length (record_bytes ?b)" using encode_block_nonempty [of ?b] by (simp add: record_bytes_def)
  from store_torn_tail [OF l b(1) a, of "length f + 7"] store_torn_tail [OF l b(1) a, of "length f + 8"] l len
  show ?thesis by auto
qed

end
