(* ===== verification/Messages.thy ===== *)
theory Messages
  imports Store
begin

text \<open>
  The \<open>Display\<close> renderings of the errors of the DAG and state layers.  The node puts them into
  its own errors (\<open>NodeError::Snapshot(e.to_string())\<close> and the like), so they are part of what it
  returns.
\<close>

definition display_block_id :: "block_id \<Rightarrow> string" where
  "display_block_id i = to_hex (as_bytes i)"

definition display_tx_id :: "tx_id \<Rightarrow> string" where
  "display_tx_id i = to_hex (tx_id_bytes i)"

definition display_address :: "address \<Rightarrow> string" where
  "display_address a = to_hex (address_bytes a)"

definition display_word :: "'a::len word \<Rightarrow> string" where
  "display_word w = decimal (unat w)"

fun display_dag_error :: "dag_error \<Rightarrow> string" where
  "display_dag_error (DuplicateBlock i) = ''duplicate block '' @ display_block_id i"
| "display_dag_error (MissingParent i) = ''missing parent '' @ display_block_id i"
| "display_dag_error (NoParents i) = ''non-genesis block '' @ display_block_id i @ '' has no parents''"
| "display_dag_error GenesisAlreadySet = ''genesis already set''"
| "display_dag_error (InvalidBlock i reason) =
     ''block '' @ display_block_id i @ '' rejected by validator: '' @ reason"
| "display_dag_error (DifficultyMismatch i expected actual) =
     ''block '' @ display_block_id i @ '' has work '' @ display_word actual
     @ '', but difficulty requires '' @ display_word expected"
| "display_dag_error (NonMonotonicTimestamp i ts parent_ts) =
     ''block '' @ display_block_id i @ '' timestamp '' @ display_word ts
     @ ''ms precedes parent timestamp '' @ display_word parent_ts @ ''ms''"
| "display_dag_error (InsufficientProofOfWork i w) =
     ''block '' @ display_block_id i @ '' does not meet its proof-of-work target for work '' @ display_word w"

fun display_snapshot_error :: "snapshot_error \<Rightarrow> string" where
  "display_snapshot_error snapshot_error.BadMagic = ''not a kovanica DAG snapshot''"
| "display_snapshot_error (snapshot_error.UnsupportedVersion v) = ''unsupported snapshot version '' @ display_word v"
| "display_snapshot_error snapshot_error.UnexpectedEof = ''unexpected end of snapshot''"
| "display_snapshot_error snapshot_error.TrailingBytes = ''trailing bytes after snapshot''"
| "display_snapshot_error (snapshot_error.Rebuild e) = ''replaying snapshot failed: '' @ display_dag_error e"

fun display_ledger_error :: "ledger_error \<Rightarrow> string" where
  "display_ledger_error (MissingInput op) = ''missing/spent input '' @ debug_out_point op"
| "display_ledger_error (ledger_error.DuplicateInput op) = ''duplicate input '' @ debug_out_point op"
| "display_ledger_error (OutputAlreadyExists op) = ''output already exists '' @ debug_out_point op"
| "display_ledger_error (BadSignature t i) =
     ''bad signature on input '' @ decimal i @ '' of '' @ display_tx_id t"
| "display_ledger_error (ValueNotConserved t i out) =
     ''value not conserved in '' @ display_tx_id t @ '': in '' @ display_word i @ '' < out '' @ display_word out"
| "display_ledger_error ledger_error.ValueOverflow = ''value sum overflowed''"
| "display_ledger_error (EmptyTransaction t) = ''empty transaction '' @ display_tx_id t"
| "display_ledger_error (ledger_error.ZeroValueOutput t) = ''zero-value output in '' @ display_tx_id t"
| "display_ledger_error (ledger_error.MisplacedCoinbase t) = ''misplaced coinbase '' @ display_tx_id t"
| "display_ledger_error (CoinbaseOverspend claimed allowed) =
     ''coinbase overspend: claimed '' @ display_word claimed @ '' > allowed '' @ display_word allowed"
| "display_ledger_error (ledger_error.Payload e) = ''payload decode: '' @ display_decode_error e"

fun display_insert_error :: "ledger_insert_error \<Rightarrow> string" where
  "display_insert_error (Dag e) = ''dag rejected block: '' @ display_dag_error e"
| "display_insert_error (State e) = ''invalid block state: '' @ display_ledger_error e"
| "display_insert_error (Finality p f) =
     ''finality violation: selected parent blue score '' @ decimal p @ '' < finality '' @ decimal f"

fun display_ledger_snapshot_error :: "ledger_snapshot_error \<Rightarrow> string" where
  "display_ledger_snapshot_error ledger_snapshot_error.BadMagic = ''not a kovanica ledger snapshot''"
| "display_ledger_snapshot_error (ledger_snapshot_error.UnsupportedVersion v) =
     ''unsupported ledger snapshot version '' @ display_word v"
| "display_ledger_snapshot_error (SnapshotDag e) = ''dag snapshot: '' @ display_snapshot_error e"
| "display_ledger_snapshot_error (ledger_snapshot_error.Payload e) = ''payload decode: '' @ display_decode_error e"
| "display_ledger_snapshot_error (Genesis e) = ''genesis: '' @ display_ledger_error e"
| "display_ledger_snapshot_error (ledger_snapshot_error.Rebuild e) = ''replaying block: '' @ display_insert_error e"
| "display_ledger_snapshot_error Empty = ''snapshot has no genesis block''"

fun display_store_error :: "store_error \<Rightarrow> string" where
  "display_store_error (Io e) = ''io: '' @ e"
| "display_store_error store_error.BadMagic = ''not a kovanica ledger log''"
| "display_store_error (store_error.UnsupportedVersion v) = ''unsupported log version '' @ display_word v"
| "display_store_error Truncated = ''truncated ledger log''"
| "display_store_error (Block e) = ''block: '' @ display_snapshot_error e"
| "display_store_error (Replay e) = ''replay: '' @ display_ledger_snapshot_error e"

end
