(* ===== verification/Mempool.thy ===== *)
theory Mempool
  imports Utxo
begin

text \<open>
  \<open>crates/kovanica-node/src/mempool.rs\<close>: the pending transactions, a \<open>HashMap\<close> keyed by id, with
  the operations the node calls and the laws of the pool.
\<close>

type_synonym mempool = "(tx_id, transaction) fmap"

definition mempool_new :: mempool where
  "mempool_new = fmempty"

text \<open>The pool after the call and the flag it returns.\<close>

definition mempool_add :: "('sk, 'vk) crypto \<Rightarrow> mempool \<Rightarrow> transaction \<Rightarrow> mempool \<times> bool" where
  "mempool_add C p tx =
     (let i = tx_ident C tx in
      if i |\<in>| fmdom p then (p, False) else (fmupd i tx p, True))"

definition mempool_contains :: "mempool \<Rightarrow> tx_id \<Rightarrow> bool" where
  "mempool_contains p i \<longleftrightarrow> i |\<in>| fmdom p"

definition mempool_get :: "mempool \<Rightarrow> tx_id \<Rightarrow> transaction option" where
  "mempool_get p i = fmlookup p i"

definition mempool_len :: "mempool \<Rightarrow> nat" where
  "mempool_len p = fcard (fmdom p)"

definition mempool_is_empty :: "mempool \<Rightarrow> bool" where
  "mempool_is_empty p \<longleftrightarrow> fmdom p = {||}"

text \<open>The values of the map (in the order of their keys) sorted by id with a stable sort.\<close>

definition mempool_ordered :: "('sk, 'vk) crypto \<Rightarrow> mempool \<Rightarrow> transaction list" where
  "mempool_ordered C p = sort_key (tx_ident C) (map snd (sorted_list_of_fmap p))"

fun remove_all :: "mempool \<Rightarrow> tx_id list \<Rightarrow> mempool" where
  "remove_all p [] = p"
| "remove_all p (i # rest) = remove_all (fmdrop i p) rest"

definition evict_invalid :: "mempool \<Rightarrow> utxo_set \<Rightarrow> mempool \<times> nat" where
  "evict_invalid p u =
     (let p' = fmfilter (\<lambda>i. list_all (\<lambda>inp. utxo_contains u (outpoint inp)) (inputs (the (fmlookup p i)))) p
      in (p', mempool_len p - mempool_len p'))"

section \<open>The invariant\<close>

text \<open>Every transaction is stored under its own id, and none is a coinbase.\<close>

definition pool_ok :: "('sk, 'vk) crypto \<Rightarrow> mempool \<Rightarrow> bool" where
  "pool_ok C p \<longleftrightarrow> (\<forall>i tx. fmlookup p i = Some tx \<longrightarrow> i = tx_ident C tx \<and> \<not> is_coinbase tx)"

lemma pool_okD: "pool_ok C p \<Longrightarrow> fmlookup p i = Some tx \<Longrightarrow> i = tx_ident C tx \<and> \<not> is_coinbase tx"
  by (simp add: pool_ok_def)

lemma pool_ok_new: "pool_ok C mempool_new"
  by (simp add: pool_ok_def mempool_new_def)

lemma pool_ok_add: "pool_ok C p \<Longrightarrow> \<not> is_coinbase tx \<Longrightarrow> pool_ok C (fst (mempool_add C p tx))"
  by (auto simp: pool_ok_def mempool_add_def Let_def)

lemma remove_all_lookup: "fmlookup (remove_all p is) i = (if i \<in> set is then None else fmlookup p i)"
  by (induction "is" arbitrary: p) auto

lemma pool_ok_remove_all: "pool_ok C p \<Longrightarrow> pool_ok C (remove_all p is)"
  by (auto simp: pool_ok_def remove_all_lookup split: if_splits)

lemma evict_lookup:
  "fmlookup (fst (evict_invalid p u)) i = Some tx \<longleftrightarrow>
     fmlookup p i = Some tx \<and> (\<forall>inp \<in> set (inputs tx). utxo_contains u (outpoint inp))"
  by (auto simp: evict_invalid_def Let_def list_all_iff)

lemma pool_ok_evict: "pool_ok C p \<Longrightarrow> pool_ok C (fst (evict_invalid p u))"
  by (auto simp: pool_ok_def evict_lookup)

lemma pool_values: "set (map snd (sorted_list_of_fmap p)) = {tx. \<exists>i. fmlookup p i = Some tx}"
proof -
  have "set (map snd (sorted_list_of_fmap p)) = (\<lambda>i. the (fmlookup p i)) ` fset (fmdom p)"
    by (simp add: sorted_list_of_fmap_def image_image)
  also have "\<dots> = {tx. \<exists>i. fmlookup p i = Some tx}" by (force simp: fmlookup_dom_iff image_iff)
  finally show ?thesis .
qed

lemma set_mempool_ordered: "set (mempool_ordered C p) = {tx. \<exists>i. fmlookup p i = Some tx}"
  unfolding mempool_ordered_def set_sort pool_values ..

text \<open>The pool hands its transactions out once each, in increasing order of their ids.\<close>

lemma mempool_ordered_ids:
  assumes "pool_ok C p"
  shows "map (tx_ident C) (mempool_ordered C p) = sorted_list_of_fset (fmdom p)"
proof -
  have m: "map (tx_ident C \<circ> snd) (sorted_list_of_fmap p) = sorted_list_of_fset (fmdom p)"
    unfolding sorted_list_of_fmap_def map_map comp_def
    by (rule map_idI) (use assms pool_okD in \<open>fastforce simp: fmlookup_dom_iff\<close>)
  have "sorted (map (tx_ident C) (map snd (sorted_list_of_fmap p)))" unfolding map_map m sorted_list_of_fset.rep_eq by simp
  then have "mempool_ordered C p = map snd (sorted_list_of_fmap p)"
    unfolding mempool_ordered_def by (simp add: sort_key_id_if_sorted)
  then show ?thesis using m by simp
qed

end
