(* ===== verification/Node.thy ===== *)
theory Node
  imports Messages Mempool
begin

text \<open>
  \<open>crates/kovanica-node/src/node.rs\<close>: the node.  An operation returns \<open>None\<close> where the source
  panics, \<open>Some (Inl e)\<close> where it returns an error (every error path of the source returns
  before it changes the node), and \<open>Some (Inr (result, node))\<close> otherwise.  The wall clock is an
  argument: \<open>wall\<close> is what \<open>SystemTime::now()\<close> reads at the call, in milliseconds.  A file is its
  bytes; failures of the operating system are not modelled.  The two unchecked additions
  (\<open>latest + 1\<close> and the sums of amounts) wrap, as they do in a release build.
\<close>

definition MAX_FUTURE_DRIFT_MS :: u64 where
  "MAX_FUTURE_DRIFT_MS = 2 * 60 * 60 * 1000"

definition HALVING_ERA :: u64 where
  "HALVING_ERA = 1000"

definition MIN_FEE_DIVISOR :: u64 where
  "MIN_FEE_DIVISOR = 500000"

datatype clock = Wall | Fixed u64

datatype node_error =
    NotInitialized
  | AlreadyInitialized
  | ZeroAmount
  | InsufficientFunds
  | UnexpectedCoinbase
  | NodeBadSignature
  | NodeLedger ledger_error
  | Insert ledger_insert_error
  | NodeIo string
  | NodeSnapshot string
  | TimestampTooFarInFuture u64 u64

text \<open>The dash of the first message is the three UTF-8 bytes \<open>E2 80 94\<close>.\<close>

fun display_node_error :: "node_error \<Rightarrow> string" where
  "display_node_error NotInitialized =
     ''no ledger yet '' @ [CHR 0xE2, CHR 0x80, CHR 0x94] @ '' run `genesis` first''"
| "display_node_error AlreadyInitialized = ''already initialised''"
| "display_node_error ZeroAmount = ''amount must be non-zero''"
| "display_node_error InsufficientFunds = ''no single output covers the amount plus fee''"
| "display_node_error UnexpectedCoinbase = ''coinbase transactions are not accepted''"
| "display_node_error NodeBadSignature = ''bad spend signature''"
| "display_node_error (NodeLedger e) = ''genesis invalid: '' @ display_ledger_error e"
| "display_node_error (Insert e) = display_insert_error e"
| "display_node_error (NodeIo e) = ''io error: '' @ e"
| "display_node_error (NodeSnapshot e) = ''bad snapshot: '' @ e"
| "display_node_error (TimestampTooFarInFuture ts now) =
     ''block timestamp '' @ display_word ts @ ''ms is more than '' @ display_word MAX_FUTURE_DRIFT_MS
     @ ''ms ahead of local time '' @ display_word now @ ''ms''"

record sent =
  sent_block :: block_id
  sent_tx :: tx_id

record prepared =
  prep_tx :: transaction
  prep_sighash :: "byte list"
  prep_outpoint :: out_point
  prep_value :: u64
  prep_fee :: u64

record block_record =
  rec_parents :: "block_id list"
  rec_work :: u128
  rec_timestamp_ms :: u64
  rec_nonce :: u64
  rec_txs :: "transaction list"

record node_state =
  node_ledger :: "ledger option"
  node_mempool :: mempool
  node_clock :: clock
  node_miner :: "address option"

section \<open>Clock, policy and queries\<close>

definition node_new :: node_state where
  "node_new = \<lparr>node_ledger = None, node_mempool = mempool_new, node_clock = Wall, node_miner = None\<rparr>"

definition now_ms :: "u64 \<Rightarrow> node_state \<Rightarrow> u64" where
  "now_ms wall n = (case node_clock n of Wall \<Rightarrow> wall | Fixed t \<Rightarrow> t)"

definition set_now_ms :: "node_state \<Rightarrow> u64 \<Rightarrow> node_state" where
  "set_now_ms n t = n\<lparr>node_clock := Fixed t\<rparr>"

text \<open>\<open>Iterator::max\<close> on timestamps.\<close>

fun max_stamp :: "u64 list \<Rightarrow> u64 option" where
  "max_stamp [] = None"
| "max_stamp (t # ts) = Some (fold max ts t)"

definition next_timestamp :: "u64 \<Rightarrow> node_state \<Rightarrow> dag \<Rightarrow> block_id list \<Rightarrow> u64" where
  "next_timestamp wall n d ps =
     (let low = (case max_stamp (List.map_filter (\<lambda>p. map_option timestamp_ms (dag_block d p)) ps) of
                     None \<Rightarrow> 0 | Some latest \<Rightarrow> latest + 1)
      in max (now_ms wall n) low)"

definition mine_nonce :: "digest \<Rightarrow> dag \<Rightarrow> block_id list \<Rightarrow> u128 \<Rightarrow> u64 \<Rightarrow> transaction list \<Rightarrow> u64 option" where
  "mine_nonce H d ps w ts txs =
     (if \<not> require_pow d then Some 0
      else map_option nonce (mine H (block_new ps w ts 0 (encode_block_payload txs))))"

definition ledger_of :: "node_state \<Rightarrow> node_error + ledger" where
  "ledger_of n = (case node_ledger n of None \<Rightarrow> Inl NotInitialized | Some l \<Rightarrow> Inr l)"

definition node_set_proof_of_work :: "node_state \<Rightarrow> bool \<Rightarrow> node_error + node_state" where
  "node_set_proof_of_work n enabled =
     rbind (ledger_of n) (\<lambda>l. Inr (n\<lparr>node_ledger := Some (ledger_set_proof_of_work l enabled)\<rparr>))"

definition node_proof_of_work :: "node_state \<Rightarrow> bool" where
  "node_proof_of_work n = (case ledger_of n of Inl _ \<Rightarrow> False | Inr l \<Rightarrow> require_pow (ledger_dag l))"

definition is_initialized :: "node_state \<Rightarrow> bool" where
  "is_initialized n \<longleftrightarrow> node_ledger n \<noteq> None"

definition node_address :: "('sk, 'vk) crypto \<Rightarrow> u64 \<Rightarrow> address" where
  "node_address C seed = key_address C (from_u64 C seed)"

definition GENESIS_TAG :: "byte list" where
  "GENESIS_TAG = [0x67, 0x65, 0x6E, 0x65, 0x73, 0x69, 0x73]"

definition node_genesis ::
    "('sk, 'vk) crypto \<Rightarrow> node_state \<Rightarrow> u16 \<Rightarrow> u64 \<Rightarrow> u64 \<Rightarrow> u64
     \<Rightarrow> (node_error + (block_id \<times> address) \<times> node_state) option" where
  "node_genesis C n k sub amount founder_seed =
     (if node_ledger n \<noteq> None then Some (Inl AlreadyInitialized)
      else do {
        let founder = node_address C founder_seed;
        let cb = coinbase [\<lparr>out_value = amount, owner = founder\<rparr>] GENESIS_TAG;
        res \<leftarrow> ledger_new C k sub [cb];
        Some (case res of
          Inl e \<Rightarrow> Inl (NodeLedger e)
        | Inr l \<Rightarrow> Inr ((ledger_genesis l, founder), n\<lparr>node_ledger := Some l, node_miner := Some founder\<rparr>))
      })"

definition set_miner :: "node_state \<Rightarrow> address \<Rightarrow> node_state" where
  "set_miner n a = n\<lparr>node_miner := Some a\<rparr>"

definition min_fee :: "node_state \<Rightarrow> u64" where
  "min_fee n = max ((case ledger_of n of Inl _ \<Rightarrow> 1 | Inr l \<Rightarrow> subsidy l) div MIN_FEE_DIVISOR) 1"

definition issuance_at :: "u64 \<Rightarrow> u64 \<Rightarrow> u64" where
  "issuance_at cap height =
     (let era = height div HALVING_ERA in if 63 \<le> era then 0 else drop_bit (unat era) cap)"

definition issuance :: "node_state \<Rightarrow> node_error + u64" where
  "issuance n = rbind (ledger_of n) (\<lambda>l. Inr (issuance_at (subsidy l) (word_of_nat (dag_len (ledger_dag l)))))"

definition pending_txs :: "('sk, 'vk) crypto \<Rightarrow> node_state \<Rightarrow> transaction list" where
  "pending_txs C n = mempool_ordered C (node_mempool n)"

definition node_balance :: "('sk, 'vk) crypto \<Rightarrow> node_state \<Rightarrow> address \<Rightarrow> (node_error + u128) option" where
  "node_balance C n a =
     (case ledger_of n of
        Inl e \<Rightarrow> Some (Inl e)
      | Inr l \<Rightarrow> do { u \<leftarrow> ledger_state C l; Some (Inr (balance u a)) })"

definition node_tips :: "node_state \<Rightarrow> node_error + block_id list" where
  "node_tips n = rbind (ledger_of n) (\<lambda>l. Inr (tips_list (ledger_dag l)))"

definition node_selected_tip :: "node_state \<Rightarrow> (node_error + block_id) option" where
  "node_selected_tip n =
     (case ledger_of n of
        Inl e \<Rightarrow> Some (Inl e)
      | Inr l \<Rightarrow> do { t \<leftarrow> selected_tip (ledger_dag l); Some (Inr t) })"

definition block_count :: "node_state \<Rightarrow> node_error + nat" where
  "block_count n = rbind (ledger_of n) (\<lambda>l. Inr (dag_len (ledger_dag l)))"

definition pending_count :: "node_state \<Rightarrow> nat" where
  "pending_count n = mempool_len (node_mempool n)"

section \<open>Transfers\<close>

text \<open>The spendable outputs of \<open>from\<close> that cover \<open>need\<close>, the smallest first.\<close>

definition candidates :: "utxo_set \<Rightarrow> address \<Rightarrow> u64 \<Rightarrow> (out_point \<times> u64) list" where
  "candidates u from need =
     sort_key (\<lambda>(op, v). (v, op))
       (map (\<lambda>(op, out). (op, out_value out))
         (filter (\<lambda>(op, out). owner out = from \<and> need \<le> out_value out) (utxo_iter u)))"

definition prepare_transfer ::
    "('sk, 'vk) crypto \<Rightarrow> node_state \<Rightarrow> address \<Rightarrow> u64 \<Rightarrow> address \<Rightarrow> (node_error + prepared) option" where
  "prepare_transfer C n from amount to =
     (if amount = 0 then Some (Inl ZeroAmount)
      else let fee = min_fee n in
        case checked_add amount fee of
          None \<Rightarrow> Some (Inl InsufficientFunds)
        | Some need \<Rightarrow>
            (case ledger_of n of
               Inl e \<Rightarrow> Some (Inl e)
             | Inr l \<Rightarrow> do {
                 u \<leftarrow> ledger_state C l;
                 Some (case candidates u from need of
                     [] \<Rightarrow> Inl InsufficientFunds
                   | (op, v) # _ \<Rightarrow>
                       let change = v - need;
                           outs = \<lparr>out_value = amount, owner = to\<rparr>
                                  # (if 0 < change then [\<lparr>out_value = change, owner = from\<rparr>] else []);
                           tx = unsigned_tx [op] outs []
                       in Inr \<lparr>prep_tx = tx, prep_sighash = sighash C tx, prep_outpoint = op, prep_value = v, prep_fee = fee\<rparr>)
               }))"

definition build_transfer_to ::
    "('sk, 'vk) crypto \<Rightarrow> node_state \<Rightarrow> u64 \<Rightarrow> u64 \<Rightarrow> address \<Rightarrow> (node_error + transaction) option" where
  "build_transfer_to C n seed amount to =
     (if amount = 0 then Some (Inl ZeroAmount)
      else do {
        let from = from_u64 C seed;
        res \<leftarrow> prepare_transfer C n (key_address C from) amount to;
        Some (rbind res (\<lambda>p. Inr (attach_signature (prep_tx p) 0 (Sig (key_sign C from (prep_sighash p))))))
      })"

definition build_transfer ::
    "('sk, 'vk) crypto \<Rightarrow> node_state \<Rightarrow> u64 \<Rightarrow> u64 \<Rightarrow> u64 \<Rightarrow> (node_error + transaction) option" where
  "build_transfer C n seed amount to_seed = build_transfer_to C n seed amount (node_address C to_seed)"

definition submit_tx ::
    "('sk, 'vk) crypto \<Rightarrow> node_state \<Rightarrow> transaction \<Rightarrow> node_error + (tx_id \<times> node_state)" where
  "submit_tx C n tx =
     (if is_coinbase tx then Inl UnexpectedCoinbase
      else Inr (tx_ident C tx, n\<lparr>node_mempool := fst (mempool_add C (node_mempool n) tx)\<rparr>))"

definition submit_signed ::
    "('sk, 'vk) crypto \<Rightarrow> node_state \<Rightarrow> address \<Rightarrow> u64 \<Rightarrow> address \<Rightarrow> 512 word
     \<Rightarrow> (node_error + tx_id \<times> node_state) option" where
  "submit_signed C n from amount to s = do {
     res \<leftarrow> prepare_transfer C n from amount to;
     Some (rbind res (\<lambda>p.
       if \<not> verify C from (prep_sighash p) s then Inl NodeBadSignature
       else submit_tx C n (attach_signature (prep_tx p) 0 (Sig s))))
   }"

definition utxos_of ::
    "('sk, 'vk) crypto \<Rightarrow> node_state \<Rightarrow> address \<Rightarrow> (node_error + (out_point \<times> u64) list) option" where
  "utxos_of C n a =
     (case ledger_of n of
        Inl e \<Rightarrow> Some (Inl e)
      | Inr l \<Rightarrow> do {
          u \<leftarrow> ledger_state C l;
          Some (Inr (sort_key fst (map (\<lambda>(op, out). (op, out_value out)) (filter (\<lambda>(op, out). owner out = a) (utxo_iter u)))))
        })"

definition node_pool ::
    "('sk, 'vk) crypto \<Rightarrow> node_state \<Rightarrow> u64 \<Rightarrow> u64 \<Rightarrow> u64 \<Rightarrow> (node_error + tx_id \<times> node_state) option" where
  "node_pool C n seed amount to_seed = do {
     res \<leftarrow> build_transfer C n seed amount to_seed;
     Some (rbind res (\<lambda>tx.
       Inr (tx_ident C tx, n\<lparr>node_mempool := fst (mempool_add C (node_mempool n) tx)\<rparr>)))
   }"

definition mempool_tx :: "node_state \<Rightarrow> tx_id \<Rightarrow> transaction option" where
  "mempool_tx n i = mempool_get (node_mempool n) i"

definition evict_mempool :: "('sk, 'vk) crypto \<Rightarrow> node_state \<Rightarrow> node_state option" where
  "evict_mempool C n =
     (case node_ledger n of
        None \<Rightarrow> Some n
      | Some l \<Rightarrow> do {
          u \<leftarrow> ledger_state C l;
          Some (n\<lparr>node_mempool := fst (evict_invalid (node_mempool n) u)\<rparr>)
        })"

section \<open>Producing blocks\<close>

text \<open>
  \<open>next_work_target(&parents).unwrap_or(1)\<close>, mining, and \<open>Ledger::insert\<close>: the steps the three
  producers share.
\<close>

definition insert_on_tips ::
    "('sk, 'vk) crypto \<Rightarrow> ledger \<Rightarrow> u64 \<Rightarrow> transaction list \<Rightarrow> (node_error + block_id \<times> ledger) option" where
  "insert_on_tips C l ts txs = do {
     let ps = tips_list (ledger_dag l);
     target \<leftarrow> next_work_target (ledger_dag l) ps;
     let w = (case target of Some w \<Rightarrow> w | None \<Rightarrow> 1);
     n \<leftarrow> mine_nonce (blake3 C) (ledger_dag l) ps w ts txs;
     res \<leftarrow> ledger_insert C l ps w ts n txs;
     Some (map_err Insert res)
   }"

definition issuance_txs :: "node_state \<Rightarrow> u64 \<Rightarrow> u64 \<Rightarrow> transaction list" where
  "issuance_txs n ts extra_fees =
     (case node_miner n of
        None \<Rightarrow> []
      | Some a \<Rightarrow>
          let sub = (case issuance n of Inl _ \<Rightarrow> 0 | Inr s \<Rightarrow> s);
              total = saturating_add sub extra_fees
          in if total = 0 then []
             else [coinbase [\<lparr>out_value = total, owner = a\<rparr>] (to_le_bytes ts)])"

definition send_to ::
    "('sk, 'vk) crypto \<Rightarrow> u64 \<Rightarrow> node_state \<Rightarrow> u64 \<Rightarrow> u64 \<Rightarrow> address \<Rightarrow> (node_error + sent \<times> node_state) option" where
  "send_to C wall n seed amount to = do {
     res \<leftarrow> build_transfer_to C n seed amount to;
     (case res of
        Inl e \<Rightarrow> Some (Inl e)
      | Inr tx \<Rightarrow>
          (case ledger_of n of
             Inl e \<Rightarrow> Some (Inl e)
           | Inr l \<Rightarrow> do {
               let ts = next_timestamp wall n (ledger_dag l) (tips_list (ledger_dag l));
               res \<leftarrow> insert_on_tips C l ts [tx];
               (case res of
                  Inl e \<Rightarrow> Some (Inl e)
                | Inr (b, l) \<Rightarrow> do {
                    n \<leftarrow> evict_mempool C (n\<lparr>node_ledger := Some l\<rparr>);
                    Some (Inr (\<lparr>sent_block = b, sent_tx = tx_ident C tx\<rparr>, n))
                  })
             }))
   }"

definition node_send ::
    "('sk, 'vk) crypto \<Rightarrow> u64 \<Rightarrow> node_state \<Rightarrow> u64 \<Rightarrow> u64 \<Rightarrow> u64 \<Rightarrow> (node_error + sent \<times> node_state) option" where
  "node_send C wall n seed amount to_seed = send_to C wall n seed amount (node_address C to_seed)"

text \<open>\<open>saturating_add\<close> over the inputs found, the plain sum over the outputs.\<close>

fun inputs_value :: "utxo_set \<Rightarrow> tx_input list \<Rightarrow> u64 \<Rightarrow> u64" where
  "inputs_value u [] s = s"
| "inputs_value u (inp # rest) s =
     inputs_value u rest (case utxo_get u (outpoint inp) of None \<Rightarrow> s | Some prev \<Rightarrow> saturating_add s (out_value prev))"

definition fee_of :: "utxo_set \<Rightarrow> transaction \<Rightarrow> u64" where
  "fee_of u tx = saturating_sub (inputs_value u (inputs tx) 0) (sum_list (map out_value (outputs tx)))"

text \<open>The candidates that apply one after the other on the working copy.\<close>

fun select_txs :: "('sk, 'vk) crypto \<Rightarrow> u64 \<Rightarrow> transaction list \<Rightarrow> utxo_set \<Rightarrow> transaction list" where
  "select_txs C sub [] working = []"
| "select_txs C sub (tx # rest) working =
     (case apply_block C working [tx] sub of
        (working, Inr _) \<Rightarrow> tx # select_txs C sub rest working
      | (working, Inl _) \<Rightarrow> select_txs C sub rest working)"

definition produce_block ::
    "('sk, 'vk) crypto \<Rightarrow> u64 \<Rightarrow> node_state \<Rightarrow> (node_error + block_id option \<times> node_state) option" where
  "produce_block C wall n =
     (case node_ledger n of
        None \<Rightarrow> Some (Inl NotInitialized)
      | Some l \<Rightarrow>
          if mempool_is_empty (node_mempool n) then Some (Inr (None, n))
          else do {
            original \<leftarrow> ledger_state C l;
            let selected = select_txs C (subsidy l) (mempool_ordered C (node_mempool n)) original;
            if selected = [] then Some (Inr (None, n))
            else do {
              let fees = sum_list (map (fee_of original) selected);
              let ts = next_timestamp wall n (ledger_dag l) (tips_list (ledger_dag l));
              let block_txs = issuance_txs n ts fees @ selected;
              res \<leftarrow> insert_on_tips C l ts block_txs;
              (case res of
                 Inl e \<Rightarrow> Some (Inl e)
               | Inr (b, l) \<Rightarrow> do {
                   let pool = remove_all (node_mempool n) (map (tx_ident C) selected);
                   n \<leftarrow> evict_mempool C (n\<lparr>node_ledger := Some l, node_mempool := pool\<rparr>);
                   Some (Inr (Some b, n))
                 })
            }
          })"

definition produce_empty ::
    "('sk, 'vk) crypto \<Rightarrow> u64 \<Rightarrow> node_state \<Rightarrow> (node_error + block_id \<times> node_state) option" where
  "produce_empty C wall n =
     (case ledger_of n of
        Inl e \<Rightarrow> Some (Inl e)
      | Inr l \<Rightarrow> do {
          let ts = next_timestamp wall n (ledger_dag l) (tips_list (ledger_dag l));
          res \<leftarrow> insert_on_tips C l ts (issuance_txs n ts 0);
          (case res of
             Inl e \<Rightarrow> Some (Inl e)
           | Inr (b, l) \<Rightarrow> do {
               n \<leftarrow> evict_mempool C (n\<lparr>node_ledger := Some l\<rparr>);
               Some (Inr (b, n))
             })
        })"

section \<open>Exchanging blocks\<close>

definition node_block_record :: "node_state \<Rightarrow> block_id \<Rightarrow> block_record option" where
  "node_block_record n i = do {
     l \<leftarrow> node_ledger n;
     b \<leftarrow> dag_block (ledger_dag l) i;
     (case decode_block_payload (payload b) of
        Inl _ \<Rightarrow> None
      | Inr txs \<Rightarrow> Some \<lparr>rec_parents = parents b, rec_work = work b, rec_timestamp_ms = timestamp_ms b,
                       rec_nonce = nonce b, rec_txs = txs\<rparr>)
   }"

definition export :: "node_state \<Rightarrow> block_record list option" where
  "export n =
     (case node_ledger n of
        None \<Rightarrow> Some []
      | Some l \<Rightarrow> do {
          order \<leftarrow> linearize (ledger_dag l);
          Some (List.map_filter (node_block_record n) (filter (\<lambda>i. i \<noteq> ledger_genesis l) order))
        })"

definition receive_block ::
    "('sk, 'vk) crypto \<Rightarrow> u64 \<Rightarrow> node_state \<Rightarrow> block_record \<Rightarrow> (node_error + block_id \<times> node_state) option" where
  "receive_block C wall n r =
     (let now = now_ms wall n in
      if saturating_add now MAX_FUTURE_DRIFT_MS < rec_timestamp_ms r
      then Some (Inl (TimestampTooFarInFuture (rec_timestamp_ms r) now))
      else case node_ledger n of
        None \<Rightarrow> Some (Inl NotInitialized)
      | Some l \<Rightarrow> do {
          res \<leftarrow> ledger_insert C l (rec_parents r) (rec_work r) (rec_timestamp_ms r) (rec_nonce r) (rec_txs r);
          (case res of
             Inr (i, l) \<Rightarrow> do {
               n \<leftarrow> evict_mempool C (n\<lparr>node_ledger := Some l\<rparr>);
               Some (Inr (i, n))
             }
           | Inl (Dag (DuplicateBlock i)) \<Rightarrow> Some (Inr (i, n))
           | Inl e \<Rightarrow> Some (Inl (Insert e)))
        })"

section \<open>Persistence\<close>

text \<open>What is written to the file, and the node read from one.\<close>

definition node_save :: "node_state \<Rightarrow> (node_error + byte list) option" where
  "node_save n =
     (case ledger_of n of
        Inl e \<Rightarrow> Some (Inl e)
      | Inr l \<Rightarrow> do { bytes \<leftarrow> ledger_write_snapshot l; Some (Inr bytes) })"

definition node_load :: "('sk, 'vk) crypto \<Rightarrow> node_state \<Rightarrow> byte list \<Rightarrow> (node_error + node_state) option" where
  "node_load C n bytes = do {
     res \<leftarrow> ledger_read_snapshot C bytes;
     Some (rbind (map_err (\<lambda>e. NodeSnapshot (display_ledger_snapshot_error e)) res) (\<lambda>l. Inr (n\<lparr>node_ledger := Some l\<rparr>)))
   }"

definition create_log :: "node_state \<Rightarrow> (node_error + byte list) option" where
  "create_log n =
     (case ledger_of n of
        Inl e \<Rightarrow> Some (Inl e)
      | Inr l \<Rightarrow> do { res \<leftarrow> store_create l; Some (map_err (\<lambda>e. NodeIo (display_store_error e)) res) })"

definition load_log :: "('sk, 'vk) crypto \<Rightarrow> byte list \<Rightarrow> (node_error + node_state \<times> byte list) option" where
  "load_log C log = do {
     res \<leftarrow> store_open C log;
     Some (rbind (map_err (\<lambda>e. NodeSnapshot (display_store_error e)) res) (\<lambda>l.
       Inr (\<lparr>node_ledger = Some l, node_mempool = mempool_new, node_clock = Wall, node_miner = None\<rparr>, log)))
   }"

definition persist_block :: "node_state \<Rightarrow> byte list \<Rightarrow> block_id \<Rightarrow> node_error + byte list" where
  "persist_block n log i =
     rbind (ledger_of n) (\<lambda>l.
       case dag_block (ledger_dag l) i of
         None \<Rightarrow> Inl (NodeIo ''unknown block'')
       | Some b \<Rightarrow> map_err (\<lambda>e. NodeIo (display_store_error e)) (store_append log b))"

end
