(* ===== verification/Assembly.thy ===== *)
theory Assembly
  imports Node
begin

text \<open>
  Producing a block.  A block on all the tips sees every other block, so the state in its view
  is the ledger's current state: what the node checked its transactions against is what
  \<open>Ledger::insert\<close> checks them against.
\<close>

section \<open>A block on all tips\<close>

lemma tips_cover:
  assumes "wf_dag H d"
  shows "new_past d (tips_list d) = ids d"
proof -
  note D = wf_dagD [OF assms]
  have tl: "set (tips_list d) = {x \<in> ids d. \<forall>c. (x, c) \<notin> dag_edges d}" using D(3) by (simp add: tips_list_def)
  have "\<exists>t \<in> set (tips_list d). x = t \<or> anc d x t" if x: "x \<in> ids d" for x
    using x
  proof (induction "card (ids d) - card (past d x)" arbitrary: x rule: less_induct)
    case less
    show ?case
    proof (cases "\<exists>c. (x, c) \<in> dag_edges d")
      case False
      then show ?thesis using less.prems by (auto simp: tl)
    next
      case True
      then obtain c where c: "(x, c) \<in> dag_edges d" by blast
      then have a: "anc d x c" and ci: "c \<in> ids d" using graph_okD(1) [OF D(1)] by (auto simp: anc_def)
      have "card (past d x) < card (past d c)" by (rule past_card_less [OF D(1) a])
      moreover have "card (past d c) \<le> card (ids d)" by (rule card_mono [OF _ past_subset [OF D(1)]]) simp
      ultimately have "card (ids d) - card (past d c) < card (ids d) - card (past d x)" by linarith
      from less.hyps [OF this ci] obtain t where "t \<in> set (tips_list d)" "c = t \<or> anc d c t" by blast
      then show ?thesis using a anc_trans [of d x c t] by blast
    qed
  qed
  moreover have "new_past d (tips_list d) \<subseteq> ids d" by (rule new_past_subset [OF D(1)]) (auto simp: tl)
  ultimately show ?thesis by (auto simp: new_past_def)
qed

lemma tips_listD:
  assumes "wf_dag H d"
  shows "set (tips_list d) \<subseteq> ids d" "tips_list d \<noteq> []" "sorted (tips_list d)" "distinct (tips_list d)"
    "selected_tip d = max_by_key (ckey d) (tips_list d)" "length (tips_list d) \<le> card (ids d)"
proof -
  note D = wf_dagD [OF assms]
  show sub: "set (tips_list d) \<subseteq> ids d" using D(3) by (auto simp: tips_list_def)
  show ne: "tips_list d \<noteq> []" using ids_not_empty_tips [OF assms] by (auto simp: tips_list_def simp flip: set_empty)
  show "sorted (tips_list d)" "distinct (tips_list d)" by (simp_all add: tips_list_def sorted_list_of_fset.rep_eq)
  then show "length (tips_list d) \<le> card (ids d)" using distinct_card [of "tips_list d"] card_mono [OF finite_ids sub] by simp
  obtain t where "max_by_key (ckey d) (tips_list d) = Some t" using max_by_key_nonempty [OF ne] by blast
  then show "selected_tip d = max_by_key (ckey d) (tips_list d)"
    by (simp add: selected_tip_def max_by_chain_key_eq [OF sub])
qed

lemma linearize_tips:
  assumes "wf_dag H d"
  shows "\<exists>t vs ms. selected_tip d = Some t \<and> view_order d t = Some vs \<and> mergeset_ordered d t (tips_list d) = Some ms
    \<and> linearize d = Some (vs @ ms)"
proof -
  note D = wf_dagD [OF assms] and T = tips_listD [OF assms]
  obtain t where t: "selected_tip d = Some t" "t \<in> fset (tips d)" using selected_tip_ok [OF assms] by blast
  then have ti: "t \<in> ids d" using tips_in_ids [OF assms] by blast
  obtain vs where vs: "view_order d t = Some vs" "set vs = insert t (past d t)" using view_order_ok [OF assms ti] by blast
  then obtain c where c: "chain_loop d t [t] = Some c" "spine_loop d c [] = Some vs"
    by (auto simp: view_order_def split: bind_splits)
  let ?tail = "filter (\<lambda>b. b \<notin> set vs) (sorted_list_of_fset (fmdom (nodes d)))"
  have "sort_key (topo_key d) ?tail = sort_key (topo_key d) (sorted_list_of_set (mergeset_set d t (tips_list d)))"
  proof (rule sort_key_set_eq)
    have "set ?tail = ids d - set vs" by (auto simp: ids_def)
    also have "\<dots> = mergeset_set d t (tips_list d)"
      using vs(2) by (auto simp: mergeset_set_def tips_cover [OF assms] past_def)
    also have "\<dots> = set (sorted_list_of_set (mergeset_set d t (tips_list d)))"
      by (rule set_sorted_list_of_set [symmetric, OF finite_mergeset [OF D(1) T(1)]])
    finally show "set ?tail = set (sorted_list_of_set (mergeset_set d t (tips_list d)))" .
  qed (auto simp: topo_key_inj sorted_list_of_fset.rep_eq)
  then have "mergeset_ordered d t (tips_list d) = Some (sort_key (topo_key d) ?tail)"
    by (simp add: mergeset_ordered_eq [OF D(1) T(1)])
  moreover have "linearize d = Some (vs @ sort_key (topo_key d) ?tail)"
    using t(1) c by (simp add: linearize_def selected_chain_def Let_def)
  ultimately show ?thesis using t(1) vs(1) by blast
qed

lemma ledger_state_tips:
  assumes "ledger_inv C l" "finality_depth l = - 1"
  shows "ledger_state C l = Some (candidate_state C (subsidy l) (ledger_dag l) (tips_list (ledger_dag l)))"
proof -
  let ?d = "ledger_dag l" and ?s = "subsidy l"
  note I = ledger_invD [OF assms(1)]
  obtain t vs ms where L: "selected_tip ?d = Some t" "view_order ?d t = Some vs"
      "mergeset_ordered ?d t (tips_list ?d) = Some ms" "linearize ?d = Some (vs @ ms)"
    using linearize_tips [OF I(1)] by blast
  have ti: "t \<in> ids ?d" using selected_tip_ok [OF I(1)] L(1) tips_in_ids [OF I(1)] by auto
  have "fmlookup (states l) t \<noteq> None" using full_lookup [OF assms ti] by simp
  from ledger_state_run [OF assms(1) L(1) this] obtain run where
    run: "apply_dag C ?d ?s = Some run" "ledger_state C l = Some (run_utxo run)" by blast
  have "run_utxo run = fold_blocks C ?s ?d (vs @ ms) fmempty" using apply_dag_ok [OF I(1), of C ?s] L(4) run(1) by auto
  also have "\<dots> = fold_blocks C ?s ?d ms (view_state C ?s ?d t)" using L(2) by (simp add: fold_blocks_append view_state_def)
  also have "\<dots> = candidate_state C ?s ?d (tips_list ?d)"
    using L(1,3) tips_listD(5) [OF I(1)] by (simp add: candidate_state_def)
  finally show ?thesis using run(2) by simp
qed

lemma block_on_tips [simp]:
  assumes "wf_dag H d"
  shows "parents (block_new (tips_list d) w ts n pl) = tips_list d"
  using tips_listD [OF assms] by (simp add: block_new_def sort_key_id_if_sorted remdups_adj_distinct)

text \<open>No stored block has all tips as its parents.\<close>

lemma tips_not_stored:
  assumes "wf_dag H d" "x \<in> ids d"
  shows "parents (node_block (nd d x)) \<noteq> tips_list d"
proof
  assume eq: "parents (node_block (nd d x)) = tips_list d"
  obtain t where t: "t \<in> set (tips_list d)" using tips_listD(2) [OF assms(1)] by (cases "tips_list d") auto
  then have "(t, x) \<in> dag_edges d" using eq edges_nd [OF assms(2)] by simp
  then show False using t wf_dagD(3) [OF assms(1)] by (auto simp: tips_list_def)
qed

text \<open>
  What the node inserts on its tips is accepted when its transactions apply to the current
  state, unless a stored block already has its id.
\<close>

lemma mine_nonce_ok:
  fixes H :: digest
  assumes "mine_nonce H d ps w ts txs = Some n" "require_pow d"
  shows "meets_target (block_ident H (block_new ps w ts n (encode_block_payload txs))) w"
proof -
  let ?t = "block_new ps w ts 0 (encode_block_payload txs)"
  obtain b where b: "mine_from H ?t 0 = Some b" "n = nonce b"
    using assms by (auto simp: mine_nonce_def mine_def)
  then obtain m where "b = with_nonce ?t m" "is_mined H b" using mine_from_search [where H = H and t = ?t and start = 0] by auto
  then show ?thesis using b(2) by (auto simp: is_mined_def with_nonce_def block_new_def)
qed

lemma tips_work:
  assumes "wf_dag H d"
  shows "\<exists>target. next_work_target d (tips_list d) = Some target
    \<and> (\<forall>r. difficulty d = Some r \<longrightarrow> target = Some (required_work d r (the (max_by_key (ckey d) (tips_list d)))))"
proof -
  note T = tips_listD [OF assms]
  obtain sp where sp: "max_by_key (ckey d) (tips_list d) = Some sp" using max_by_key_nonempty [OF T(2)] by blast
  have "sp \<in> ids d" using max_by_key_in [OF sp] T(1) by blast
  note R = required_work_eq [OF assms this]
  show ?thesis
  proof (cases "difficulty d")
    case None
    then show ?thesis by (simp add: next_work_target_def)
  next
    case (Some r)
    obtain ss where "chain_samples d sp (window r) = Some ss" "next_work r ss = Some (required_work d r sp)"
      using R [of r] by (cases "chain_samples d sp (window r)") auto
    then show ?thesis using Some sp by (simp add: next_work_target_def max_by_chain_key_eq [OF T(1)])
  qed
qed

lemma insert_on_tips_ok:
  assumes "ledger_inv C l" "finality_depth l = - 1" "Suc (card (ids (ledger_dag l))) \<le> ROOT_CAPACITY"
    and "wf_txs txs" "length (encode_block_payload txs) < 2 ^ 64"
    and "ledger_state C l = Some u" "apply_block C u txs (subsidy l) = (u', Inr m)"
    and "\<And>t. t \<in> set (tips_list (ledger_dag l)) \<Longrightarrow> timestamp_ms (node_block (nd (ledger_dag l) t)) \<le> ts"
    and "require_pow (ledger_dag l) \<Longrightarrow> (\<And>t. mine (blake3 C) t \<noteq> None)"
  shows "\<exists>res w n. insert_on_tips C l ts txs = Some (map_err Insert res)
    \<and> ledger_insert C l (tips_list (ledger_dag l)) w ts n txs = Some res
    \<and> ((\<exists>i l'. res = Inr (i, l'))
        \<or> block_ident (blake3 C) (block_new (tips_list (ledger_dag l)) w ts n (encode_block_payload txs)) \<in> ids (ledger_dag l))"
proof -
  let ?d = "ledger_dag l" and ?H = "blake3 C" and ?ps = "tips_list (ledger_dag l)"
  note I = ledger_invD [OF assms(1)]
  note T = tips_listD [OF I(1)]
  obtain target where tg: "next_work_target ?d ?ps = Some target"
      "\<And>r. difficulty ?d = Some r \<Longrightarrow> target = Some (required_work ?d r (the (max_by_key (ckey ?d) ?ps)))"
    using tips_work [OF I(1)] by blast
  define w where "w = (case target of Some w \<Rightarrow> w | None \<Rightarrow> 1)"
  obtain n where n: "mine_nonce ?H ?d ?ps w ts txs = Some n"
  proof (cases "require_pow ?d")
    case True
    from assms(9) [OF this] show ?thesis using that True by (fastforce simp: mine_nonce_def)
  qed (use that in \<open>simp add: mine_nonce_def\<close>)
  let ?b = "block_new ?ps w ts n (encode_block_payload txs)"
  have ps: "parents ?b = ?ps" by (rule block_on_tips [OF I(1)])
  have sz: "machine_sized ?ps txs"
    using assms(3-5) T(6) root_capacity_word [of "length ?ps"] by (simp add: machine_sized_def)
  have c: "candidate_state C (subsidy l) ?d ?ps = u" using ledger_state_tips [OF assms(1,2)] assms(6) by simp
  obtain res where res: "ledger_insert C l ?ps w ts n txs = Some res"
      "(\<exists>i l'. res = Inr (i, l')) \<longleftrightarrow> acceptable ?H None ?d ?b"
    using ledger_insert_cases [OF assms(1-3) sz refl, of w ts n] assms(7) unfolding ps c by auto
  have "insert_on_tips C l ts txs = Some (map_err Insert res)"
    using tg(1) n res(1) by (simp add: insert_on_tips_def w_def Let_def)
  moreover have "\<exists>i l'. res = Inr (i, l')" if "block_ident ?H ?b \<notin> ids ?d"
  proof -
    have "work ?b = w" "timestamp_ms ?b = ts" by (simp_all add: block_new_def)
    then have "acceptable ?H None ?d ?b"
      using that T(1,2) assms(8) mine_nonce_ok [OF n] tg(2) w_def unfolding acceptable_def ps validate_def
      by (auto split: option.splits)
    then show ?thesis using res(2) by blast
  qed
  ultimately show ?thesis using res(1) by blast
qed

section \<open>Choosing transactions\<close>

lemma apply_one_regular:
  assumes "apply_block C u [tx] s = (u', Inr m)" "\<not> is_coinbase tx"
  shows "regular_ok C u tx" "u' = regular_result C u tx"
  using apply_block_InrD [OF assms(1)] assms(2)
  by (auto simp: regulars_def has_coinbase_def issued_def created_def split: if_splits)

lemma apply_block_Inl_same: "apply_block C u txs s = (u', Inl e) \<Longrightarrow> u' = u"
  by (auto simp: apply_block_def split: sum.splits)

lemma select_txs_run:
  assumes "\<forall>tx \<in> set txs. \<not> is_coinbase tx"
  shows "subseq (select_txs C s txs u) txs \<and> (\<exists>mid. regular_run C u (select_txs C s txs u) = Some mid)"
  using assms
proof (induction txs arbitrary: u)
  case (Cons tx rest)
  obtain u1 r where a: "apply_block C u [tx] s = (u1, r)" by fastforce
  show ?case
  proof (cases r)
    case (Inl e)
    then have "u1 = u" using a apply_block_Inl_same by blast
    then show ?thesis using a Inl Cons.IH [of u] Cons.prems by (auto intro: list_emb_Cons)
  next
    case (Inr m)
    have "regular_ok C u tx" "u1 = regular_result C u tx"
      using apply_one_regular [of C u tx s u1 m] a Inr Cons.prems by auto
    then show ?thesis using a Inr Cons.IH [of u1] Cons.prems by simp
  qed
qed simp

lemma apply_txs_run:
  assumes "regular_run C u txs = Some mid" "unat f + utxo_sum u < 2 ^ 64"
  shows "\<exists>f'. apply_txs C i txs u cb f = Inr (mid, cb, f') \<and> utxo_sum mid + unat f' = utxo_sum u + unat f"
  using assms
proof (induction txs arbitrary: i u f)
  case (Cons tx rest)
  then have R: "regular_ok C u tx" "regular_run C (regular_result C u tx) rest = Some mid" by (auto split: if_splits)
  obtain fee where fee: "unat fee = inputs_sum u (inputs tx) - outputs_sum (outputs tx)"
      "apply_regular C u tx = Inr (fee, regular_result C u tx)"
  proof
    have "inputs_sum u (inputs tx) - outputs_sum (outputs tx) < 2 ^ 64" using R(1) by (auto simp: regular_ok_def)
    then show "unat (word_of_nat (inputs_sum u (inputs tx) - outputs_sum (outputs tx)) :: u64) = inputs_sum u (inputs tx) - outputs_sum (outputs tx)"
      by (simp add: unat_of_nat)
    then show "apply_regular C u tx = Inr (word_of_nat (inputs_sum u (inputs tx) - outputs_sum (outputs tx)), regular_result C u tx)"
      using R(1) by (simp add: apply_regular_ok)
  qed
  have sum: "utxo_sum (regular_result C u tx) + unat fee = utxo_sum u" using regular_sum [OF R(1)] fee(1) by simp
  define f1 where "f1 = f + fee"
  have f1: "checked_add f fee = Some f1" "unat f1 = unat f + unat fee"
    using sum Cons.prems(2) by (simp_all add: checked_add_def f1_def unat_word_ariths)
  have "\<not> is_coinbase tx" using regular_structure [OF R(1)] by simp
  then show ?case using Cons.IH [OF R(2), of f1 "Suc i"] f1 fee(2) sum Cons.prems(2) by auto
qed simp

text \<open>The fees the node claims are those the transactions pay or less.\<close>

definition fresh_ids :: "('sk, 'vk) crypto \<Rightarrow> utxo_set \<Rightarrow> transaction list \<Rightarrow> bool" where
  "fresh_ids C u txs \<longleftrightarrow> distinct (map (tx_ident C) txs)
     \<and> (\<forall>tx \<in> set txs. \<forall>op \<in> fset (fmdom u). op_tx op \<noteq> tx_ident C tx)"

lemma inputs_value_le:
  assumes "\<forall>inp \<in> set ins. outpoint inp |\<in>| fmdom w"
    and "\<And>op out. fmlookup w op = Some out \<Longrightarrow> op |\<in>| fmdom u \<Longrightarrow> fmlookup u op = Some out"
  shows "unat (inputs_value u ins s) \<le> unat s + inputs_sum w ins"
  using assms(1)
proof (induction ins arbitrary: s)
  case (Cons inp rest)
  obtain out where out: "fmlookup w (outpoint inp) = Some out" using Cons.prems by (auto simp: fmlookup_dom_iff)
  let ?s = "case utxo_get u (outpoint inp) of None \<Rightarrow> s | Some prev \<Rightarrow> saturating_add s (out_value prev)"
  have "unat ?s \<le> unat s + unat (out_value out)"
    using assms(2) [OF out] by (auto simp: utxo_get_def unat_saturating_add fmlookup_dom_iff split: option.splits)
  then show ?case using Cons.IH [of ?s] Cons.prems out by (simp add: inputs_sum_def)
qed (simp add: inputs_sum_def)

lemma sum_outputs_word: "outputs_sum outs < 2 ^ 64 \<Longrightarrow> unat (sum_list (map out_value outs)) = outputs_sum outs"
proof (induction outs)
  case (Cons x xs)
  then show ?case by (simp add: outputs_sum_def unat_word_ariths)
qed (simp add: outputs_sum_def)

lemma fees_claimed:
  assumes "regular_run C w txs = Some mid" "utxo_sum w < 2 ^ 64"
    and "\<forall>tx \<in> set txs. \<forall>op \<in> fset (fmdom u). op_tx op \<noteq> tx_ident C tx"
    and "\<And>op out. fmlookup w op = Some out \<Longrightarrow> op |\<in>| fmdom u \<Longrightarrow> fmlookup u op = Some out"
  shows "unat (sum_list (map (fee_of u) txs)) + utxo_sum mid \<le> utxo_sum w"
  using assms
proof (induction txs arbitrary: w)
  case (Cons tx rest)
  let ?w = "regular_result C w tx"
  have R: "regular_ok C w tx" "regular_run C ?w rest = Some mid" using Cons.prems(1) by (auto split: if_splits)
  have sum: "utxo_sum ?w + (inputs_sum w (inputs tx) - outputs_sum (outputs tx)) = utxo_sum w" by (rule regular_sum [OF R(1)])
  have keep: "fmlookup u op = Some out" if "fmlookup ?w op = Some out" "op |\<in>| fmdom u" for op out
    using that Cons.prems(3,4) points_tx [of op "tx_ident C tx" 0 "length (outputs tx)"]
    by (auto simp: regular_lookup [OF R(1)] split: if_splits)
  have ins: "\<forall>inp \<in> set (inputs tx). outpoint inp |\<in>| fmdom w"
    using R(1) by (auto simp: regular_ok_def spendable_def fmlookup_dom_iff split: option.splits)
  have "outputs_sum (outputs tx) < 2 ^ 64" using R(1) by (simp add: regular_ok_def)
  then have fee: "unat (fee_of u tx) \<le> inputs_sum w (inputs tx) - outputs_sum (outputs tx)"
    using inputs_value_le [OF ins Cons.prems(4), of 0] by (simp add: fee_of_def unat_saturating_sub sum_outputs_word)
  have IH: "unat (sum_list (map (fee_of u) rest)) + utxo_sum mid \<le> utxo_sum ?w"
    by (rule Cons.IH [OF R(2)]) (use Cons.prems(2,3) sum keep in auto)
  then have "unat (fee_of u tx) + unat (sum_list (map (fee_of u) rest)) < 2 ^ 64" using fee sum Cons.prems(2) by linarith
  then have "unat (sum_list (map (fee_of u) (tx # rest))) = unat (fee_of u tx) + unat (sum_list (map (fee_of u) rest))"
    by (simp add: unat_word_ariths)
  then show ?case using IH fee sum by linarith
qed simp

lemma issuance_le: "unat (issuance_at cap h) \<le> unat cap"
proof -
  have "unat (drop_bit n cap) = unat cap div 2 ^ n" for n unfolding unat_drop_bit_eq by (rule drop_bit_eq_div)
  then show ?thesis by (simp add: issuance_at_def Let_def)
qed

lemma regular_run_dom:
  "regular_run C u txs = Some mid \<Longrightarrow> op |\<in>| fmdom mid \<Longrightarrow> op |\<in>| fmdom u \<or> op_tx op \<in> tx_ident C ` set txs"
proof (induction txs arbitrary: u)
  case (Cons tx rest)
  then have R: "regular_ok C u tx" "regular_run C (regular_result C u tx) rest = Some mid" by (auto split: if_splits)
  from Cons.IH [OF R(2) Cons.prems(2)] show ?case
    using points_tx [of op "tx_ident C tx" 0 "length (outputs tx)"]
    by (auto simp: fmlookup_dom_iff regular_lookup [OF R(1)] split: if_splits)
qed simp

text \<open>A coinbase of the allowed amount on top of transactions that apply makes a block that applies.\<close>

lemma apply_produced:
  assumes "regular_run C u txs = Some mid" "utxo_sum u + unat s < 2 ^ 64" "txs = [] \<or> \<not> is_coinbase (hd txs)"
    and "cb = [] \<or> (\<exists>v a tg. cb = [coinbase [\<lparr>out_value = v, owner = a\<rparr>] tg] \<and> v \<noteq> 0
           \<and> unat v + utxo_sum mid \<le> unat s + utxo_sum u)"
    and "\<And>c op. c \<in> set cb \<Longrightarrow> op |\<in>| fmdom mid \<Longrightarrow> op_tx op \<noteq> tx_ident C c"
  shows "\<exists>u' m. apply_block C u (cb @ txs) s = (u', Inr m)"
proof -
  have f0: "unat (0 :: u64) + utxo_sum u < 2 ^ 64" using assms(2) by simp
  obtain f where f: "\<And>i c. apply_txs C i txs u c 0 = Inr (mid, c, f)" "utxo_sum mid + unat f = utxo_sum u"
  proof -
    obtain f where f: "apply_txs C 0 txs u None 0 = Inr (mid, None, f)" "utxo_sum mid + unat f = utxo_sum u"
      using apply_txs_run [OF assms(1) f0, of 0 None] by auto
    have "apply_txs C i txs u c 0 = Inr (mid, c, f)" for i c
    proof -
      obtain f' where f': "apply_txs C i txs u c 0 = Inr (mid, c, f')" "utxo_sum mid + unat f' = utxo_sum u"
        using apply_txs_run [OF assms(1) f0, of i c] by auto
      then have "f' = f" using f(2) by (simp add: word_unat_eq_iff)
      then show ?thesis using f'(1) by simp
    qed
    then show ?thesis using that f(2) by blast
  qed
  define allowed where "allowed = s + f"
  have allowed: "checked_add s f = Some allowed" "unat allowed = unat s + unat f"
    using f(2) assms(2) by (simp_all add: checked_add_def allowed_def unat_word_ariths)
  show ?thesis
  proof (cases "cb = []")
    case True
    then show ?thesis using f(1) [of 0 None] allowed(1) by (simp add: apply_block_def apply_staged_def)
  next
    case False
    then obtain v a tg where cb: "cb = [coinbase [\<lparr>out_value = v, owner = a\<rparr>] tg]" "v \<noteq> 0"
        "unat v + utxo_sum mid \<le> unat s + utxo_sum u" using assms(4) by auto
    let ?c = "coinbase [\<lparr>out_value = v, owner = a\<rparr>] tg"
    have "v \<le> allowed" using cb(3) f(2) allowed(2) by (simp add: word_le_nat_alt)
    moreover have "OutPoint (tx_ident C ?c) 0 |\<notin>| fmdom mid" using assms(5) [of ?c "OutPoint (tx_ident C ?c) 0"] cb(1) by auto
    ultimately have "\<exists>st. apply_coinbase C mid ?c allowed = Inr (v, st)"
      using cb(2) by (simp add: apply_coinbase_def coinbase_def checked_add_def utxo_insert_def Let_def fmlookup_dom_iff not_less
          unsigned_less [of v, where 'a = nat, simplified])
    moreover have "apply_txs C 0 (cb @ txs) u None 0 = Inr (mid, Some ?c, f)"
      using f(1) [of "Suc 0" "Some ?c"] cb(1) by (simp add: is_coinbase_def coinbase_def)
    ultimately show ?thesis using allowed(1) by (auto simp: apply_block_def apply_staged_def)
  qed
qed

end
