(* ===== verification/NodeProps.thy ===== *)
theory NodeProps
  imports Assembly
begin

text \<open>
  The properties of a single node: what it produces its own ledger accepts, and what it builds
  for a wallet is a valid spend.
\<close>

section \<open>Producing a block\<close>

lemma next_timestamp_ge:
  assumes "p \<in> set ps" "set ps \<subseteq> ids d" "\<forall>p \<in> set ps. timestamp_ms (node_block (nd d p)) \<noteq> - 1"
  shows "timestamp_ms (node_block (nd d p)) \<le> next_timestamp wall n d ps"
proof -
  let ?f = "\<lambda>p. timestamp_ms (node_block (nd d p))"
  have stamps: "List.map_filter (\<lambda>p. map_option timestamp_ms (dag_block d p)) ps = map ?f ps"
    using assms(2) by (induction ps) (auto simp: map_filter_simps dag_block_def nd_lookup)
  define m where "m = Max (?f ` set ps)"
  obtain q qs where ps: "ps = q # qs" using assms(1) by (cases ps) auto
  have max: "max_stamp (map ?f ps) = Some m"
    using Max.set_eq_fold [of "?f q" "map ?f qs"] ps by (simp add: m_def)
  have "m \<in> ?f ` set ps" unfolding m_def using assms(1) by (intro Max_in) auto
  then have "m \<noteq> - 1" using assms(3) by auto
  then have "m \<le> m + 1" using unat_plus_one [of m] by (simp add: word_le_nat_alt)
  moreover have "?f p \<le> m" unfolding m_def using assms(1) by (intro Max_ge) auto
  ultimately have "?f p \<le> m + 1" by (rule order_trans [rotated])
  then show ?thesis unfolding next_timestamp_def stamps max by (simp add: max.coboundedI2)
qed

lemma subseq_sum_le: "subseq xs ys \<Longrightarrow> sum_list (map f xs) \<le> sum_list (map f ys :: nat list)"
  by (induction rule: list_emb.induct) auto

lemma subseq_subset: "subseq xs ys \<Longrightarrow> set xs \<subseteq> set ys"
  by (induction rule: list_emb.induct) auto

lemma payload_length: "length (encode_block_payload txs) = 8 + sum_list (map (length \<circ> encode_into True) txs)"
  by (simp add: encode_block_payload_def length_concat)

lemma payload_count: "length txs \<le> length (encode_block_payload txs)"
  using tx_codec.width_concat [of txs] by (simp add: encode_block_payload_def)

lemma issuance_txs_cases:
  obtains "issuance_txs n ts f = []"
  | a v where "issuance_txs n ts f = [coinbase [\<lparr>out_value = v, owner = a\<rparr>] (to_le_bytes ts)]" "v \<noteq> 0"
      "unat v \<le> unat (case issuance n of Inl _ \<Rightarrow> 0 | Inr s \<Rightarrow> s) + unat f"
proof (cases "issuance_txs n ts f = []")
  case False
  then obtain a where a: "node_miner n = Some a" by (auto simp: issuance_txs_def split: option.splits)
  let ?v = "saturating_add (case issuance n of Inl _ \<Rightarrow> 0 | Inr s \<Rightarrow> s) f"
  have v: "?v \<noteq> 0" "issuance_txs n ts f = [coinbase [\<lparr>out_value = ?v, owner = a\<rparr>] (to_le_bytes ts)]"
    using False a by (auto simp: issuance_txs_def Let_def split: if_splits)
  show ?thesis by (rule that(2) [OF v(2,1)]) (simp add: unat_saturating_add)
qed

lemma issuance_txs_length: "length (encode_block_payload (issuance_txs n ts f)) \<le> 80"
  by (rule issuance_txs_cases [of n ts f])
    (simp_all add: payload_length encode_into_def encode_output_def coinbase_def)

lemma evict_mempool_ok:
  assumes "node_ledger n = Some l" "ledger_inv C l" "finality_depth l = - 1"
  shows "\<exists>u. ledger_state C l = Some u \<and> evict_mempool C n = Some (n\<lparr>node_mempool := fst (evict_invalid (node_mempool n) u)\<rparr>)"
  using assms ledger_state_tips [OF assms(2,3)] by (simp add: evict_mempool_def)

lemma block_record_stored:
  assumes "node_ledger n = Some l" "dag_block (ledger_dag l) i = Some (block_new ps w ts k (encode_block_payload txs))" "wf_txs txs"
  shows "\<exists>r. node_block_record n i = Some r \<and> rec_txs r = txs"
  using assms decode_payload_enc [OF assms(3)] by (simp add: node_block_record_def block_new_def)

text \<open>The transactions of the produced block: a coinbase and the selected ones.\<close>

lemma produced_txs_apply:
  assumes "node_ledger n = Some l" "pool_ok C (node_mempool n)" "utxo_sum u + unat (subsidy l) < 2 ^ 64"
    and "list_all wf_tx (pending_txs C n)" "length (encode_block_payload (pending_txs C n)) + 72 < 2 ^ 64"
    and "\<forall>f. fresh_ids C u (issuance_txs n ts f @ pending_txs C n)"
    and "sel = select_txs C (subsidy l) (pending_txs C n) u" "sel \<noteq> []"
  defines "txs \<equiv> issuance_txs n ts (sum_list (map (fee_of u) sel)) @ sel"
  shows "\<exists>u' m. apply_block C u txs (subsidy l) = (u', Inr m)" "wf_txs txs" "length (encode_block_payload txs) < 2 ^ 64"
    "unat (sum_list (map (fee_of u) sel)) \<le> utxo_sum u"
proof -
  let ?s = "subsidy l"
  have nc: "\<forall>tx \<in> set (pending_txs C n). \<not> is_coinbase tx"
    using pool_okD [OF assms(2)] by (auto simp: pending_txs_def set_mempool_ordered)
  obtain mid where sub: "subseq sel (pending_txs C n)" and mid: "regular_run C u sel = Some mid"
    using select_txs_run [OF nc, of C ?s u] assms(7) by blast
  have inset: "set sel \<subseteq> set (pending_txs C n)" by (rule subseq_subset [OF sub])
  define f where "f = sum_list (map (fee_of u) sel)"
  let ?cb = "issuance_txs n ts f"
  have txs: "txs = ?cb @ sel" by (simp add: txs_def f_def)
  have fresh: "fresh_ids C u (?cb @ pending_txs C n)" using assms(6) by blast
  have fees: "unat f + utxo_sum mid \<le> utxo_sum u"
    unfolding f_def by (rule fees_claimed [OF mid]) (use assms(3) inset fresh in \<open>auto simp: fresh_ids_def\<close>)
  show "unat (sum_list (map (fee_of u) sel)) \<le> utxo_sum u" using fees by (simp add: f_def)
  have iss: "unat (case issuance n of Inl _ \<Rightarrow> 0 | Inr s \<Rightarrow> s) \<le> unat ?s"
    using assms(1) by (simp add: issuance_def ledger_of_def issuance_le)
  have cb: "?cb = [] \<or> (\<exists>v a tg. ?cb = [coinbase [\<lparr>out_value = v, owner = a\<rparr>] tg] \<and> v \<noteq> 0
      \<and> unat v + utxo_sum mid \<le> unat ?s + utxo_sum u)"
    by (rule issuance_txs_cases [of n ts f]) (use fees iss in fastforce)+
  have "op_tx op \<noteq> tx_ident C c" if "c \<in> set ?cb" "op |\<in>| fmdom mid" for c op
    using regular_run_dom [OF mid that(2)] that(1) fresh inset by (fastforce simp: fresh_ids_def)
  then show "\<exists>u' m. apply_block C u txs ?s = (u', Inr m)"
    unfolding txs using apply_produced [OF mid assms(3) _ cb] nc inset assms(8) by (metis hd_in_set subsetD)
  show len: "length (encode_block_payload txs) < 2 ^ 64"
    using issuance_txs_length [of n ts f] subseq_sum_le [OF sub, of "length \<circ> encode_into True"] assms(5)
    by (simp add: payload_length txs)
  have "list_all wf_tx ?cb"
    by (rule issuance_txs_cases [of n ts f]) (simp_all add: wf_tx_def coinbase_def)
  then show "wf_txs txs"
    using assms(4) inset payload_count [of txs] len by (auto simp: wf_txs_def list_all_iff txs)
qed

text \<open>Once the ledger stores the produced block, the node records it and drops what it packed.\<close>

lemma produce_stored:
  assumes l: "node_ledger n = Some l" "ledger_inv C l" "finality_depth l = - 1" "Suc (card (ids (ledger_dag l))) \<le> ROOT_CAPACITY"
    and u: "ledger_state C l = Some u" and ne: "\<not> mempool_is_empty (node_mempool n)"
    and sel: "sel = select_txs C (subsidy l) (pending_txs C n) u" "sel \<noteq> []"
    and ts: "ts = next_timestamp wall n (ledger_dag l) (tips_list (ledger_dag l))"
    and txs: "txs = issuance_txs n ts (sum_list (map (fee_of u) sel)) @ sel" "wf_txs txs" "length (encode_block_payload txs) < 2 ^ 64"
    and ins: "insert_on_tips C l ts txs = Some (Inr (i, l'))" "ledger_insert C l (tips_list (ledger_dag l)) w ts k txs = Some (Inr (i, l'))"
  shows "\<exists>n' r. produce_block C wall n = Some (Inr (Some i, n')) \<and> i \<notin> ids (ledger_dag l) \<and> node_block_record n' i = Some r
    \<and> rec_txs r = txs \<and> (\<forall>tx \<in> set sel. mempool_tx n' (tx_ident C tx) = None)"
proof -
  let ?d = "ledger_dag l"
  have sz: "machine_sized (tips_list ?d) txs"
    using txs(2,3) tips_listD(6) [OF ledger_invD(1) [OF l(2)]] l(4) root_capacity_word [of "length (tips_list ?d)"]
    by (simp add: machine_sized_def)
  note S = ledger_insert_stored [OF l(2,4) sz ins(2)]
  note R = ledger_insert_InrD [OF l(2,4) sz ins(2)]
  let ?n = "n\<lparr>node_ledger := Some l', node_mempool := remove_all (node_mempool n) (map (tx_ident C) sel)\<rparr>"
  obtain v where ev: "evict_mempool C ?n = Some (?n\<lparr>node_mempool := fst (evict_invalid (node_mempool ?n) v)\<rparr>)"
    using evict_mempool_ok [of ?n l' C] R(2,5) l(3) by auto
  let ?n' = "?n\<lparr>node_mempool := fst (evict_invalid (node_mempool ?n) v)\<rparr>"
  have "produce_block C wall n = Some (Inr (Some i, ?n'))"
    using ins(1) ne l(1) u sel txs(1) ts ev by (simp add: produce_block_def pending_txs_def [symmetric] Let_def)
  moreover obtain r where "node_block_record ?n' i = Some r" "rec_txs r = txs"
    using block_record_stored [OF _ S(3) txs(2), of ?n'] by auto
  moreover have "mempool_tx ?n' (tx_ident C tx) = None" if "tx \<in> set sel" for tx
  proof -
    have "fmlookup (fst (evict_invalid (node_mempool ?n) v)) (tx_ident C tx) \<noteq> Some t" for t
      unfolding evict_lookup using that by (auto simp: remove_all_lookup)
    then show ?thesis by (auto simp: mempool_tx_def mempool_get_def)
  qed
  ultimately show ?thesis using S(1) by blast
qed

text \<open>A transaction was selected, so the mempool is not empty.\<close>

lemma selected_not_empty:
  assumes "select_txs C s (pending_txs C n) u \<noteq> []"
  shows "\<not> mempool_is_empty (node_mempool n)"
proof
  assume "mempool_is_empty (node_mempool n)"
  then have "set (pending_txs C n) = {}" by (auto simp: pending_txs_def mempool_is_empty_def set_mempool_ordered fmlookup_dom_iff dest: fmdomI)
  then show False using assms by simp
qed

text \<open>The coinbase, where subsidy and fees fit in 64 bits.\<close>

lemma issuance_txs_eq:
  assumes "node_ledger n = Some l" "w + unat (subsidy l) < 2 ^ 64" "unat f \<le> w"
  defines "v \<equiv> issuance_at (subsidy l) (word_of_nat (dag_len (ledger_dag l))) + f"
  shows "unat v = unat (issuance_at (subsidy l) (word_of_nat (dag_len (ledger_dag l)))) + unat f"
    "issuance_txs n ts f = (case node_miner n of None \<Rightarrow> []
       | Some a \<Rightarrow> if v = 0 then [] else [coinbase [\<lparr>out_value = v, owner = a\<rparr>] (to_le_bytes ts)])"
proof -
  let ?i = "issuance_at (subsidy l) (word_of_nat (dag_len (ledger_dag l)))"
  have fits: "unat ?i + unat f < 2 ^ 64"
    using assms(2,3) issuance_le [of "subsidy l" "word_of_nat (dag_len (ledger_dag l))"] by linarith
  then show v: "unat v = unat ?i + unat f" unfolding v_def by (simp add: unat_add_lem [symmetric])
  then have "saturating_add ?i f = v" using fits unat_saturating_add [of ?i f] by (simp add: word_unat_eq_iff)
  then show "issuance_txs n ts f = (case node_miner n of None \<Rightarrow> []
       | Some a \<Rightarrow> if v = 0 then [] else [coinbase [\<lparr>out_value = v, owner = a\<rparr>] (to_le_bytes ts)])"
    using assms(1) by (simp add: issuance_txs_def issuance_def ledger_of_def split: option.split)
qed

text \<open>
  C10: what a node packs, its ledger accepts.  With finality off, \<open>produce_block\<close> packs the pending
  transactions that apply one after the other to the current state, behind a coinbase that pays the
  miner, when there is one and the amount is not zero, exactly the issuance and the fees.  When at
  least one applies, the block enters the ledger under a new id with exactly these transactions and
  they leave the mempool; otherwise nothing changes.  The hypotheses are that the supply fits in 64
  bits, that hashes give the new transactions ids of their own, that mining finds a nonce, that no
  tip carries the last timestamp, and that the digest of the new block, whatever its work and nonce,
  is not the digest of a different stored block.
\<close>

theorem produce_block_accepted:
  assumes "node_ledger n = Some l" "ledger_reachable C l" "finality_depth l = - 1" "dag_len (ledger_dag l) < ROOT_CAPACITY"
    and "pool_ok C (node_mempool n)" "ledger_state C l = Some u" "utxo_sum u + unat (subsidy l) < 2 ^ 64"
    and "list_all wf_tx (pending_txs C n)" "length (encode_block_payload (pending_txs C n)) + 72 < 2 ^ 64"
    and "\<forall>t \<in> fset (tips (ledger_dag l)). timestamp_ms (node_block (nd (ledger_dag l) t)) \<noteq> - 1"
    and "require_pow (ledger_dag l) \<longrightarrow> (\<forall>t. mine (blake3 C) t \<noteq> None)"
    and "ts = next_timestamp wall n (ledger_dag l) (tips_list (ledger_dag l))"
    and "\<forall>f. fresh_ids C u (issuance_txs n ts f @ pending_txs C n)"
    and "sel = select_txs C (subsidy l) (pending_txs C n) u"
    and "iss = issuance_at (subsidy l) (word_of_nat (dag_len (ledger_dag l)))" "f = sum_list (map (fee_of u) sel)"
    and "cb = (case node_miner n of None \<Rightarrow> []
           | Some a \<Rightarrow> if iss + f = 0 then [] else [coinbase [\<lparr>out_value = iss + f, owner = a\<rparr>] (to_le_bytes ts)])"
    and "\<forall>w k. \<forall>x \<in> ids (ledger_dag l). block_ident (blake3 C) (block_new (tips_list (ledger_dag l)) w ts k (encode_block_payload (cb @ sel))) = x
           \<longrightarrow> node_block (nd (ledger_dag l) x) = block_new (tips_list (ledger_dag l)) w ts k (encode_block_payload (cb @ sel))"
  shows "if sel = [] then produce_block C wall n = Some (Inr (None, n))
    else unat (iss + f) = unat iss + unat f \<and>
      (\<exists>i n' r. produce_block C wall n = Some (Inr (Some i, n')) \<and> i \<notin> ids (ledger_dag l) \<and> node_block_record n' i = Some r
         \<and> rec_txs r = cb @ sel \<and> (\<forall>tx \<in> set sel. mempool_tx n' (tx_ident C tx) = None))"
proof (cases "sel = []")
  case True
  then show ?thesis
    using assms(1,6,14) by (simp add: produce_block_def pending_txs_def Let_def)
next
  case False
  let ?d = "ledger_dag l"
  note inv = ledger_reachable_inv [OF assms(2)]
  note T = tips_listD [OF ledger_invD(1) [OF inv]]
  have cap: "Suc (card (ids ?d)) \<le> ROOT_CAPACITY" using assms(4) by (simp add: dag_len_ids)
  note A = produced_txs_apply [OF assms(1,5,7,8,9,13,14) False, folded assms(16)]
  note I = issuance_txs_eq [OF assms(1,7) A(4), folded assms(15)]
  have cb: "issuance_txs n ts f = cb" unfolding assms(17) by (rule I(2))
  obtain u' m where ap: "apply_block C u (cb @ sel) (subsidy l) = (u', Inr m)" using A(1) cb by auto
  have stamps: "timestamp_ms (node_block (nd ?d t)) \<le> ts" if "t \<in> set (tips_list ?d)" for t
    unfolding assms(12) using next_timestamp_ge [OF that T(1)] assms(10) by (simp add: tips_list_def)
  obtain res w k where ins: "insert_on_tips C l ts (cb @ sel) = Some (map_err Insert res)"
      "ledger_insert C l (tips_list ?d) w ts k (cb @ sel) = Some res"
      "(\<exists>i l'. res = Inr (i, l'))
        \<or> block_ident (blake3 C) (block_new (tips_list ?d) w ts k (encode_block_payload (cb @ sel))) \<in> ids ?d"
    using insert_on_tips_ok [OF inv assms(3) cap A(2,3) [unfolded cb] assms(6) ap stamps] assms(11) by blast
  have "block_ident (blake3 C) (block_new (tips_list ?d) w ts k (encode_block_payload (cb @ sel))) \<notin> ids ?d"
    using assms(18) tips_not_stored [OF ledger_invD(1) [OF inv]] block_on_tips [OF ledger_invD(1) [OF inv]] by metis
  then obtain i l' where r: "res = Inr (i, l')" using ins(3) by blast
  have "cb @ sel = issuance_txs n ts (sum_list (map (fee_of u) sel)) @ sel" using cb assms(16) by simp
  from produce_stored [OF assms(1) inv assms(3) cap assms(6) selected_not_empty [OF False [unfolded assms(14)]] assms(14) False assms(12) this
      A(2,3) [unfolded cb], of i l' w k] ins(1,2) r
  show ?thesis using False I(1) by auto
qed

text \<open>
  A scheme for examples: a digest is the first byte (the number of inputs or parents), but 2 for a
  coinbase with one output and a timestamp as its tag, 72 bytes, and every signature verifies.
\<close>

definition byte_crypto :: "(unit, 256 word) crypto" where
  "byte_crypto = \<lparr>blake3 = \<lambda>bs. if hd bs = 0 \<and> length bs = 72 then 2 else ucast (hd bs), signing_from_bytes = \<lambda>_. (), verifying_key = \<lambda>_. 7,
     vk_to_bytes = id, vk_from_bytes = Some, sign_bytes = \<lambda>_ _. 0, verify_strict = \<lambda>_ _ _. True\<rparr>"

definition mint_tx :: transaction where
  "mint_tx = coinbase [\<lparr>out_value = 50, owner = Address 7\<rparr>] []"

definition pay_tx :: transaction where
  "pay_tx = unsigned_tx [OutPoint (TxId 0) 0] [\<lparr>out_value = 49, owner = Address 8\<rparr>] []"

definition mint_set :: utxo_set where
  "mint_set = fmupd (OutPoint (TxId 0) 0) \<lparr>out_value = 50, owner = Address 7\<rparr> fmempty"

lemma hd_le8: "hd (le_bytes 8 x @ r) = word_of_nat x"
proof -
  have "(8 :: nat) = Suc 7" by simp
  then show ?thesis by (simp only: le_bytes.simps append_Cons list.sel)
qed

lemma byte_ids: "tx_ident byte_crypto mint_tx = TxId 0" "tx_ident byte_crypto pay_tx = TxId 1"
  by (simp_all add: tx_ident_def byte_crypto_def encode_def encode_into_def encode_input_def encode_output_def mint_tx_def pay_tx_def
      coinbase_def unsigned_tx_def len_bytes_def to_le_bytes_def hd_le8)

lemma reward_id: "tx_ident byte_crypto (coinbase [\<lparr>out_value = v, owner = a\<rparr>] (to_le_bytes (t :: u64))) = TxId 2"
  by (simp add: tx_ident_def byte_crypto_def encode_def encode_into_def encode_output_def coinbase_def len_bytes_def to_le_bytes_def hd_le8)

lemma mint_applies: "apply_block byte_crypto fmempty [mint_tx] 50 = (mint_set, Inr \<lparr>fees = 0, minted = 50\<rparr>)"
proof -
  have "outputs mint_tx = [\<lparr>out_value = 50, owner = Address 7\<rparr>]" "is_coinbase mint_tx" by (simp_all add: mint_tx_def coinbase_def is_coinbase_def)
  then show ?thesis
    by (simp add: apply_block_def apply_staged_def apply_coinbase_def byte_ids checked_add_def utxo_insert_def mint_set_def)
qed

lemma pay_applies: "\<exists>u. apply_block byte_crypto mint_set [pay_tx] 50 = (u, Inr \<lparr>fees = 1, minted = 0\<rparr>)"
proof -
  have "inputs pay_tx = [\<lparr>outpoint = OutPoint (TxId 0) 0, signature = sig_zero\<rparr>]" "outputs pay_tx = [\<lparr>out_value = 49, owner = Address 8\<rparr>]"
    "\<not> is_coinbase pay_tx" by (simp_all add: pay_tx_def unsigned_tx_def is_coinbase_def)
  moreover have "verify byte_crypto a m s" for a m s by (simp add: verify_def byte_crypto_def)
  ultimately show ?thesis
    by (simp add: apply_block_def apply_staged_def apply_regular_def byte_ids checked_add_def utxo_insert_def utxo_get_def utxo_remove_def mint_set_def)
qed

lemma mint_ledger:
  "\<exists>l. ledger_new byte_crypto 3 50 [mint_tx] = Some (Inr l) \<and> ledger_reachable byte_crypto l \<and> finality_depth l = - 1 \<and> subsidy l = 50
     \<and> \<not> require_pow (ledger_dag l) \<and> ids (ledger_dag l) = {BlockId 0} \<and> timestamp_ms (node_block (nd (ledger_dag l) (BlockId 0))) = 0
     \<and> ledger_state byte_crypto l = Some mint_set
     \<and> node_block (nd (ledger_dag l) (BlockId 0)) = block_genesis 1 0 0 (encode_block_payload [mint_tx])"
proof -
  let ?C = byte_crypto and ?g = "block_genesis 1 0 0 (encode_block_payload [mint_tx])"
  have gid: "block_ident (blake3 ?C) ?g = BlockId 0"
    by (simp add: block_ident_def byte_crypto_def id_preimage_def block_genesis_def len_bytes_def to_le_bytes_def hd_le8
      payload_length encode_into_def encode_output_def mint_tx_def coinbase_def)
  have wt: "wf_txs [mint_tx]" "length (encode_block_payload [mint_tx]) < 2 ^ 64"
    by (simp_all add: wf_txs_def wf_tx_def mint_tx_def coinbase_def payload_length encode_into_def encode_output_def)
  obtain res where res: "ledger_new ?C 3 50 [mint_tx] = Some res" "\<forall>e. res = Inl e \<longleftrightarrow> snd (apply_block ?C fmempty [mint_tx] 50) = Inl e"
      "\<forall>l. res = Inr l \<longrightarrow> ledger_inv ?C l \<and> subsidy l = 50 \<and> finality_depth l = - 1 \<and> difficulty (ledger_dag l) = None
         \<and> \<not> require_pow (ledger_dag l) \<and> ids (ledger_dag l) = {genesis (ledger_dag l)} \<and> dag_k (ledger_dag l) = 3
         \<and> node_block (nd (ledger_dag l) (genesis (ledger_dag l))) = ?g \<and> genesis (ledger_dag l) = BlockId 0"
    using ledger_new_ok [OF wt, of ?C 3 50] unfolding gid by blast
  have "res \<noteq> Inl e" for e using res(2) mint_applies by simp
  then obtain l where r: "res = Inr l" by (cases res) auto
  then have new: "ledger_new ?C 3 50 [mint_tx] = Some (Inr l)" and L: "ledger_inv ?C l" "subsidy l = 50" "finality_depth l = - 1"
      "\<not> require_pow (ledger_dag l)" "ids (ledger_dag l) = {BlockId 0}" "node_block (nd (ledger_dag l) (BlockId 0)) = ?g"
      "genesis (ledger_dag l) = BlockId 0"
    using res by auto
  have reach: "ledger_reachable ?C l" by (rule reach_new [OF _ new]) (use wt in \<open>simp add: machine_sized_def\<close>)
  note wf = ledger_invD(1) [OF L(1)]
  obtain xs where xs: "linearize (ledger_dag l) = Some (BlockId 0 # xs)" "distinct (BlockId 0 # xs)" "set (BlockId 0 # xs) = {BlockId 0}"
    using linearize_ok [OF wf] linearize_genesis_first [OF wf] L(5,7) by metis
  then have lin: "linearize (ledger_dag l) = Some [BlockId 0]" by (cases xs) auto
  have tip: "selected_tip (ledger_dag l) = Some (BlockId 0)"
    using selected_tip_ok [OF wf] tips_in_ids [OF wf] L(5) by fastforce
  have "view_state ?C 50 (ledger_dag l) (BlockId 0) = mint_set"
    using view_state_genesis [OF wf, of ?C 50] L(6,7) mint_applies wt(1) by (simp add: apply_payload_enc)
  then have "ledger_state ?C l = Some mint_set"
    using full_lookup [OF L(1,3), of "BlockId 0"] lin tip L(2,5) by (simp add: ledger_state_def)
  then show ?thesis using new reach L by auto
qed

text \<open>A node on the ledger of \<open>mint_ledger\<close> that mines for address 9 and has \<open>pay_tx\<close> pending.\<close>

definition payer :: "ledger \<Rightarrow> node_state" where
  "payer l = \<lparr>node_ledger = Some l, node_mempool = fmupd (TxId 1) pay_tx fmempty, node_clock = Wall, node_miner = Some (Address 9)\<rparr>"

lemma payer_pending: "pending_txs byte_crypto (payer l) = [pay_tx]"
  by (simp add: pending_txs_def mempool_ordered_def payer_def sorted_list_of_fmap_def sorted_list_of_fset.rep_eq)

lemma payer_pool: "pool_ok byte_crypto (node_mempool (payer l))"
  by (simp add: payer_def pool_ok_def byte_ids) (simp add: pay_tx_def unsigned_tx_def is_coinbase_def)

lemma payer_select: "select_txs byte_crypto 50 [pay_tx] mint_set = [pay_tx]" "fee_of mint_set pay_tx = 1"
proof -
  show "select_txs byte_crypto 50 [pay_tx] mint_set = [pay_tx]" using pay_applies by auto
  show "fee_of mint_set pay_tx = 1"
    by (simp add: fee_of_def pay_tx_def unsigned_tx_def mint_set_def utxo_get_def saturating_add_def saturating_sub_def word_le_nat_alt)
qed

lemma payer_fresh: "fresh_ids byte_crypto mint_set (issuance_txs (payer l) t f @ [pay_tx])"
  by (rule issuance_txs_cases [of "payer l" t f]) (simp_all add: fresh_ids_def byte_ids reward_id mint_set_def)

theorem produce_block_accepted_witness:
  "\<exists>l i n' r. ledger_reachable byte_crypto l \<and> node_ledger (payer l) = Some l \<and> pending_txs byte_crypto (payer l) = [pay_tx]
     \<and> produce_block byte_crypto 5 (payer l) = Some (Inr (Some i, n')) \<and> i \<notin> ids (ledger_dag l) \<and> node_block_record n' i = Some r
     \<and> rec_txs r = [coinbase [\<lparr>out_value = 51, owner = Address 9\<rparr>] (to_le_bytes (5 :: u64)), pay_tx]
     \<and> mempool_tx n' (TxId 1) = None"
proof -
  let ?C = byte_crypto
  obtain l where l: "ledger_reachable ?C l" "finality_depth l = - 1" "subsidy l = 50" "\<not> require_pow (ledger_dag l)"
      "ids (ledger_dag l) = {BlockId 0}" "timestamp_ms (node_block (nd (ledger_dag l) (BlockId 0))) = 0" "ledger_state ?C l = Some mint_set"
    using mint_ledger by blast
  let ?d = "ledger_dag l" and ?cb = "[coinbase [\<lparr>out_value = 51, owner = Address 9\<rparr>] (to_le_bytes (5 :: u64))]"
  note D = wf_dagD [OF ledger_invD(1) [OF ledger_reachable_inv [OF l(1)]]]
  note T = tips_listD [OF ledger_invD(1) [OF ledger_reachable_inv [OF l(1)]]]
  have n: "node_ledger (payer l) = Some l" "node_miner (payer l) = Some (Address 9)" by (simp_all add: payer_def)
  have cap: "dag_len ?d < ROOT_CAPACITY" by (simp add: dag_len_ids l(5) ROOT_CAPACITY_def u64_max_def)
  have total: "utxo_sum mint_set + unat (subsidy l) < 2 ^ 64" by (simp add: l(3) mint_set_def utxo_sum_def)
  have wf: "list_all wf_tx (pending_txs ?C (payer l))" "length (encode_block_payload (pending_txs ?C (payer l))) + 72 < 2 ^ 64"
    by (simp_all add: payer_pending wf_tx_def pay_tx_def unsigned_tx_def payload_length encode_into_def encode_output_def encode_input_def)
  have tips: "tips_list ?d = [BlockId 0]"
    using T(1,2,4) l(5) by (cases "tips_list ?d"; cases "tl (tips_list ?d)") auto
  have stamps: "\<forall>t \<in> fset (tips ?d). timestamp_ms (node_block (nd ?d t)) \<noteq> - 1"
    using D(3) l(5,6) by auto
  have ts: "5 = next_timestamp 5 (payer l) ?d (tips_list ?d)"
    by (simp add: next_timestamp_def tips dag_block_def nd_lookup l(5,6) payer_def now_ms_def map_filter_simps)
  have sel: "[pay_tx] = select_txs ?C (subsidy l) (pending_txs ?C (payer l)) mint_set" by (simp only: payer_pending l(3) payer_select(1))
  have iss: "50 = issuance_at (subsidy l) (word_of_nat (dag_len ?d))" by (simp add: dag_len_ids l(3,5) issuance_at_def HALVING_ERA_def)
  have new: "block_ident (blake3 ?C) (block_new (tips_list ?d) w 5 k p) \<noteq> BlockId 0" for w k p
    by (simp add: block_ident_def byte_crypto_def id_preimage_def block_new_def tips len_bytes_def to_le_bytes_def hd_le8)
  from produce_block_accepted [OF n(1) l(1,2) cap payer_pool l(7) total wf stamps _ ts _ sel iss, of 1 ?cb]
  show ?thesis
    using l(1,4,5) n payer_fresh new by (auto simp: payer_pending payer_select byte_ids)
qed

section \<open>Transfers\<close>

definition covers :: "utxo_set \<Rightarrow> address \<Rightarrow> nat \<Rightarrow> out_point \<Rightarrow> tx_output \<Rightarrow> bool" where
  "covers u a need op out \<longleftrightarrow> utxo_get u op = Some out \<and> owner out = a \<and> need \<le> unat (out_value out)"

lemma set_utxo_iter: "set (utxo_iter u) = {(op, out). fmlookup u op = Some out}"
proof -
  have "set (utxo_iter u) = (\<lambda>op. (op, the (fmlookup u op))) ` fset (fmdom u)"
    by (simp add: utxo_iter_def sorted_list_of_fmap_def)
  then show ?thesis by (auto simp: fmlookup_dom_iff image_iff dest: fmdomI)
qed

lemma set_candidates:
  "set (candidates u a need) = {(op, v). \<exists>out. covers u a (unat need) op out \<and> v = out_value out}"
  unfolding candidates_def set_sort set_map set_filter set_utxo_iter
  by (force simp: covers_def utxo_get_def word_le_nat_alt)

lemma candidates_least:
  assumes "candidates u a need = (op, v) # rest" "(op', v') \<in> set (candidates u a need)"
  shows "v \<le> v'"
proof -
  have "sorted (map (\<lambda>(op, v). (v, op)) (candidates u a need))" by (simp add: candidates_def)
  then have "(v, op) \<le> (v', op')" using assms by (auto simp: assms(1))
  then show ?thesis by (auto simp: less_eq_prod_def)
qed

text \<open>The signed transfer of one output, and the outputs of a transfer with its change.\<close>

definition transfer_tx :: "('sk, 'vk) crypto \<Rightarrow> u64 \<Rightarrow> out_point \<Rightarrow> tx_output list \<Rightarrow> transaction" where
  "transfer_tx C seed op outs =
     (let tx = unsigned_tx [op] outs [] in attach_signature tx 0 (Sig (key_sign C (from_u64 C seed) (sighash C tx))))"

definition change_outs :: "u64 \<Rightarrow> address \<Rightarrow> address \<Rightarrow> u64 \<Rightarrow> tx_output list" where
  "change_outs amount to from change =
     \<lparr>out_value = amount, owner = to\<rparr> # (if change = 0 then [] else [\<lparr>out_value = change, owner = from\<rparr>])"

lemma transfer_tx_sel:
  shows "inputs (transfer_tx C seed op outs)
      = [\<lparr>outpoint = op, signature = Sig (key_sign C (from_u64 C seed) (sighash C (transfer_tx C seed op outs)))\<rparr>]"
    "outputs (transfer_tx C seed op outs) = outs"
proof -
  let ?unsigned = "unsigned_tx [op] outs []" and ?tx = "transfer_tx C seed op outs"
  have tx: "inputs ?tx = [\<lparr>outpoint = op, signature = Sig (key_sign C (from_u64 C seed) (sighash C ?unsigned))\<rparr>]" "outputs ?tx = outs" "tag ?tx = []"
    by (simp_all add: transfer_tx_def Let_def attach_signature_def unsigned_tx_def)
  have "encode_into False ?tx = encode_into False ?unsigned" by (rule encode_unsigned_map) (simp_all add: tx unsigned_tx_def)
  then have "sighash C ?tx = sighash C ?unsigned" by (simp add: sighash_def)
  then show "inputs ?tx = [\<lparr>outpoint = op, signature = Sig (key_sign C (from_u64 C seed) (sighash C ?tx))\<rparr>]" "outputs ?tx = outs"
    using tx by simp_all
qed

lemma transfer_tx_ok:
  fixes C :: "('sk, 'vk) crypto" and seed op outs
  defines "tx \<equiv> transfer_tx C seed op outs"
  assumes "ed25519_correct C" "utxo_get u op = Some out" "owner out = node_address C seed"
    and "outs \<noteq> []" "length outs \<le> 2" "outputs_ok outs" "outputs_sum outs \<le> unat (out_value out)"
    and "\<forall>op \<in> fset (fmdom u). op_tx op \<noteq> tx_ident C tx"
  shows "regular_ok C u tx \<and> inputs_sum u (inputs tx) = unat (out_value out)"
proof -
  note tx = transfer_tx_sel [of C seed op outs, folded tx_def]
  let ?inp = "\<lparr>outpoint = op, signature = Sig (key_sign C (from_u64 C seed) (sighash C tx))\<rparr>"
  have "spendable C u tx ?inp"
    using assms(3,4) verify_sign [OF assms(2), of "from_u64 C seed" "sighash C tx"]
    by (simp add: spendable_def authorised_def utxo_get_def node_address_def)
  moreover have "set (points (tx_ident C tx) 0 (length outs)) \<inter> fset (fmdom (remove_inputs (inputs tx) u)) = {}"
  proof (rule ccontr)
    assume "\<not> ?thesis"
    then obtain x where x: "x \<in> set (points (tx_ident C tx) 0 (length outs))" "x |\<in>| fmdom (remove_inputs (inputs tx) u)" by blast
    then have "x |\<in>| fmdom u" by (auto simp: fmlookup_dom_iff remove_inputs_lookup split: if_splits)
    with points_tx [OF x(1)] assms(9) show False by auto
  qed
  moreover have "distinct (points (tx_ident C tx) 0 (length outs))"
    using assms(6) by (cases outs; cases "tl outs") (auto simp: points_def)
  moreover have "inputs_sum u (inputs tx) = unat (out_value out)" using assms(3) tx(1) by (simp add: inputs_sum_def utxo_get_def)
  ultimately show ?thesis
    using assms(5,7,8) tx unsigned_less [of "out_value out", where 'a = nat] by (simp add: regular_ok_def)
qed

lemma least_transfer:
  fixes C :: "('sk, 'vk) crypto" and seed op to
  defines "a \<equiv> node_address C seed"
  assumes "ed25519_correct C" "covers u a (unat need) op out" "amount \<noteq> 0" "unat need = unat amount + unat fee"
  defines "change \<equiv> out_value out - need"
  defines "tx \<equiv> transfer_tx C seed op (change_outs amount to a change)"
  shows "unat (out_value out) = unat amount + unat fee + unat change"
    "\<forall>op \<in> fset (fmdom u). op_tx op \<noteq> tx_ident C tx \<Longrightarrow> \<exists>u'. apply_regular C u tx = Inr (fee, u')"
proof -
  let ?outs = "change_outs amount to a change"
  have U: "utxo_get u op = Some out" "owner out = node_address C seed" "unat need \<le> unat (out_value out)"
    using assms(3) by (simp_all add: covers_def a_def)
  show ch: "unat (out_value out) = unat amount + unat fee + unat change"
    using U(3) assms(5) by (simp add: change_def unat_sub word_le_nat_alt)
  assume fr: "\<forall>op \<in> fset (fmdom u). op_tx op \<noteq> tx_ident C tx"
  have sum: "outputs_sum ?outs = unat amount + unat change" by (simp add: outputs_sum_def change_outs_def)
  then have "outputs_ok ?outs"
    using assms(4) ch unsigned_less [of "out_value out", where 'a = nat] by (auto simp: outputs_ok_def change_outs_def)
  then have R: "regular_ok C u tx" "inputs_sum u (inputs tx) = unat (out_value out)" "outputs tx = ?outs"
    using transfer_tx_ok [OF assms(2) U(1,2), of ?outs] transfer_tx_sel(2) [of C seed op ?outs] fr sum ch
    by (simp_all add: change_outs_def tx_def)
  then have "unat fee = inputs_sum u (inputs tx) - outputs_sum (outputs tx)" using ch sum by simp
  then show "\<exists>u'. apply_regular C u tx = Inr (fee, u')" using R(1) by (simp add: apply_regular_ok)
qed

lemma build_transfer_eq:
  assumes "node_ledger n = Some l" "ledger_state C l = Some u" "amount \<noteq> 0" "checked_add amount (min_fee n) = Some need"
  shows "build_transfer_to C n seed amount to = Some (case candidates u (node_address C seed) need of
      [] \<Rightarrow> Inl InsufficientFunds
    | (op, v) # _ \<Rightarrow> Inr (transfer_tx C seed op (change_outs amount to (node_address C seed) (v - need))))"
  using assms
  by (auto simp: build_transfer_to_def prepare_transfer_def ledger_of_def Let_def node_address_def transfer_tx_def
      change_outs_def word_neq_0_conv [symmetric] split: list.split)

text \<open>
  C32: transfers.  For a non-zero amount the node builds a transfer exactly when one output of the
  sender covers the amount and the fee; it spends the least such output, pays the amount to
  the recipient and the rest back to the sender, and the transaction is valid in the current
  state with the minimum fee as its fee, as long as its id is new.
\<close>

theorem transfer_valid:
  assumes "ed25519_correct C" "node_ledger n = Some l" "ledger_state C l = Some u" "amount \<noteq> 0"
    and "need = unat amount + unat (min_fee n)" "a = node_address C seed"
  shows "\<exists>res. build_transfer_to C n seed amount to = Some res
    \<and> (\<forall>e. res = Inl e \<longrightarrow> e = InsufficientFunds \<and> (\<nexists>op out. covers u a need op out))
    \<and> (\<forall>tx. res = Inr tx \<longrightarrow> (\<exists>op out change. covers u a need op out
         \<and> (\<forall>op' out'. covers u a need op' out' \<longrightarrow> out_value out \<le> out_value out')
         \<and> map outpoint (inputs tx) = [op] \<and> outputs tx = change_outs amount to a change
         \<and> unat (out_value out) = need + unat change
         \<and> ((\<forall>op \<in> fset (fmdom u). op_tx op \<noteq> tx_ident C tx) \<longrightarrow> (\<exists>u'. apply_regular C u tx = Inr (min_fee n, u')))))"
proof (cases "checked_add amount (min_fee n)")
  case None
  then have "\<not> covers u a need op out" for op out
    using unsigned_less [of "out_value out", where 'a = nat] by (auto simp: checked_add_None_iff covers_def assms(5))
  then show ?thesis using None assms(4) by (simp add: build_transfer_to_def prepare_transfer_def Let_def)
next
  case (Some w)
  then have w: "unat w = need" by (simp add: checked_add_Some_iff assms(5))
  note B = build_transfer_eq [OF assms(2-4) Some, of seed to, folded assms(6)]
  show ?thesis
  proof (cases "candidates u a w")
    case Nil
    then have "\<not> covers u a need op out" for op out using set_candidates [of u a w] w by auto
    then show ?thesis using B Nil by simp
  next
    case (Cons c rest)
    obtain op v where c: "c = (op, v)" by (cases c)
    have "(op, v) \<in> set (candidates u a w)" using Cons c by simp
    then obtain out where out: "covers u a (unat w) op out" "v = out_value out" unfolding set_candidates by blast
    have least: "out_value out \<le> out_value out'" if "covers u a need op' out'" for op' out'
    proof -
      have "(op', out_value out') \<in> set (candidates u a w)" unfolding set_candidates using that w by auto
      then show ?thesis using candidates_least [of u a w op v rest] Cons c out(2) by simp
    qed
    let ?tx = "transfer_tx C seed op (change_outs amount to a (out_value out - w))"
    have res: "build_transfer_to C n seed amount to = Some (Inr ?tx)" using B Cons c out(2) by simp
    note L = least_transfer(1) [OF assms(1) out(1) [unfolded assms(6)] assms(4), of "min_fee n", folded assms(6)]
      least_transfer(2) [OF assms(1) out(1) [unfolded assms(6)] assms(4), of "min_fee n" to, folded assms(6)]
    show ?thesis
      unfolding res using out(1) least L w transfer_tx_sel [of C seed op "change_outs amount to a (out_value out - w)"]
      by (intro exI [of _ "Inr ?tx"]) (auto simp: assms(5) intro!: exI [of _ op] exI [of _ out] exI [of _ "out_value out - w"])
  qed
qed

theorem transfer_valid_witness:
  "\<exists>n l tx u'. node_ledger n = Some l \<and> ledger_state byte_crypto l = Some mint_set
     \<and> build_transfer_to byte_crypto n 1 40 (Address 8) = Some (Inr tx) \<and> map outpoint (inputs tx) = [OutPoint (TxId 0) 0]
     \<and> apply_regular byte_crypto mint_set tx = Inr (1, u')"
proof -
  let ?C = byte_crypto
  have ed: "ed25519_correct ?C" by (simp add: ed25519_correct_def byte_crypto_def)
  have addr: "Address 7 = node_address ?C 1" by (simp add: node_address_def key_address_def byte_crypto_def)
  obtain l where l: "subsidy l = 50" "ledger_state ?C l = Some mint_set" using mint_ledger by blast
  define n where "n = \<lparr>node_ledger = Some l, node_mempool = mempool_new, node_clock = Wall, node_miner = None\<rparr>"
  have n: "node_ledger n = Some l" "min_fee n = 1" by (simp_all add: n_def min_fee_def ledger_of_def l(1) MIN_FEE_DIVISOR_def)
  have nz: "(40 :: u64) \<noteq> 0" by simp
  have need: "41 = unat (40 :: u64) + unat (min_fee n)" by (simp add: n(2))
  have cov: "covers mint_set (Address 7) 41 op out \<longleftrightarrow> op = OutPoint (TxId 0) 0 \<and> out = \<lparr>out_value = 50, owner = Address 7\<rparr>" for op out
    by (auto simp: covers_def mint_set_def utxo_get_def split: if_splits)
  from transfer_valid [OF ed n(1) l(2) nz need addr, of "Address 8"] obtain res where
    res: "build_transfer_to ?C n 1 40 (Address 8) = Some res" "\<And>e. res \<noteq> Inl e"
      "\<And>tx. res = Inr tx \<Longrightarrow> map outpoint (inputs tx) = [OutPoint (TxId 0) 0]
         \<and> ((\<forall>op \<in> fset (fmdom mint_set). op_tx op \<noteq> tx_ident ?C tx) \<longrightarrow> (\<exists>u'. apply_regular ?C mint_set tx = Inr (min_fee n, u')))"
    unfolding cov by blast
  then obtain tx where tx: "res = Inr tx" by (cases res) auto
  then have "length (inputs tx) = 1" using res(3) [OF tx] by (metis length_map length_Cons list.size(3) One_nat_def)
  then have "tx_ident ?C tx = TxId 1"
    by (simp add: tx_ident_def byte_crypto_def encode_def encode_into_def len_bytes_def to_le_bytes_def hd_le8)
  then have "\<forall>op \<in> fset (fmdom mint_set). op_tx op \<noteq> tx_ident ?C tx" by (simp add: mint_set_def)
  then obtain u' where "apply_regular ?C mint_set tx = Inr (1, u')" using res(3) [OF tx] n(2) by auto
  moreover have "build_transfer_to ?C n 1 40 (Address 8) = Some (Inr tx)" "map outpoint (inputs tx) = [OutPoint (TxId 0) 0]"
    using res(1) res(3) [OF tx] tx by simp_all
  ultimately show ?thesis using n(1) l(2) by (intro exI [of _ n] exI [of _ l] exI [of _ tx] exI [of _ u']) simp
qed

end
