(* ===== verification/Net.thy ===== *)
theory Net
  imports NodeProps
begin

text \<open>
  \<open>crates/kovanica-node/src/net.rs\<close>: the wire form of block records and the one-shot exchange of
  blocks.  A TCP stream is the bytes written to it; socket errors and timeouts are not
  modelled.  The clock may move while records are applied: \<open>clock i\<close> is the reading for the
  \<open>i\<close>-th one.  An error stops the exchange but keeps the blocks already applied.
\<close>

datatype net_error = NetIo string | Decode string | Apply string

fun display_net_error :: "net_error \<Rightarrow> string" where
  "display_net_error (NetIo e) = ''io: '' @ e"
| "display_net_error (Decode e) = ''decode: '' @ e"
| "display_net_error (Apply e) = ''apply: '' @ e"

section \<open>The wire form\<close>

definition encode_record :: "block_record \<Rightarrow> byte list" where
  "encode_record r =
     len_bytes (rec_parents r) @ concat (map as_bytes (rec_parents r))
     @ to_le_bytes (rec_work r) @ to_le_bytes (rec_timestamp_ms r) @ to_le_bytes (rec_nonce r)
     @ len_bytes (encode_block_payload (rec_txs r)) @ encode_block_payload (rec_txs r)"

definition encode_records :: "block_record list \<Rightarrow> byte list" where
  "encode_records rs = len_bytes rs @ concat (map encode_record rs)"

definition unexpected_end :: net_error where
  "unexpected_end = Decode ''unexpected end''"

definition net_read_count :: "nat \<Rightarrow> byte list \<Rightarrow> net_error + (nat \<times> byte list)" where
  "net_read_count = read_count unexpected_end (Decode ''count too large'')"

definition decode_record :: "byte list \<Rightarrow> net_error + (block_record \<times> byte list)" where
  "decode_record bs =
     rbind (net_read_count 32 bs) (\<lambda>(n_parents, bs).
     rbind (read_many (read_block_id unexpected_end) n_parents bs) (\<lambda>(ps, bs).
     rbind (read_word unexpected_end bs) (\<lambda>(w, bs).
     rbind (read_word unexpected_end bs) (\<lambda>(ts, bs).
     rbind (read_word unexpected_end bs) (\<lambda>(n, bs).
     rbind (net_read_count 1 bs) (\<lambda>(payload_len, bs).
     rbind (read_array unexpected_end payload_len bs) (\<lambda>(pl, bs).
     rbind (map_err (\<lambda>e. Decode (display_decode_error e)) (decode_block_payload pl)) (\<lambda>txs.
       Inr (\<lparr>rec_parents = ps, rec_work = w, rec_timestamp_ms = ts, rec_nonce = n, rec_txs = txs\<rparr>, bs)))))))))"

definition decode_records :: "byte list \<Rightarrow> net_error + block_record list" where
  "decode_records bs =
     rbind (net_read_count 48 bs) (\<lambda>(count, bs).
     rbind (read_many decode_record count bs) (\<lambda>(rs, bs).
       if bs \<noteq> [] then Inl (Decode ''trailing bytes'') else Inr rs))"

definition decode_one_record :: "byte list \<Rightarrow> net_error + block_record" where
  "decode_one_record bs =
     rbind (decode_record bs) (\<lambda>(r, bs). if bs \<noteq> [] then Inl (Decode ''trailing bytes'') else Inr r)"

section \<open>Exchanging blocks\<close>

text \<open>The node after the records, with the number applied or the error that stopped the loop.\<close>

fun receive_all ::
    "('sk, 'vk) crypto \<Rightarrow> (nat \<Rightarrow> u64) \<Rightarrow> nat \<Rightarrow> node_state \<Rightarrow> block_record list
     \<Rightarrow> (node_state \<times> (net_error + nat)) option" where
  "receive_all C clock applied n [] = Some (n, Inr applied)"
| "receive_all C clock applied n (r # rest) = do {
     res \<leftarrow> receive_block C (clock applied) n r;
     (case res of
        Inl e \<Rightarrow> Some (n, Inl (Apply (display_node_error e)))
      | Inr (_, n) \<Rightarrow> receive_all C clock (Suc applied) n rest)
   }"

definition gossip ::
    "('sk, 'vk) crypto \<Rightarrow> (nat \<Rightarrow> u64) \<Rightarrow> node_state \<Rightarrow> node_state \<Rightarrow> (node_state \<times> (net_error + nat)) option" where
  "gossip C clock from to = do { rs \<leftarrow> export from; receive_all C clock 0 to rs }"

definition serve_blocks :: "node_state \<Rightarrow> byte list option" where
  "serve_blocks n = map_option encode_records (export n)"

definition pull_blocks ::
    "('sk, 'vk) crypto \<Rightarrow> (nat \<Rightarrow> u64) \<Rightarrow> byte list \<Rightarrow> node_state \<Rightarrow> (node_state \<times> (net_error + nat)) option" where
  "pull_blocks C clock buf n =
     (case decode_records buf of
        Inl e \<Rightarrow> Some (n, Inl e)
      | Inr rs \<Rightarrow> receive_all C clock 0 n rs)"

text \<open>
  The bounded form: what the operating system answers for the address (its text of an error, or the
  socket addresses) and for connecting to the first of them and reading within the timeout.
\<close>

definition pull_blocks_timeout ::
    "('sk, 'vk) crypto \<Rightarrow> (nat \<Rightarrow> u64) \<Rightarrow> string + 'a list \<Rightarrow> ('a \<Rightarrow> string + byte list) \<Rightarrow> node_state
     \<Rightarrow> (node_state \<times> (net_error + nat)) option" where
  "pull_blocks_timeout C clock addrs read_all n =
     (case addrs of
        Inl e \<Rightarrow> Some (n, Inl (NetIo e))
      | Inr [] \<Rightarrow> Some (n, Inl (NetIo ''no address''))
      | Inr (sock # _) \<Rightarrow>
          (case read_all sock of
             Inl e \<Rightarrow> Some (n, Inl (NetIo e))
           | Inr buf \<Rightarrow>
               (case decode_records buf of
                  Inl e \<Rightarrow> Some (n, Inl e)
                | Inr rs \<Rightarrow> receive_all C clock 0 n rs)))"

lemma pull_blocks_timeout_eq:
  "pull_blocks_timeout C clock addrs read_all n =
     (case rbind addrs (\<lambda>socks. case socks of [] \<Rightarrow> Inl ''no address'' | sock # _ \<Rightarrow> read_all sock) of
        Inl e \<Rightarrow> Some (n, Inl (NetIo e))
      | Inr buf \<Rightarrow> pull_blocks C clock buf n)"
  by (auto simp: pull_blocks_timeout_def pull_blocks_def rbind_def split: sum.split list.split)

section \<open>The record codec\<close>

definition wf_record :: "block_record \<Rightarrow> bool" where
  "wf_record r \<longleftrightarrow> machine_sized (rec_parents r) (rec_txs r)"

lemma decode_record_enc:
  assumes "wf_record r"
  shows "decode_record (encode_record r @ bs) = Inr (r, bs)"
proof -
  have sz: "length (rec_parents r) < 2 ^ 64" "length (encode_block_payload (rec_txs r)) < 2 ^ 64" "wf_txs (rec_txs r)"
    using assms by (auto simp: wf_record_def machine_sized_def)
  have ps: "read_many (read_block_id unexpected_end) (length (rec_parents r)) (concat (map as_bytes (rec_parents r)) @ q) = Inr (rec_parents r, q)" for q
    by (rule ids_codec.read_many_enc) (simp add: list_all_iff)
  show ?thesis
    using sz ids_codec.width_concat [of "rec_parents r"]
    by (simp add: decode_record_def encode_record_def net_read_count_def codec_simps ps decode_payload_enc)
qed

lemma decode_record_InrD:
  assumes "decode_record bs = Inr (r, q)"
  shows "bs = encode_record r @ q \<and> wf_record r"
proof -
  from assms obtain np ps b1 b2 w b3 ts b4 n b5 pn b6 pl txs where
    r: "net_read_count 32 bs = Inr (np, b1)" "read_many (read_block_id unexpected_end) np b1 = Inr (ps, b2)"
      "read_word unexpected_end b2 = Inr (w, b3)" "read_word unexpected_end b3 = Inr (ts, b4)"
      "read_word unexpected_end b4 = Inr (n, b5)" "net_read_count 1 b5 = Inr (pn, b6)"
      "read_array unexpected_end pn b6 = Inr (pl, q)" "decode_block_payload pl = Inr txs"
    and rec: "r = \<lparr>rec_parents = ps, rec_work = w, rec_timestamp_ms = ts, rec_nonce = n, rec_txs = txs\<rparr>"
    by (auto simp: decode_record_def elim!: rbind_InrE split: sum.splits)
  have i: "bs = len_bytes ps @ concat (map as_bytes ps) @ b2 \<and> length ps < 2 ^ 64 \<and> list_all (\<lambda>_. True) ps"
    by (rule ids_codec.read_counted_canonical [of unexpected_end "Decode ''count too large''" 32])
      (use r(1,2) in \<open>simp add: net_read_count_def\<close>)
  have p: "pl = encode_block_payload txs" "wf_txs txs" using decode_payload_InrD [OF r(8)] by auto
  have w: "b2 = to_le_bytes w @ b3" "b3 = to_le_bytes ts @ b4" "b4 = to_le_bytes n @ b5"
    using r(3-5) by (auto dest: read_word_InrD [rotated])
  from i w p read_count_InrD [OF r(6) [unfolded net_read_count_def]] read_array_InrD [OF r(7)] show ?thesis
    by (auto simp: rec encode_record_def wf_record_def machine_sized_def len_bytes_def)
qed

lemma decode_record_more [dec_more]:
  "decode_record bs = Inr (r, q) \<Longrightarrow> decode_record (bs @ ys) = Inr (r, q @ ys)"
  using decode_record_InrD [of bs r q] decode_record_enc [of r "q @ ys"] by auto

interpretation record_codec: canonical_codec decode_record encode_record wf_record 48
proof unfold_locales
  show "48 \<le> length (encode_record r)" for r by (simp add: encode_record_def)
qed (simp_all add: decode_record_enc decode_record_InrD dec_more)

lemma records_iff:
  "(decode_records bs = Inr rs \<longleftrightarrow> bs = encode_records rs \<and> list_all wf_record rs \<and> length rs < 2 ^ 64)
   \<and> (decode_one_record bs = Inr r \<longleftrightarrow> bs = encode_record r \<and> wf_record r)"
proof
  show "decode_records bs = Inr rs \<longleftrightarrow> bs = encode_records rs \<and> list_all wf_record rs \<and> length rs < 2 ^ 64"
  proof
    assume "decode_records bs = Inr rs"
    then obtain n b where r: "net_read_count 48 bs = Inr (n, b)" "read_many decode_record n b = Inr (rs, [])"
      by (auto simp: decode_records_def elim!: rbind_InrE split: if_splits)
    have "bs = len_bytes rs @ concat (map encode_record rs) @ [] \<and> length rs < 2 ^ 64 \<and> list_all wf_record rs"
      by (rule record_codec.read_counted_canonical [of unexpected_end "Decode ''count too large''" 48])
        (use r in \<open>simp add: net_read_count_def\<close>)
    then show "bs = encode_records rs \<and> list_all wf_record rs \<and> length rs < 2 ^ 64" by (simp add: encode_records_def)
  next
    assume a: "bs = encode_records rs \<and> list_all wf_record rs \<and> length rs < 2 ^ 64"
    then show "decode_records bs = Inr rs"
      using record_codec.read_many_enc [of rs "[]"] record_codec.width_concat [of rs]
      by (simp add: decode_records_def encode_records_def net_read_count_def codec_simps)
  qed
  show "decode_one_record bs = Inr r \<longleftrightarrow> bs = encode_record r \<and> wf_record r"
    using decode_record_enc [of r "[]"] decode_record_InrD [of bs r "[]"]
    by (auto simp: decode_one_record_def rbind_eq_Inr split: if_splits)
qed

text \<open>
  The wire form of block records is canonical: bytes decode to a list of records exactly when
  they are its encoding, and a single record likewise.
\<close>

lemma records_canonical:
  "(decode_records bs = Inr rs \<longleftrightarrow> bs = encode_records rs \<and> list_all wf_record rs \<and> length rs < 2 ^ 64)
   \<and> (decode_one_record bs = Inr r \<longleftrightarrow> bs = encode_record r \<and> wf_record r)"
  by (rule records_iff)

section \<open>Convergence\<close>

lemma record_of_stored:
  assumes "node_ledger n = Some l" "ledger_inv C l" "x \<in> ids (ledger_dag l)"
  defines "b \<equiv> node_block (nd (ledger_dag l) x)"
  shows "\<exists>txs. node_block_record n x = Some \<lparr>rec_parents = parents b, rec_work = work b, rec_timestamp_ms = timestamp_ms b,
      rec_nonce = nonce b, rec_txs = txs\<rparr> \<and> decode_block_payload (payload b) = Inr txs"
  using stored_block [OF assms(2,3)] assms(1) nd_lookup [OF assms(3)]
  by (auto simp: node_block_record_def dag_block_def b_def)

text \<open>A node that can take over the blocks of \<open>l\<close>, at every reading of its clock.\<close>

definition can_receive :: "('sk, 'vk) crypto \<Rightarrow> (nat \<Rightarrow> u64) \<Rightarrow> ledger \<Rightarrow> node_state \<Rightarrow> bool" where
  "can_receive C clock l n \<longleftrightarrow> (\<exists>e. node_ledger n = Some e \<and> peer_ledger C l e)
     \<and> (\<forall>i. \<forall>x \<in> ids (ledger_dag l). timestamp_ms (node_block (nd (ledger_dag l) x))
             \<le> saturating_add (now_ms (clock i) n) MAX_FUTURE_DRIFT_MS)"

definition stored :: "node_state \<Rightarrow> block_id \<Rightarrow> block" where
  "stored n x = node_block (nd (ledger_dag (the (node_ledger n))) x)"

definition held :: "node_state \<Rightarrow> block_id set" where
  "held n = (case node_ledger n of None \<Rightarrow> {} | Some l \<Rightarrow> ids (ledger_dag l))"

lemma receive_stored:
  assumes "ledger_inv C l" "can_receive C clock l n" "x \<in> ids (ledger_dag l)" "past (ledger_dag l) x \<subseteq> held n"
    and "Suc (card (held n)) \<le> ROOT_CAPACITY" "node_ledger m = Some l" "node_block_record m x = Some r"
  shows "\<exists>n'. receive_block C (clock i) n r = Some (Inr (x, n')) \<and> can_receive C clock l n' \<and> held n' = insert x (held n)
    \<and> (\<forall>y \<in> held n. stored n' y = stored n y)"
proof -
  let ?b = "node_block (nd (ledger_dag l) x)"
  obtain txs where r: "r = \<lparr>rec_parents = parents ?b, rec_work = work ?b, rec_timestamp_ms = timestamp_ms ?b, rec_nonce = nonce ?b, rec_txs = txs\<rparr>"
      "decode_block_payload (payload ?b) = Inr txs"
    using record_of_stored [OF assms(6,1,3)] assms(7) by auto
  obtain e where e: "node_ledger n = Some e" "peer_ledger C l e" using assms(2) by (auto simp: can_receive_def)
  then have h: "held n = ids (ledger_dag e)" by (simp add: held_def)
  have now: "\<not> saturating_add (now_ms (clock i) n) MAX_FUTURE_DRIFT_MS < rec_timestamp_ms r"
    using assms(2,3) r(1) by (auto simp: can_receive_def not_less)
  show ?thesis
  proof (cases "x \<in> held n")
    case True
    obtain txs' where "block_new (parents ?b) (work ?b) (timestamp_ms ?b) (nonce ?b) (encode_block_payload txs') = ?b"
        "decode_block_payload (payload ?b) = Inr txs'" using stored_block [OF assms(1,3)] by blast
    then have new: "block_new (parents ?b) (work ?b) (timestamp_ms ?b) (nonce ?b) (encode_block_payload txs) = ?b" using r(2) by simp
    have "block_ident (blake3 C) ?b = x" using wf_dagD(5) [OF ledger_invD(1) [OF assms(1)] assms(3)] by simp
    then have "preview (blake3 C) (ledger_dag e) ?b = Some (Inl (DuplicateBlock x))"
      using True h by (simp add: preview_def check_structure_def contains_def ids_def Let_def)
    then have "ledger_insert C e (parents ?b) (work ?b) (timestamp_ms ?b) (nonce ?b) txs = Some (Inl (Dag (DuplicateBlock x)))"
      by (simp add: ledger_insert_def Let_def new)
    then have "receive_block C (clock i) n r = Some (Inr (x, n))"
      using now e(1) r(1) by (simp add: receive_block_def Let_def)
    then show ?thesis using assms(2) True by (auto simp: insert_absorb)
  next
    case False
    obtain e' where e': "ledger_insert C e (parents ?b) (work ?b) (timestamp_ms ?b) (nonce ?b) txs = Some (Inr (x, e'))"
        "peer_ledger C l e'" "ids (ledger_dag e') = insert x (ids (ledger_dag e))"
        "\<forall>y \<in> ids (ledger_dag e). node_block (nd (ledger_dag e') y) = node_block (nd (ledger_dag e) y)"
      using peer_step [OF assms(1) e(2) assms(3) _ _ _ r(2)] False assms(4,5) h by auto
    have "ledger_inv C e'" "finality_depth e' = - 1" using e'(2) by (auto simp: peer_ledger_def)
    then obtain u where "evict_mempool C (n\<lparr>node_ledger := Some e'\<rparr>)
        = Some (n\<lparr>node_ledger := Some e', node_mempool := fst (evict_invalid (node_mempool n) u)\<rparr>)"
      using evict_mempool_ok [of "n\<lparr>node_ledger := Some e'\<rparr>" e' C] by auto
    then have "receive_block C (clock i) n r
        = Some (Inr (x, n\<lparr>node_ledger := Some e', node_mempool := fst (evict_invalid (node_mempool n) u)\<rparr>))"
      using now e(1) r(1) e'(1) by (simp add: receive_block_def Let_def)
    then show ?thesis using e' h e(1) assms(2) by (auto simp: can_receive_def held_def stored_def now_ms_def)
  qed
qed

lemma receive_all_stored:
  assumes "ledger_inv C l" "node_ledger m = Some l" "can_receive C clock l n" "topo (ledger_dag l) (held n) xs" "set xs \<subseteq> ids (ledger_dag l)"
    and "card (held n \<union> set xs) < ROOT_CAPACITY"
  shows "\<exists>n'. receive_all C clock i n (List.map_filter (node_block_record m) xs) = Some (n', Inr (i + length xs))
    \<and> can_receive C clock l n' \<and> held n' = held n \<union> set xs \<and> (\<forall>y \<in> held n. stored n' y = stored n y)"
  using assms(3-)
proof (induction xs arbitrary: n i)
  case (Cons x xs)
  have x: "x \<in> ids (ledger_dag l)" "past (ledger_dag l) x \<subseteq> held n" using Cons.prems by auto
  have fin: "finite (held n)" by (simp add: held_def split: option.split)
  have "card (held n) \<le> card (held n \<union> set (x # xs))" using fin by (intro card_mono) auto
  then have "Suc (card (held n)) \<le> ROOT_CAPACITY" using Cons.prems(4) by simp
  moreover obtain r where r: "node_block_record m x = Some r" using record_of_stored [OF assms(2,1) x(1)] by blast
  ultimately obtain n1 where n1: "receive_block C (clock i) n r = Some (Inr (x, n1))" "can_receive C clock l n1" "held n1 = insert x (held n)"
      "\<forall>y \<in> held n. stored n1 y = stored n y"
    using receive_stored [OF assms(1) Cons.prems(1) x _ assms(2) r] by blast
  have "topo (ledger_dag l) (held n1) xs" "set xs \<subseteq> ids (ledger_dag l)" "card (held n1 \<union> set xs) < ROOT_CAPACITY"
    using Cons.prems n1(3) by auto
  from Cons.IH [OF n1(2) this, of "Suc i"] n1 r show ?case by (auto simp: map_filter_simps)
qed (simp add: map_filter_simps)

lemma topo_mono: "topo d S xs \<Longrightarrow> S \<subseteq> T \<Longrightarrow> topo d T xs"
proof (induction xs arbitrary: S T)
  case (Cons x xs)
  then show ?case using Cons.IH [of "insert x S" "insert x T"] by auto
qed simp

lemma gossip_ok:
  assumes "ledger_inv C l" "node_ledger m = Some l" "can_receive C clock l n" "card (held n \<union> held m) < ROOT_CAPACITY"
  shows "\<exists>n'. gossip C clock m n = Some (n', Inr (card (held m) - 1)) \<and> can_receive C clock l n' \<and> held n' = held n \<union> held m
    \<and> (\<forall>y \<in> held n. stored n' y = stored n y)"
proof -
  let ?d = "ledger_dag l"
  note I = ledger_invD [OF assms(1)]
  obtain xs where xs: "linearize ?d = Some (genesis ?d # xs)" "distinct (genesis ?d # xs)" "set (genesis ?d # xs) = ids ?d" "topo ?d {} (genesis ?d # xs)"
    using linearize_ok [OF I(1)] linearize_genesis_first [OF I(1)] by metis
  have hm: "held m = ids ?d" using assms(2) by (simp add: held_def)
  have gn: "genesis ?d \<in> held n" using assms(3) wf_dagD(2) [OF ledger_invD(1)] by (force simp: can_receive_def peer_ledger_def held_def)
  have "filter (\<lambda>i. i \<noteq> ledger_genesis l) (genesis ?d # xs) = xs" using xs(2) I(2) by (auto simp: filter_id_conv)
  then have ex: "export m = Some (List.map_filter (node_block_record m) xs)" using assms(2) xs(1) by (simp add: export_def)
  have t: "topo ?d (held n) xs" using xs(4) gn by (auto intro: topo_mono [of ?d "{genesis ?d}"])
  have u: "held n \<union> set xs = held n \<union> held m" unfolding hm xs(3) [symmetric] using gn by auto
  have len: "length xs = card (held m) - 1" using distinct_card [OF xs(2)] xs(3) hm by simp
  have "\<exists>n'. receive_all C clock 0 n (List.map_filter (node_block_record m) xs) = Some (n', Inr (0 + length xs))
      \<and> can_receive C clock l n' \<and> held n' = held n \<union> set xs \<and> (\<forall>y \<in> held n. stored n' y = stored n y)"
    by (rule receive_all_stored [OF assms(1-3) t]) (use xs(3) assms(4) u in auto)
  then show ?thesis using ex u len by (auto simp: gossip_def)
qed

lemma ledger_state_same:
  assumes "ledger_inv C l" "ledger_inv C l'" "finality_depth l = - 1" "finality_depth l' = - 1" "subsidy l' = subsidy l"
    and "same_blocks (blake3 C) (ledger_dag l) (ledger_dag l')"
  shows "ledger_state C l' = ledger_state C l"
proof -
  have run: "\<exists>run. apply_dag C (ledger_dag x) (subsidy x) = Some run \<and> ledger_state C x = Some (run_utxo run)"
    if x: "ledger_inv C x" "finality_depth x = - 1" for x
  proof -
    obtain t where t: "selected_tip (ledger_dag x) = Some t" "t \<in> fset (tips (ledger_dag x))"
      using selected_tip_ok [OF ledger_invD(1) [OF x(1)]] by blast
    have "fmlookup (states x) t \<noteq> None" using full_lookup [OF x] tips_in_ids [OF ledger_invD(1) [OF x(1)] t(2)] by simp
    then show ?thesis by (rule ledger_state_run [OF x(1) t(1)])
  qed
  have "apply_dag C (ledger_dag l') (subsidy l') = apply_dag C (ledger_dag l) (subsidy l)"
    unfolding assms(5) by (rule apply_dag_cong [OF same_blocks_dag_block [OF assms(6)] same_blocks_linearize [OF assms(6)]])
  then show ?thesis using run [OF assms(1,3)] run [OF assms(2,4)] by auto
qed

text \<open>
  C6: two nodes that exchange their blocks converge.  With the same genesis and parameters, no
  finality or enforced difficulty, blocks that are mined if either enforces proof of work, and
  no timestamp too far ahead of either clock, gossip from \<open>a\<close> to \<open>b\<close> and back succeeds; both
  then hold the union of their blocks and have the same total order and the same state.
\<close>

theorem gossip_converges:
  assumes "node_ledger a = Some la" "node_ledger b = Some lb" "ledger_reachable C la" "ledger_reachable C lb"
    and "\<forall>l \<in> {la, lb}. finality_depth l = - 1 \<and> difficulty (ledger_dag l) = None
           \<and> ((require_pow (ledger_dag la) \<or> require_pow (ledger_dag lb)) \<longrightarrow>
                (\<forall>x \<in> ids (ledger_dag l) - {genesis (ledger_dag l)}. is_mined (blake3 C) (node_block (nd (ledger_dag l) x))))
           \<and> (\<forall>i. \<forall>n \<in> {a, b}. \<forall>x \<in> ids (ledger_dag l). timestamp_ms (node_block (nd (ledger_dag l) x))
                \<le> saturating_add (now_ms (clock i) n) MAX_FUTURE_DRIFT_MS)"
    and "subsidy la = subsidy lb" "dag_k (ledger_dag la) = dag_k (ledger_dag lb)" "genesis (ledger_dag la) = genesis (ledger_dag lb)"
    and "\<forall>x \<in> ids (ledger_dag la) \<inter> ids (ledger_dag lb). node_block (nd (ledger_dag la) x) = node_block (nd (ledger_dag lb) x)"
    and "card (ids (ledger_dag la) \<union> ids (ledger_dag lb)) < ROOT_CAPACITY"
  shows "\<exists>a' b' la' lb' u. gossip C clock a b = Some (b', Inr (card (ids (ledger_dag la)) - 1))
    \<and> gossip C clock b' a = Some (a', Inr (card (ids (ledger_dag la) \<union> ids (ledger_dag lb)) - 1))
    \<and> node_ledger a' = Some la' \<and> node_ledger b' = Some lb'
    \<and> ids (ledger_dag la') = ids (ledger_dag la) \<union> ids (ledger_dag lb) \<and> dag_block (ledger_dag la') = dag_block (ledger_dag lb')
    \<and> linearize (ledger_dag la') = linearize (ledger_dag lb')
    \<and> ledger_state C la' = Some u \<and> ledger_state C lb' = Some u"
proof -
  let ?A = "ids (ledger_dag la)" and ?B = "ids (ledger_dag lb)"
  have inv: "ledger_inv C la" "ledger_inv C lb" using assms(3,4) ledger_reachable_inv by auto
  note WA = wf_dagD [OF ledger_invD(1) [OF inv(1)]] and WB = wf_dagD [OF ledger_invD(1) [OF inv(2)]]
  have H: "held a = ?A" "held b = ?B" using assms(1,2) by (simp_all add: held_def)
  have "peer_ledger C la lb"
    using inv(2) assms(5-9) WB(2) by (auto simp: peer_ledger_def)
  then have "can_receive C clock la b" using assms(2,5) by (auto simp: can_receive_def)
  from gossip_ok [OF inv(1) assms(1) this] obtain b' where
    b': "gossip C clock a b = Some (b', Inr (card ?A - 1))" "can_receive C clock la b'" "held b' = ?B \<union> ?A"
      "\<forall>y \<in> ?B. stored b' y = stored b y"
    using assms(10) unfolding H by (metis Un_commute)
  obtain lb' where lb': "node_ledger b' = Some lb'" "peer_ledger C la lb'" using b'(2) by (auto simp: can_receive_def)
  then have PB: "ledger_inv C lb'" "finality_depth lb' = - 1" "subsidy lb' = subsidy la" "dag_k (ledger_dag lb') = dag_k (ledger_dag la)"
      "genesis (ledger_dag lb') = genesis (ledger_dag la)" "ids (ledger_dag lb') = ?A \<union> ?B"
      "\<And>x. x \<in> ?A \<Longrightarrow> node_block (nd (ledger_dag lb') x) = node_block (nd (ledger_dag la) x)"
      "\<And>x. x \<in> ?B \<Longrightarrow> node_block (nd (ledger_dag lb') x) = node_block (nd (ledger_dag lb) x)"
    using b'(3,4) assms(2) by (auto simp: peer_ledger_def held_def stored_def)
  have "peer_ledger C lb' la"
    using inv(1) assms(5,8) PB WA(2) by (auto simp: peer_ledger_def)
  moreover have "timestamp_ms (node_block (nd (ledger_dag lb') x)) \<le> saturating_add (now_ms (clock i) a) MAX_FUTURE_DRIFT_MS"
    if "x \<in> ids (ledger_dag lb')" for x i using that assms(5) PB(6-8) by auto
  ultimately have "can_receive C clock lb' a" using assms(1) by (auto simp: can_receive_def)
  moreover have "held b' = ?A \<union> ?B" "?A \<union> (?A \<union> ?B) = ?A \<union> ?B" using b'(3) by auto
  ultimately obtain a' where a': "gossip C clock b' a = Some (a', Inr (card (?A \<union> ?B) - 1))" "can_receive C clock lb' a'" "held a' = ?A \<union> ?B"
    using gossip_ok [OF PB(1) lb'(1), of clock a] assms(10) unfolding H by metis
  obtain la' where la': "node_ledger a' = Some la'" "peer_ledger C lb' la'" using a'(2) by (auto simp: can_receive_def)
  then have PA: "ledger_inv C la'" "finality_depth la' = - 1" "subsidy la' = subsidy lb'" "ids (ledger_dag la') = ?A \<union> ?B"
    using a'(3) by (auto simp: peer_ledger_def held_def)
  have S: "same_blocks (blake3 C) (ledger_dag lb') (ledger_dag la')"
    using la'(2) PA(4) PB(1,6) ledger_invD(1) by (auto simp: same_blocks_def peer_ledger_def)
  obtain u where "ledger_state C lb' = Some u" using ledger_state_tips [OF PB(1,2)] by blast
  then show ?thesis
    using b'(1) a'(1) la'(1) lb'(1) PA(4) same_blocks_dag_block [OF S] same_blocks_linearize [OF S]
      ledger_state_same [OF PB(1) PA(1) PB(2) PA(2,3) S] by auto
qed

text \<open>Two nodes on one genesis, the first a block ahead.\<close>

lemma demo_peers:
  obtains a b la lb where "node_ledger a = Some la" "node_ledger b = Some lb" "ledger_reachable clock_crypto la" "ledger_reachable clock_crypto lb"
    "ids (ledger_dag la) = {BlockId 0, BlockId 1}" "ids (ledger_dag lb) = {BlockId 0}"
    "\<forall>x \<in> {la, lb}. finality_depth x = - 1 \<and> difficulty (ledger_dag x) = None \<and> \<not> require_pow (ledger_dag x)
          \<and> (\<forall>i. \<forall>n \<in> {a, b}. \<forall>y \<in> ids (ledger_dag x). timestamp_ms (node_block (nd (ledger_dag x) y))
               \<le> saturating_add (now_ms ((\<lambda>i. 0) (i :: nat)) n) MAX_FUTURE_DRIFT_MS)"
    "subsidy la = subsidy lb" "dag_k (ledger_dag la) = dag_k (ledger_dag lb)" "genesis (ledger_dag la) = genesis (ledger_dag lb)"
    "\<forall>x \<in> ids (ledger_dag la) \<inter> ids (ledger_dag lb). node_block (nd (ledger_dag la) x) = node_block (nd (ledger_dag lb) x)"
proof -
  let ?C = clock_crypto
  obtain l l' where l: "ledger_reachable ?C l" "finality_depth l = - 1" "ids (ledger_dag l) = {BlockId 0}" "difficulty (ledger_dag l) = None"
      "\<not> require_pow (ledger_dag l)" "ledger_insert ?C l [BlockId 0] 1 1 0 [] = Some (Inr (BlockId 1, l'))"
      "ledger_reachable ?C l'" "finality_depth l' = - 1" "ids (ledger_dag l') = {BlockId 0, BlockId 1}"
    using demo_ledger by blast
  have sz: "machine_sized [BlockId 0] []" by (rule nothing_sized) simp
  note inv = ledger_reachable_inv [OF l(1)]
  have gen: "timestamp_ms (node_block (nd (ledger_dag l) (BlockId 0))) = 0"
    using ledger_invD(3) [OF inv] wf_dagD(2) [OF ledger_invD(1) [OF inv]] l(3) by (auto simp: block_genesis_def)
  have cap: "Suc (card (ids (ledger_dag l))) \<le> ROOT_CAPACITY" by (simp add: l(3) ROOT_CAPACITY_def u64_max_def)
  note S = ledger_insert_stored [OF inv cap sz l(6)] and R = ledger_insert_InrD [OF inv cap sz l(6)]
  have stamp: "timestamp_ms (node_block (nd (ledger_dag l') (BlockId 1))) = 1"
    using S(3) l(9) by (simp add: dag_block_def nd_lookup block_new_def)
  have pol: "difficulty (ledger_dag l') = None" "\<not> require_pow (ledger_dag l')"
    using dag_insert_InrD(4) [OF ledger_invD(1) [OF inv] cap R(3)] l(4,5) by (auto simp: wired_def)
  define a where "a = node_new\<lparr>node_ledger := Some l'\<rparr>"
  define b where "b = node_new\<lparr>node_ledger := Some l\<rparr>"
  have n: "node_ledger a = Some l'" "node_ledger b = Some l" "now_ms 0 a = 0" "now_ms 0 b = 0"
    by (simp_all add: a_def b_def now_ms_def node_new_def)
  have d: "(1 :: u64) \<le> saturating_add 0 MAX_FUTURE_DRIFT_MS" by (simp add: saturating_add_def MAX_FUTURE_DRIFT_MS_def)
  have P: "\<forall>x \<in> {l', l}. finality_depth x = - 1 \<and> difficulty (ledger_dag x) = None \<and> \<not> require_pow (ledger_dag x)
       \<and> (\<forall>i. \<forall>n \<in> {a, b}. \<forall>y \<in> ids (ledger_dag x). timestamp_ms (node_block (nd (ledger_dag x) y))
            \<le> saturating_add (now_ms ((\<lambda>i. 0) (i :: nat)) n) MAX_FUTURE_DRIFT_MS)"
    using l pol gen stamp n S(4) [of "BlockId 0"] d by auto
  have "\<forall>x \<in> ids (ledger_dag l') \<inter> ids (ledger_dag l). node_block (nd (ledger_dag l') x) = node_block (nd (ledger_dag l) x)"
    using S(4) by auto
  from that [OF n(1,2) l(7,1,9,3) P R(4) S(6,5) this] show ?thesis .
qed

theorem gossip_converges_witness:
  "\<exists>a b b' a' la lb. node_ledger a = Some la \<and> node_ledger b = Some lb \<and> ids (ledger_dag la) = {BlockId 0, BlockId 1} \<and> ids (ledger_dag lb) = {BlockId 0}
     \<and> gossip clock_crypto (\<lambda>i. 0) a b = Some (b', Inr 1) \<and> gossip clock_crypto (\<lambda>i. 0) b' a = Some (a', Inr 1)"
proof -
  let ?C = clock_crypto
  obtain a b la lb where n: "node_ledger a = Some la" "node_ledger b = Some lb" "ledger_reachable ?C la" "ledger_reachable ?C lb"
      "ids (ledger_dag la) = {BlockId 0, BlockId 1}" "ids (ledger_dag lb) = {BlockId 0}"
    and P: "\<forall>x \<in> {la, lb}. finality_depth x = - 1 \<and> difficulty (ledger_dag x) = None \<and> \<not> require_pow (ledger_dag x)
          \<and> (\<forall>i. \<forall>n \<in> {a, b}. \<forall>y \<in> ids (ledger_dag x). timestamp_ms (node_block (nd (ledger_dag x) y))
               \<le> saturating_add (now_ms ((\<lambda>i. 0) (i :: nat)) n) MAX_FUTURE_DRIFT_MS)"
    and same: "subsidy la = subsidy lb" "dag_k (ledger_dag la) = dag_k (ledger_dag lb)" "genesis (ledger_dag la) = genesis (ledger_dag lb)"
      "\<forall>x \<in> ids (ledger_dag la) \<inter> ids (ledger_dag lb). node_block (nd (ledger_dag la) x) = node_block (nd (ledger_dag lb) x)"
    by (rule demo_peers)
  have Q: "\<forall>l \<in> {la, lb}. finality_depth l = - 1 \<and> difficulty (ledger_dag l) = None
       \<and> ((require_pow (ledger_dag la) \<or> require_pow (ledger_dag lb)) \<longrightarrow>
            (\<forall>x \<in> ids (ledger_dag l) - {genesis (ledger_dag l)}. is_mined (blake3 ?C) (node_block (nd (ledger_dag l) x))))
       \<and> (\<forall>i. \<forall>n \<in> {a, b}. \<forall>x \<in> ids (ledger_dag l). timestamp_ms (node_block (nd (ledger_dag l) x))
            \<le> saturating_add (now_ms ((\<lambda>i. 0) (i :: nat)) n) MAX_FUTURE_DRIFT_MS)"
    using P by auto
  have "card (ids (ledger_dag la) \<union> ids (ledger_dag lb)) < ROOT_CAPACITY" by (simp add: n(5,6) ROOT_CAPACITY_def u64_max_def)
  then obtain a' b' where g: "gossip ?C (\<lambda>i. 0) a b = Some (b', Inr (card (ids (ledger_dag la)) - 1))"
      "gossip ?C (\<lambda>i. 0) b' a = Some (a', Inr (card (ids (ledger_dag la) \<union> ids (ledger_dag lb)) - 1))"
    using gossip_converges [OF n(1-4) Q same] by blast
  then show ?thesis using n(1,2,5,6)
    by (intro exI [of _ a] exI [of _ b] exI [of _ b'] exI [of _ a'] exI [of _ la] exI [of _ lb]) simp
qed

end
