(* ===== verification/Relay.thy ===== *)
theory Relay
  imports Net
begin

text \<open>
  \<open>crates/kovanica-node/src/relay.rs\<close>: the messages of a long-lived relay session and their
  frames.  The two directions of the TCP stream are byte lists: \<open>relay_send\<close> is what one call
  writes, \<open>relay_recv\<close> reads a frame and returns the unread rest; socket errors other than an end
  of the stream are not modelled.  A Rust \<open>String\<close> is the list of its UTF-8 bytes, as characters.
  The casts \<open>as u16\<close> and \<open>as u32\<close> of the lengths truncate, as they do in the source.
\<close>

type_synonym u16 = "16 word"
type_synonym u32 = "32 word"
type_synonym name = string

section \<open>Strings\<close>

definition str_bytes :: "name \<Rightarrow> byte list" where
  "str_bytes s = map of_char s"

definition bytes_str :: "byte list \<Rightarrow> name" where
  "bytes_str bs = map (\<lambda>b. char_of (unat b)) bs"

text \<open>
  \<open>String::from_utf8\<close> accepts the well-formed sequences of the Unicode standard: no overlong
  form, no surrogate, nothing above \<open>U+10FFFF\<close>.
\<close>

definition cont_byte :: "byte \<Rightarrow> bool" where
  "cont_byte b \<longleftrightarrow> 0x80 \<le> b \<and> b \<le> 0xBF"

definition lead_two :: "byte \<Rightarrow> bool" where
  "lead_two a \<longleftrightarrow> 0xC2 \<le> a \<and> a \<le> 0xDF"

definition lead_three :: "byte \<Rightarrow> byte \<Rightarrow> bool" where
  "lead_three a b \<longleftrightarrow> 0xE0 \<le> a \<and> a \<le> 0xEF \<and> cont_byte b \<and> (a = 0xE0 \<longrightarrow> 0xA0 \<le> b) \<and> (a = 0xED \<longrightarrow> b \<le> 0x9F)"

definition lead_four :: "byte \<Rightarrow> byte \<Rightarrow> bool" where
  "lead_four a b \<longleftrightarrow> 0xF0 \<le> a \<and> a \<le> 0xF4 \<and> cont_byte b \<and> (a = 0xF0 \<longrightarrow> 0x90 \<le> b) \<and> (a = 0xF4 \<longrightarrow> b \<le> 0x8F)"

fun utf8_valid :: "byte list \<Rightarrow> bool" where
  "utf8_valid [] = True"
| "utf8_valid (a # bs) =
     (if a < 0x80 then utf8_valid bs
      else case bs of
        [] \<Rightarrow> False
      | b # cs \<Rightarrow>
          if lead_two a then cont_byte b \<and> utf8_valid cs
          else case cs of
            [] \<Rightarrow> False
          | c # ds \<Rightarrow>
              if lead_three a b then cont_byte c \<and> utf8_valid ds
              else case ds of
                [] \<Rightarrow> False
              | d # es \<Rightarrow> lead_four a b \<and> cont_byte c \<and> cont_byte d \<and> utf8_valid es)"

definition from_utf8 :: "byte list \<Rightarrow> name option" where
  "from_utf8 bs = (if utf8_valid bs then Some (bytes_str bs) else None)"

section \<open>Messages\<close>

definition TAG_HELLO :: byte where "TAG_HELLO = 0"

definition TAG_BLOCK :: byte where "TAG_BLOCK = 1"

definition TAG_TX :: byte where "TAG_TX = 2"

definition MAX_FRAME :: nat where "MAX_FRAME = 4 * 1024 * 1024"

datatype relay_msg =
    RelayHello name "name list"
  | RelayBlock block_record
  | RelayTx transaction

definition push_str :: "name \<Rightarrow> byte list" where
  "push_str s = to_le_bytes (word_of_nat (length (str_bytes s)) :: u16) @ str_bytes s"

fun encode_msg :: "relay_msg \<Rightarrow> byte list" where
  "encode_msg (RelayHello from advertised) =
     TAG_HELLO # push_str from @ to_le_bytes (word_of_nat (length advertised) :: u16) @ concat (map push_str advertised)"
| "encode_msg (RelayBlock r) = TAG_BLOCK # encode_record r"
| "encode_msg (RelayTx tx) =
     TAG_TX # to_le_bytes (word_of_nat (length (encode_block_payload [tx])) :: u32) @ encode_block_payload [tx]"

definition read_str :: "byte list \<Rightarrow> net_error + (name \<times> byte list)" where
  "read_str bs =
     rbind (read_word unexpected_end bs) (\<lambda>(n :: u16, bs).
       if length bs < unat n then Inl (Decode ''string truncated'')
       else case from_utf8 (take (unat n) bs) of
              None \<Rightarrow> Inl (Decode ''name not utf-8'')
            | Some s \<Rightarrow> Inr (s, drop (unat n) bs))"

definition decode_hello :: "byte list \<Rightarrow> net_error + relay_msg" where
  "decode_hello bs =
     rbind (read_str bs) (\<lambda>(from, bs).
       if length bs < 2 then Inl (Decode ''hello truncated'')
       else rbind (read_word unexpected_end bs) (\<lambda>(n :: u16, bs).
            rbind (read_many read_str (unat n) bs) (\<lambda>(advertised, bs).
              if bs \<noteq> [] then Inl (Decode ''hello trailing bytes'') else Inr (RelayHello from advertised))))"

definition decode_tx_msg :: "byte list \<Rightarrow> net_error + relay_msg" where
  "decode_tx_msg bs =
     (if length bs < 4 then Inl (Decode ''tx truncated'')
      else let n = unat (from_le_bytes (take 4 bs) :: u32) in
        if length bs \<noteq> 4 + n then Inl (Decode ''tx length mismatch'')
        else case decode_block_payload (drop 4 bs) of
               Inl e \<Rightarrow> Inl (Decode (display_decode_error e))
             | Inr [tx] \<Rightarrow> Inr (RelayTx tx)
             | Inr _ \<Rightarrow> Inl (Decode ''tx frame must hold one transaction''))"

fun decode_msg :: "byte list \<Rightarrow> net_error + relay_msg" where
  "decode_msg [] = Inl (Decode ''empty frame'')"
| "decode_msg (t # bs) =
     (if t = TAG_HELLO then decode_hello bs
      else if t = TAG_BLOCK then rbind (decode_one_record bs) (\<lambda>r. Inr (RelayBlock r))
      else if t = TAG_TX then decode_tx_msg bs
      else Inl (Decode (''unknown tag '' @ display_word t)))"

section \<open>Sessions\<close>

definition relay_send :: "relay_msg \<Rightarrow> byte list" where
  "relay_send msg = to_le_bytes (word_of_nat (length (encode_msg msg)) :: u32) @ encode_msg msg"

text \<open>What \<open>read_exact\<close> reports at the end of the stream.\<close>

definition eof_error :: net_error where
  "eof_error = NetIo ''failed to fill whole buffer''"

definition relay_recv :: "byte list \<Rightarrow> net_error + (relay_msg \<times> byte list)" where
  "relay_recv bs =
     rbind (read_word eof_error bs) (\<lambda>(len :: u32, bs).
       if MAX_FRAME < unat len then Inl (Decode ''frame too large'')
       else rbind (read_array eof_error (unat len) bs) (\<lambda>(frame, bs).
            rbind (decode_msg frame) (\<lambda>msg. Inr (msg, bs))))"

definition apply_relay ::
    "('sk, 'vk) crypto \<Rightarrow> u64 \<Rightarrow> node_state \<Rightarrow> relay_msg \<Rightarrow> (net_error + relay_msg option \<times> node_state) option" where
  "apply_relay C wall n msg =
     (case msg of
        RelayHello from advertised \<Rightarrow> Some (Inr (Some msg, n))
      | RelayBlock r \<Rightarrow> do {
          res \<leftarrow> receive_block C wall n r;
          Some (rbind (map_err (\<lambda>e. Apply (display_node_error e)) res) (\<lambda>(_, n). Inr (None, n)))
        }
      | RelayTx tx \<Rightarrow>
          Some (rbind (map_err (\<lambda>e. Apply (display_node_error e)) (submit_tx C n tx)) (\<lambda>(_, n). Inr (None, n))))"

section \<open>The frame codec\<close>

definition wf_name :: "name \<Rightarrow> bool" where
  "wf_name s \<longleftrightarrow> utf8_valid (str_bytes s) \<and> length s < 2 ^ 16"

fun wf_msg :: "relay_msg \<Rightarrow> bool" where
  "wf_msg (RelayHello from advertised) \<longleftrightarrow> wf_name from \<and> list_all wf_name advertised \<and> length advertised < 2 ^ 16"
| "wf_msg (RelayBlock r) \<longleftrightarrow> wf_record r"
| "wf_msg (RelayTx tx) \<longleftrightarrow> wf_txs [tx] \<and> length (encode_block_payload [tx]) < 2 ^ 32"

lemma length_str_bytes [simp]: "length (str_bytes s) = length s"
  by (simp add: str_bytes_def)

lemma bytes_str_bytes [simp]: "bytes_str (str_bytes s) = s"
proof -
  have "char_of (unat (of_char c :: byte)) = c" for c :: char
  proof -
    have "(of_char c :: byte) = word_of_nat (of_char c)" by (simp only: of_nat_of_char)
    then show ?thesis by (simp only: unat_of_nat) simp
  qed
  then show ?thesis by (simp add: bytes_str_def str_bytes_def comp_def)
qed


lemma str_bytes_str [simp]: "str_bytes (bytes_str bs) = bs"
proof -
  have "(of_char (char_of (unat b)) :: byte) = b" for b :: byte
  proof -
    have "(of_char (char_of (unat b)) :: byte) = word_of_nat (of_char (char_of (unat b)))" by (simp only: of_nat_of_char)
    also have "\<dots> = b" using unat_byte_less [of b] by (simp only: of_char_of) simp
    finally show ?thesis .
  qed
  then show ?thesis by (simp add: bytes_str_def str_bytes_def comp_def)
qed

lemma length_bytes_str [simp]: "length (bytes_str bs) = length bs"
  by (simp add: bytes_str_def)

lemma from_utf8_iff: "from_utf8 bs = Some s \<longleftrightarrow> bs = str_bytes s \<and> utf8_valid (str_bytes s)"
  by (auto simp: from_utf8_def)

lemma unat_len16: "n < 2 ^ 16 \<Longrightarrow> unat (word_of_nat n :: u16) = n"
  by (simp add: unat_of_nat)

lemma unat_len32: "n < 2 ^ 32 \<Longrightarrow> unat (word_of_nat n :: u32) = n"
  by (simp add: unat_of_nat)

lemma read_str_enc: "wf_name s \<Longrightarrow> read_str (push_str s @ bs) = Inr (s, bs)"
  by (simp add: wf_name_def read_str_def push_str_def codec_simps unat_len16 from_utf8_def)

lemma read_str_InrD:
  assumes "read_str bs = Inr (s, r)"
  shows "bs = push_str s @ r \<and> wf_name s"
proof -
  from assms obtain n :: u16 and b where n: "read_word unexpected_end bs = Inr (n, b)" "unat n \<le> length b"
      "take (unat n) b = str_bytes s" "utf8_valid (str_bytes s)" "r = drop (unat n) b"
    by (auto simp: read_str_def from_utf8_iff rbind_eq_Inr split: if_splits option.splits)
  have l: "length s = unat n" using arg_cong [OF n(3), of length] n(2) by simp
  have "bs = to_le_bytes n @ b" using n(1) by (auto dest: read_word_InrD [rotated])
  moreover have "str_bytes s @ r = b" using n(3,5) by (metis append_take_drop_id)
  moreover have "length s < 2 ^ 16" unfolding l using unsigned_less [of n] by simp
  ultimately show ?thesis using n(4) l by (auto simp: push_str_def wf_name_def)
qed

interpretation name_codec: canonical_codec read_str push_str wf_name 2
proof unfold_locales
  show "read_str (bs @ ys) = Inr (s, r @ ys)" if "read_str bs = Inr (s, r)" for bs s r ys
    using read_str_InrD [OF that] read_str_enc [of s "r @ ys"] by simp
  show "2 \<le> length (push_str s)" for s by (simp add: push_str_def)
qed (simp_all add: read_str_enc read_str_InrD)

lemma decode_hello_iff:
  "decode_hello bs = Inr m \<longleftrightarrow> (\<exists>from advertised. m = RelayHello from advertised
     \<and> bs = tl (encode_msg m) \<and> wf_msg m)"
proof
  assume "decode_hello bs = Inr m"
  then obtain fr b1 n b2 advertised where r: "read_str bs = Inr (fr, b1)" "read_word unexpected_end b1 = Inr (n :: u16, b2)"
      "read_many read_str (unat n) b2 = Inr (advertised, [])" "m = RelayHello fr advertised"
    by (auto simp: decode_hello_def rbind_eq_Inr split: if_splits)
  have "b1 = to_le_bytes n @ b2" using r(2) by (auto dest: read_word_InrD [rotated])
  then show "\<exists>from advertised. m = RelayHello from advertised \<and> bs = tl (encode_msg m) \<and> wf_msg m"
    using read_str_InrD [OF r(1)] name_codec.read_many_canonical [OF r(3)] r(4) unsigned_less [of n] by auto
next
  assume "\<exists>from advertised. m = RelayHello from advertised \<and> bs = tl (encode_msg m) \<and> wf_msg m"
  then show "decode_hello bs = Inr m"
    using name_codec.read_many_enc [of _ "[]"]
    by (auto simp: decode_hello_def codec_simps read_str_enc unat_len16)
qed

lemma decode_tx_msg_iff:
  "decode_tx_msg bs = Inr m \<longleftrightarrow> (\<exists>tx. m = RelayTx tx \<and> bs = tl (encode_msg m) \<and> wf_msg m)"
proof
  assume a: "decode_tx_msg bs = Inr m"
  let ?n = "from_le_bytes (take 4 bs) :: u32"
  from a obtain tx where r: "4 \<le> length bs" "length bs = 4 + unat ?n" "decode_block_payload (drop 4 bs) = Inr [tx]" "m = RelayTx tx"
    by (auto simp: decode_tx_msg_def Let_def split: if_splits sum.splits list.splits)
  have "to_le_bytes ?n = take 4 bs" using r(1) by (intro to_le_from_le) simp_all
  moreover have d: "drop 4 bs = encode_block_payload [tx]" "wf_txs [tx]" using decode_payload_InrD [OF r(3)] by auto
  moreover have "length (encode_block_payload [tx]) = unat ?n" using r(2) d(1) by (metis add_diff_cancel_left' length_drop)
  ultimately show "\<exists>tx. m = RelayTx tx \<and> bs = tl (encode_msg m) \<and> wf_msg m"
    using r(4) unsigned_less [of ?n] append_take_drop_id [of 4 bs] by simp
next
  assume "\<exists>tx. m = RelayTx tx \<and> bs = tl (encode_msg m) \<and> wf_msg m"
  then show "decode_tx_msg bs = Inr m"
    by (auto simp: decode_tx_msg_def Let_def unat_len32 decode_payload_enc)
qed

lemma decode_msg_iff: "decode_msg bs = Inr m \<longleftrightarrow> bs = encode_msg m \<and> wf_msg m"
proof (cases bs)
  case (Cons t r)
  have one: "decode_one_record q = Inr x \<longleftrightarrow> q = encode_record x \<and> wf_record x" for q x
    using decode_record_enc [of x "[]"] decode_record_InrD [of q x "[]"]
    by (auto simp: decode_one_record_def rbind_eq_Inr split: if_splits)
  show ?thesis unfolding Cons
    by (cases m) (auto simp: decode_hello_iff decode_tx_msg_iff rbind_eq_Inr one TAG_HELLO_def TAG_BLOCK_def TAG_TX_def)
qed (cases m; simp)


text \<open>A message the frame can carry: the lengths fit their prefixes and the frame its limit.\<close>

definition sendable :: "relay_msg \<Rightarrow> bool" where
  "sendable m \<longleftrightarrow> wf_msg m \<and> length (encode_msg m) \<le> MAX_FRAME"

lemma relay_recv_enc: "sendable m \<Longrightarrow> relay_recv (relay_send m @ bs) = Inr (m, bs)"
  using decode_msg_iff [of "encode_msg m" m]
  by (simp add: sendable_def relay_recv_def relay_send_def codec_simps unat_len32 MAX_FRAME_def)

lemma relay_recv_InrD:
  assumes "relay_recv bs = Inr (m, r)"
  shows "bs = relay_send m @ r \<and> sendable m"
proof -
  from assms obtain n b f where n: "read_word eof_error bs = Inr (n :: u32, b)" "unat n \<le> MAX_FRAME"
      "read_array eof_error (unat n) b = Inr (f, r)" "decode_msg f = Inr m"
    by (auto simp: relay_recv_def rbind_eq_Inr split: if_splits)
  have "bs = to_le_bytes n @ b" using n(1) by (auto dest: read_word_InrD [rotated])
  then show ?thesis
    using n(2,4) read_array_InrD [OF n(3)] by (auto simp: decode_msg_iff relay_send_def sendable_def)
qed

interpretation frame_codec: canonical_codec relay_recv relay_send sendable 4
proof unfold_locales
  show "relay_recv (bs @ ys) = Inr (m, r @ ys)" if "relay_recv bs = Inr (m, r)" for bs m r ys
    using relay_recv_InrD [OF that] relay_recv_enc [of m "r @ ys"] by simp
  show "4 \<le> length (relay_send m)" for m by (simp add: relay_send_def)
qed (simp_all add: relay_recv_enc relay_recv_InrD)

text \<open>
  C35: a relay session is a faithful channel: reading \<open>n\<close> messages from a stream yields \<open>ms\<close> and
  leaves \<open>r\<close> exactly when the stream is what sending \<open>ms\<close> one after the other writes, followed by
  \<open>r\<close>, and every one of the messages fits its length prefixes and the frame limit.  No two
  lists of such messages share a stream and no other byte sequence is accepted.
\<close>

theorem relay_stream_canonical:
  "read_many relay_recv n bs = Inr (ms, r)
   \<longleftrightarrow> bs = concat (map relay_send ms) @ r \<and> length ms = n \<and> list_all sendable ms"
  using frame_codec.read_many_canonical frame_codec.read_many_enc by blast

text \<open>
  What the unchecked casts of the lengths do.  \<open>send\<close> writes a message above the frame limit
  without an error and every receiver refuses it; a hello that advertises 65536 names is written
  with a count of zero and refused for its trailing bytes.
\<close>

lemma relay_unchecked_lengths:
  "(MAX_FRAME < length (encode_msg m) \<and> length (encode_msg m) < 2 ^ 32 \<longrightarrow>
      relay_recv (relay_send m @ r) = Inl (Decode ''frame too large''))
   \<and> (wf_name fr \<and> length names = 2 ^ 16 \<longrightarrow>
      decode_msg (encode_msg (RelayHello fr names)) = Inl (Decode ''hello trailing bytes''))"
proof (intro conjI impI)
  assume "MAX_FRAME < length (encode_msg m) \<and> length (encode_msg m) < 2 ^ 32"
  then show "relay_recv (relay_send m @ r) = Inl (Decode ''frame too large'')"
    by (simp add: relay_recv_def relay_send_def codec_simps unat_len32)
next
  assume a: "wf_name fr \<and> length names = 2 ^ 16"
  then obtain x xs where "names = x # xs" by (cases names) auto
  then have "concat (map push_str names) \<noteq> []" by (simp add: push_str_def flip: length_0_conv)
  then show "decode_msg (encode_msg (RelayHello fr names)) = Inl (Decode ''hello trailing bytes'')"
    using a by (simp add: decode_hello_def read_str_enc codec_simps)
qed

lemma push_str_length [simp]: "length (push_str s) = 2 + length s"
  by (simp add: push_str_def)

lemma utf8_ascii: "list_all (\<lambda>b. b < 0x80) bs \<Longrightarrow> utf8_valid bs"
  by (induction bs) simp_all

lemma relay_unchecked_lengths_example:
  "relay_recv (relay_send (RelayHello [] (replicate 60000 (replicate 100 (CHR ''a''))))) = Inl (Decode ''frame too large'')
   \<and> decode_msg (encode_msg (RelayHello ''a'' (replicate 65536 ''b''))) = Inl (Decode ''hello trailing bytes'')"
proof -
  have "length (encode_msg (RelayHello [] (replicate 60000 (replicate 100 (CHR ''a''))))) = 6120005"
    by (simp add: length_concat sum_list_replicate)
  then show ?thesis
    using relay_unchecked_lengths [of "RelayHello [] (replicate 60000 (replicate 100 (CHR ''a'')))" "[]" "''a''" "replicate 65536 ''b''"]
    by (simp add: MAX_FRAME_def wf_name_def str_bytes_def del: encode_msg.simps decode_msg.simps)
qed

end
