(* ===== verification/P2p.thy ===== *)
theory P2p
  imports Relay "HOL-Library.Char_ord" "HOL-Library.List_Lexorder"
begin

text \<open>
  \<open>crates/kovanica-node/src/p2p.rs\<close>: the in-process mesh of named nodes, its directed peer graph
  and its relay queue.  Names are ordered as their bytes.  As in the node, \<open>None\<close> is a panic and
  an error leaves the mesh unchanged.  \<open>wall\<close> is the reading of the wall clock at an operation,
  \<open>clock i\<close> the one at the delivery of the \<open>i\<close>-th event.
\<close>

datatype p2p_error = UnknownNode name | P2pNode node_error

fun display_p2p_error :: "p2p_error \<Rightarrow> string" where
  "display_p2p_error (UnknownNode n) = ''unknown node '' @ n"
| "display_p2p_error (P2pNode e) = display_node_error e"

datatype gossip_kind = HelloKind | BlockKind | TxKind

record gossip_event =
  ev_at :: u64
  ev_from :: name
  ev_to :: name
  ev_kind :: gossip_kind

datatype envelope = HelloEnv "name list" | BlockEnv block_record | TxEnv transaction

record queued =
  q_due :: u64
  q_from :: name
  q_to :: name
  q_env :: envelope

definition record_id :: "digest \<Rightarrow> block_record \<Rightarrow> block_id" where
  "record_id H r =
     block_ident H (block_new (rec_parents r) (rec_work r) (rec_timestamp_ms r) (rec_nonce r) (encode_block_payload (rec_txs r)))"

record mesh =
  mesh_nodes :: "(name, node_state) fmap"
  mesh_peers :: "(name, name fset) fmap"
  mesh_queue :: "queued list"
  seen_blocks :: "(name, block_id fset) fmap"
  seen_txs :: "(name, tx_id fset) fmap"
  mesh_now :: u64
  mesh_events :: "gossip_event list"

section \<open>The overlay\<close>

definition mesh_new :: mesh where
  "mesh_new = \<lparr>mesh_nodes = fmempty, mesh_peers = fmempty, mesh_queue = [], seen_blocks = fmempty,
     seen_txs = fmempty, mesh_now = 0, mesh_events = []\<rparr>"

text \<open>\<open>map.entry(k).or_default()\<close> on a map of sets: the set found, or the empty one.\<close>

definition set_at :: "('k, 'a fset) fmap \<Rightarrow> 'k \<Rightarrow> 'a fset" where
  "set_at m k = (case fmlookup m k of None \<Rightarrow> {||} | Some s \<Rightarrow> s)"

definition mesh_add :: "mesh \<Rightarrow> name \<Rightarrow> node_state \<Rightarrow> mesh" where
  "mesh_add m a n = m\<lparr>
     mesh_nodes := fmupd a n (mesh_nodes m),
     mesh_peers := fmupd a (set_at (mesh_peers m) a) (mesh_peers m),
     seen_blocks := fmupd a (set_at (seen_blocks m) a) (seen_blocks m),
     seen_txs := fmupd a (set_at (seen_txs m) a) (seen_txs m)\<rparr>"

definition mesh_names :: "mesh \<Rightarrow> name list" where
  "mesh_names m = sorted_list_of_fset (fmdom (mesh_nodes m))"

definition mesh_queued :: "mesh \<Rightarrow> nat" where
  "mesh_queued m = length (mesh_queue m)"

definition mesh_node :: "mesh \<Rightarrow> name \<Rightarrow> node_state option" where
  "mesh_node m a = fmlookup (mesh_nodes m) a"

text \<open>What a caller does through the mutable borrow \<open>node_mut\<close> returns.\<close>

definition with_node_mut :: "(node_state \<Rightarrow> node_state) \<Rightarrow> mesh \<Rightarrow> name \<Rightarrow> mesh" where
  "with_node_mut f m a =
     (case fmlookup (mesh_nodes m) a of
        None \<Rightarrow> m
      | Some n \<Rightarrow> m\<lparr>mesh_nodes := fmupd a (f n) (mesh_nodes m)\<rparr>)"

definition require :: "mesh \<Rightarrow> name \<Rightarrow> p2p_error + unit" where
  "require m a = (if a |\<in>| fmdom (mesh_nodes m) then Inr () else Inl (UnknownNode a))"

definition peers_of :: "mesh \<Rightarrow> name \<Rightarrow> name list" where
  "peers_of m a = (case fmlookup (mesh_peers m) a of None \<Rightarrow> [] | Some s \<Rightarrow> sorted_list_of_fset s)"

definition is_idle :: "mesh \<Rightarrow> bool" where
  "is_idle m \<longleftrightarrow> mesh_queue m = []"

section \<open>Announcing\<close>

definition enqueue :: "mesh \<Rightarrow> name \<Rightarrow> envelope \<Rightarrow> name \<Rightarrow> mesh" where
  "enqueue m fr env to =
     (if fr = to then m
      else m\<lparr>mesh_queue := mesh_queue m @
             [\<lparr>q_due = saturating_add (mesh_now m) 1, q_from = fr, q_to = to, q_env = env\<rparr>]\<rparr>)"

text \<open>The loops \<open>for to in peers { self.enqueue(from, &to, ..) }\<close>.\<close>

fun enqueue_all :: "mesh \<Rightarrow> name \<Rightarrow> envelope \<Rightarrow> name list \<Rightarrow> mesh" where
  "enqueue_all m fr env [] = m"
| "enqueue_all m fr env (to # rest) = enqueue_all (enqueue m fr env to) fr env rest"

definition enqueue_hello :: "mesh \<Rightarrow> name \<Rightarrow> name \<Rightarrow> mesh" where
  "enqueue_hello m fr to = enqueue m fr (HelloEnv (peers_of m fr)) to"

definition announce_block :: "digest \<Rightarrow> mesh \<Rightarrow> name \<Rightarrow> block_record \<Rightarrow> mesh" where
  "announce_block H m fr r =
     (let m = m\<lparr>seen_blocks := fmupd fr (finsert (record_id H r) (set_at (seen_blocks m) fr)) (seen_blocks m)\<rparr>
      in enqueue_all m fr (BlockEnv r) (peers_of m fr))"

definition announce_tx :: "('sk, 'vk) crypto \<Rightarrow> mesh \<Rightarrow> name \<Rightarrow> transaction \<Rightarrow> mesh" where
  "announce_tx C m fr tx =
     (let m = m\<lparr>seen_txs := fmupd fr (finsert (tx_ident C tx) (set_at (seen_txs m) fr)) (seen_txs m)\<rparr>
      in enqueue_all m fr (TxEnv tx) (peers_of m fr))"

definition mesh_connect :: "mesh \<Rightarrow> name \<Rightarrow> name \<Rightarrow> p2p_error + mesh" where
  "mesh_connect m fr to =
     rbind (require m fr) (\<lambda>_.
     rbind (require m to) (\<lambda>_.
       if fr = to then Inr m
       else let peers = set_at (mesh_peers m) fr;
                m' = m\<lparr>mesh_peers := fmupd fr (finsert to peers) (mesh_peers m)\<rparr>
            in Inr (if to |\<notin>| peers then enqueue_hello m' fr to else m')))"

section \<open>Delivery\<close>

text \<open>The loop over the advertised names: the peer set and the names that were new to it.\<close>

fun learn_peers :: "mesh \<Rightarrow> name \<Rightarrow> name \<Rightarrow> name list \<Rightarrow> name fset \<Rightarrow> name fset \<times> name list" where
  "learn_peers m to fr [] peers = (peers, [])"
| "learn_peers m to fr (p # ps) peers =
     (if p \<noteq> to \<and> p \<noteq> fr \<and> p |\<in>| fmdom (mesh_nodes m) \<and> p |\<notin>| peers
      then let (peers, fresh) = learn_peers m to fr ps (finsert p peers) in (peers, p # fresh)
      else learn_peers m to fr ps peers)"

fun hello_all :: "mesh \<Rightarrow> name \<Rightarrow> name list \<Rightarrow> mesh" where
  "hello_all m fr [] = m"
| "hello_all m fr (p # ps) = hello_all (enqueue_hello m fr p) fr ps"

definition on_hello :: "mesh \<Rightarrow> name \<Rightarrow> name \<Rightarrow> name list \<Rightarrow> mesh" where
  "on_hello m to fr advertised =
     (if to |\<notin>| fmdom (mesh_nodes m) then m
      else let old = set_at (mesh_peers m) to;
               (peers, fresh) = learn_peers m to fr advertised (finsert fr old);
               m = m\<lparr>mesh_peers := fmupd to peers (mesh_peers m)\<rparr>;
               m = (if fr |\<notin>| old then enqueue_hello m to fr else m)
           in hello_all m to fresh)"

text \<open>\<open>for nxt in peers { if nxt == from { continue; } self.enqueue(..) }\<close>.\<close>

definition relay_on :: "mesh \<Rightarrow> name \<Rightarrow> name \<Rightarrow> envelope \<Rightarrow> mesh" where
  "relay_on m to fr env = enqueue_all m to env (filter (\<lambda>nxt. nxt \<noteq> fr) (peers_of m to))"

definition on_block ::
    "('sk, 'vk) crypto \<Rightarrow> u64 \<Rightarrow> mesh \<Rightarrow> name \<Rightarrow> name \<Rightarrow> block_record \<Rightarrow> mesh option" where
  "on_block C wall m to fr r =
     (let i = record_id (blake3 C) r; seen = set_at (seen_blocks m) to;
          m' = m\<lparr>seen_blocks := fmupd to (finsert i seen) (seen_blocks m)\<rparr>
      in if i |\<in>| seen then Some m'
         else case fmlookup (mesh_nodes m') to of
           None \<Rightarrow> Some (relay_on m' to fr (BlockEnv r))
         | Some n \<Rightarrow> do {
             res \<leftarrow> receive_block C wall n r;
             (case res of
                Inl _ \<Rightarrow> Some m'
              | Inr (_, n) \<Rightarrow> Some (relay_on (m'\<lparr>mesh_nodes := fmupd to n (mesh_nodes m')\<rparr>) to fr (BlockEnv r)))
           })"

definition on_tx :: "('sk, 'vk) crypto \<Rightarrow> mesh \<Rightarrow> name \<Rightarrow> name \<Rightarrow> transaction \<Rightarrow> mesh" where
  "on_tx C m to fr tx =
     (let i = tx_ident C tx; seen = set_at (seen_txs m) to;
          m' = m\<lparr>seen_txs := fmupd to (finsert i seen) (seen_txs m)\<rparr>
      in if i |\<in>| seen then m'
         else case fmlookup (mesh_nodes m') to of
           None \<Rightarrow> relay_on m' to fr (TxEnv tx)
         | Some n \<Rightarrow>
             (case submit_tx C n tx of
                Inl _ \<Rightarrow> m'
              | Inr (_, n) \<Rightarrow> relay_on (m'\<lparr>mesh_nodes := fmupd to n (mesh_nodes m')\<rparr>) to fr (TxEnv tx)))"

fun kind_of :: "envelope \<Rightarrow> gossip_kind" where
  "kind_of (HelloEnv _) = HelloKind"
| "kind_of (BlockEnv _) = BlockKind"
| "kind_of (TxEnv _) = TxKind"

definition deliver :: "('sk, 'vk) crypto \<Rightarrow> (nat \<Rightarrow> u64) \<Rightarrow> mesh \<Rightarrow> queued \<Rightarrow> mesh option" where
  "deliver C clock m q =
     (let wall = clock (length (mesh_events m));
          m = m\<lparr>mesh_events := mesh_events m @
                [\<lparr>ev_at = mesh_now m, ev_from = q_from q, ev_to = q_to q, ev_kind = kind_of (q_env q)\<rparr>]\<rparr>
      in case q_env q of
           HelloEnv advertised \<Rightarrow> Some (on_hello m (q_to q) (q_from q) advertised)
         | BlockEnv r \<Rightarrow> on_block C wall m (q_to q) (q_from q) r
         | TxEnv tx \<Rightarrow> Some (on_tx C m (q_to q) (q_from q) tx))"

fun deliver_all :: "('sk, 'vk) crypto \<Rightarrow> (nat \<Rightarrow> u64) \<Rightarrow> mesh \<Rightarrow> queued list \<Rightarrow> mesh option" where
  "deliver_all C clock m [] = Some m"
| "deliver_all C clock m (q # qs) = do { m \<leftarrow> deliver C clock m q; deliver_all C clock m qs }"

definition tick :: "('sk, 'vk) crypto \<Rightarrow> (nat \<Rightarrow> u64) \<Rightarrow> mesh \<Rightarrow> (nat \<times> mesh) option" where
  "tick C clock m =
     (let m = m\<lparr>mesh_now := saturating_add (mesh_now m) 1\<rparr>;
          due = filter (\<lambda>q. q_due q \<le> mesh_now m) (mesh_queue m);
          rest = filter (\<lambda>q. \<not> q_due q \<le> mesh_now m) (mesh_queue m)
      in map_option (\<lambda>m. (length due, m)) (deliver_all C clock (m\<lparr>mesh_queue := rest\<rparr>) due))"

fun drain_loop :: "('sk, 'vk) crypto \<Rightarrow> (nat \<Rightarrow> u64) \<Rightarrow> nat \<Rightarrow> nat \<Rightarrow> mesh \<Rightarrow> (nat \<times> mesh) option" where
  "drain_loop C clock 0 n m = Some (n, m)"
| "drain_loop C clock (Suc k) n m =
     (if mesh_queue m = [] then Some (n, m)
      else do { (t, m) \<leftarrow> tick C clock m; drain_loop C clock k (n + t) m })"

definition drain :: "('sk, 'vk) crypto \<Rightarrow> (nat \<Rightarrow> u64) \<Rightarrow> u32 \<Rightarrow> mesh \<Rightarrow> (nat \<times> mesh) option" where
  "drain C clock limit m = drain_loop C clock (unat limit) 0 m"

section \<open>Operations on a node, announced\<close>

text \<open>
  Run an operation on the named node: an unknown name and an error of the node return, otherwise
  the node is replaced.
\<close>

definition on_node ::
    "mesh \<Rightarrow> name \<Rightarrow> (node_state \<Rightarrow> (node_error + 'a \<times> node_state) option) \<Rightarrow> (p2p_error + 'a \<times> mesh) option" where
  "on_node m a f =
     (case require m a of
        Inl e \<Rightarrow> Some (Inl e)
      | Inr _ \<Rightarrow> do {
          n \<leftarrow> fmlookup (mesh_nodes m) a;
          res \<leftarrow> f n;
          Some (rbind (map_err P2pNode res) (\<lambda>(x, n). Inr (x, m\<lparr>mesh_nodes := fmupd a n (mesh_nodes m)\<rparr>)))
        })"

text \<open>\<open>if let Some(rec) = self.nodes.get(name).and_then(|n| n.block_record(&id))\<close>, then announce.\<close>

definition announce_made :: "digest \<Rightarrow> mesh \<Rightarrow> name \<Rightarrow> block_id \<Rightarrow> mesh" where
  "announce_made H m a i =
     (case Option.bind (fmlookup (mesh_nodes m) a) (\<lambda>n. node_block_record n i) of
        None \<Rightarrow> m
      | Some r \<Rightarrow> announce_block H m a r)"

definition announce_pooled :: "('sk, 'vk) crypto \<Rightarrow> mesh \<Rightarrow> name \<Rightarrow> tx_id \<Rightarrow> mesh" where
  "announce_pooled C m a i =
     (case Option.bind (fmlookup (mesh_nodes m) a) (\<lambda>n. mempool_tx n i) of
        None \<Rightarrow> m
      | Some tx \<Rightarrow> announce_tx C m a tx)"

definition mesh_produce ::
    "('sk, 'vk) crypto \<Rightarrow> u64 \<Rightarrow> mesh \<Rightarrow> name \<Rightarrow> (p2p_error + block_id option \<times> mesh) option" where
  "mesh_produce C wall m a = do {
     res \<leftarrow> on_node m a (produce_block C wall);
     Some (rbind res (\<lambda>(i, m).
       Inr (i, case i of None \<Rightarrow> m | Some b \<Rightarrow> announce_made (blake3 C) m a b)))
   }"

definition mesh_produce_empty ::
    "('sk, 'vk) crypto \<Rightarrow> u64 \<Rightarrow> mesh \<Rightarrow> name \<Rightarrow> (p2p_error + block_id \<times> mesh) option" where
  "mesh_produce_empty C wall m a = do {
     res \<leftarrow> on_node m a (produce_empty C wall);
     Some (rbind res (\<lambda>(b, m). Inr (b, announce_made (blake3 C) m a b)))
   }"

definition mesh_send ::
    "('sk, 'vk) crypto \<Rightarrow> u64 \<Rightarrow> mesh \<Rightarrow> name \<Rightarrow> u64 \<Rightarrow> u64 \<Rightarrow> u64 \<Rightarrow> (p2p_error + block_id \<times> mesh) option" where
  "mesh_send C wall m a seed amount to_seed = do {
     res \<leftarrow> on_node m a (\<lambda>n. node_send C wall n seed amount to_seed);
     Some (rbind res (\<lambda>(s, m). Inr (sent_block s, announce_made (blake3 C) m a (sent_block s))))
   }"

definition mesh_send_to ::
    "('sk, 'vk) crypto \<Rightarrow> u64 \<Rightarrow> mesh \<Rightarrow> name \<Rightarrow> u64 \<Rightarrow> u64 \<Rightarrow> address \<Rightarrow> (p2p_error + block_id \<times> mesh) option" where
  "mesh_send_to C wall m a seed amount to = do {
     res \<leftarrow> on_node m a (\<lambda>n. send_to C wall n seed amount to);
     Some (rbind res (\<lambda>(s, m). Inr (sent_block s, announce_made (blake3 C) m a (sent_block s))))
   }"

definition mesh_pool ::
    "('sk, 'vk) crypto \<Rightarrow> mesh \<Rightarrow> name \<Rightarrow> u64 \<Rightarrow> u64 \<Rightarrow> u64 \<Rightarrow> (p2p_error + tx_id \<times> mesh) option" where
  "mesh_pool C m a seed amount to_seed = do {
     res \<leftarrow> on_node m a (\<lambda>n. node_pool C n seed amount to_seed);
     Some (rbind res (\<lambda>(i, m). Inr (i, announce_pooled C m a i)))
   }"

definition mesh_submit_signed ::
    "('sk, 'vk) crypto \<Rightarrow> mesh \<Rightarrow> name \<Rightarrow> address \<Rightarrow> u64 \<Rightarrow> address \<Rightarrow> 512 word
     \<Rightarrow> (p2p_error + tx_id \<times> mesh) option" where
  "mesh_submit_signed C m a fr amount to s = do {
     res \<leftarrow> on_node m a (\<lambda>n. submit_signed C n fr amount to s);
     Some (rbind res (\<lambda>(i, m). Inr (i, announce_pooled C m a i)))
   }"

end
