(* ===== verification/P2pInv.thy ===== *)
theory P2pInv
  imports P2p
begin

text \<open>
  What the messages of the mesh do to it.  The peer sets and the seen sets are read as one growing
  set of facts; a delivery sends a message only when it adds a fact, which is what bounds the
  flood.
\<close>

datatype fact = Edge name name | SawBlock name block_id | SawTx name tx_id

definition facts :: "mesh \<Rightarrow> fact set" where
  "facts m = {f. case f of Edge a b \<Rightarrow> b |\<in>| set_at (mesh_peers m) a
     | SawBlock a i \<Rightarrow> i |\<in>| set_at (seen_blocks m) a
     | SawTx a i \<Rightarrow> i |\<in>| set_at (seen_txs m) a}"

lemma facts_iff [simp]:
  "Edge a b \<in> facts m \<longleftrightarrow> b |\<in>| set_at (mesh_peers m) a"
  "SawBlock a i \<in> facts m \<longleftrightarrow> i |\<in>| set_at (seen_blocks m) a"
  "SawTx a j \<in> facts m \<longleftrightarrow> j |\<in>| set_at (seen_txs m) a"
  by (simp_all add: facts_def)

lemma facts_cong:
  "mesh_peers m' = mesh_peers m \<Longrightarrow> seen_blocks m' = seen_blocks m \<Longrightarrow> seen_txs m' = seen_txs m \<Longrightarrow> facts m' = facts m"
  by (simp add: facts_def cong: fact.case_cong)

lemma facts_upd [simp]:
  "facts (m\<lparr>mesh_queue := q\<rparr>) = facts m" "facts (m\<lparr>mesh_nodes := N\<rparr>) = facts m"
  "facts (m\<lparr>mesh_now := t\<rparr>) = facts m" "facts (m\<lparr>mesh_events := e\<rparr>) = facts m"
  by (rule facts_cong; simp)+

definition members :: "mesh \<Rightarrow> name set" where
  "members m = fset (fmdom (mesh_nodes m))"

lemma members_iff: "a |\<in>| fmdom (mesh_nodes m) \<longleftrightarrow> a \<in> members m"
  by (simp add: members_def)

lemma finite_members [simp]: "finite (members m)"
  by (simp add: members_def)

lemma set_at_upd [simp]: "set_at (fmupd k s m) a = (if a = k then s else set_at m a)"
  by (simp add: set_at_def)

lemma set_peers_of [simp]: "set (peers_of m a) = fset (set_at (mesh_peers m) a)"
  by (simp add: peers_of_def set_at_def split: option.split)

section \<open>The shape of what is sent\<close>

definition message :: "mesh \<Rightarrow> name \<Rightarrow> envelope \<Rightarrow> name \<Rightarrow> queued" where
  "message m fr env to = \<lparr>q_due = saturating_add (mesh_now m) 1, q_from = fr, q_to = to, q_env = env\<rparr>"

lemma message_simps [simp]:
  "q_due (message m fr env to) = saturating_add (mesh_now m) 1" "q_from (message m fr env to) = fr"
  "q_to (message m fr env to) = to" "q_env (message m fr env to) = env"
  "message (m\<lparr>mesh_queue := q\<rparr>) = message m"
  by (simp_all add: message_def fun_eq_iff)

lemma enqueue_all_eq:
  "enqueue_all m fr env tos = m\<lparr>mesh_queue := mesh_queue m @ map (message m fr env) (filter (\<lambda>to. to \<noteq> fr) tos)\<rparr>"
  by (induction tos arbitrary: m) (auto simp: enqueue_def message_def [symmetric])

lemma hello_all_eq:
  "hello_all m fr tos = m\<lparr>mesh_queue := mesh_queue m
     @ map (message m fr (HelloEnv (peers_of m fr))) (filter (\<lambda>to. to \<noteq> fr) tos)\<rparr>"
  by (induction tos arbitrary: m) (auto simp: enqueue_hello_def enqueue_def message_def [symmetric] peers_of_def)

lemma enqueue_hello_eq: "enqueue_hello m fr to = hello_all m fr [to]"
  by simp

lemma learn_peers_spec:
  assumes "learn_peers m to fr ps peers = (peers', fresh)"
  shows "fset peers' = fset peers \<union> set fresh" "set fresh \<subseteq> members m - {to, fr} - fset peers"
  using assms by (induction ps arbitrary: peers fresh) (force simp: members_iff Let_def split: if_splits prod.splits)+

section \<open>The invariant\<close>

definition q_ok :: "('sk, 'vk) crypto \<Rightarrow> mesh \<Rightarrow> queued \<Rightarrow> bool" where
  "q_ok C m q \<longleftrightarrow> q_from q \<in> members m \<and> q_to q \<in> members m \<and> q_from q \<noteq> q_to q
     \<and> q_due q \<le> saturating_add (mesh_now m) 1
     \<and> (case q_env q of HelloEnv _ \<Rightarrow> True
        | BlockEnv r \<Rightarrow> SawBlock (q_from q) (record_id (blake3 C) r) \<in> facts m
        | TxEnv tx \<Rightarrow> SawTx (q_from q) (tx_ident C tx) \<in> facts m)"

definition edges_ok :: "mesh \<Rightarrow> bool" where
  "edges_ok m \<longleftrightarrow> (\<forall>a b. Edge a b \<in> facts m \<longrightarrow> a \<in> members m \<and> b \<in> members m \<and> a \<noteq> b)"

definition mesh_ok :: "('sk, 'vk) crypto \<Rightarrow> mesh \<Rightarrow> bool" where
  "mesh_ok C m \<longleftrightarrow> edges_ok m \<and> list_all (q_ok C m) (mesh_queue m)"

text \<open>\<open>m'\<close> is \<open>m\<close> after messages were sent and facts were learned, the members unchanged.\<close>

definition evolves :: "mesh \<Rightarrow> mesh \<Rightarrow> queued list \<Rightarrow> bool" where
  "evolves m m' new \<longleftrightarrow> members m' = members m \<and> mesh_now m' = mesh_now m \<and> facts m \<subseteq> facts m'
     \<and> mesh_queue m' = mesh_queue m @ new"

lemma q_ok_mono:
  assumes "q_ok C m q" "members m \<subseteq> members m'" "mesh_now m' = mesh_now m" "facts m \<subseteq> facts m'"
  shows "q_ok C m' q"
proof -
  have "SawBlock a i \<in> facts m \<longrightarrow> SawBlock a i \<in> facts m'" "SawTx a j \<in> facts m \<longrightarrow> SawTx a j \<in> facts m'" for a i j
    using assms(4) by blast+
  then show ?thesis using assms(1-3) by (auto simp: q_ok_def split: envelope.splits)
qed

lemma evolves_ok:
  assumes "evolves m m' new" "mesh_ok C m" "edges_ok m'" "list_all (q_ok C m') new"
  shows "mesh_ok C m'"
  using assms q_ok_mono [of C m _ m'] by (auto simp: mesh_ok_def evolves_def list_all_iff)

lemma evolves_trans: "evolves m m1 xs \<Longrightarrow> evolves m1 m2 ys \<Longrightarrow> evolves m m2 (xs @ ys)"
  by (auto simp: evolves_def)

lemma relay_on_eq:
  "relay_on m to fr env = m\<lparr>mesh_queue := mesh_queue m
     @ map (message m to env) (filter (\<lambda>nxt. nxt \<noteq> to) (filter (\<lambda>nxt. nxt \<noteq> fr) (peers_of m to)))\<rparr>"
  by (simp add: relay_on_def enqueue_all_eq)

section \<open>Deliveries\<close>

lemma on_hello_step:
  assumes "mesh_ok C m" "to \<in> members m" "fr \<in> members m" "fr \<noteq> to"
  shows "\<exists>new. evolves m (on_hello m to fr adv) new \<and> mesh_ok C (on_hello m to fr adv)
    \<and> (\<forall>q \<in> set new. \<exists>a. q_env q = HelloEnv a)
    \<and> mesh_nodes (on_hello m to fr adv) = mesh_nodes m
    \<and> (new \<noteq> [] \<longrightarrow> (\<exists>b \<in> members m. Edge to b \<in> facts (on_hello m to fr adv) - facts m))"
proof -
  let ?old = "set_at (mesh_peers m) to"
  obtain peers fresh where lp: "learn_peers m to fr adv (finsert fr ?old) = (peers, fresh)" by fastforce
  note L = learn_peers_spec [OF lp]
  let ?m = "m\<lparr>mesh_peers := fmupd to peers (mesh_peers m)\<rparr>" and ?tos = "(if fr |\<notin>| ?old then [fr] else []) @ fresh"
  let ?new = "map (message ?m to (HelloEnv (peers_of ?m to))) (filter (\<lambda>p. p \<noteq> to) ?tos)"
  have eq: "on_hello m to fr adv = ?m\<lparr>mesh_queue := mesh_queue m @ ?new\<rparr>" (is "?m' = _")
    using assms(2,4) lp
    by (simp add: on_hello_def members_iff Let_def enqueue_hello_eq hello_all_eq peers_of_def del: hello_all.simps)
  have f: "facts ?m' = facts m \<union> Edge to ` fset peers"
  proof (rule set_eqI)
    fix x show "x \<in> facts ?m' \<longleftrightarrow> x \<in> facts m \<union> Edge to ` fset peers"
      unfolding eq using L(1) by (cases x) auto
  qed
  have ev: "evolves m ?m' ?new" unfolding evolves_def f by (simp add: eq members_def)
  have "edges_ok ?m'"
    using assms L unfolding edges_ok_def f mesh_ok_def by (auto simp: eq members_def)
  moreover have "list_all (q_ok C ?m') ?new"
    using assms L(2) by (auto simp: list_all_iff q_ok_def eq members_def)
  ultimately have ok: "mesh_ok C ?m'" by (rule evolves_ok [OF ev assms(1)])
  have "\<exists>b \<in> members m. Edge to b \<in> facts ?m' - facts m" if "?new \<noteq> []"
  proof -
    from that obtain b where "b \<in> set ?tos" by (cases ?tos) auto
    then have "b \<in> members m \<and> b \<in> fset peers \<and> b |\<notin>| ?old" using L assms(3) by (auto split: if_splits)
    then show ?thesis unfolding f by auto
  qed
  then show ?thesis using ev ok by (intro exI [of _ ?new]) (auto simp: eq)
qed


text \<open>
  The common part of \<open>on_block\<close> and \<open>on_tx\<close>: \<open>m1\<close> is \<open>m\<close> with the new seen mark \<open>f\<close> and perhaps
  another state of the receiving node; then the envelope is relayed.
\<close>

definition marked :: "mesh \<Rightarrow> mesh \<Rightarrow> fact \<Rightarrow> bool" where
  "marked m m1 f \<longleftrightarrow> members m1 = members m \<and> mesh_now m1 = mesh_now m \<and> mesh_queue m1 = mesh_queue m
     \<and> mesh_peers m1 = mesh_peers m \<and> facts m1 = insert f (facts m) \<and> f \<notin> facts m \<and> (\<forall>a b. f \<noteq> Edge a b)"

definition carries :: "('sk, 'vk) crypto \<Rightarrow> envelope \<Rightarrow> name \<Rightarrow> fact \<Rightarrow> bool" where
  "carries C env a f \<longleftrightarrow> (\<exists>r. env = BlockEnv r \<and> f = SawBlock a (record_id (blake3 C) r))
     \<or> (\<exists>tx. env = TxEnv tx \<and> f = SawTx a (tx_ident C tx))"

lemma marked_ok:
  assumes "mesh_ok C m" "marked m m1 f"
  shows "evolves m m1 []" "mesh_ok C m1" "peers_of m1 = peers_of m"
proof -
  show ev: "evolves m m1 []" using assms(2) by (auto simp: evolves_def marked_def)
  have "edges_ok m1" using assms unfolding mesh_ok_def edges_ok_def marked_def by (metis insert_iff)
  then show "mesh_ok C m1" by (rule evolves_ok [OF ev assms(1)]) simp
  show "peers_of m1 = peers_of m" using assms(2) by (simp add: marked_def peers_of_def fun_eq_iff)
qed

lemma relayed_ok:
  fixes fr :: name
  assumes "mesh_ok C m" "marked m m1 f" "carries C env to f" "to \<in> members m"
  defines "new \<equiv> map (message m1 to env) (filter (\<lambda>nxt. nxt \<noteq> to) (filter (\<lambda>nxt. nxt \<noteq> fr) (peers_of m to)))"
  shows "evolves m (relay_on m1 to fr env) new" "mesh_ok C (relay_on m1 to fr env)"
    "facts (relay_on m1 to fr env) = insert f (facts m)" "mesh_nodes (relay_on m1 to fr env) = mesh_nodes m1"
proof -
  let ?m' = "relay_on m1 to fr env"
  note M = marked_ok [OF assms(1,2)]
  have eq: "?m' = m1\<lparr>mesh_queue := mesh_queue m1 @ new\<rparr>" by (simp add: relay_on_eq new_def M(3))
  have f: "facts ?m' = facts m1" unfolding eq by simp
  then show "facts ?m' = insert f (facts m)" using assms(2) by (simp add: marked_def)
  show "mesh_nodes ?m' = mesh_nodes m1" by (simp add: eq)
  have mem: "members ?m' = members m1" "mesh_now ?m' = mesh_now m1" unfolding eq by (simp_all add: members_def)
  have ev: "evolves m1 ?m' new" unfolding evolves_def f mem by (simp add: eq)
  from evolves_trans [OF M(1) this] show "evolves m ?m' new" by simp
  have e: "edges_ok m1" using M(2) by (simp add: mesh_ok_def)
  then have "edges_ok ?m'" unfolding edges_ok_def f mem .
  moreover have "list_all (q_ok C ?m') new"
  proof -
    have "b \<in> members m" if "b |\<in>| set_at (mesh_peers m) to" for b
      using assms(1) that by (auto simp: mesh_ok_def edges_ok_def)
    then show ?thesis using assms(2-4) unfolding list_all_iff q_ok_def f mem
      by (auto simp: new_def marked_def carries_def)
  qed
  ultimately show "mesh_ok C ?m'" by (rule evolves_ok [OF ev M(2)])
qed

lemma fmupd_same: "fmlookup m k = Some v \<Longrightarrow> fmupd k v m = m"
  by (rule fmap_ext) auto

lemma mark_block:
  assumes "i |\<notin>| set_at (seen_blocks m) to" "fmdom N = fmdom (mesh_nodes m)"
  shows "marked m (m\<lparr>seen_blocks := fmupd to (finsert i (set_at (seen_blocks m) to)) (seen_blocks m), mesh_nodes := N\<rparr>) (SawBlock to i)"
    (is "marked m ?m1 ?f")
proof -
  have "x \<in> facts ?m1 \<longleftrightarrow> x \<in> insert ?f (facts m)" for x by (cases x) auto
  then have "facts ?m1 = insert ?f (facts m)" by blast
  then show ?thesis using assms by (simp add: marked_def members_def)
qed

lemma mark_tx:
  assumes "i |\<notin>| set_at (seen_txs m) to" "fmdom N = fmdom (mesh_nodes m)"
  shows "marked m (m\<lparr>seen_txs := fmupd to (finsert i (set_at (seen_txs m) to)) (seen_txs m), mesh_nodes := N\<rparr>) (SawTx to i)"
    (is "marked m ?m1 ?f")
proof -
  have "x \<in> facts ?m1 \<longleftrightarrow> x \<in> insert ?f (facts m)" for x by (cases x) auto
  then have "facts ?m1 = insert ?f (facts m)" by blast
  then show ?thesis using assms by (simp add: marked_def members_def)
qed

text \<open>The three ways a block message ends: known already, refused by the node, or taken and relayed.\<close>

lemma on_block_cases:
  assumes "mesh_ok C m" "to \<in> members m" "on_block C wall m to fr r = Some m'"
  defines "f \<equiv> SawBlock to (record_id (blake3 C) r)"
  obtains (known) "f \<in> facts m" "m' = m"
  | (refused) n e where "f \<notin> facts m" "marked m m' f" "mesh_nodes m' = mesh_nodes m"
      "fmlookup (mesh_nodes m) to = Some n" "receive_block C wall n r = Some (Inl e)"
  | (relayed) n n' i m1 where "f \<notin> facts m" "marked m m1 f" "mesh_nodes m1 = fmupd to n' (mesh_nodes m)"
      "fmlookup (mesh_nodes m) to = Some n" "receive_block C wall n r = Some (Inr (i, n'))" "m' = relay_on m1 to fr (BlockEnv r)"
proof -
  let ?i = "record_id (blake3 C) r"
  let ?m0 = "m\<lparr>seen_blocks := fmupd to (finsert ?i (set_at (seen_blocks m) to)) (seen_blocks m)\<rparr>"
  obtain n where n: "fmlookup (mesh_nodes m) to = Some n" using assms(2) by (auto simp: members_def fmlookup_dom_iff)
  have dom: "fmdom (fmupd to n' (mesh_nodes m)) = fmdom (mesh_nodes m)" for n'
    using assms(2) by (auto simp: members_def finsert_absorb)
  show ?thesis
  proof (cases "?i |\<in>| set_at (seen_blocks m) to")
    case True
    then have "fmupd to (finsert ?i (set_at (seen_blocks m) to)) (seen_blocks m) = seen_blocks m"
      by (auto simp: set_at_def finsert_absorb fmupd_same split: option.splits)
    then have "m' = m" using True assms(3) by (simp add: on_block_def Let_def)
    then show ?thesis using known True by (simp add: f_def)
  next
    case False
    then obtain res where res: "receive_block C wall n r = Some res"
        "m' = (case res of Inl _ \<Rightarrow> ?m0 | Inr (_, n) \<Rightarrow> relay_on (?m0\<lparr>mesh_nodes := fmupd to n (mesh_nodes m)\<rparr>) to fr (BlockEnv r))"
      using assms(3) n by (auto simp: on_block_def Let_def split: bind_splits sum.splits)
    show ?thesis
    proof (cases res)
      case (Inl e)
      have "marked m (?m0\<lparr>mesh_nodes := mesh_nodes m\<rparr>) f" unfolding f_def by (rule mark_block [OF False refl])
      then show ?thesis using refused [OF _ _ _ n] res Inl False by (simp add: f_def)
    next
      case (Inr p)
      obtain i n' where p: "p = (i, n')" by (cases p)
      have "marked m (?m0\<lparr>mesh_nodes := fmupd to n' (mesh_nodes m)\<rparr>) f" unfolding f_def by (rule mark_block [OF False dom])
      then show ?thesis using relayed [OF _ _ _ n] res Inr False p by (simp add: f_def)
    qed
  qed
qed


lemma on_tx_cases:
  fixes fr :: name and tx :: transaction
  assumes "mesh_ok C m" "to \<in> members m"
  defines "f \<equiv> SawTx to (tx_ident C tx)" and "m' \<equiv> on_tx C m to fr tx"
  obtains (known) "f \<in> facts m" "m' = m"
  | (refused) "f \<notin> facts m" "marked m m' f" "mesh_nodes m' = mesh_nodes m"
  | (relayed) n n' i m1 where "f \<notin> facts m" "marked m m1 f" "mesh_nodes m1 = fmupd to n' (mesh_nodes m)"
      "fmlookup (mesh_nodes m) to = Some n" "submit_tx C n tx = Inr (i, n')" "m' = relay_on m1 to fr (TxEnv tx)"
proof -
  let ?i = "tx_ident C tx"
  let ?m0 = "m\<lparr>seen_txs := fmupd to (finsert ?i (set_at (seen_txs m) to)) (seen_txs m)\<rparr>"
  obtain n where n: "fmlookup (mesh_nodes m) to = Some n" using assms(2) by (auto simp: members_def fmlookup_dom_iff)
  have dom: "fmdom (fmupd to n' (mesh_nodes m)) = fmdom (mesh_nodes m)" for n'
    using assms(2) by (auto simp: members_def finsert_absorb)
  show ?thesis
  proof (cases "?i |\<in>| set_at (seen_txs m) to")
    case True
    then have "fmupd to (finsert ?i (set_at (seen_txs m) to)) (seen_txs m) = seen_txs m"
      by (auto simp: set_at_def finsert_absorb fmupd_same split: option.splits)
    then have "m' = m" using True by (simp add: m'_def on_tx_def Let_def)
    then show ?thesis using known True by (simp add: f_def)
  next
    case False
    have mk: "marked m (?m0\<lparr>mesh_nodes := N\<rparr>) f" if "fmdom N = fmdom (mesh_nodes m)" for N
      unfolding f_def by (rule mark_tx [OF False that])
    show ?thesis
    proof (cases "submit_tx C n tx")
      case (Inl e)
      then have "m' = ?m0\<lparr>mesh_nodes := mesh_nodes m\<rparr>" using False n by (simp add: m'_def on_tx_def Let_def)
      then show ?thesis using refused mk [OF refl] False by (simp add: f_def)
    next
      case (Inr p)
      obtain i n' where p: "p = (i, n')" by (cases p)
      have "m' = relay_on (?m0\<lparr>mesh_nodes := fmupd to n' (mesh_nodes m)\<rparr>) to fr (TxEnv tx)"
        using False n Inr p by (simp add: m'_def on_tx_def Let_def)
      then show ?thesis using relayed [OF _ mk [OF dom] _ n] Inr False p by (simp add: f_def)
    qed
  qed
qed

text \<open>The facts that messages of these kinds among these members can add.\<close>

definition universe :: "('sk, 'vk) crypto \<Rightarrow> name set \<Rightarrow> envelope set \<Rightarrow> fact set" where
  "universe C K E = (\<lambda>(a, b). Edge a b) ` (K \<times> K) \<union> {f. \<exists>a \<in> K. \<exists>env \<in> E. carries C env a f}"

definition from_envs :: "envelope set \<Rightarrow> queued list \<Rightarrow> bool" where
  "from_envs E qs \<longleftrightarrow> (\<forall>q \<in> set qs. (\<exists>a. q_env q = HelloEnv a) \<or> q_env q \<in> E)"

text \<open>Messages are sent only when something new was learned.\<close>

definition progress :: "('sk, 'vk) crypto \<Rightarrow> envelope set \<Rightarrow> mesh \<Rightarrow> mesh \<Rightarrow> queued list \<Rightarrow> bool" where
  "progress C E m m' new \<longleftrightarrow> evolves m m' new \<and> mesh_ok C m' \<and> from_envs E new
     \<and> (new \<noteq> [] \<longrightarrow> (\<exists>f \<in> universe C (members m) E. f \<in> facts m' - facts m))"

lemma progress_refl: "mesh_ok C m \<Longrightarrow> progress C E m m []"
  by (simp add: progress_def evolves_def from_envs_def)

lemma progress_marked:
  assumes "mesh_ok C m" "marked m m' f"
  shows "progress C E m m' []"
  using marked_ok [OF assms] by (simp add: progress_def from_envs_def)

lemma progress_relayed:
  assumes "mesh_ok C m" "marked m m1 f" "carries C env to f" "to \<in> members m" "env \<in> E"
  shows "\<exists>new. progress C E m (relay_on m1 to fr env) new"
proof -
  note R = relayed_ok [OF assms(1-4), of fr]
  have "f \<in> universe C (members m) E" using assms(3-5) by (auto simp: universe_def)
  moreover have "f \<in> facts (relay_on m1 to fr env) - facts m" using R(3) assms(2) by (auto simp: marked_def)
  ultimately show ?thesis using R(1,2) assms(5) unfolding progress_def from_envs_def
    by (intro exI [of _ "map (message m1 to env) (filter (\<lambda>nxt. nxt \<noteq> to) (filter (\<lambda>nxt. nxt \<noteq> fr) (peers_of m to)))"]) auto
qed

lemma progress_trans:
  assumes "progress C E m m1 xs" "progress C E m1 m2 ys"
  shows "progress C E m m2 (xs @ ys)"
proof -
  have e: "evolves m m1 xs" "evolves m1 m2 ys" using assms by (simp_all add: progress_def)
  then have "facts m \<subseteq> facts m1" "facts m1 \<subseteq> facts m2" "members m1 = members m" by (simp_all add: evolves_def)
  then show ?thesis using assms evolves_trans [OF e] by (auto simp: progress_def from_envs_def)
qed

lemma deliver_progress:
  assumes "mesh_ok C m" "q_ok C m q" "deliver C clock m q = Some m'" "from_envs E [q]"
  shows "\<exists>new. progress C E m m' new"
proof -
  let ?m = "m\<lparr>mesh_events := mesh_events m
    @ [\<lparr>ev_at = mesh_now m, ev_from = q_from q, ev_to = q_to q, ev_kind = kind_of (q_env q)\<rparr>]\<rparr>"
  have mem: "q_to q \<in> members ?m" "q_from q \<in> members ?m" "q_from q \<noteq> q_to q"
    using assms(2) by (simp_all add: q_ok_def members_def)
  have ev: "evolves m ?m []" by (simp add: evolves_def members_def)
  have ok: "mesh_ok C ?m"
    by (rule evolves_ok [OF ev assms(1)]) (use assms(1) in \<open>simp_all add: mesh_ok_def edges_ok_def members_def\<close>)
  have "\<exists>new. progress C E ?m m' new"
  proof (cases "q_env q")
    case (HelloEnv adv)
    then have m': "m' = on_hello ?m (q_to q) (q_from q) adv" using assms(3) by (simp add: deliver_def Let_def)
    obtain new where "evolves ?m m' new" "mesh_ok C m'" "\<forall>q \<in> set new. \<exists>a. q_env q = HelloEnv a"
        "new \<noteq> [] \<longrightarrow> (\<exists>b \<in> members ?m. Edge (q_to q) b \<in> facts m' - facts ?m)"
      using on_hello_step [OF ok mem, of adv] unfolding m' by blast
    moreover have "Edge (q_to q) b \<in> universe C (members ?m) E" if "b \<in> members ?m" for b
      using that mem by (auto simp: universe_def)
    ultimately show ?thesis unfolding progress_def from_envs_def by blast
  next
    case (BlockEnv r)
    let ?w = "clock (length (mesh_events m))"
    have m': "on_block C ?w ?m (q_to q) (q_from q) r = Some m'" using assms(3) BlockEnv by (simp add: deliver_def Let_def)
    have c: "carries C (BlockEnv r) (q_to q) (SawBlock (q_to q) (record_id (blake3 C) r))" by (simp add: carries_def)
    from ok mem(1) m' show ?thesis
    proof (cases rule: on_block_cases)
      case known
      then show ?thesis using progress_refl [OF ok] by blast
    next
      case refused
      then show ?thesis using progress_marked [OF ok] by blast
    next
      case (relayed n n' i m1)
      then show ?thesis using progress_relayed [OF ok _ c mem(1)] BlockEnv assms(4) by (simp add: from_envs_def)
    qed
  next
    case (TxEnv tx)
    have m': "m' = on_tx C ?m (q_to q) (q_from q) tx" using assms(3) TxEnv by (simp add: deliver_def Let_def)
    have c: "carries C (TxEnv tx) (q_to q) (SawTx (q_to q) (tx_ident C tx))" by (simp add: carries_def)
    from ok mem(1) show ?thesis
    proof (cases rule: on_tx_cases [of C ?m "q_to q" tx "q_from q"])
      case known
      then show ?thesis using progress_refl [OF ok] m' by metis
    next
      case refused
      then show ?thesis using progress_marked [OF ok] m' by blast
    next
      case (relayed n n' i m1)
      then show ?thesis using progress_relayed [OF ok _ c mem(1)] TxEnv assms(4) m' by (simp add: from_envs_def)
    qed
  qed
  then obtain new where "progress C E ?m m' new" by blast
  then have "progress C E m m' new" by (simp add: progress_def evolves_def members_def)
  then show ?thesis ..
qed

lemma deliver_all_progress:
  assumes "mesh_ok C m" "list_all (q_ok C m) qs" "deliver_all C clock m qs = Some m'" "from_envs E qs"
  shows "\<exists>new. progress C E m m' new"
  using assms
proof (induction qs arbitrary: m)
  case Nil
  then show ?case using progress_refl by auto
next
  case (Cons q qs)
  then obtain m1 where m1: "deliver C clock m q = Some m1" "deliver_all C clock m1 qs = Some m'"
    by (auto split: bind_splits)
  obtain new where p: "progress C E m m1 new"
    using deliver_progress [OF Cons.prems(1) _ m1(1), of E] Cons.prems(2,4) by (auto simp: from_envs_def)
  then have "evolves m m1 new" "mesh_ok C m1" by (simp_all add: progress_def)
  moreover have "list_all (q_ok C m1) qs"
    using Cons.prems(2) q_ok_mono [of C m _ m1] calculation(1) by (auto simp: list_all_iff evolves_def)
  moreover have "from_envs E qs" using Cons.prems(4) by (simp add: from_envs_def)
  ultimately show ?case using Cons.IH [OF _ _ m1(2)] progress_trans [OF p] by blast
qed

end
