(* ===== verification/P2pDrain.thy ===== *)
theory P2pDrain
  imports P2pInv
begin

text \<open>
  Reachable meshes and their invariant, and the termination of \<open>Mesh::drain\<close>: every tick delivers
  the whole queue, and a tick that leaves messages behind has learned a fact.
\<close>

section \<open>Reachable meshes\<close>

inductive mesh_reachable :: "('sk, 'vk) crypto \<Rightarrow> mesh \<Rightarrow> bool" for C where
  m_new: "mesh_reachable C mesh_new"
| m_add: "mesh_reachable C m \<Longrightarrow> mesh_reachable C (mesh_add m a n)"
| m_node_mut: "mesh_reachable C m \<Longrightarrow> mesh_reachable C (with_node_mut f m a)"
| m_connect: "mesh_reachable C m \<Longrightarrow> mesh_connect m a b = Inr m' \<Longrightarrow> mesh_reachable C m'"
| m_tick: "mesh_reachable C m \<Longrightarrow> tick C clock m = Some (k, m') \<Longrightarrow> mesh_reachable C m'"
| m_produce: "mesh_reachable C m \<Longrightarrow> mesh_produce C wall m a = Some (Inr (i, m')) \<Longrightarrow> mesh_reachable C m'"
| m_produce_empty: "mesh_reachable C m \<Longrightarrow> mesh_produce_empty C wall m a = Some (Inr (b, m')) \<Longrightarrow> mesh_reachable C m'"
| m_send: "mesh_reachable C m \<Longrightarrow> mesh_send C wall m a seed amount to_seed = Some (Inr (b, m')) \<Longrightarrow> mesh_reachable C m'"
| m_send_to: "mesh_reachable C m \<Longrightarrow> mesh_send_to C wall m a seed amount to = Some (Inr (b, m')) \<Longrightarrow> mesh_reachable C m'"
| m_pool: "mesh_reachable C m \<Longrightarrow> mesh_pool C m a seed amount to_seed = Some (Inr (t, m')) \<Longrightarrow> mesh_reachable C m'"
| m_submit: "mesh_reachable C m \<Longrightarrow> mesh_submit_signed C m a fr amount to sg = Some (Inr (t, m')) \<Longrightarrow> mesh_reachable C m'"

lemma evolves_nodes:
  assumes "mesh_ok C m" "members m \<subseteq> members m'" "mesh_now m' = mesh_now m" "facts m' = facts m" "mesh_queue m' = mesh_queue m"
  shows "mesh_ok C m'"
  using assms q_ok_mono [of C m _ m'] by (auto simp: mesh_ok_def edges_ok_def list_all_iff)

lemma send_ok:
  assumes "mesh_ok C m" "\<And>b. b \<in> set tos \<Longrightarrow> b \<noteq> a \<Longrightarrow> q_ok C m (message m a env b)"
  shows "mesh_ok C (enqueue_all m a env tos)"
proof -
  have "q_ok C (m\<lparr>mesh_queue := x\<rparr>) q \<longleftrightarrow> q_ok C m q" "edges_ok (m\<lparr>mesh_queue := x\<rparr>) \<longleftrightarrow> edges_ok m" for q x
    by (simp_all add: q_ok_def edges_ok_def members_def split: envelope.split)
  then show ?thesis using assms by (auto simp: mesh_ok_def enqueue_all_eq list_all_iff)
qed

lemma announce_block_ok:
  assumes "mesh_ok C m" "a \<in> members m"
  shows "mesh_ok C (announce_block (blake3 C) m a r)"
proof -
  let ?m1 = "m\<lparr>seen_blocks := fmupd a (finsert (record_id (blake3 C) r) (set_at (seen_blocks m) a)) (seen_blocks m)\<rparr>"
  have "x \<in> facts ?m1 \<longleftrightarrow> x \<in> insert (SawBlock a (record_id (blake3 C) r)) (facts m)" for x by (cases x) auto
  then have f: "facts ?m1 = insert (SawBlock a (record_id (blake3 C) r)) (facts m)" by blast
  have "evolves m ?m1 []" unfolding evolves_def f by (auto simp: members_def)
  moreover have e: "edges_ok ?m1" using assms(1) unfolding mesh_ok_def edges_ok_def f by (simp add: members_def)
  ultimately have ok: "mesh_ok C ?m1" using evolves_ok [OF _ assms(1)] by simp
  have "q_ok C ?m1 (message ?m1 a (BlockEnv r) b)" if "b \<in> set (peers_of ?m1 a)" for b
    using that e assms(2) by (auto simp: q_ok_def edges_ok_def members_def)
  then show ?thesis unfolding announce_block_def Let_def by (intro send_ok [OF ok]) blast
qed

lemma announce_tx_ok:
  assumes "mesh_ok C m" "a \<in> members m"
  shows "mesh_ok C (announce_tx C m a tx)"
proof -
  let ?m1 = "m\<lparr>seen_txs := fmupd a (finsert (tx_ident C tx) (set_at (seen_txs m) a)) (seen_txs m)\<rparr>"
  have "x \<in> facts ?m1 \<longleftrightarrow> x \<in> insert (SawTx a (tx_ident C tx)) (facts m)" for x by (cases x) auto
  then have f: "facts ?m1 = insert (SawTx a (tx_ident C tx)) (facts m)" by blast
  have "evolves m ?m1 []" unfolding evolves_def f by (auto simp: members_def)
  moreover have e: "edges_ok ?m1" using assms(1) unfolding mesh_ok_def edges_ok_def f by (simp add: members_def)
  ultimately have ok: "mesh_ok C ?m1" using evolves_ok [OF _ assms(1)] by simp
  have "q_ok C ?m1 (message ?m1 a (TxEnv tx) b)" if "b \<in> set (peers_of ?m1 a)" for b
    using that e assms(2) by (auto simp: q_ok_def edges_ok_def members_def)
  then show ?thesis unfolding announce_tx_def Let_def by (intro send_ok [OF ok]) blast
qed

lemma on_node_InrD:
  assumes "on_node m a f = Some (Inr (x, m'))"
  obtains n n' where "a \<in> members m" "fmlookup (mesh_nodes m) a = Some n" "f n = Some (Inr (x, n'))"
    "m' = m\<lparr>mesh_nodes := fmupd a n' (mesh_nodes m)\<rparr>"
  using assms by (auto simp: on_node_def require_def members_iff rbind_eq_Inr split: if_splits sum.splits bind_splits)

lemma node_upd_ok: "mesh_ok C m \<Longrightarrow> mesh_ok C (m\<lparr>mesh_nodes := fmupd a n (mesh_nodes m)\<rparr>)"
  by (rule evolves_nodes [of C m]) (auto simp: members_def)

lemma announce_made_ok: "mesh_ok C m \<Longrightarrow> mesh_ok C (announce_made (blake3 C) m a i)"
  by (auto simp: announce_made_def members_def fmlookup_dom_iff intro!: announce_block_ok split: option.split bind_splits)

lemma announce_pooled_ok: "mesh_ok C m \<Longrightarrow> mesh_ok C (announce_pooled C m a i)"
  by (auto simp: announce_pooled_def members_def fmlookup_dom_iff intro!: announce_tx_ok split: option.split bind_splits)

lemma on_node_ok: "mesh_ok C m \<Longrightarrow> on_node m a f = Some (Inr (x, m')) \<Longrightarrow> mesh_ok C m'"
  by (elim on_node_InrD) (simp add: node_upd_ok)


lemma saturating_add_mono: "x \<le> saturating_add x (y :: u64)"
proof -
  have "unat x < 2 ^ 64" using unsigned_less [of x] by simp
  then show ?thesis by (simp add: word_le_nat_alt unat_saturating_add)
qed

text \<open>A tick delivers the whole queue.\<close>

lemma tick_eq:
  assumes "mesh_ok C m"
  defines "m0 \<equiv> m\<lparr>mesh_now := saturating_add (mesh_now m) 1, mesh_queue := []\<rparr>"
  shows "tick C clock m = map_option (\<lambda>m'. (length (mesh_queue m), m')) (deliver_all C clock m0 (mesh_queue m))"
    "mesh_ok C m0" "list_all (q_ok C m0) (mesh_queue m)" "members m0 = members m" "facts m0 = facts m" "mesh_nodes m0 = mesh_nodes m"
proof -
  let ?t = "saturating_add (mesh_now m) 1"
  have due: "\<forall>q \<in> set (mesh_queue m). q_due q \<le> ?t" using assms(1) by (auto simp: mesh_ok_def list_all_iff q_ok_def)
  then have "filter (\<lambda>q. q_due q \<le> ?t) (mesh_queue m) = mesh_queue m" "filter (\<lambda>q. \<not> q_due q \<le> ?t) (mesh_queue m) = []"
    by (auto simp: filter_empty_conv filter_id_conv)
  then show "tick C clock m = map_option (\<lambda>m'. (length (mesh_queue m), m')) (deliver_all C clock m0 (mesh_queue m))"
    by (simp add: tick_def Let_def m0_def)
  show mem: "members m0 = members m" "facts m0 = facts m" "mesh_nodes m0 = mesh_nodes m" by (simp_all add: m0_def members_def)
  then show "mesh_ok C m0" using assms(1) by (simp add: mesh_ok_def edges_ok_def) (simp add: m0_def)
  have "q_due q \<le> saturating_add ?t 1" if "q \<in> set (mesh_queue m)" for q
    using due that saturating_add_mono [of ?t 1] by (blast intro: order_trans)
  then show "list_all (q_ok C m0) (mesh_queue m)"
    using assms(1) unfolding mesh_ok_def list_all_iff q_ok_def mem by (auto simp: m0_def)
qed

lemma tick_progress:
  assumes "mesh_ok C m" "tick C clock m = Some (k, m')" "from_envs E (mesh_queue m)"
  shows "k = mesh_queued m" "mesh_ok C m'" "members m' = members m" "facts m \<subseteq> facts m'" "from_envs E (mesh_queue m')"
    "mesh_queue m' \<noteq> [] \<Longrightarrow> \<exists>f \<in> universe C (members m) E. f \<in> facts m' - facts m"
proof -
  let ?m0 = "m\<lparr>mesh_now := saturating_add (mesh_now m) 1, mesh_queue := []\<rparr>"
  note T = tick_eq [OF assms(1)]
  have d: "deliver_all C clock ?m0 (mesh_queue m) = Some m'" "k = mesh_queued m" using assms(2) T(1) by (auto simp: mesh_queued_def)
  then obtain new where "progress C E ?m0 m' new" using deliver_all_progress [OF T(2,3) _ assms(3)] by blast
  then show "k = mesh_queued m" "mesh_ok C m'" "members m' = members m" "facts m \<subseteq> facts m'" "from_envs E (mesh_queue m')"
      "mesh_queue m' \<noteq> [] \<Longrightarrow> \<exists>f \<in> universe C (members m) E. f \<in> facts m' - facts m"
    using d(2) unfolding progress_def evolves_def T(4,5) by simp_all
qed

lemma mesh_add_ok:
  assumes "mesh_ok C m"
  shows "mesh_ok C (mesh_add m a n)"
proof (rule evolves_nodes [OF assms])
  show "members m \<subseteq> members (mesh_add m a n)" by (auto simp: members_def mesh_add_def)
  have "x \<in> facts (mesh_add m a n) \<longleftrightarrow> x \<in> facts m" for x by (cases x) (auto simp: mesh_add_def)
  then show "facts (mesh_add m a n) = facts m" by blast
qed (simp_all add: mesh_add_def)

lemma mesh_connect_ok:
  assumes "mesh_ok C m" "mesh_connect m a b = Inr m'"
  shows "mesh_ok C m'"
proof (cases "a = b")
  case False
  let ?m1 = "m\<lparr>mesh_peers := fmupd a (finsert b (set_at (mesh_peers m) a)) (mesh_peers m)\<rparr>"
  have mem: "a \<in> members m" "b \<in> members m"
    using assms(2) by (auto simp: mesh_connect_def require_def rbind_eq_Inr members_iff split: if_splits)
  have "x \<in> facts ?m1 \<longleftrightarrow> x \<in> insert (Edge a b) (facts m)" for x by (cases x) auto
  then have f: "facts ?m1 = insert (Edge a b) (facts m)" by blast
  have "evolves m ?m1 []" unfolding evolves_def f by (auto simp: members_def)
  moreover have "edges_ok ?m1" using assms(1) mem False unfolding mesh_ok_def edges_ok_def f by (auto simp: members_def)
  ultimately have ok: "mesh_ok C ?m1" using evolves_ok [OF _ assms(1)] by simp
  have "q_ok C ?m1 (message ?m1 a env b)" if "\<exists>x. env = HelloEnv x" for env
    using that mem False by (auto simp: q_ok_def members_def)
  then have "mesh_ok C (enqueue_hello ?m1 a b)"
    using send_ok [OF ok, of "[b]" a "HelloEnv (peers_of ?m1 a)"] by (simp add: enqueue_hello_def)
  then show ?thesis using assms(2) False ok
    by (auto simp: mesh_connect_def rbind_eq_Inr Let_def split: if_splits)
qed (use assms in \<open>auto simp: mesh_connect_def rbind_eq_Inr\<close>)

lemma mesh_reachable_ok: "mesh_reachable C m \<Longrightarrow> mesh_ok C m"
proof (induction rule: mesh_reachable.induct)
  case m_new
  then show ?case by (simp add: mesh_ok_def edges_ok_def mesh_new_def set_at_def)
next
  case (m_add m a n)
  then show ?case by (simp add: mesh_add_ok)
next
  case (m_node_mut m f a)
  then show ?case by (auto simp: with_node_mut_def intro: node_upd_ok split: option.split)
next
  case (m_connect m a b m')
  then show ?case using mesh_connect_ok by blast
next
  case (m_tick m clock k m')
  have "from_envs (q_env ` set (mesh_queue m)) (mesh_queue m)" by (simp add: from_envs_def)
  then show ?case using tick_progress(2) m_tick by blast
qed (auto simp: mesh_produce_def mesh_produce_empty_def mesh_send_def mesh_send_to_def mesh_pool_def mesh_submit_signed_def rbind_eq_Inr
    split: option.split bind_splits intro!: announce_made_ok announce_pooled_ok dest: on_node_ok)

text \<open>
  C18: the invariant of the mesh.  In every reachable mesh the peer graph joins distinct registered
  nodes, every waiting message goes between two such nodes and is due by the next tick, and a
  waiting block or transaction is in the seen set of its sender.
\<close>

theorem mesh_invariant:
  assumes "mesh_reachable C m"
  shows "(\<forall>a b. b \<in> set (peers_of m a) \<longrightarrow> {a, b} \<subseteq> set (mesh_names m) \<and> a \<noteq> b)
    \<and> (\<forall>q \<in> set (mesh_queue m). {q_from q, q_to q} \<subseteq> set (mesh_names m) \<and> q_from q \<noteq> q_to q
           \<and> q_due q \<le> saturating_add (mesh_now m) 1
           \<and> (\<forall>r. q_env q = BlockEnv r \<longrightarrow> record_id (blake3 C) r |\<in>| set_at (seen_blocks m) (q_from q))
           \<and> (\<forall>tx. q_env q = TxEnv tx \<longrightarrow> tx_ident C tx |\<in>| set_at (seen_txs m) (q_from q)))"
  using mesh_reachable_ok [OF assms]
  by (auto simp: mesh_ok_def edges_ok_def q_ok_def list_all_iff mesh_names_def members_def)


section \<open>Sound nodes\<close>

text \<open>
  Where no panic can happen: the ledgers are well formed with finality off and hold blocks out
  of a set \<open>U\<close> that fits the index, and so do the blocks that are under way.
\<close>

definition node_sound :: "('sk, 'vk) crypto \<Rightarrow> block_id set \<Rightarrow> node_state \<Rightarrow> bool" where
  "node_sound C U n \<longleftrightarrow> held n \<subseteq> U \<and> (\<forall>l. node_ledger n = Some l \<longrightarrow> ledger_inv C l \<and> finality_depth l = - 1)"

fun env_sound :: "('sk, 'vk) crypto \<Rightarrow> block_id set \<Rightarrow> envelope \<Rightarrow> bool" where
  "env_sound C U (BlockEnv r) \<longleftrightarrow> wf_record r \<and> record_id (blake3 C) r \<in> U"
| "env_sound C U (HelloEnv _) \<longleftrightarrow> True"
| "env_sound C U (TxEnv _) \<longleftrightarrow> True"

lemma receive_total:
  assumes "node_sound C U n" "finite U" "card U < ROOT_CAPACITY" "env_sound C U (BlockEnv r)"
  shows "\<exists>res. receive_block C wall n r = Some res \<and> (\<forall>i n'. res = Inr (i, n') \<longrightarrow> node_sound C U n')"
proof (cases "node_ledger n")
  case None
  then show ?thesis using assms(1) by (simp add: receive_block_def Let_def)
next
  case (Some l)
  let ?ins = "ledger_insert C l (rec_parents r) (rec_work r) (rec_timestamp_ms r) (rec_nonce r) (rec_txs r)"
  have l: "ledger_inv C l" "finality_depth l = - 1" "ids (ledger_dag l) \<subseteq> U"
    using assms(1) Some by (auto simp: node_sound_def held_def)
  then have cap: "Suc (card (ids (ledger_dag l))) \<le> ROOT_CAPACITY"
    using card_mono [OF assms(2) l(3)] assms(3) by simp
  have sz: "machine_sized (rec_parents r) (rec_txs r)" using assms(4) by (simp add: wf_record_def)
  obtain res where res: "?ins = Some res" using ledger_insert_cases [OF l(1,2) cap sz refl] by blast
  show ?thesis
  proof (cases res)
    case (Inl e)
    then show ?thesis using Some res assms(1)
      by (auto simp: receive_block_def Let_def split: ledger_insert_error.split dag_error.split)
  next
    case (Inr p)
    obtain i l' where p: "p = (i, l')" by (cases p)
    note ins = res [unfolded Inr p]
    note R = ledger_insert_InrD [OF l(1) cap sz ins] and S = ledger_insert_stored [OF l(1) cap sz ins]
    have fin: "finality_depth l' = - 1" using R(5) l(2) by simp
    obtain u where "evict_mempool C (n\<lparr>node_ledger := Some l'\<rparr>)
        = Some (n\<lparr>node_ledger := Some l', node_mempool := fst (evict_invalid (node_mempool n) u)\<rparr>)"
      using evict_mempool_ok [of "n\<lparr>node_ledger := Some l'\<rparr>" l' C] R(2) fin by auto
    moreover have "i \<in> U" using R(1) assms(4) by (simp add: record_id_def)
    ultimately show ?thesis using Some ins R(2) fin S(2) l(3)
      by (simp add: receive_block_def Let_def node_sound_def held_def)
  qed
qed

section \<open>Delivery to nodes\<close>

text \<open>A property of all nodes of a mesh.\<close>

definition every :: "(node_state \<Rightarrow> bool) \<Rightarrow> mesh \<Rightarrow> bool" where
  "every N m \<longleftrightarrow> (\<forall>a n. fmlookup (mesh_nodes m) a = Some n \<longrightarrow> N n)"

lemma every_cong: "mesh_nodes m' = mesh_nodes m \<Longrightarrow> every N m' \<longleftrightarrow> every N m"
  by (simp add: every_def)

lemma every_upd: "every N m \<Longrightarrow> N n \<Longrightarrow> mesh_nodes m' = fmupd a n (mesh_nodes m) \<Longrightarrow> every N m'"
  by (simp add: every_def)

text \<open>
  The contract of delivery: a node with the property \<open>N\<close> takes every message with the property
  \<open>E\<close> without a panic and keeps \<open>N\<close>.  Then so does the mesh.
\<close>

locale delivers =
  fixes C :: "('sk, 'vk) crypto" and N :: "node_state \<Rightarrow> bool" and E :: "envelope \<Rightarrow> bool"
  assumes takes_block: "N n \<Longrightarrow> E (BlockEnv r) \<Longrightarrow> \<exists>res. receive_block C wall n r = Some res \<and> (\<forall>i n'. res = Inr (i, n') \<longrightarrow> N n')"
    and takes_tx: "submit_tx C n tx = Inr (i, n') \<Longrightarrow> N n \<Longrightarrow> E (TxEnv tx) \<Longrightarrow> N n'"
begin

lemma deliver_total:
  assumes "every N m" "E (q_env q)"
  shows "\<exists>m'. deliver C clock m q = Some m' \<and> every N m'"
proof (cases "q_env q")
  case (HelloEnv adv)
  then show ?thesis using assms(1)
    by (simp add: deliver_def on_hello_def every_def Let_def enqueue_hello_eq hello_all_eq split: prod.split del: hello_all.simps)
next
  case (TxEnv tx)
  then show ?thesis using assms takes_tx
    by (auto simp: deliver_def on_tx_def every_def Let_def relay_on_eq split: sum.split option.split)
next
  case (BlockEnv r)
  let ?to = "q_to q" and ?w = "clock (length (mesh_events m))"
  show ?thesis
  proof (cases "fmlookup (mesh_nodes m) ?to")
    case None
    then show ?thesis using BlockEnv assms(1) by (simp add: deliver_def on_block_def every_def Let_def relay_on_eq)
  next
    case (Some n)
    then have "N n" using assms(1) by (simp add: every_def)
    from takes_block [OF this assms(2) [unfolded BlockEnv], of ?w] obtain res where
      "receive_block C ?w n r = Some res" "\<And>i n'. res = Inr (i, n') \<Longrightarrow> N n'" by blast
    then show ?thesis using BlockEnv assms(1) Some
      by (auto simp: deliver_def on_block_def every_def Let_def relay_on_eq split: sum.split)
  qed
qed

lemma deliver_all_total:
  "every N m \<Longrightarrow> \<forall>q \<in> set qs. E (q_env q) \<Longrightarrow> \<exists>m'. deliver_all C clock m qs = Some m' \<and> every N m'"
proof (induction qs arbitrary: m)
  case (Cons q qs)
  then obtain m1 where "deliver C clock m q = Some m1" "every N m1" using deliver_total [OF Cons.prems(1), of q clock] by auto
  then show ?case using Cons.IH [of m1] Cons.prems(2) by simp
qed simp

lemma tick_total:
  assumes "mesh_ok C m" "every N m" "\<forall>q \<in> set (mesh_queue m). E (q_env q)"
  shows "\<exists>m'. tick C clock m = Some (mesh_queued m, m') \<and> every N m'"
  using deliver_all_total [of "m\<lparr>mesh_now := saturating_add (mesh_now m) 1, mesh_queue := []\<rparr>" "mesh_queue m" clock] assms(2,3)
  by (auto simp: tick_eq(1) [OF assms(1)] mesh_queued_def every_def)

end

definition index_room :: "block_id set \<Rightarrow> bool" where
  "index_room U \<longleftrightarrow> finite U \<and> card U < ROOT_CAPACITY"

interpretation sound: delivers C "\<lambda>n. index_room U \<and> node_sound C U n" "env_sound C U"
  for C :: "('sk, 'vk) crypto" and U
proof
  show "\<exists>res. receive_block C wall n r = Some res \<and> (\<forall>i n'. res = Inr (i, n') \<longrightarrow> index_room U \<and> node_sound C U n')"
    if "index_room U \<and> node_sound C U n" "env_sound C U (BlockEnv r)" for n r wall
    using receive_total [of C U n r wall] that by (simp add: index_room_def)
qed (auto simp: submit_tx_def node_sound_def held_def split: if_splits)

section \<open>Termination\<close>

lemma carries_fun: "carries C env a f \<Longrightarrow> carries C env a g \<Longrightarrow> f = g"
  by (auto simp: carries_def)

lemma universe_card:
  assumes "finite K" "finite E"
  shows "finite (universe C K E)" "card (universe C K E) \<le> card K * (card K + card E)"
proof -
  let ?X = "{f. \<exists>a \<in> K. \<exists>env \<in> E. carries C env a f}" and ?Y = "(\<lambda>(a, b). Edge a b) ` (K \<times> K)"
  have sub: "?X \<subseteq> (\<lambda>(a, env). THE f. carries C env a f) ` (K \<times> E)"
  proof
    fix f assume "f \<in> ?X"
    then obtain a env where "a \<in> K" "env \<in> E" "carries C env a f" by blast
    moreover from this have "(THE f. carries C env a f) = f" using carries_fun by (intro the_equality) blast+
    ultimately show "f \<in> (\<lambda>(a, env). THE f. carries C env a f) ` (K \<times> E)" by (intro image_eqI [of _ _ "(a, env)"]) auto
  qed
  have fin: "finite (K \<times> E)" "finite (K \<times> K)" using assms by simp_all
  then show "finite (universe C K E)" unfolding universe_def using finite_subset [OF sub] by simp
  have "card ?X \<le> card (K \<times> E)" using card_mono [OF finite_imageI [OF fin(1)] sub] card_image_le [OF fin(1)] le_trans by blast
  moreover have "card ?Y \<le> card (K \<times> K)" by (rule card_image_le [OF fin(2)])
  ultimately show "card (universe C K E) \<le> card K * (card K + card E)"
    unfolding universe_def using card_Un_le [of ?Y ?X] by (simp add: card_cartesian_product algebra_simps)
qed

lemma drain_loop_idle:
  assumes "mesh_queue m = []"
  shows "drain_loop C clock k n m = Some (n, m)"
  using assms by (cases k) simp_all

lemma drain_loop_ok:
  assumes "finite E" "\<forall>env \<in> E. env_sound C U env"
  shows "mesh_ok C m \<Longrightarrow> every (\<lambda>n. index_room U \<and> node_sound C U n) m \<Longrightarrow> from_envs E (mesh_queue m) \<Longrightarrow> card (universe C (members m) E - facts m) < k
    \<Longrightarrow> \<exists>t m'. drain_loop C clock k n m = Some (t, m') \<and> mesh_queue m' = []"
proof (induction k arbitrary: m n)
  case (Suc k)
  show ?case
  proof (cases "mesh_queue m = []")
    case True
    then show ?thesis by simp
  next
    case False
    have "env_sound C U (q_env q)" if "q \<in> set (mesh_queue m)" for q
      using that Suc.prems(3) assms(2) by (auto simp: from_envs_def)
    then obtain m1 where m1: "tick C clock m = Some (mesh_queued m, m1)" "every (\<lambda>n. index_room U \<and> node_sound C U n) m1"
      using sound.tick_total [OF Suc.prems(1,2)] by blast
    note P = tick_progress [OF Suc.prems(1) m1(1) Suc.prems(3)]
    show ?thesis
    proof (cases "mesh_queue m1 = []")
      case True
      then show ?thesis using False m1(1) by (simp add: drain_loop_idle)
    next
      case more: False
      have "finite (universe C (members m) E - facts m)" by (intro finite_Diff universe_card(1)) (simp_all add: assms(1))
      moreover have "universe C (members m1) E - facts m1 \<subset> universe C (members m) E - facts m"
        using P(3,4) P(6) [OF more] by auto
      ultimately have "card (universe C (members m1) E - facts m1) < card (universe C (members m) E - facts m)"
        by (rule psubset_card_mono)
      then have "card (universe C (members m1) E - facts m1) < k" using Suc.prems(4) by simp
      from Suc.IH [OF P(2) m1(2) P(5) this, of "n + mesh_queued m"] show ?thesis
        by (simp only: drain_loop.simps False if_False m1(1) bind.bind_lunit case_prod_conv)
    qed
  qed
qed simp

text \<open>The blocks a mesh knows of: those the nodes hold and those under way.\<close>

definition mesh_blocks :: "('sk, 'vk) crypto \<Rightarrow> mesh \<Rightarrow> block_id set" where
  "mesh_blocks C m = (\<Union>n \<in> fmran' (mesh_nodes m). held n)
     \<union> {record_id (blake3 C) r | r. BlockEnv r \<in> q_env ` set (mesh_queue m)}"

lemma finite_held [simp]: "finite (held n)"
  by (simp add: held_def split: option.split)

lemma finite_mesh_blocks [simp]: "finite (mesh_blocks C m)"
proof -
  let ?f = "\<lambda>env. case env of BlockEnv r \<Rightarrow> record_id (blake3 C) r | _ \<Rightarrow> BlockId 0"
  have "record_id (blake3 C) r \<in> ?f ` X" if "BlockEnv r \<in> X" for r X
    using imageI [OF that, of ?f] by simp
  then have "{record_id (blake3 C) r | r. BlockEnv r \<in> q_env ` set (mesh_queue m)} \<subseteq> ?f ` q_env ` set (mesh_queue m)"
    by blast
  then have "finite {record_id (blake3 C) r | r. BlockEnv r \<in> q_env ` set (mesh_queue m)}"
    by (rule finite_subset) simp
  moreover have "finite (fmran' (mesh_nodes m))" by (simp add: fmran'_alt_def)
  ultimately show ?thesis unfolding mesh_blocks_def by simp
qed

lemma drain_ok:
  assumes "mesh_ok C m"
    and "\<forall>n \<in> fmran' (mesh_nodes m). \<forall>l. node_ledger n = Some l \<longrightarrow> ledger_inv C l \<and> finality_depth l = - 1"
    and "\<forall>q \<in> set (mesh_queue m). \<forall>r. q_env q = BlockEnv r \<longrightarrow> wf_record r"
    and "card (mesh_blocks C m) < ROOT_CAPACITY"
    and "length (mesh_names m) * (length (mesh_names m) + mesh_queued m) < k"
  shows "\<exists>t m'. drain_loop C clock k n m = Some (t, m') \<and> mesh_queue m' = []"
proof -
  let ?E = "q_env ` set (mesh_queue m)" and ?U = "mesh_blocks C m"
  have s: "every (\<lambda>n. index_room ?U \<and> node_sound C ?U n) m"
    unfolding every_def node_sound_def index_room_def
  proof (intro allI impI conjI)
    fix a n assume n: "fmlookup (mesh_nodes m) a = Some n"
    then have r: "n \<in> fmran' (mesh_nodes m)" by (rule fmran'I)
    then show "held n \<subseteq> ?U" by (auto simp: mesh_blocks_def)
    show "ledger_inv C l" "finality_depth l = - 1" if "node_ledger n = Some l" for l using that assms(2) r by auto
    show "finite ?U" "card ?U < ROOT_CAPACITY" using assms(4) by simp_all
  qed
  have e: "\<forall>env \<in> ?E. env_sound C ?U env"
  proof
    fix env assume "env \<in> ?E"
    then show "env_sound C ?U env" using assms(3) by (cases env) (auto simp: mesh_blocks_def)
  qed
  have N: "card (members m) = length (mesh_names m)" by (simp add: mesh_names_def members_def fcard.rep_eq)
  have E: "finite ?E" "card ?E \<le> mesh_queued m"
    using card_image_le [of "set (mesh_queue m)" q_env] card_length [of "mesh_queue m"] by (auto simp: mesh_queued_def)
  have "card (universe C (members m) ?E - facts m) \<le> card (universe C (members m) ?E)"
    by (intro card_mono universe_card(1)) (auto simp: E)
  also have "\<dots> \<le> length (mesh_names m) * (length (mesh_names m) + card ?E)"
    using universe_card(2) [OF finite_members E(1), of C m] N by simp
  also have "\<dots> \<le> length (mesh_names m) * (length (mesh_names m) + mesh_queued m)" using E(2) by simp
  finally have "card (universe C (members m) ?E - facts m) < k" using assms(5) by simp
  moreover have "from_envs ?E (mesh_queue m)" by (auto simp: from_envs_def)
  ultimately show ?thesis using drain_loop_ok [OF E(1) e assms(1) s] by blast
qed

end
