(* ===== verification/P2pProps.thy ===== *)
theory P2pProps
  imports P2pDrain
begin

text \<open>
  The gossip of the mesh: the relay queue drains, an announced block reaches every node the
  announcer's peer graph reaches, and a block that arrives before its parents is lost.
\<close>

text \<open>
  C9: the relay queue of a reachable mesh drains.  With ledgers that keep every state, records of
  decodable size under way and fewer blocks than the index can hold, \<open>drain\<close> does not panic and
  leaves the mesh idle once its limit exceeds \<open>n * (n + q)\<close> ticks for \<open>n\<close> nodes and \<open>q\<close> waiting
  messages.
\<close>

theorem drain_terminates:
  assumes "mesh_reachable C m"
    and "\<forall>n \<in> fmran' (mesh_nodes m). \<forall>l. node_ledger n = Some l \<longrightarrow> ledger_reachable C l \<and> finality_depth l = - 1"
    and "\<forall>q \<in> set (mesh_queue m). \<forall>r. q_env q = BlockEnv r \<longrightarrow> wf_record r"
    and "card (mesh_blocks C m) < ROOT_CAPACITY"
    and "length (mesh_names m) * (length (mesh_names m) + mesh_queued m) < unat limit"
  shows "\<exists>t m'. drain C clock limit m = Some (t, m') \<and> is_idle m'"
proof -
  have "\<forall>n \<in> fmran' (mesh_nodes m). \<forall>l. node_ledger n = Some l \<longrightarrow> ledger_inv C l \<and> finality_depth l = - 1"
    using assms(2) ledger_reachable_inv by blast
  then show ?thesis
    using drain_ok [OF mesh_reachable_ok [OF assms(1)] _ assms(3-5)] by (simp add: drain_def is_idle_def)
qed

section \<open>The flood of one block\<close>

text \<open>
  \<open>flood pend m\<close> holds while the block \<open>x\<close> of the ledger \<open>l\<close>, as record \<open>r\<close>, spreads: \<open>pend\<close> are the
  messages of the current tick still to be delivered.
\<close>

definition flood ::
    "('sk, 'vk) crypto \<Rightarrow> (nat \<Rightarrow> u64) \<Rightarrow> ledger \<Rightarrow> block_id \<Rightarrow> block_record \<Rightarrow> queued list \<Rightarrow> mesh \<Rightarrow> bool" where
  "flood C clock l x r pend m \<longleftrightarrow> mesh_ok C m \<and> list_all (q_ok C m) pend
     \<and> (\<forall>q \<in> set pend \<union> set (mesh_queue m). q_env q = BlockEnv r)
     \<and> (\<forall>a b. SawBlock a x \<in> facts m \<longrightarrow> Edge a b \<in> facts m \<longrightarrow>
           SawBlock b x \<in> facts m \<or> b \<in> q_to ` (set pend \<union> set (mesh_queue m)))
     \<and> (\<forall>a n. fmlookup (mesh_nodes m) a = Some n \<longrightarrow>
           (if SawBlock a x \<in> facts m then x \<in> held n
            else can_receive C clock l n \<and> past (ledger_dag l) x \<subseteq> held n \<and> Suc (card (held n)) \<le> ROOT_CAPACITY))"

definition unseen :: "block_id \<Rightarrow> mesh \<Rightarrow> name set" where
  "unseen x m = {a \<in> members m. SawBlock a x \<notin> facts m}"

lemma finite_unseen [simp]: "finite (unseen x m)"
  by (simp add: unseen_def)

lemma floodD:
  assumes "flood C clock l x r pend m"
  shows "mesh_ok C m" "list_all (q_ok C m) pend" "\<And>q. q \<in> set pend \<union> set (mesh_queue m) \<Longrightarrow> q_env q = BlockEnv r"
    "\<And>a b. SawBlock a x \<in> facts m \<Longrightarrow> Edge a b \<in> facts m \<Longrightarrow> SawBlock b x \<in> facts m \<or> b \<in> q_to ` (set pend \<union> set (mesh_queue m))"
    "\<And>a n. fmlookup (mesh_nodes m) a = Some n \<Longrightarrow> SawBlock a x \<in> facts m \<Longrightarrow> x \<in> held n"
    "\<And>a n. fmlookup (mesh_nodes m) a = Some n \<Longrightarrow> SawBlock a x \<notin> facts m \<Longrightarrow>
       can_receive C clock l n \<and> past (ledger_dag l) x \<subseteq> held n \<and> Suc (card (held n)) \<le> ROOT_CAPACITY"
  using assms unfolding flood_def by (blast | (simp split: if_splits; blast))+

lemma flood_event:
  assumes "flood C clock l x r pend m"
  shows "flood C clock l x r pend (m\<lparr>mesh_events := e\<rparr>)"
proof -
  have "q_ok C (m\<lparr>mesh_events := e\<rparr>) = q_ok C m"
    by (simp add: fun_eq_iff q_ok_def members_def split: envelope.split)
  then show ?thesis using assms by (simp add: flood_def mesh_ok_def edges_ok_def members_def)
qed

text \<open>A node that stores the block and relays it keeps the flood going.\<close>

lemma flood_relayed:
  assumes F: "flood C clock l x r (q # pend) m" and rid: "record_id (blake3 C) r = x"
    and to: "q_to q \<in> members m" "SawBlock (q_from q) x \<in> facts m" and n': "x \<in> held n'"
    and M: "marked m m1 (SawBlock (q_to q) x)" "mesh_nodes m1 = fmupd (q_to q) n' (mesh_nodes m)"
  defines "m' \<equiv> relay_on m1 (q_to q) (q_from q) (BlockEnv r)"
  shows "flood C clock l x r pend m'" "members m' = members m" "facts m' = insert (SawBlock (q_to q) x) (facts m)"
proof -
  let ?to = "q_to q" and ?fr = "q_from q"
  note E = floodD [OF F]
  have c: "carries C (BlockEnv r) ?to (SawBlock ?to x)" using rid by (simp add: carries_def)
  define new where "new = map (message m1 ?to (BlockEnv r)) (filter (\<lambda>nxt. nxt \<noteq> ?to) (filter (\<lambda>nxt. nxt \<noteq> ?fr) (peers_of m ?to)))"
  note R = relayed_ok [OF E(1) M(1) c to(1), of ?fr, folded m'_def new_def]
  show "members m' = members m" "facts m' = insert (SawBlock ?to x) (facts m)" using R(1,3) by (simp_all add: evolves_def)
  have qu: "mesh_queue m' = mesh_queue m @ new" using R(1) by (simp add: evolves_def)
  have "list_all (q_ok C m') pend"
    using E(2) R(1) q_ok_mono [of C m _ m'] by (auto simp: list_all_iff evolves_def)
  moreover have "q_env y = BlockEnv r" if "y \<in> set pend \<union> set (mesh_queue m')" for y
    using that E(3) by (auto simp: qu new_def)
  moreover have "SawBlock b x \<in> facts m' \<or> b \<in> q_to ` (set pend \<union> set (mesh_queue m'))"
    if a: "SawBlock a x \<in> facts m'" and b: "Edge a b \<in> facts m'" for a b
  proof (cases "a = ?to")
    case True
    then have "b \<in> set (peers_of m ?to)" "b \<noteq> ?to" using b R(3) E(1) by (auto simp: mesh_ok_def edges_ok_def)
    then show ?thesis using to(2) R(3) by (cases "b = ?fr") (auto simp: qu new_def image_Un image_image)
  next
    case False
    then have "SawBlock a x \<in> facts m" "Edge a b \<in> facts m" using a b R(3) by auto
    from E(4) [OF this] show ?thesis using R(3) by (auto simp: qu)
  qed
  moreover have "if SawBlock a x \<in> facts m' then x \<in> held na
      else can_receive C clock l na \<and> past (ledger_dag l) x \<subseteq> held na \<and> Suc (card (held na)) \<le> ROOT_CAPACITY"
    if na: "fmlookup (mesh_nodes m') a = Some na" for a na
    using na n' R(3,4) M(2) E(5,6) [of a na] by (cases "a = ?to") auto
  ultimately show "flood C clock l x r pend m'" using R(2) unfolding flood_def by blast
qed

text \<open>A node that has seen the block drops the message.\<close>

lemma flood_seen:
  assumes "flood C clock l x r (q # pend) m" "SawBlock (q_to q) x \<in> facts m"
  shows "flood C clock l x r pend m"
  using assms unfolding flood_def by (auto; fastforce)

lemma flood_deliver:
  assumes F: "flood C clock l x r (q # pend) m" and l: "ledger_inv C l" "x \<in> ids (ledger_dag l)"
    and r: "node_ledger no = Some l" "node_block_record no x = Some r" "record_id (blake3 C) r = x"
  shows "\<exists>m'. deliver C clock m q = Some m' \<and> flood C clock l x r pend m' \<and> members m' = members m
    \<and> mesh_peers m' = mesh_peers m
    \<and> (mesh_queue m' = mesh_queue m \<and> unseen x m' = unseen x m \<or> unseen x m' \<subset> unseen x m)"
proof -
  let ?m = "m\<lparr>mesh_events := mesh_events m
    @ [\<lparr>ev_at = mesh_now m, ev_from = q_from q, ev_to = q_to q, ev_kind = kind_of (q_env q)\<rparr>]\<rparr>"
  let ?w = "clock (length (mesh_events m))" and ?to = "q_to q" and ?fr = "q_from q"
  have Fe: "flood C clock l x r (q # pend) ?m" by (rule flood_event [OF F])
  note E = floodD [OF Fe]
  have env: "q_env q = BlockEnv r" using E(3) [of q] by simp
  have q: "?to \<in> members ?m" "SawBlock ?fr x \<in> facts ?m"
    using E(2) env r(3) by (auto simp: q_ok_def)
  obtain n where n: "fmlookup (mesh_nodes ?m) ?to = Some n" using q(1) by (auto simp: members_def fmlookup_dom_iff)
  have d: "deliver C clock m q = on_block C ?w ?m ?to ?fr r" by (simp add: deliver_def Let_def env)
  have U: "unseen x ?m = unseen x m" "members ?m = members m" by (simp_all add: unseen_def members_def)
  show ?thesis
  proof (cases "SawBlock ?to x \<in> facts ?m")
    case True
    then have "on_block C ?w ?m ?to ?fr r = Some ?m"
      using r(3) by (auto simp: on_block_def Let_def set_at_def finsert_absorb fmupd_same split: option.splits)
    then show ?thesis using d U flood_seen [OF Fe True] by simp
  next
    case False
    obtain n' where n': "receive_block C ?w n r = Some (Inr (x, n'))" "held n' = insert x (held n)"
      using receive_stored [OF l(1) _ l(2) _ _ r(1,2), of clock n "length (mesh_events m)"] E(6) [OF n False] by blast
    then obtain m' where m': "on_block C ?w ?m ?to ?fr r = Some m'"
      using n False r(3) by (simp add: on_block_def Let_def)
    from E(1) q(1) m' obtain m1 where M: "marked ?m m1 (SawBlock ?to x)" "mesh_nodes m1 = fmupd ?to n' (mesh_nodes ?m)"
        "m' = relay_on m1 ?to ?fr (BlockEnv r)"
      by (cases rule: on_block_cases) (use False n n'(1) r(3) in auto)
    note R = flood_relayed [OF Fe r(3) q _ M(1,2), folded M(3)]
    have "unseen x m' = unseen x ?m - {?to}" using R(2,3) n'(2) by (auto simp: unseen_def)
    then have "unseen x m' \<subset> unseen x m" using q(1) False U by (auto simp: unseen_def)
    moreover have "mesh_peers m' = mesh_peers m" using M(1,3) by (simp add: relay_on_eq marked_def)
    ultimately show ?thesis using d m' R(1,2) U n'(2) by simp
  qed
qed

lemma flood_deliver_all:
  assumes l: "ledger_inv C l" "x \<in> ids (ledger_dag l)"
    and r: "node_ledger no = Some l" "node_block_record no x = Some r" "record_id (blake3 C) r = x"
  shows "flood C clock l x r qs m \<Longrightarrow> \<exists>m'. deliver_all C clock m qs = Some m' \<and> flood C clock l x r [] m' \<and> members m' = members m
    \<and> mesh_peers m' = mesh_peers m
    \<and> (mesh_queue m' = mesh_queue m \<and> unseen x m' = unseen x m \<or> unseen x m' \<subset> unseen x m)"
proof (induction qs arbitrary: m)
  case (Cons q qs)
  obtain m1 where m1: "deliver C clock m q = Some m1" "flood C clock l x r qs m1" "members m1 = members m" "mesh_peers m1 = mesh_peers m"
      "mesh_queue m1 = mesh_queue m \<and> unseen x m1 = unseen x m \<or> unseen x m1 \<subset> unseen x m"
    using flood_deliver [OF Cons.prems l r] by blast
  obtain m' where "deliver_all C clock m1 qs = Some m'" "flood C clock l x r [] m'" "members m' = members m1" "mesh_peers m' = mesh_peers m1"
      "mesh_queue m' = mesh_queue m1 \<and> unseen x m' = unseen x m1 \<or> unseen x m' \<subset> unseen x m1"
    using Cons.IH [OF m1(2)] by blast
  then show ?case using m1 by auto
qed auto

lemma flood_tick:
  assumes F: "flood C clock l x r [] m" and l: "ledger_inv C l" "x \<in> ids (ledger_dag l)"
    and r: "node_ledger no = Some l" "node_block_record no x = Some r" "record_id (blake3 C) r = x"
  shows "\<exists>m'. tick C clock m = Some (mesh_queued m, m') \<and> flood C clock l x r [] m' \<and> mesh_peers m' = mesh_peers m
    \<and> members m' = members m \<and> unseen x m' \<subseteq> unseen x m \<and> (mesh_queue m' = [] \<or> unseen x m' \<subset> unseen x m)"
proof -
  let ?m0 = "m\<lparr>mesh_now := saturating_add (mesh_now m) 1, mesh_queue := []\<rparr>"
  note T = tick_eq [OF floodD(1) [OF F]]
  have "flood C clock l x r (mesh_queue m) ?m0"
    using F T(2-6) unfolding flood_def by simp
  from flood_deliver_all [OF l r this] obtain m' where "deliver_all C clock ?m0 (mesh_queue m) = Some m'" "flood C clock l x r [] m'"
      "members m' = members m" "mesh_peers m' = mesh_peers m" "unseen x m' \<subseteq> unseen x ?m0"
      "mesh_queue m' = [] \<or> unseen x m' \<subset> unseen x ?m0"
    using T(4) by auto
  moreover have "unseen x ?m0 = unseen x m" using T(4,5) by (simp add: unseen_def)
  ultimately show ?thesis using T(1) by (simp add: mesh_queued_def)
qed

lemma flood_drain:
  assumes l: "ledger_inv C l" "x \<in> ids (ledger_dag l)"
    and r: "node_ledger no = Some l" "node_block_record no x = Some r" "record_id (blake3 C) r = x"
  shows "flood C clock l x r [] m \<Longrightarrow> card (unseen x m) < k \<Longrightarrow> \<exists>t m'. drain_loop C clock k n m = Some (t, m')
    \<and> flood C clock l x r [] m' \<and> mesh_queue m' = [] \<and> mesh_peers m' = mesh_peers m \<and> members m' = members m
    \<and> unseen x m' \<subseteq> unseen x m"
proof (induction k arbitrary: m n)
  case (Suc k)
  show ?case
  proof (cases "mesh_queue m = []")
    case True
    then show ?thesis using Suc.prems by simp
  next
    case False
    obtain m1 where m1: "tick C clock m = Some (mesh_queued m, m1)" "flood C clock l x r [] m1" "mesh_peers m1 = mesh_peers m"
        "members m1 = members m" "unseen x m1 \<subseteq> unseen x m" "mesh_queue m1 = [] \<or> unseen x m1 \<subset> unseen x m"
      using flood_tick [OF Suc.prems(1) l r] by blast
    show ?thesis
    proof (cases "mesh_queue m1 = []")
      case True
      then show ?thesis using False m1 by (simp add: drain_loop_idle)
    next
      case more: False
      then have "card (unseen x m1) < card (unseen x m)" using m1(6) by (intro psubset_card_mono) simp_all
      then have "card (unseen x m1) < k" using Suc.prems(2) by simp
      from Suc.IH [OF m1(2) this, of "n + mesh_queued m"] obtain t m' where
        "drain_loop C clock k (n + mesh_queued m) m1 = Some (t, m')" "flood C clock l x r [] m'" "mesh_queue m' = []"
        "mesh_peers m' = mesh_peers m" "members m' = members m" "unseen x m' \<subseteq> unseen x m" using m1(3-5) by auto
      then show ?thesis using False m1(1) by simp
    qed
  qed
qed simp

text \<open>The peer graph: the edges along which a node announces.\<close>

definition peer_graph :: "mesh \<Rightarrow> (name \<times> name) set" where
  "peer_graph m = {(a, b). b \<in> set (peers_of m a)}"

text \<open>The record of a stored block carries its id.\<close>

lemma stored_record:
  assumes "node_ledger no = Some l" "ledger_inv C l" "x \<in> ids (ledger_dag l)"
  obtains r where "node_block_record no x = Some r" "record_id (blake3 C) r = x"
proof -
  let ?b = "node_block (nd (ledger_dag l) x)"
  obtain txs where r: "node_block_record no x = Some \<lparr>rec_parents = parents ?b, rec_work = work ?b,
      rec_timestamp_ms = timestamp_ms ?b, rec_nonce = nonce ?b, rec_txs = txs\<rparr>" "decode_block_payload (payload ?b) = Inr txs"
    using record_of_stored [OF assms] by blast
  obtain txs' where "block_new (parents ?b) (work ?b) (timestamp_ms ?b) (nonce ?b) (encode_block_payload txs') = ?b"
      "decode_block_payload (payload ?b) = Inr txs'" using stored_block [OF assms(2,3)] by blast
  then show thesis
    using that [OF r(1)] r(2) wf_dagD(5) [OF ledger_invD(1) [OF assms(2)] assms(3)] by (simp add: record_id_def)
qed

text \<open>What announcing a block does to an idle mesh: the announcer has seen it and every peer has a message.\<close>

lemma announce_idle:
  assumes "is_idle m" "fmlookup (mesh_nodes m) a = Some no" "node_block_record no x = Some r" "record_id (blake3 C) r = x"
  defines "m1 \<equiv> announce_made (blake3 C) m a x"
  shows "m1 = announce_block (blake3 C) m a r" "mesh_nodes m1 = mesh_nodes m" "mesh_peers m1 = mesh_peers m"
    "facts m1 = insert (SawBlock a x) (facts m)"
    "\<And>q. q \<in> set (mesh_queue m1) \<Longrightarrow> q_env q = BlockEnv r"
    "q_to ` set (mesh_queue m1) = set (peers_of m a) - {a}"
proof -
  show m1: "m1 = announce_block (blake3 C) m a r" using assms(2,3) by (simp add: m1_def announce_made_def)
  let ?m0 = "m\<lparr>seen_blocks := fmupd a (finsert x (set_at (seen_blocks m) a)) (seen_blocks m)\<rparr>"
  have eq: "m1 = ?m0\<lparr>mesh_queue := map (message ?m0 a (BlockEnv r)) (filter (\<lambda>b. b \<noteq> a) (peers_of m a))\<rparr>"
    using assms(1) by (simp add: m1 announce_block_def assms(4) Let_def enqueue_all_eq is_idle_def peers_of_def)
  show "mesh_nodes m1 = mesh_nodes m" "mesh_peers m1 = mesh_peers m" "q_to ` set (mesh_queue m1) = set (peers_of m a) - {a}"
      "\<And>q. q \<in> set (mesh_queue m1) \<Longrightarrow> q_env q = BlockEnv r"
    by (auto simp: eq image_image)
  have "f \<in> facts m1 \<longleftrightarrow> f \<in> insert (SawBlock a x) (facts m)" for f by (cases f) (auto simp: eq)
  then show "facts m1 = insert (SawBlock a x) (facts m)" by blast
qed

lemma flood_start:
  assumes "mesh_ok C m" "is_idle m" "fmlookup (mesh_nodes m) a = Some no" "x \<in> held no"
    and r: "node_block_record no x = Some r" "record_id (blake3 C) r = x"
    and others: "\<And>b n. b \<noteq> a \<Longrightarrow> fmlookup (mesh_nodes m) b = Some n \<Longrightarrow> SawBlock b x \<notin> facts m \<and> can_receive C clock l n
      \<and> past (ledger_dag l) x \<subseteq> held n \<and> Suc (card (held n)) \<le> ROOT_CAPACITY"
  shows "flood C clock l x r [] (announce_made (blake3 C) m a x)"
proof -
  let ?m1 = "announce_made (blake3 C) m a x"
  note A = announce_idle [OF assms(2,3) r]
  have am: "a \<in> members m" using assms(3) by (auto simp: members_def fmlookup_dom_iff)
  have edges: "a' \<in> members m \<and> b \<in> members m \<and> a' \<noteq> b" if "Edge a' b \<in> facts m" for a' b
    using assms(1) that unfolding mesh_ok_def edges_ok_def by blast
  have saw: "b = a" if "SawBlock b x \<in> facts ?m1" "b \<in> members m" for b
    using that others [of b] by (auto simp: A(4) members_def fmlookup_dom_iff)
  have "SawBlock b x \<in> facts ?m1 \<or> b \<in> q_to ` (set [] \<union> set (mesh_queue ?m1))"
    if s: "SawBlock a' x \<in> facts ?m1" and e: "Edge a' b \<in> facts ?m1" for a' b
  proof -
    have e': "Edge a' b \<in> facts m" using e by (simp add: A(4))
    then have "a' = a" using saw [OF s] edges by blast
    then have "b \<in> q_to ` set (mesh_queue ?m1)" using e' edges [OF e'] by (auto simp: A(6))
    then show ?thesis by simp
  qed
  moreover have "if SawBlock b x \<in> facts ?m1 then x \<in> held n
      else can_receive C clock l n \<and> past (ledger_dag l) x \<subseteq> held n \<and> Suc (card (held n)) \<le> ROOT_CAPACITY"
    if "fmlookup (mesh_nodes ?m1) b = Some n" for b n
    using that others [of b n] assms(3,4) A(2,4) by (cases "b = a") auto
  moreover have "mesh_ok C ?m1" using announce_block_ok [OF assms(1) am] A(1) by simp
  ultimately show ?thesis using A(5) unfolding flood_def by auto
qed

text \<open>When the flood is over, every node the peer graph reaches from one that saw the block holds it.\<close>

lemma flood_reached:
  assumes F: "flood C clock l x r [] m" and "mesh_queue m = []" "SawBlock a x \<in> facts m" "a \<in> members m"
    and "(a, b) \<in> (peer_graph m)\<^sup>*"
  shows "\<exists>n. fmlookup (mesh_nodes m) b = Some n \<and> x \<in> held n"
proof -
  from assms(5) have "SawBlock b x \<in> facts m \<and> b \<in> members m"
  proof (induction rule: rtrancl_induct)
    case (step b c)
    then have e: "Edge b c \<in> facts m" by (simp add: peer_graph_def)
    then have "SawBlock c x \<in> facts m" using floodD(4) [OF F _ e] step.IH assms(2) by auto
    moreover have "c \<in> members m" using floodD(1) [OF F] e unfolding mesh_ok_def edges_ok_def by blast
    ultimately show ?case by blast
  qed (use assms(3,4) in simp)
  then show ?thesis using floodD(5) [OF F] by (fastforce simp: members_def fmlookup_dom_iff)
qed

text \<open>
  C8: an announced block reaches every node.  In an idle reachable mesh the node \<open>a\<close> announces its
  block \<open>x\<close>, the last step of every operation that makes a block.  When the other nodes have not
  seen the block, hold its past and could take over the ledger of \<open>a\<close>, a \<open>drain\<close> of as many ticks as
  there are nodes ends idle without a panic, and then every node the peer graph reaches from \<open>a\<close>
  holds \<open>x\<close>.
\<close>

theorem announced_block_reaches_all:
  assumes "mesh_reachable C m" "is_idle m" "mesh_node m a = Some no" "node_ledger no = Some l" "ledger_reachable C l"
    and "x \<in> ids (ledger_dag l)"
    and "\<forall>b n. b \<noteq> a \<longrightarrow> mesh_node m b = Some n \<longrightarrow> x |\<notin>| set_at (seen_blocks m) b \<and> can_receive C clock l n
           \<and> past (ledger_dag l) x \<subseteq> held n \<and> card (held n) < ROOT_CAPACITY"
    and "length (mesh_names m) \<le> unat limit"
  shows "\<exists>t m'. drain C clock limit (announce_made (blake3 C) m a x) = Some (t, m') \<and> is_idle m'
    \<and> (\<forall>b. (a, b) \<in> (peer_graph m)\<^sup>* \<longrightarrow> (\<exists>n. mesh_node m' b = Some n \<and> x \<in> held n))"
proof -
  have inv: "ledger_inv C l" by (rule ledger_reachable_inv [OF assms(5)])
  obtain r where r: "node_block_record no x = Some r" "record_id (blake3 C) r = x" by (rule stored_record [OF assms(4) inv assms(6)])
  let ?m1 = "announce_made (blake3 C) m a x"
  have a: "fmlookup (mesh_nodes m) a = Some no" "a \<in> members m"
    using assms(3) by (auto simp: mesh_node_def members_def fmlookup_dom_iff)
  note A = announce_idle [OF assms(2) a(1) r]
  have "x \<in> held no" using assms(4,6) by (simp add: held_def)
  moreover have "SawBlock b x \<notin> facts m \<and> can_receive C clock l n \<and> past (ledger_dag l) x \<subseteq> held n \<and> Suc (card (held n)) \<le> ROOT_CAPACITY"
    if "b \<noteq> a" "fmlookup (mesh_nodes m) b = Some n" for b n
    using assms(7) that by (simp add: mesh_node_def Suc_le_eq)
  ultimately have start: "flood C clock l x r [] ?m1"
    by (intro flood_start [OF mesh_reachable_ok [OF assms(1)] assms(2) a(1) _ r])
  have mem: "members ?m1 = members m" by (simp add: members_def A(2))
  have "unseen x ?m1 \<subset> members m" using a(2) A(4) mem by (auto simp: unseen_def)
  then have "card (unseen x ?m1) < card (members m)" by (simp add: psubset_card_mono)
  then have "card (unseen x ?m1) < unat limit"
    using assms(8) by (simp add: mesh_names_def members_def fcard.rep_eq)
  then obtain t m' where D: "drain_loop C clock (unat limit) 0 ?m1 = Some (t, m')" "flood C clock l x r [] m'" "mesh_queue m' = []"
      "mesh_peers m' = mesh_peers ?m1" "members m' = members ?m1" "unseen x m' \<subseteq> unseen x ?m1"
    using flood_drain [OF inv assms(6,4) r start] by blast
  have "a \<notin> unseen x m'" using D(6) A(4) by (auto simp: unseen_def)
  then have saw: "SawBlock a x \<in> facts m'" "a \<in> members m'" using D(5) mem a(2) by (auto simp: unseen_def)
  have "peer_graph m' = peer_graph m" using D(4) A(3) by (simp add: peer_graph_def peers_of_def)
  then show ?thesis
    using D(1,3) flood_reached [OF D(2,3) saw] by (auto simp: drain_def is_idle_def mesh_node_def)
qed

section \<open>An example mesh\<close>

lemma sorted_single [simp]: "sorted_list_of_fset {|x|} = [x]"
  by (simp add: sorted_list_of_fset.rep_eq)

text \<open>Two nodes: \<open>a\<close> connects to \<open>b\<close>, and two ticks deliver the hellos both ways.\<close>

definition two_added :: "node_state \<Rightarrow> node_state \<Rightarrow> mesh" where
  "two_added na nb = mesh_add (mesh_add mesh_new ''a'' na) ''b'' nb"

lemma two_nodes:
  "\<exists>m1 m. mesh_reachable C m1 \<and> mesh_connect (two_added na nb) ''a'' ''b'' = Inr m1
     \<and> mesh_nodes m1 = fmupd ''b'' nb (fmupd ''a'' na fmempty) \<and> mesh_queued m1 = 1
     \<and> (\<forall>q \<in> set (mesh_queue m1). \<exists>adv. q_env q = HelloEnv adv)
     \<and> mesh_reachable C m \<and> is_idle m \<and> mesh_nodes m = mesh_nodes m1
     \<and> set_at (mesh_peers m) ''a'' = {|''b''|} \<and> (\<forall>x. set_at (seen_blocks m) x = {||})"
proof -
  let ?m0 = "two_added na nb"
  have r0: "mesh_reachable C ?m0" unfolding two_added_def by (intro m_add m_new)
  obtain m1 where m1: "mesh_connect ?m0 ''a'' ''b'' = Inr m1"
      "m1 = ?m0\<lparr>mesh_peers := fmupd ''a'' {|''b''|} (mesh_peers ?m0),
         mesh_queue := [\<lparr>q_due = 1, q_from = ''a'', q_to = ''b'', q_env = HelloEnv [''b'']\<rparr>]\<rparr>"
    by (simp add: mesh_connect_def require_def two_added_def mesh_add_def mesh_new_def set_at_def enqueue_hello_def enqueue_def
        peers_of_def Let_def saturating_add_def)
  obtain m2 where m2: "tick C (\<lambda>i. 0) m1 = Some (1, m2)"
      "m2 = m1\<lparr>mesh_now := 1, mesh_peers := fmupd ''b'' {|''a''|} (mesh_peers m1),
         mesh_events := [\<lparr>ev_at = 1, ev_from = ''a'', ev_to = ''b'', ev_kind = HelloKind\<rparr>],
         mesh_queue := [\<lparr>q_due = 2, q_from = ''b'', q_to = ''a'', q_env = HelloEnv [''a'']\<rparr>]\<rparr>"
    by (simp add: m1(2) tick_def deliver_def on_hello_def two_added_def mesh_add_def mesh_new_def set_at_def enqueue_hello_def
        enqueue_def peers_of_def Let_def saturating_add_def)
  obtain m3 where m3: "tick C (\<lambda>i. 0) m2 = Some (1, m3)" "mesh_queue m3 = []" "mesh_nodes m3 = mesh_nodes m1"
      "set_at (mesh_peers m3) ''a'' = {|''b''|}" "seen_blocks m3 = seen_blocks m1"
    by (simp add: m2(2) m1(2) tick_def deliver_def on_hello_def two_added_def mesh_add_def mesh_new_def set_at_def enqueue_hello_def
        enqueue_def peers_of_def Let_def saturating_add_def)
  have "mesh_reachable C m1" by (rule m_connect [OF r0 m1(1)])
  moreover have "mesh_reachable C m3" by (rule m_tick [OF m_tick [OF calculation m2(1)] m3(1)])
  moreover have "mesh_nodes m1 = fmupd ''b'' nb (fmupd ''a'' na fmempty)"
    by (simp add: m1(2) two_added_def mesh_add_def mesh_new_def)
  moreover have "set_at (seen_blocks m1) x = {||}" for x
    by (simp add: m1(2) two_added_def mesh_add_def mesh_new_def set_at_def)
  moreover have "mesh_queued m1 = 1" "\<forall>q \<in> set (mesh_queue m1). \<exists>adv. q_env q = HelloEnv adv"
    by (simp_all add: m1(2) mesh_queued_def)
  ultimately show ?thesis using m1(1) m3 by (intro exI [of _ m1] exI [of _ m3]) (simp add: is_idle_def)
qed


lemma pair_nodes:
  "fmlookup (fmupd b nb (fmupd a na fmempty)) c = (if c = b then Some nb else if c = a then Some na else None)"
  by simp

lemma pair_ran: "fmran' (fmupd ''b'' nb (fmupd ''a'' na fmempty)) = {na, nb}" (is "fmran' ?m = _")
proof -
  have "fmlookup ?m ''b'' = Some nb" "fmlookup ?m ''a'' = Some na" by (simp_all add: pair_nodes)
  from this [THEN fmran'I] have "{na, nb} \<subseteq> fmran' ?m" by blast
  moreover have "fmran' ?m \<subseteq> {na, nb}" by (auto elim!: fmran'E simp: pair_nodes split: if_splits)
  ultimately show ?thesis by blast
qed

lemma pair_names:
  "mesh_nodes m = fmupd ''b'' nb (fmupd ''a'' na fmempty) \<Longrightarrow> length (mesh_names m) = 2"
  by (simp add: mesh_names_def fcard_finsert_if)

theorem drain_terminates_witness:
  "\<exists>na nb m t m'. mesh_connect (two_added na nb) ''a'' ''b'' = Inr m \<and> mesh_queued m = 1
     \<and> drain clock_crypto (\<lambda>i. 0) 7 m = Some (t, m') \<and> is_idle m'"
proof (rule demo_peers)
  let ?C = clock_crypto
  fix na nb la lb
  assume n: "node_ledger na = Some la" "node_ledger nb = Some lb" "ledger_reachable ?C la" "ledger_reachable ?C lb"
      "ids (ledger_dag la) = {BlockId 0, BlockId 1}" "ids (ledger_dag lb) = {BlockId 0}"
    and P: "\<forall>x \<in> {la, lb}. finality_depth x = - 1 \<and> difficulty (ledger_dag x) = None \<and> \<not> require_pow (ledger_dag x)
          \<and> (\<forall>i. \<forall>n \<in> {na, nb}. \<forall>y \<in> ids (ledger_dag x). timestamp_ms (node_block (nd (ledger_dag x) y))
               \<le> saturating_add (now_ms ((\<lambda>i. 0) (i :: nat)) n) MAX_FUTURE_DRIFT_MS)"
  obtain m where m: "mesh_reachable ?C m" "mesh_connect (two_added na nb) ''a'' ''b'' = Inr m"
      "mesh_nodes m = fmupd ''b'' nb (fmupd ''a'' na fmempty)" "mesh_queued m = 1" "\<forall>q \<in> set (mesh_queue m). \<exists>adv. q_env q = HelloEnv adv"
    using two_nodes by metis
  have "mesh_blocks ?C m \<subseteq> {BlockId 0, BlockId 1}"
    using m(3,5) n by (auto simp: mesh_blocks_def pair_ran held_def)
  from card_mono [OF _ this] have "card (mesh_blocks ?C m) < ROOT_CAPACITY" by (simp add: ROOT_CAPACITY_def u64_max_def)
  moreover have "\<forall>n \<in> fmran' (mesh_nodes m). \<forall>l. node_ledger n = Some l \<longrightarrow> ledger_reachable ?C l \<and> finality_depth l = - 1"
    using n P by (auto simp: m(3) pair_ran)
  moreover have "\<forall>q \<in> set (mesh_queue m). \<forall>r. q_env q = BlockEnv r \<longrightarrow> wf_record r" using m(5) by auto
  moreover have "length (mesh_names m) * (length (mesh_names m) + mesh_queued m) < unat (7 :: u32)"
    using pair_names [OF m(3)] m(4) by simp
  ultimately show ?thesis using drain_terminates [OF m(1), of 7 "\<lambda>i. 0"] m(2,4) by metis
qed

theorem announced_block_reaches_all_witness:
  "\<exists>m t m' n. is_idle m \<and> fset (fmdom (mesh_nodes m)) = {''a'', ''b''}
     \<and> drain clock_crypto (\<lambda>i. 0) 2 (announce_made (blake3 clock_crypto) m ''a'' (BlockId 1)) = Some (t, m')
     \<and> mesh_node m' ''b'' = Some n \<and> BlockId 1 \<in> held n"
proof (rule demo_peers)
  let ?C = clock_crypto
  fix na nb la lb
  assume n: "node_ledger na = Some la" "node_ledger nb = Some lb" "ledger_reachable ?C la" "ledger_reachable ?C lb"
      "ids (ledger_dag la) = {BlockId 0, BlockId 1}" "ids (ledger_dag lb) = {BlockId 0}"
    and P: "\<forall>x \<in> {la, lb}. finality_depth x = - 1 \<and> difficulty (ledger_dag x) = None \<and> \<not> require_pow (ledger_dag x)
          \<and> (\<forall>i. \<forall>n \<in> {na, nb}. \<forall>y \<in> ids (ledger_dag x). timestamp_ms (node_block (nd (ledger_dag x) y))
               \<le> saturating_add (now_ms ((\<lambda>i. 0) (i :: nat)) n) MAX_FUTURE_DRIFT_MS)"
    and same: "subsidy la = subsidy lb" "dag_k (ledger_dag la) = dag_k (ledger_dag lb)" "genesis (ledger_dag la) = genesis (ledger_dag lb)"
      "\<forall>x \<in> ids (ledger_dag la) \<inter> ids (ledger_dag lb). node_block (nd (ledger_dag la) x) = node_block (nd (ledger_dag lb) x)"
  obtain m where m: "mesh_reachable ?C m" "is_idle m" "mesh_nodes m = fmupd ''b'' nb (fmupd ''a'' na fmempty)"
      "set_at (mesh_peers m) ''a'' = {|''b''|}" "\<forall>x. set_at (seen_blocks m) x = {||}"
    using two_nodes by metis
  have cr: "can_receive ?C (\<lambda>i. 0) la nb"
    using n(2) P same ledger_reachable_inv [OF n(4)] by (auto simp: can_receive_def peer_ledger_def)
  have wf: "graph_ok (ledger_dag la)" using wf_dagD(1) [OF ledger_invD(1) [OF ledger_reachable_inv [OF n(3)]]] .
  have "past (ledger_dag la) (BlockId 1) \<subseteq> {BlockId 0}"
    using n(5) past_subset [OF wf, of "BlockId 1"] anc_irrefl [OF wf, of "BlockId 1"] by (auto simp: past_def)
  then have others: "\<forall>b n. b \<noteq> ''a'' \<longrightarrow> mesh_node m b = Some n \<longrightarrow> BlockId 1 |\<notin>| set_at (seen_blocks m) b
      \<and> can_receive ?C (\<lambda>i. 0) la n \<and> past (ledger_dag la) (BlockId 1) \<subseteq> held n \<and> card (held n) < ROOT_CAPACITY"
    using m(3,5) cr n(2,6) by (auto simp: mesh_node_def pair_nodes held_def ROOT_CAPACITY_def u64_max_def split: if_splits)
  have a: "mesh_node m ''a'' = Some na" using m(3) by (simp add: mesh_node_def pair_nodes)
  have "(''a'', ''b'') \<in> (peer_graph m)\<^sup>*" using m(4) by (auto simp: peer_graph_def)
  moreover have "length (mesh_names m) \<le> unat (2 :: u32)" using pair_names [OF m(3)] by simp
  ultimately obtain t m' nb' where "drain ?C (\<lambda>i. 0) 2 (announce_made (blake3 ?C) m ''a'' (BlockId 1)) = Some (t, m')"
      "mesh_node m' ''b'' = Some nb'" "BlockId 1 \<in> held nb'"
    using announced_block_reaches_all [OF m(1,2) a n(1,3) _ others] n(5) by blast
  moreover have "fset (fmdom (mesh_nodes m)) = {''a'', ''b''}" using m(3) by auto
  ultimately show ?thesis using m(2) by blast
qed


theorem mesh_invariant_witness:
  "\<exists>m. mesh_connect (two_added node_new node_new) ''a'' ''b'' = Inr m \<and> mesh_queued m = 1
     \<and> (\<forall>q \<in> set (mesh_queue m). {q_from q, q_to q} \<subseteq> set (mesh_names m) \<and> q_from q \<noteq> q_to q)"
proof -
  obtain m where m: "mesh_reachable byte_crypto m" "mesh_connect (two_added node_new node_new) ''a'' ''b'' = Inr m" "mesh_queued m = 1"
    using two_nodes by metis
  then show ?thesis using mesh_invariant [OF m(1)] by (intro exI [of _ m] conjI) simp_all
qed

section \<open>Orphans\<close>

lemma receive_orphan:
  assumes "node_ledger n = Some l" "ledger_inv C l" "p \<in> set (rec_parents r)" "p \<notin> held n" "record_id (blake3 C) r \<notin> held n"
  shows "\<exists>e. receive_block C wall n r = Some (Inl e)"
proof -
  let ?b = "block_new (rec_parents r) (rec_work r) (rec_timestamp_ms r) (rec_nonce r) (encode_block_payload (rec_txs r))"
  have h: "held n = ids (ledger_dag l)" using assms(1) by (simp add: held_def)
  have "set (parents ?b) = set (rec_parents r)" by (simp add: block_new_def)
  then have "check_structure (ledger_dag l) (block_ident (blake3 C) ?b) ?b \<noteq> Inr ()"
    using assms(3,4) h by (auto simp: check_structure_ok)
  then obtain e where e: "check_structure (ledger_dag l) (block_ident (blake3 C) ?b) ?b = Inl e"
    by (cases "check_structure (ledger_dag l) (block_ident (blake3 C) ?b) ?b") auto
  then have "\<forall>i. e \<noteq> DuplicateBlock i"
    using assms(5) h by (auto simp: check_structure_def contains_ids record_id_def split: if_splits option.splits)
  moreover have "ledger_insert C l (rec_parents r) (rec_work r) (rec_timestamp_ms r) (rec_nonce r) (rec_txs r) = Some (Inl (Dag e))"
    by (simp add: ledger_insert_def Let_def preview_def e)
  ultimately show ?thesis using assms(1)
    by (cases e) (auto simp: receive_block_def Let_def)
qed

text \<open>
  C39: a block that reaches a node before one of its parents is lost to the gossip.  The node is
  marked as having seen it before \<open>receive_block\<close> refuses it: nothing is stored or relayed, and in
  every later mesh, whatever the node holds by then, another delivery of the same block does
  nothing.
\<close>

theorem orphan_block_lost:
  assumes "mesh_node m b = Some n" "node_ledger n = Some l" "ledger_reachable C l"
    and "p \<in> set (rec_parents r)" "p \<notin> held n" "record_id (blake3 C) r \<notin> held n"
    and "record_id (blake3 C) r |\<notin>| set_at (seen_blocks m) b"
  shows "\<exists>m'. on_block C wall m b fr r = Some m' \<and> mesh_nodes m' = mesh_nodes m \<and> mesh_queue m' = mesh_queue m
    \<and> (\<forall>m2 wall2 fr2. set_at (seen_blocks m') b |\<subseteq>| set_at (seen_blocks m2) b \<longrightarrow> on_block C wall2 m2 b fr2 r = Some m2)"
proof -
  obtain e where e: "receive_block C wall n r = Some (Inl e)"
    using receive_orphan [OF assms(2) ledger_reachable_inv [OF assms(3)] assms(4-6)] by blast
  let ?i = "record_id (blake3 C) r"
  let ?m' = "m\<lparr>seen_blocks := fmupd b (finsert ?i (set_at (seen_blocks m) b)) (seen_blocks m)\<rparr>"
  have "on_block C wall2 m2 b fr2 r = Some m2" if "?i |\<in>| set_at (seen_blocks m2) b" for m2 wall2 fr2
    using that by (auto simp: on_block_def Let_def set_at_def finsert_absorb fmupd_same split: option.splits)
  moreover have "on_block C wall m b fr r = Some ?m'"
    using assms(1,7) e by (simp add: on_block_def Let_def mesh_node_def)
  ultimately show ?thesis by auto
qed

theorem orphan_block_lost_witness:
  "\<exists>na nb la lb r m. node_ledger na = Some la \<and> ids (ledger_dag la) = {BlockId 0} \<and> node_ledger nb = Some lb
     \<and> ids (ledger_dag lb) = {BlockId 0, BlockId 1} \<and> r = \<lparr>rec_parents = [BlockId 1], rec_work = 1, rec_timestamp_ms = 2, rec_nonce = 0, rec_txs = []\<rparr>
     \<and> on_block clock_crypto 0 (two_added na nb) ''a'' ''b'' r = Some m
     \<and> on_block clock_crypto 0 (with_node_mut (\<lambda>n. nb) m ''a'') ''a'' ''b'' r = Some (with_node_mut (\<lambda>n. nb) m ''a'')"
proof (rule demo_peers)
  let ?C = clock_crypto
  fix nb na :: node_state and lb la
  assume n: "node_ledger nb = Some lb" "node_ledger na = Some la" "ledger_reachable ?C la" "ids (ledger_dag lb) = {BlockId 0, BlockId 1}"
      "ids (ledger_dag la) = {BlockId 0}"
  let ?r = "\<lparr>rec_parents = [BlockId 1], rec_work = 1, rec_timestamp_ms = 2, rec_nonce = 0, rec_txs = []\<rparr> :: block_record"
  have a: "mesh_node (two_added na nb) ''a'' = Some na" "set_at (seen_blocks (two_added na nb)) ''a'' = {||}"
    by (simp_all add: mesh_node_def two_added_def mesh_add_def mesh_new_def set_at_def)
  have i: "record_id (blake3 ?C) ?r = BlockId 2"
    using empty_block_id [of "BlockId 1" 1 2] by (simp add: record_id_def empty_block_def)
  have h: "held na = {BlockId 0}" using n by (simp add: held_def)
  obtain m where m: "on_block ?C 0 (two_added na nb) ''a'' ''b'' ?r = Some m"
      "\<forall>m2 wall2 fr2. set_at (seen_blocks m) ''a'' |\<subseteq>| set_at (seen_blocks m2) ''a'' \<longrightarrow> on_block ?C wall2 m2 ''a'' fr2 ?r = Some m2"
    using orphan_block_lost [OF a(1) n(2,3), of "BlockId 1" ?r 0 "''b''"] i a(2) h by auto
  have "seen_blocks (with_node_mut f m ''a'') = seen_blocks m" for f by (simp add: with_node_mut_def split: option.split)
  then have "on_block ?C 0 (with_node_mut (\<lambda>n. nb) m ''a'') ''a'' ''b'' ?r = Some (with_node_mut (\<lambda>n. nb) m ''a'')"
    using m(2) by simp
  then show ?thesis using m(1) n by blast
qed

end
