(* ===== verification/Rpc.thy ===== *)
theory Rpc
  imports NodeProps
begin

text \<open>
  \<open>crates/kovanica-node/src/rpc.rs\<close>: the line protocol.  The file system is a map from paths to
  contents.  Two things the source calls are arguments, kept in the record \<open>host\<close>: \<open>hex::decode\<close>
  of the crate \<open>hex\<close>, and the text of the operating system's error for a file that is not there.
\<close>

record host =
  hex_decode :: "string \<Rightarrow> byte list option"
  missing_file :: string

type_synonym files = "(string, byte list) fmap"

section \<open>Tokens and numbers\<close>

text \<open>
  \<open>char::is_whitespace\<close> on UTF-8: how many bytes the white space character at the front has, \<open>0\<close>
  if there is none.
\<close>

fun space_len :: "string \<Rightarrow> nat" where
  "space_len (a # b # c # cs) =
     (if a \<in> {CHR 0x09, CHR 0x0A, CHR 0x0B, CHR 0x0C, CHR 0x0D, CHR 0x20} then 1
      else if a = CHR 0xC2 \<and> b \<in> {CHR 0x85, CHR 0xA0} then 2
      else if a = CHR 0xE1 \<and> b = CHR 0x9A \<and> c = CHR 0x80 then 3
      else if a = CHR 0xE2 \<and> b = CHR 0x80
              \<and> (c \<in> {CHR 0x80, CHR 0x81, CHR 0x82, CHR 0x83, CHR 0x84, CHR 0x85, CHR 0x86, CHR 0x87, CHR 0x88, CHR 0x89, CHR 0x8A}
                 \<or> c \<in> {CHR 0xA8, CHR 0xA9, CHR 0xAF}) then 3
      else if a = CHR 0xE2 \<and> b = CHR 0x81 \<and> c = CHR 0x9F then 3
      else if a = CHR 0xE3 \<and> b = CHR 0x80 \<and> c = CHR 0x80 then 3
      else 0)"
| "space_len (a # cs) =
     (if a \<in> {CHR 0x09, CHR 0x0A, CHR 0x0B, CHR 0x0C, CHR 0x0D, CHR 0x20} then 1
      else if a = CHR 0xC2 \<and> (cs = [CHR 0x85] \<or> cs = [CHR 0xA0]) then 2
      else 0)"
| "space_len [] = 0"

fun split_from :: "string \<Rightarrow> string \<Rightarrow> string list" where
  "split_from token [] = (if token = [] then [] else [token])"
| "split_from token (c # cs) =
     (if space_len (c # cs) = 0 then split_from (token @ [c]) cs
      else (if token = [] then [] else [token]) @ split_from [] (drop (space_len (c # cs) - 1) cs))"

definition split_whitespace :: "string \<Rightarrow> string list" where
  "split_whitespace s = split_from [] s"

definition digit_val :: "char \<Rightarrow> nat option" where
  "digit_val c = (if 48 \<le> (of_char c :: nat) \<and> (of_char c :: nat) \<le> 57 then Some (of_char c - 48) else None)"

fun digits_val :: "nat \<Rightarrow> string \<Rightarrow> nat option" where
  "digits_val acc [] = Some acc"
| "digits_val acc (c # cs) = do { d \<leftarrow> digit_val c; digits_val (10 * acc + d) cs }"

text \<open>\<open>str::parse\<close> at an unsigned type: an optional plus sign, then at least one digit, and the value fits.\<close>

definition parse_word :: "string \<Rightarrow> 'a::len word option" where
  "parse_word s =
     (let ds = (case s of [] \<Rightarrow> [] | c # cs \<Rightarrow> if c = CHR ''+'' then cs else s)
      in if ds = [] then None
         else do { v \<leftarrow> digits_val 0 ds; if v < 2 ^ LENGTH('a) then Some (word_of_nat v) else None })"

section \<open>Arguments\<close>

definition quoted :: "string \<Rightarrow> string" where
  "quoted s = CHR 0x27 # s @ [CHR 0x27]"

definition fixed :: "nat \<Rightarrow> string list \<Rightarrow> string + string list" where
  "fixed n args =
     (if length args \<noteq> n then Inl (''expected '' @ decimal n @ '' argument(s), got '' @ decimal (length args))
      else Inr args)"

definition u64_arg :: "string \<Rightarrow> string + u64" where
  "u64_arg s = (case parse_word s of None \<Rightarrow> Inl (quoted s @ '' is not a number'') | Some w \<Rightarrow> Inr w)"

definition u16_arg :: "string \<Rightarrow> string + u16" where
  "u16_arg s = (case parse_word s of None \<Rightarrow> Inl (quoted s @ '' is not a small number'') | Some w \<Rightarrow> Inr w)"

definition parse_target :: "host \<Rightarrow> ('sk, 'vk) crypto \<Rightarrow> string \<Rightarrow> string + address" where
  "parse_target h C s =
     (if length s = 64 then
        (case hex_decode h s of
           None \<Rightarrow> Inl (quoted s @ '' is not hex'')
         | Some bs \<Rightarrow> if length bs \<noteq> 32 then Inl ''address must be 32 bytes'' else Inr (Address (from_be_bytes bs)))
      else rbind (u64_arg s) (\<lambda>seed. Inr (node_address C seed)))"

section \<open>Commands\<close>

definition HELP :: string where
  "HELP = ''commands: help | genesis <k> <subsidy> <amount> <seed> | address <seed> | balance <seed|addr-hex> | send <from-seed> <amount> <to-seed> | pool <from-seed> <amount> <to-seed> | produce | pending | tips | tip | len | save <path> | load <path>''"

fun join :: "string \<Rightarrow> string list \<Rightarrow> string" where
  "join sep [] = []"
| "join sep [s] = s"
| "join sep (s # t # rest) = s @ sep @ join sep (t # rest)"

definition node_msg :: "node_error + 'a \<Rightarrow> string + 'a" where
  "node_msg = map_err display_node_error"

type_synonym reply = "string + string \<times> node_state \<times> files"

definition cmd_genesis :: "('sk, 'vk) crypto \<Rightarrow> node_state \<Rightarrow> files \<Rightarrow> string list \<Rightarrow> reply option" where
  "cmd_genesis C n fs args =
     (case rbind (fixed 4 args) (\<lambda>a. rbind (u16_arg (a ! 0)) (\<lambda>k. rbind (u64_arg (a ! 1)) (\<lambda>sub.
           rbind (u64_arg (a ! 2)) (\<lambda>amount. rbind (u64_arg (a ! 3)) (\<lambda>seed. Inr (k, sub, amount, seed)))))) of
        Inl e \<Rightarrow> Some (Inl e)
      | Inr (k, sub, amount, seed) \<Rightarrow> do {
          res \<leftarrow> node_genesis C n k sub amount seed;
          Some (rbind (node_msg res) (\<lambda>((g, founder), n).
            Inr (''genesis '' @ display_block_id g @ '' founder '' @ display_address founder, n, fs)))
        })"

definition cmd_balance :: "host \<Rightarrow> ('sk, 'vk) crypto \<Rightarrow> node_state \<Rightarrow> files \<Rightarrow> string list \<Rightarrow> reply option" where
  "cmd_balance h C n fs args =
     (case rbind (fixed 1 args) (\<lambda>a. parse_target h C (a ! 0)) of
        Inl e \<Rightarrow> Some (Inl e)
      | Inr addr \<Rightarrow> do {
          res \<leftarrow> node_balance C n addr;
          Some (rbind (node_msg res) (\<lambda>b. Inr (display_word b, n, fs)))
        })"

definition three_numbers :: "string list \<Rightarrow> string + u64 \<times> u64 \<times> u64" where
  "three_numbers args =
     rbind (fixed 3 args) (\<lambda>a. rbind (u64_arg (a ! 0)) (\<lambda>x. rbind (u64_arg (a ! 1)) (\<lambda>y.
     rbind (u64_arg (a ! 2)) (\<lambda>z. Inr (x, y, z)))))"

definition cmd_send :: "('sk, 'vk) crypto \<Rightarrow> u64 \<Rightarrow> node_state \<Rightarrow> files \<Rightarrow> string list \<Rightarrow> reply option" where
  "cmd_send C wall n fs args =
     (case three_numbers args of
        Inl e \<Rightarrow> Some (Inl e)
      | Inr (fr, amount, to) \<Rightarrow> do {
          res \<leftarrow> node_send C wall n fr amount to;
          Some (rbind (node_msg res) (\<lambda>(s, n).
            Inr (''block '' @ display_block_id (sent_block s) @ '' tx '' @ display_tx_id (sent_tx s), n, fs)))
        })"

definition cmd_pool :: "('sk, 'vk) crypto \<Rightarrow> node_state \<Rightarrow> files \<Rightarrow> string list \<Rightarrow> reply option" where
  "cmd_pool C n fs args =
     (case three_numbers args of
        Inl e \<Rightarrow> Some (Inl e)
      | Inr (fr, amount, to) \<Rightarrow> do {
          res \<leftarrow> node_pool C n fr amount to;
          Some (rbind (node_msg res) (\<lambda>(t, n). Inr (''tx '' @ display_tx_id t, n, fs)))
        })"

definition cmd_produce :: "('sk, 'vk) crypto \<Rightarrow> u64 \<Rightarrow> node_state \<Rightarrow> files \<Rightarrow> string list \<Rightarrow> reply option" where
  "cmd_produce C wall n fs args =
     (case fixed 0 args of
        Inl e \<Rightarrow> Some (Inl e)
      | Inr _ \<Rightarrow> do {
          res \<leftarrow> produce_block C wall n;
          Some (rbind (node_msg res) (\<lambda>(b, n).
            Inr (case b of Some b \<Rightarrow> ''block '' @ display_block_id b | None \<Rightarrow> ''empty'', n, fs)))
        })"

definition cmd_tip :: "node_state \<Rightarrow> files \<Rightarrow> reply option" where
  "cmd_tip n fs = do {
     res \<leftarrow> node_selected_tip n;
     Some (rbind (node_msg res) (\<lambda>t. Inr (display_block_id t, n, fs)))
   }"

definition cmd_save :: "node_state \<Rightarrow> files \<Rightarrow> string list \<Rightarrow> reply option" where
  "cmd_save n fs args =
     (case fixed 1 args of
        Inl e \<Rightarrow> Some (Inl e)
      | Inr a \<Rightarrow> do {
          res \<leftarrow> node_save n;
          Some (rbind (node_msg res) (\<lambda>bytes. Inr (''saved '' @ a ! 0, n, fmupd (a ! 0) bytes fs)))
        })"

definition cmd_load :: "host \<Rightarrow> ('sk, 'vk) crypto \<Rightarrow> node_state \<Rightarrow> files \<Rightarrow> string list \<Rightarrow> reply option" where
  "cmd_load h C n fs args =
     (case fixed 1 args of
        Inl e \<Rightarrow> Some (Inl e)
      | Inr a \<Rightarrow>
          (case fmlookup fs (a ! 0) of
             None \<Rightarrow> Some (node_msg (Inl (NodeIo (missing_file h))))
           | Some bytes \<Rightarrow> do {
               res \<leftarrow> node_load C n bytes;
               Some (rbind (node_msg res) (\<lambda>n. Inr (''loaded'', n, fs)))
             }))"

definition rpc_run :: "host \<Rightarrow> ('sk, 'vk) crypto \<Rightarrow> u64 \<Rightarrow> node_state \<Rightarrow> files \<Rightarrow> string \<Rightarrow> reply option" where
  "rpc_run h C wall n fs line =
     (case split_whitespace line of
        [] \<Rightarrow> Some (Inr ([], n, fs))
      | cmd # args \<Rightarrow>
          if cmd = ''help'' then Some (Inr (HELP, n, fs))
          else if cmd = ''genesis'' then cmd_genesis C n fs args
          else if cmd = ''address'' then
            Some (rbind (fixed 1 args) (\<lambda>a. rbind (u64_arg (a ! 0)) (\<lambda>seed. Inr (display_address (node_address C seed), n, fs))))
          else if cmd = ''balance'' then cmd_balance h C n fs args
          else if cmd = ''send'' then cmd_send C wall n fs args
          else if cmd = ''pool'' then cmd_pool C n fs args
          else if cmd = ''produce'' then cmd_produce C wall n fs args
          else if cmd = ''pending'' then Some (rbind (fixed 0 args) (\<lambda>_. Inr (decimal (pending_count n), n, fs)))
          else if cmd = ''tips'' then
            Some (rbind (node_msg (node_tips n)) (\<lambda>ts. Inr (join '' '' (map display_block_id ts), n, fs)))
          else if cmd = ''tip'' then cmd_tip n fs
          else if cmd = ''len'' then Some (rbind (node_msg (block_count n)) (\<lambda>k. Inr (decimal k, n, fs)))
          else if cmd = ''save'' then cmd_save n fs args
          else if cmd = ''load'' then cmd_load h C n fs args
          else Some (Inl (''unknown command '' @ quoted cmd @ '' (try help)'')))"

definition execute_line ::
    "host \<Rightarrow> ('sk, 'vk) crypto \<Rightarrow> u64 \<Rightarrow> node_state \<Rightarrow> files \<Rightarrow> string \<Rightarrow> (string \<times> node_state \<times> files) option" where
  "execute_line h C wall n fs line = do {
     res \<leftarrow> rpc_run h C wall n fs line;
     Some (case res of
         Inl e \<Rightarrow> (''err '' @ e, n, fs)
       | Inr (msg, n, fs) \<Rightarrow> (if msg = [] then ''ok'' else ''ok '' @ msg, n, fs))
   }"

end
