(* ===== verification/Total.thy ===== *)
theory Total
  imports Relay
begin

text \<open>
  No input makes the node panic.  Below the capacity of the index and with finality off, as every
  ledger of a node is, the operations that take bytes, records or requests from outside always
  answer: any byte string read as a snapshot, any block record, any transfer and any mempool.
\<close>

section \<open>Reading a snapshot\<close>

lemma read_block_sizes:
  assumes "read_block bs = Inr (b, r)"
  shows "length (parents b) < 2 ^ 64" "length (payload b) < 2 ^ 64" "length r + 48 \<le> length bs"
proof -
  from assms obtain np b1 ps b2 w b3 ts b4 n b5 pn b6 pl where
    r: "read_count UnexpectedEof UnexpectedEof 32 bs = Inr (np, b1)" "read_many (read_block_id UnexpectedEof) np b1 = Inr (ps, b2)"
      "read_word UnexpectedEof b2 = Inr (w :: u128, b3)" "read_word UnexpectedEof b3 = Inr (ts :: u64, b4)"
      "read_word UnexpectedEof b4 = Inr (n :: u64, b5)" "read_count UnexpectedEof UnexpectedEof 1 b5 = Inr (pn, b6)"
      "read_array UnexpectedEof pn b6 = Inr (pl, r)" "b = block_new ps w ts n pl"
    by (auto simp: read_block_def elim!: rbind_InrE)
  have b1: "np < 2 ^ 64" "length bs = 8 + length b1" using read_count_InrD [OF r(1)] by auto
  have b2: "length ps = np" "length b2 \<le> length b1"
    using ids_codec.read_many_canonical [OF r(2)] by auto
  have w: "b2 = to_le_bytes w @ b3" "b3 = to_le_bytes ts @ b4" "b4 = to_le_bytes n @ b5"
    using r(3-5) by (auto dest: read_word_InrD [rotated])
  then have l: "length b2 = 16 + length b3" "length b3 = 8 + length b4" "length b4 = 8 + length b5" by simp_all
  have p: "pn < 2 ^ 64" "length b5 = 8 + length b6" "length pl = pn" "length b6 = length pl + length r"
    using read_count_InrD [OF r(6)] read_array_InrD [OF r(7)] by auto
  show "length (parents b) < 2 ^ 64" "length (payload b) < 2 ^ 64" "length r + 48 \<le> length bs"
    using r(8) b1 b2 l p length_parents_block_new [of ps w ts n pl] by (auto simp: block_new_def)
qed

lemma read_blocks_sizes:
  "read_many read_block n bs = Inr (xs, r) \<Longrightarrow>
   48 * length xs + length r \<le> length bs \<and> (\<forall>b \<in> set xs. length (parents b) < 2 ^ 64 \<and> length (payload b) < 2 ^ 64)"
proof (induction n arbitrary: bs xs)
  case (Suc n)
  then obtain b b1 ys where "read_block bs = Inr (b, b1)" "read_many read_block n b1 = Inr (ys, r)" "xs = b # ys"
    by (auto simp: rbind_eq_Inr)
  with Suc.IH read_block_sizes show ?case by fastforce
qed simp

lemma decode_snapshot_sizes:
  assumes "decode_snapshot bs = Inr s"
  shows "48 * length (snap_blocks s) \<le> length bs"
    "\<forall>b \<in> set (snap_blocks s). length (parents b) < 2 ^ 64 \<and> length (payload b) < 2 ^ 64"
proof -
  from assms obtain m b1 v b2 k b3 n b4 xs where
    r: "read_array UnexpectedEof 4 bs = Inr (m, b1)" "read_word UnexpectedEof b1 = Inr (v :: u16, b2)"
      "read_word UnexpectedEof b2 = Inr (k :: u16, b3)" "read_count UnexpectedEof UnexpectedEof 48 b3 = Inr (n, b4)"
      "read_many read_block n b4 = Inr (xs, [])" "snap_blocks s = xs"
    by (auto simp: decode_snapshot_def elim!: rbind_InrE split: if_splits)
  have "length b1 \<le> length bs" using read_array_InrD [OF r(1)] by simp
  moreover have "b1 = to_le_bytes v @ b2" "b2 = to_le_bytes k @ b3" using r(2,3) by (auto dest: read_word_InrD [rotated])
  then have "length b2 \<le> length b1" "length b3 \<le> length b2" by simp_all
  moreover have "length b4 \<le> length b3" using read_count_InrD(1) [OF r(4)] by simp
  ultimately show "48 * length (snap_blocks s) \<le> length bs"
    "\<forall>b \<in> set (snap_blocks s). length (parents b) < 2 ^ 64 \<and> length (payload b) < 2 ^ 64"
    using read_blocks_sizes [OF r(5)] r(6) by auto
qed

section \<open>Ledgers of a node\<close>

text \<open>
  The ledgers a node holds: what \<open>Ledger::new\<close>, inserts, snapshots and the proof of work switch
  give, so no finality and no difficulty policy.
\<close>

definition plain_ledger :: "('sk, 'vk) crypto \<Rightarrow> ledger \<Rightarrow> bool" where
  "plain_ledger C l \<longleftrightarrow> ledger_reachable C l \<and> finality_depth l = - 1 \<and> difficulty (ledger_dag l) = None"

lemma plain_ledgerD:
  assumes "plain_ledger C l"
  shows "ledger_reachable C l" "ledger_inv C l" "finality_depth l = - 1" "difficulty (ledger_dag l) = None"
  using assms ledger_reachable_inv [of C l] by (simp_all add: plain_ledger_def)

lemma plain_insert:
  assumes "plain_ledger C l" "card (ids (ledger_dag l)) < ROOT_CAPACITY" "machine_sized ps txs"
  shows "\<exists>res. ledger_insert C l ps w ts n txs = Some res
    \<and> (\<forall>i l'. res = Inr (i, l') \<longrightarrow> plain_ledger C l' \<and> card (ids (ledger_dag l')) = Suc (card (ids (ledger_dag l))))"
proof -
  note P = plain_ledgerD [OF assms(1)]
  have cap: "Suc (card (ids (ledger_dag l))) \<le> ROOT_CAPACITY" using assms(2) by simp
  obtain res where res: "ledger_insert C l ps w ts n txs = Some res"
    using ledger_insert_cases [OF P(2,3) cap assms(3) refl] by blast
  have "plain_ledger C l' \<and> card (ids (ledger_dag l')) = Suc (card (ids (ledger_dag l)))" if "res = Inr (i, l')" for i l'
  proof -
    note ins = res [unfolded that]
    note R = ledger_insert_InrD [OF P(2) cap assms(3) ins] and S = ledger_insert_stored [OF P(2) cap assms(3) ins]
    have "ledger_reachable C l'" using reach_insert [OF P(1) _ assms(3) ins] assms(2) by (simp add: dag_len_ids)
    moreover have "difficulty (ledger_dag l') = difficulty (ledger_dag l)"
      using dag_insert_InrD(4) [OF ledger_invD(1) [OF P(2)] cap R(3)] by (auto simp: wired_def)
    moreover have "finite (ids (ledger_dag l))" by (simp add: ids_def)
    ultimately show ?thesis using P(3,4) R(5) S(1,2) by (simp add: plain_ledger_def)
  qed
  then show ?thesis using res by blast
qed

lemma new_plain:
  assumes "wf_txs txs" "length (encode_block_payload txs) < 2 ^ 64"
  shows "\<exists>res. ledger_new C k s txs = Some res
    \<and> (\<forall>l. res = Inr l \<longrightarrow> plain_ledger C l \<and> card (ids (ledger_dag l)) = 1)"
proof -
  obtain res where res: "ledger_new C k s txs = Some res"
    "\<forall>l. res = Inr l \<longrightarrow> finality_depth l = - 1 \<and> difficulty (ledger_dag l) = None \<and> \<not> require_pow (ledger_dag l)
       \<and> ids (ledger_dag l) = {genesis (ledger_dag l)}"
    using ledger_new_ok [OF assms, of C k s] by blast
  have "ledger_reachable C l" if "res = Inr l" for l
    using reach_new [of txs C k s l] res(1) that assms by (simp add: machine_sized_def)
  then show ?thesis using res by (auto simp: plain_ledger_def)
qed

lemma replay_total:
  assumes "\<forall>b \<in> set bs. length (parents b) < 2 ^ 64 \<and> length (payload b) < 2 ^ 64"
    and "plain_ledger C l" "card (ids (ledger_dag l)) + length bs \<le> ROOT_CAPACITY"
  shows "\<exists>res. replay_ledger C l bs = Some res \<and> (\<forall>l'. res = Inr l' \<longrightarrow> plain_ledger C l'
    \<and> card (ids (ledger_dag l')) \<le> card (ids (ledger_dag l)) + length bs)"
  using assms
proof (induction bs arbitrary: l)
  case (Cons b bs)
  show ?case
  proof (cases "decode_block_payload (payload b)")
    case (Inr txs)
    have "machine_sized (parents b) txs"
      using decode_payload_InrD [OF Inr] Cons.prems(1) by (auto simp: machine_sized_def)
    from plain_insert [OF Cons.prems(2) _ this, of "work b" "timestamp_ms b" "nonce b"] Cons.prems(3) obtain res where
      res: "ledger_insert C l (parents b) (work b) (timestamp_ms b) (nonce b) txs = Some res"
        "\<And>i l'. res = Inr (i, l') \<Longrightarrow> plain_ledger C l' \<and> card (ids (ledger_dag l')) = Suc (card (ids (ledger_dag l)))"
      by auto
    show ?thesis
    proof (cases res)
      case r: (Inr q)
      obtain i l' where q: "q = (i, l')" by (cases q)
      have p: "plain_ledger C l'" "card (ids (ledger_dag l')) = Suc (card (ids (ledger_dag l)))" using res(2) r q by auto
      have "\<exists>res. replay_ledger C l' bs = Some res \<and> (\<forall>l''. res = Inr l'' \<longrightarrow> plain_ledger C l''
          \<and> card (ids (ledger_dag l'')) \<le> card (ids (ledger_dag l')) + length bs)"
        using Cons.IH [OF _ p(1)] Cons.prems(1,3) p(2) by simp
      then show ?thesis using Inr res(1) r q p(2) by auto
    qed (use Inr res in auto)
  qed simp
qed simp

lemma rebuild_total:
  assumes "\<forall>b \<in> set (g # bs). length (parents b) < 2 ^ 64 \<and> length (payload b) < 2 ^ 64" "Suc (length bs) \<le> ROOT_CAPACITY"
  shows "\<exists>res. rebuild_ledger C k s g bs = Some res \<and> (\<forall>l. res = Inr l \<longrightarrow> plain_ledger C l \<and> card (ids (ledger_dag l)) \<le> Suc (length bs))"
proof (cases "decode_block_payload (payload g)")
  case (Inr txs)
  have "wf_txs txs" "length (encode_block_payload txs) < 2 ^ 64"
    using decode_payload_InrD [OF Inr] assms(1) by auto
  from new_plain [OF this, of C k s] obtain res where res: "ledger_new C k s txs = Some res"
      "\<And>l. res = Inr l \<Longrightarrow> plain_ledger C l \<and> card (ids (ledger_dag l)) = 1" by blast
  show ?thesis
  proof (cases res)
    case r: (Inr l)
    have "\<exists>res. replay_ledger C l bs = Some res \<and> (\<forall>l'. res = Inr l' \<longrightarrow> plain_ledger C l'
        \<and> card (ids (ledger_dag l')) \<le> card (ids (ledger_dag l)) + length bs)"
      using replay_total [of bs C l] assms res(2) [OF r] by simp
    then show ?thesis using Inr res r by (auto simp: rebuild_ledger_def)
  qed (use Inr res in \<open>auto simp: rebuild_ledger_def\<close>)
qed (simp add: rebuild_ledger_def)

lemma read_snapshot_total:
  assumes "length bs \<le> 48 * ROOT_CAPACITY"
  shows "\<exists>res. ledger_read_snapshot C bs = Some res \<and> (\<forall>l. res = Inr l \<longrightarrow> plain_ledger C l \<and> 48 * card (ids (ledger_dag l)) \<le> length bs)"
proof (cases "decode_snapshot (drop 14 bs)")
  case (Inl e)
  then show ?thesis by (simp add: ledger_read_snapshot_def Let_def)
next
  case (Inr s)
  note S = decode_snapshot_sizes [OF Inr]
  show ?thesis
  proof (cases "snap_blocks s")
    case Nil
    then show ?thesis using Inr by (simp add: ledger_read_snapshot_def Let_def)
  next
    case (Cons g blocks)
    have "Suc (length blocks) \<le> ROOT_CAPACITY" using S(1) Cons assms by simp
    from rebuild_total [OF _ this, of g C "snap_k s" "from_le_bytes (take 8 (drop 6 bs))"] obtain res where
      "rebuild_ledger C (snap_k s) (from_le_bytes (take 8 (drop 6 bs))) g blocks = Some res"
      "\<And>l. res = Inr l \<Longrightarrow> plain_ledger C l \<and> card (ids (ledger_dag l)) \<le> Suc (length blocks)"
      using S(2) Cons by auto
    moreover from this(2) have "res = Inr l \<Longrightarrow> 48 * card (ids (ledger_dag l)) \<le> length bs" for l
      using S(1) Cons by fastforce
    ultimately show ?thesis using Inr Cons by (auto simp: ledger_read_snapshot_def Let_def)
  qed
qed


section \<open>The operations of a node\<close>

definition node_plain :: "('sk, 'vk) crypto \<Rightarrow> node_state \<Rightarrow> bool" where
  "node_plain C n \<longleftrightarrow> (\<forall>l. node_ledger n = Some l \<longrightarrow> plain_ledger C l)"

definition node_blocks :: "node_state \<Rightarrow> nat" where
  "node_blocks n = (case node_ledger n of None \<Rightarrow> 0 | Some l \<Rightarrow> dag_len (ledger_dag l))"

lemma node_blocks_Some: "node_ledger n = Some l \<Longrightarrow> node_blocks n = card (ids (ledger_dag l))"
  by (simp add: node_blocks_def dag_len_ids)

lemma state_total: "plain_ledger C l \<Longrightarrow> \<exists>u. ledger_state C l = Some u"
  using ledger_state_tips [of C l] plain_ledgerD [of C l] by blast

lemma evict_plain:
  assumes "plain_ledger C l" "node_ledger n = Some l"
  shows "\<exists>u. evict_mempool C n = Some (n\<lparr>node_mempool := fst (evict_invalid (node_mempool n) u)\<rparr>)"
  using evict_mempool_ok [OF assms(2)] plain_ledgerD [OF assms(1)] by blast

text \<open>Work 1 is met by every id, so the nonce search ends at once.\<close>

lemma mine_nonce_easy: "\<exists>n. mine_nonce H d ps 1 ts txs = Some n"
proof -
  have "meets_target i 1" for i
    using unsigned_less [of "id_word i", where 'a = nat] by (simp add: meets_target_iff)
  then show ?thesis by (simp add: mine_nonce_def mine_def mine_from.simps block_new_def)
qed

lemma tips_insert_plain:
  assumes "plain_ledger C l" "card (ids (ledger_dag l)) < ROOT_CAPACITY" "wf_txs txs" "length (encode_block_payload txs) < 2 ^ 64"
  shows "\<exists>res. insert_on_tips C l ts txs = Some res
    \<and> (\<forall>i l'. res = Inr (i, l') \<longrightarrow> plain_ledger C l' \<and> card (ids (ledger_dag l')) = Suc (card (ids (ledger_dag l))))"
proof -
  note P = plain_ledgerD [OF assms(1)] and T = tips_listD [OF ledger_invD(1) [OF plain_ledgerD(2) [OF assms(1)]]]
  obtain n where n: "mine_nonce (blake3 C) (ledger_dag l) (tips_list (ledger_dag l)) 1 ts txs = Some n"
    using mine_nonce_easy by blast
  have sz: "machine_sized (tips_list (ledger_dag l)) txs"
    using assms(2-4) T(6) root_capacity_word [of "length (tips_list (ledger_dag l))"] by (simp add: machine_sized_def)
  obtain res where res: "ledger_insert C l (tips_list (ledger_dag l)) 1 ts n txs = Some res"
      "\<And>i l'. res = Inr (i, l') \<Longrightarrow> plain_ledger C l' \<and> card (ids (ledger_dag l')) = Suc (card (ids (ledger_dag l)))"
    using plain_insert [OF assms(1,2) sz, of 1 ts n] by blast
  have "insert_on_tips C l ts txs = Some (map_err Insert res)"
    using n res(1) P(4) by (simp add: insert_on_tips_def next_work_target_def Let_def)
  then show ?thesis using res(2) by auto
qed

text \<open>The ledger is replaced and the mempool evicted, as after every insertion.\<close>

lemma insert_evict:
  assumes "plain_ledger C l" "card (ids (ledger_dag l)) = Suc k"
  shows "\<exists>n'. evict_mempool C (n\<lparr>node_ledger := Some l\<rparr>) = Some n' \<and> node_plain C n' \<and> node_blocks n' = Suc k
    \<and> (\<forall>i tx. fmlookup (node_mempool n') i = Some tx \<longrightarrow> fmlookup (node_mempool n) i = Some tx)"
proof -
  obtain u where u: "evict_mempool C (n\<lparr>node_ledger := Some l\<rparr>)
      = Some (n\<lparr>node_ledger := Some l, node_mempool := fst (evict_invalid (node_mempool n) u)\<rparr>)"
    using evict_plain [OF assms(1), of "n\<lparr>node_ledger := Some l\<rparr>"] by auto
  then show ?thesis using assms by (auto simp: node_plain_def node_blocks_def dag_len_ids evict_lookup)
qed

lemma receive_plain:
  assumes "node_plain C n" "node_blocks n < ROOT_CAPACITY" "wf_record r"
  shows "\<exists>res. receive_block C wall n r = Some res
    \<and> (\<forall>i n'. res = Inr (i, n') \<longrightarrow> node_plain C n' \<and> node_blocks n' \<le> Suc (node_blocks n))"
proof (cases "node_ledger n")
  case None
  then show ?thesis by (simp add: receive_block_def Let_def)
next
  case (Some l)
  then have l: "plain_ledger C l" "card (ids (ledger_dag l)) < ROOT_CAPACITY" "node_blocks n = card (ids (ledger_dag l))"
    using assms(1,2) by (simp_all add: node_plain_def node_blocks_Some)
  have "machine_sized (rec_parents r) (rec_txs r)" using assms(3) by (simp add: wf_record_def)
  from plain_insert [OF l(1,2) this, of "rec_work r" "rec_timestamp_ms r" "rec_nonce r"] obtain res where
    res: "ledger_insert C l (rec_parents r) (rec_work r) (rec_timestamp_ms r) (rec_nonce r) (rec_txs r) = Some res"
      "\<And>i l'. res = Inr (i, l') \<Longrightarrow> plain_ledger C l' \<and> card (ids (ledger_dag l')) = Suc (card (ids (ledger_dag l)))" by blast
  show ?thesis
  proof (cases res)
    case (Inl e)
    then show ?thesis using Some res(1) assms(1)
      by (auto simp: receive_block_def Let_def split: ledger_insert_error.split dag_error.split)
  next
    case (Inr q)
    obtain i l' where q: "q = (i, l')" by (cases q)
    obtain n' where "evict_mempool C (n\<lparr>node_ledger := Some l'\<rparr>) = Some n'" "node_plain C n'" "node_blocks n' = Suc (card (ids (ledger_dag l)))"
      using insert_evict [of C l' "card (ids (ledger_dag l))" n] res(2) Inr q by blast
    then show ?thesis using Some res(1) Inr q l(3) by (simp add: receive_block_def Let_def)
  qed
qed

lemma receive_all_plain:
  assumes "list_all wf_record rs" "node_plain C n" "node_blocks n + length rs \<le> ROOT_CAPACITY"
  shows "\<exists>n' res. receive_all C clock k n rs = Some (n', res) \<and> node_plain C n'"
  using assms
proof (induction rs arbitrary: n k)
  case (Cons r rs)
  obtain res where res: "receive_block C (clock k) n r = Some res"
      "\<And>i n'. res = Inr (i, n') \<Longrightarrow> node_plain C n' \<and> node_blocks n' \<le> Suc (node_blocks n)"
    using receive_plain [OF Cons.prems(2), of r "clock k"] Cons.prems(1,3) by auto
  show ?case
  proof (cases res)
    case (Inr q)
    obtain i n1 where q: "q = (i, n1)" by (cases q)
    have n1: "node_plain C n1" "node_blocks n1 + length rs \<le> ROOT_CAPACITY" using res(2) Inr q Cons.prems(3) by fastforce+
    from Cons.IH [OF _ n1] Cons.prems(1) have "\<exists>n' res. receive_all C clock (Suc k) n1 rs = Some (n', res) \<and> node_plain C n'" by simp
    then show ?thesis using res(1) Inr q by simp
  qed (use res(1) Cons.prems(2) in simp)
qed simp

lemma pull_plain:
  assumes "node_plain C n" "48 * node_blocks n + length buf \<le> 48 * ROOT_CAPACITY"
  shows "\<exists>n' res. pull_blocks C clock buf n = Some (n', res) \<and> node_plain C n'"
proof (cases "decode_records buf")
  case (Inr rs)
  then have rs: "buf = encode_records rs" "list_all wf_record rs"
    using records_iff by blast+
  have "48 * length rs \<le> length buf" using record_codec.width_concat [of rs] by (simp add: rs(1) encode_records_def)
  then have "node_blocks n + length rs \<le> ROOT_CAPACITY" using assms(2) by simp
  from receive_all_plain [OF rs(2) assms(1) this] show ?thesis using Inr by (simp add: pull_blocks_def)
qed (use assms(1) in \<open>simp add: pull_blocks_def\<close>)

lemma apply_relay_plain:
  assumes "node_plain C n" "node_blocks n < ROOT_CAPACITY" "relay_recv bs = Inr (msg, rest)"
  shows "\<exists>res. apply_relay C wall n msg = Some res \<and> (\<forall>m n'. res = Inr (m, n') \<longrightarrow> node_plain C n')"
proof -
  have wf: "wf_msg msg" using relay_recv_InrD [OF assms(3)] by (simp add: sendable_def)
  show ?thesis
  proof (cases msg)
    case (RelayBlock r)
    then obtain res where "receive_block C wall n r = Some res" "\<And>i n'. res = Inr (i, n') \<Longrightarrow> node_plain C n'"
      using receive_plain [OF assms(1,2), of r wall] wf by auto
    then show ?thesis using RelayBlock by (auto simp: apply_relay_def rbind_eq_Inr)
  next
    case (RelayTx tx)
    then show ?thesis using assms(1)
      by (auto simp: apply_relay_def rbind_eq_Inr submit_tx_def node_plain_def split: if_splits)
  qed (use assms(1) in \<open>simp add: apply_relay_def\<close>)
qed


section \<open>Requests\<close>

lemma length_encode_into: "length (encode_into True tx) = 24 + 100 * length (inputs tx) + 40 * length (outputs tx) + length (tag tx)"
  by (simp add: encode_into_def length_concat comp_def encode_input_def encode_output_def sum_list_triv)

text \<open>A transfer as the node builds it: one input and at most two outputs.\<close>

definition small_tx :: "transaction \<Rightarrow> bool" where
  "small_tx tx \<longleftrightarrow> length (inputs tx) = 1 \<and> length (outputs tx) \<le> 2 \<and> tag tx = []"

lemma small_txD:
  assumes "small_tx tx"
  shows "wf_tx tx" "wf_txs [tx]" "length (encode_block_payload [tx]) < 2 ^ 64"
  using assms by (simp_all add: small_tx_def wf_tx_def wf_txs_def payload_length length_encode_into)

lemma prepare_total:
  assumes "node_plain C n"
  shows "\<exists>res. prepare_transfer C n fr amount to = Some res \<and> (\<forall>p. res = Inr p \<longrightarrow> small_tx (prep_tx p))"
proof (cases "node_ledger n")
  case (Some l)
  then obtain u where "ledger_state C l = Some u" using state_total assms by (auto simp: node_plain_def)
  then show ?thesis using Some
    by (auto simp: prepare_transfer_def ledger_of_def Let_def small_tx_def unsigned_tx_def split: option.split list.split)
qed (auto simp: prepare_transfer_def ledger_of_def Let_def split: option.split)

lemma small_attach: "small_tx (attach_signature tx i s) \<longleftrightarrow> small_tx tx"
  by (simp add: small_tx_def attach_signature_def)

lemma build_total:
  assumes "node_plain C n"
  shows "\<exists>res. build_transfer_to C n seed amount to = Some res \<and> (\<forall>tx. res = Inr tx \<longrightarrow> small_tx tx)"
proof -
  obtain res where res: "prepare_transfer C n (key_address C (from_u64 C seed)) amount to = Some res" "\<And>p. res = Inr p \<Longrightarrow> small_tx (prep_tx p)"
    using prepare_total [OF assms] by blast
  show ?thesis
  proof (cases "amount = 0")
    case False
    have "build_transfer_to C n seed amount to
        = Some (rbind res (\<lambda>p. Inr (attach_signature (prep_tx p) 0 (Sig (key_sign C (from_u64 C seed) (prep_sighash p))))))"
      using False res(1) by (simp add: build_transfer_to_def Let_def)
    then show ?thesis using res(2) by (auto simp: rbind_eq_Inr small_attach)
  qed (simp add: build_transfer_to_def)
qed

text \<open>The mempool holds transactions of encodable size.\<close>

definition pool_wf :: "mempool \<Rightarrow> bool" where
  "pool_wf p \<longleftrightarrow> (\<forall>i tx. fmlookup p i = Some tx \<longrightarrow> wf_tx tx)"

definition node_ok :: "('sk, 'vk) crypto \<Rightarrow> node_state \<Rightarrow> bool" where
  "node_ok C n \<longleftrightarrow> node_plain C n \<and> pool_wf (node_mempool n)"

lemma node_ok_insert:
  assumes "node_ok C n" "plain_ledger C l" "card (ids (ledger_dag l)) = Suc k" "pool_wf p"
  shows "\<exists>n'. evict_mempool C (n\<lparr>node_ledger := Some l, node_mempool := p\<rparr>) = Some n' \<and> node_ok C n'"
proof -
  obtain n' where "evict_mempool C ((n\<lparr>node_mempool := p\<rparr>)\<lparr>node_ledger := Some l\<rparr>) = Some n'" "node_plain C n'"
      "\<forall>i tx. fmlookup (node_mempool n') i = Some tx \<longrightarrow> fmlookup (node_mempool (n\<lparr>node_mempool := p\<rparr>)) i = Some tx"
    using insert_evict [OF assms(2,3), of "n\<lparr>node_mempool := p\<rparr>"] by blast
  moreover from this(3) have "pool_wf (node_mempool n')" using assms(4) unfolding pool_wf_def by fastforce
  moreover have eq: "n\<lparr>node_ledger := Some l, node_mempool := p\<rparr> = (n\<lparr>node_mempool := p\<rparr>)\<lparr>node_ledger := Some l\<rparr>"
    by (cases n) simp
  ultimately show ?thesis unfolding eq node_ok_def by blast
qed

lemma genesis_total:
  assumes "node_ok C n"
  shows "\<exists>res. node_genesis C n k sub amount seed = Some res \<and> (\<forall>x n'. res = Inr (x, n') \<longrightarrow> node_ok C n')"
proof -
  let ?cb = "coinbase [\<lparr>out_value = amount, owner = node_address C seed\<rparr>] GENESIS_TAG"
  have "wf_txs [?cb]" "length (encode_block_payload [?cb]) < 2 ^ 64"
    by (simp_all add: wf_txs_def wf_tx_def coinbase_def GENESIS_TAG_def payload_length length_encode_into)
  from new_plain [OF this, of C k sub] obtain res where "ledger_new C k sub [?cb] = Some res" "\<And>l. res = Inr l \<Longrightarrow> plain_ledger C l"
    by blast
  then show ?thesis using assms
    by (auto simp: node_genesis_def Let_def node_ok_def node_plain_def split: sum.split)
qed

lemma send_total:
  assumes "node_ok C n" "node_blocks n < ROOT_CAPACITY"
  shows "\<exists>res. send_to C wall n seed amount to = Some res \<and> (\<forall>x n'. res = Inr (x, n') \<longrightarrow> node_ok C n')"
proof -
  have np: "node_plain C n" using assms(1) by (simp add: node_ok_def)
  obtain bt where bt: "build_transfer_to C n seed amount to = Some bt" "\<And>tx. bt = Inr tx \<Longrightarrow> small_tx tx"
    using build_total [OF np] by blast
  show ?thesis
  proof (cases bt)
    case (Inr tx)
    show ?thesis
    proof (cases "node_ledger n")
      case (Some l)
      then have l: "plain_ledger C l" "card (ids (ledger_dag l)) < ROOT_CAPACITY"
        using assms by (simp_all add: node_ok_def node_plain_def node_blocks_Some)
      let ?ts = "next_timestamp wall n (ledger_dag l) (tips_list (ledger_dag l))"
      obtain res where res: "insert_on_tips C l ?ts [tx] = Some res"
          "\<And>i l'. res = Inr (i, l') \<Longrightarrow> plain_ledger C l' \<and> card (ids (ledger_dag l')) = Suc (card (ids (ledger_dag l)))"
        using tips_insert_plain [OF l small_txD(2,3) [OF bt(2) [OF Inr]], of ?ts] by blast
      show ?thesis
      proof (cases res)
        case r: (Inr q)
        obtain i l' where q: "q = (i, l')" by (cases q)
        obtain n' where "evict_mempool C (n\<lparr>node_ledger := Some l', node_mempool := node_mempool n\<rparr>) = Some n'" "node_ok C n'"
          using node_ok_insert [OF assms(1), of l' "card (ids (ledger_dag l))" "node_mempool n"] res(2) r q assms(1) by (auto simp: node_ok_def)
        then show ?thesis using bt(1) Inr Some res(1) r q by (simp add: send_to_def ledger_of_def Let_def)
      qed (use bt(1) Inr Some res(1) in \<open>simp add: send_to_def ledger_of_def Let_def\<close>)
    qed (use bt(1) Inr in \<open>simp add: send_to_def ledger_of_def\<close>)
  qed (use bt(1) in \<open>simp add: send_to_def\<close>)
qed

lemma pool_total:
  assumes "node_ok C n"
  shows "\<exists>res. node_pool C n seed amount to = Some res \<and> (\<forall>x n'. res = Inr (x, n') \<longrightarrow> node_ok C n')"
proof -
  have np: "node_plain C n" using assms by (simp add: node_ok_def)
  obtain bt where bt: "build_transfer_to C n seed amount (node_address C to) = Some bt" "\<And>tx. bt = Inr tx \<Longrightarrow> small_tx tx"
    using build_total [OF np] by blast
  have "node_ok C (n\<lparr>node_mempool := fst (mempool_add C (node_mempool n) tx)\<rparr>)" if "bt = Inr tx" for tx
    using assms small_txD(1) [OF bt(2) [OF that]]
    by (auto simp: node_ok_def node_plain_def pool_wf_def mempool_add_def Let_def)
  then show ?thesis using bt(1) by (auto simp: node_pool_def build_transfer_def rbind_eq_Inr)
qed

lemma select_txs_subseq: "subseq (select_txs C s txs u) txs"
  by (induction txs arbitrary: u) (auto split: prod.split sum.split intro: list_emb_Cons)

lemma produce_total:
  assumes "node_ok C n" "node_blocks n < ROOT_CAPACITY" "length (encode_block_payload (pending_txs C n)) + 72 < 2 ^ 64"
  shows "\<exists>res. produce_block C wall n = Some res \<and> (\<forall>x n'. res = Inr (x, n') \<longrightarrow> node_ok C n')"
proof (cases "node_ledger n")
  case (Some l)
  then have l: "plain_ledger C l" "card (ids (ledger_dag l)) < ROOT_CAPACITY"
    using assms by (simp_all add: node_ok_def node_plain_def node_blocks_Some)
  obtain u where u: "ledger_state C l = Some u" using state_total [OF l(1)] by blast
  define sel where "sel = select_txs C (subsidy l) (pending_txs C n) u"
  show ?thesis
  proof (cases "mempool_is_empty (node_mempool n) \<or> sel = []")
    case True
    then show ?thesis using Some u assms(1) by (auto simp: produce_block_def sel_def pending_txs_def Let_def)
  next
    case False
    let ?ts = "next_timestamp wall n (ledger_dag l) (tips_list (ledger_dag l))"
    let ?cb = "issuance_txs n ?ts (sum_list (map (fee_of u) sel))"
    have sub: "subseq sel (pending_txs C n)" unfolding sel_def by (rule select_txs_subseq)
    have len: "length (encode_block_payload (?cb @ sel)) < 2 ^ 64"
      using issuance_txs_length [of n ?ts "sum_list (map (fee_of u) sel)"] subseq_sum_le [OF sub, of "length \<circ> encode_into True"] assms(3)
      by (simp add: payload_length)
    have "list_all wf_tx ?cb"
      by (rule issuance_txs_cases [of n ?ts "sum_list (map (fee_of u) sel)"]) (simp_all add: wf_tx_def coinbase_def)
    moreover have "list_all wf_tx sel"
      using subseq_subset [OF sub] assms(1) by (force simp: list_all_iff pending_txs_def set_mempool_ordered node_ok_def pool_wf_def)
    ultimately have wf: "wf_txs (?cb @ sel)" using len payload_count [of "?cb @ sel"] by (simp add: wf_txs_def)
    obtain res where res: "insert_on_tips C l ?ts (?cb @ sel) = Some res"
        "\<And>i l'. res = Inr (i, l') \<Longrightarrow> plain_ledger C l' \<and> card (ids (ledger_dag l')) = Suc (card (ids (ledger_dag l)))"
      using tips_insert_plain [OF l wf len, of ?ts] by blast
    show ?thesis
    proof (cases res)
      case (Inl e)
      then show ?thesis using Some u False res(1) by (simp add: produce_block_def sel_def pending_txs_def Let_def)
    next
      case r: (Inr q)
      obtain i l' where q: "q = (i, l')" by (cases q)
      let ?p = "remove_all (node_mempool n) (map (tx_ident C) sel)"
      have "pool_wf ?p" using assms(1) by (auto simp: node_ok_def pool_wf_def remove_all_lookup split: if_splits)
      then obtain n' where "evict_mempool C (n\<lparr>node_ledger := Some l', node_mempool := ?p\<rparr>) = Some n'" "node_ok C n'"
        using node_ok_insert [OF assms(1), of l' "card (ids (ledger_dag l))" ?p] res(2) r q by blast
      then show ?thesis using Some u False res(1) r q by (simp add: produce_block_def sel_def pending_txs_def Let_def)
    qed
  qed
qed (simp add: produce_block_def)


section \<open>Untrusted input\<close>

text \<open>
  C15: no byte string read as a ledger snapshot makes the reader panic, up to a length no file
  reaches: it is refused with an error, or it gives a ledger that a genesis and a sequence of
  accepted inserts give, with finality and difficulty off and at most one block for every
  48 bytes.
\<close>

theorem snapshot_reader_total:
  assumes "length bs \<le> 48 * ROOT_CAPACITY"
  shows "\<exists>res. ledger_read_snapshot C bs = Some res \<and> (\<forall>l. res = Inr l \<longrightarrow> ledger_reachable C l \<and> finality_depth l = - 1
    \<and> difficulty (ledger_dag l) = None \<and> 48 * dag_len (ledger_dag l) \<le> length bs)"
  using read_snapshot_total [OF assms] by (auto simp: plain_ledger_def dag_len_ids)

theorem snapshot_reader_total_witness:
  "\<exists>res. ledger_read_snapshot byte_crypto (LEDGER_MAGIC @ replicate 100 0) = Some res"
  using snapshot_reader_total [of "LEDGER_MAGIC @ replicate 100 0" byte_crypto]
  by (auto simp: LEDGER_MAGIC_def ROOT_CAPACITY_def u64_max_def)

text \<open>
  C14: no bytes from a peer make a node panic.  With a plain ledger and room in its index, pulling
  any byte stream returns, with the blocks applied or an error, and so does applying whatever
  message a relay session reads; the ledger stays plain.
\<close>

theorem peer_input_total:
  assumes "node_plain C n" "48 * node_blocks n + length buf \<le> 48 * ROOT_CAPACITY"
  shows "(\<exists>n' res. pull_blocks C clock buf n = Some (n', res) \<and> node_plain C n')
    \<and> (\<forall>msg rest. relay_recv buf = Inr (msg, rest) \<longrightarrow>
         (\<exists>res. apply_relay C wall n msg = Some res \<and> (\<forall>m n'. res = Inr (m, n') \<longrightarrow> node_plain C n')))"
proof (intro conjI allI impI)
  show "\<exists>n' res. pull_blocks C clock buf n = Some (n', res) \<and> node_plain C n'" by (rule pull_plain [OF assms])
next
  fix msg rest assume r: "relay_recv buf = Inr (msg, rest)"
  then have "0 < length buf" using relay_recv_InrD [OF r] by (auto simp: relay_send_def)
  then have "node_blocks n < ROOT_CAPACITY" using assms(2) by linarith
  from apply_relay_plain [OF assms(1) this r]
  show "\<exists>res. apply_relay C wall n msg = Some res \<and> (\<forall>m n'. res = Inr (m, n') \<longrightarrow> node_plain C n')" .
qed

theorem peer_input_total_witness:
  "\<exists>n n' res. held n = {BlockId 0, BlockId 1} \<and> pull_blocks clock_crypto (\<lambda>i. 0) [1, 2, 3] n = Some (n', res)"
proof (rule demo_peers)
  fix a b :: node_state and la lb
  assume n: "node_ledger a = Some la" "ledger_reachable clock_crypto la" "ids (ledger_dag la) = {BlockId 0, BlockId 1}"
    and P: "\<forall>x \<in> {la, lb}. finality_depth x = - 1 \<and> difficulty (ledger_dag x) = None \<and> \<not> require_pow (ledger_dag x)
          \<and> (\<forall>i. \<forall>n \<in> {a, b}. \<forall>y \<in> ids (ledger_dag x). timestamp_ms (node_block (nd (ledger_dag x) y))
               \<le> saturating_add (now_ms ((\<lambda>i. 0) (i :: nat)) n) MAX_FUTURE_DRIFT_MS)"
  have p: "node_plain clock_crypto a" using n P by (simp add: node_plain_def plain_ledger_def)
  have "48 * node_blocks a + length [1, 2, 3 :: byte] \<le> 48 * ROOT_CAPACITY"
    using n by (simp add: node_blocks_Some ROOT_CAPACITY_def u64_max_def)
  from peer_input_total [OF p this]
  obtain n' res where "pull_blocks clock_crypto (\<lambda>i. 0) [1, 2, 3] a = Some (n', res)" by blast
  moreover have "held a = {BlockId 0, BlockId 1}" using n by (simp add: held_def)
  ultimately show ?thesis by blast
qed

end
