(* ===== verification/RpcProps.thy ===== *)
theory RpcProps
  imports Rpc Total
begin

text \<open>
  The line protocol answers every line: numbers are read back as they are printed, and no line
  makes \<open>execute_line\<close> panic.
\<close>

section \<open>Numbers\<close>

lemma digit_char: "d < 10 \<Longrightarrow> digit_val (char_of (48 + d)) = Some d"
  by (simp add: digit_val_def)

lemma digits_val_append: "digits_val acc (xs @ ys) = Option.bind (digits_val acc xs) (\<lambda>a. digits_val a ys)"
  by (induction xs arbitrary: acc) (auto split: bind_splits)

lemma decimal_snoc: "n < 10 \<Longrightarrow> decimal n = [char_of (48 + n)]"
  "10 \<le> n \<Longrightarrow> decimal n = decimal (n div 10) @ [char_of (48 + n mod 10)]"
  by (simp_all add: decimal.simps [of n])

lemma digits_decimal: "digits_val 0 (decimal n) = Some n"
proof (induction n rule: less_induct)
  case (less n)
  show ?case
  proof (cases "n < 10")
    case True
    then show ?thesis by (simp add: decimal_snoc digit_char)
  next
    case False
    then have "digits_val 0 (decimal (n div 10)) = Some (n div 10)" using less by simp
    then show ?thesis using False by (simp add: decimal_snoc(2) digits_val_append digit_char)
  qed
qed

lemma decimal_head: "\<exists>(d :: nat) cs. decimal n = char_of (48 + d) # cs \<and> d < 10"
proof (induction n rule: less_induct)
  case (less n)
  show ?case
  proof (cases "n < 10")
    case False
    then obtain d :: nat and cs where "decimal (n div 10) = char_of (48 + d) # cs" "d < 10" using less [of "n div 10"] by auto
    then show ?thesis unfolding decimal_snoc(2) [OF leI [OF False]] by (metis append_Cons)
  next
    case True
    then show ?thesis unfolding decimal_snoc(1) [OF True] by blast
  qed
qed

lemma parse_decimal: "parse_word (display_word w) = Some (w :: 'a::len word)"
proof -
  obtain d :: nat and cs where d: "decimal (unat w) = char_of (48 + d) # cs" "d < 10" using decimal_head by blast
  have "(of_char (char_of (48 + d)) :: nat) \<noteq> of_char (CHR ''+'')" using d(2) by simp
  then have "char_of (48 + d) \<noteq> CHR ''+''" by metis
  then show ?thesis using d(1) digits_decimal [of "unat w"]
    by (simp add: parse_word_def display_word_def Let_def)
qed

section \<open>Every line is answered\<close>

text \<open>A command returns, and keeps the node well formed when it succeeds.\<close>

definition answers :: "('sk, 'vk) crypto \<Rightarrow> reply option \<Rightarrow> bool" where
  "answers C r \<longleftrightarrow> (\<exists>rep. r = Some rep \<and> (\<forall>msg n fs. rep = Inr (msg, n, fs) \<longrightarrow> node_ok C n))"

lemma answers_Inl [simp]: "answers C (Some (Inl e))"
  by (simp add: answers_def)

lemma answers_Inr [simp]: "answers C (Some (Inr (msg, n, fs))) \<longleftrightarrow> node_ok C n"
  by (simp add: answers_def)

lemma answers_rbind: "(\<And>x. r = Inr x \<Longrightarrow> answers C (Some (f x))) \<Longrightarrow> answers C (Some (rbind r f))"
  by (cases r) simp_all

lemma answers_msg:
  assumes "(\<And>x. res = Inr x \<Longrightarrow> answers C (Some (f x)))"
  shows "answers C (Some (rbind (node_msg res) f))"
  using assms by (cases res) (simp_all add: node_msg_def map_err_def)

text \<open>The shape the state-changing commands share: parse the arguments, run the node, print.\<close>

lemma answers_parsed:
  "(\<And>a. p = Inr a \<Longrightarrow> answers C (f a)) \<Longrightarrow> answers C (case p of Inl e \<Rightarrow> Some (Inl e) | Inr a \<Rightarrow> f a)"
  by (cases p) simp_all

lemma answers_run:
  assumes "\<exists>res. r = Some res \<and> (\<forall>x n'. res = Inr (x, n') \<longrightarrow> node_ok C n')"
    "\<And>x n'. node_ok C n' \<Longrightarrow> answers C (Some (f (x, n')))"
  shows "answers C (do { res \<leftarrow> r; Some (rbind (node_msg res) f) })"
  using assms by (auto intro!: answers_msg)

lemma genesis_answers:
  assumes "node_ok C n"
  shows "answers C (cmd_genesis C n fs args)"
  unfolding cmd_genesis_def
  by (intro answers_parsed) (auto split: prod.split intro!: answers_run [OF genesis_total [OF assms]])

lemma send_answers:
  assumes "node_ok C n" "node_blocks n < ROOT_CAPACITY"
  shows "answers C (cmd_send C wall n fs args)"
  unfolding cmd_send_def node_send_def
  by (intro answers_parsed) (auto split: prod.split intro!: answers_run [OF send_total [OF assms]])

lemma pool_answers: "node_ok C n \<Longrightarrow> answers C (cmd_pool C n fs args)"
  unfolding cmd_pool_def
  by (intro answers_parsed) (auto split: prod.split intro!: answers_run [OF pool_total])

lemma produce_answers:
  assumes "node_ok C n" "node_blocks n < ROOT_CAPACITY" "length (encode_block_payload (pending_txs C n)) + 72 < 2 ^ 64"
  shows "answers C (cmd_produce C wall n fs args)"
  unfolding cmd_produce_def
  by (intro answers_parsed) (auto intro!: answers_run [OF produce_total [OF assms]])

lemma plain_node:
  assumes "node_ok C n" "node_ledger n = Some l"
  shows "plain_ledger C l" "ledger_inv C l"
  using assms plain_ledgerD(2) [of C l] by (simp_all add: node_ok_def node_plain_def)

lemma balance_answers: "node_ok C n \<Longrightarrow> answers C (cmd_balance h C n fs args)"
  using state_total plain_node(1) [of C n]
  by (fastforce simp: cmd_balance_def node_balance_def ledger_of_def node_msg_def map_err_def split: sum.splits option.splits)

lemma tip_answers: "node_ok C n \<Longrightarrow> answers C (cmd_tip n fs)"
  using selected_tip_ok [OF ledger_invD(1)] plain_node(2) [of C n]
  by (fastforce simp: cmd_tip_def node_selected_tip_def ledger_of_def node_msg_def map_err_def split: option.splits)

lemma write_total: "ledger_inv C l \<Longrightarrow> \<exists>bytes. ledger_write_snapshot l = Some bytes"
  using write_snapshot_eq [OF ledger_invD(1,4)] by (fastforce simp: ledger_write_snapshot_def)

lemma save_answers: "node_ok C n \<Longrightarrow> answers C (cmd_save n fs args)"
  using write_total plain_node(2) [of C n]
  by (fastforce simp: cmd_save_def node_save_def ledger_of_def node_msg_def map_err_def split: sum.splits option.splits)

lemma load_answers:
  assumes "node_ok C n" "\<forall>bs \<in> fmran' fs. length bs \<le> 48 * ROOT_CAPACITY"
  shows "answers C (cmd_load h C n fs args)"
proof (cases "fixed 1 args")
  case (Inr a)
  show ?thesis
  proof (cases "fmlookup fs (a ! 0)")
    case (Some bs)
    then obtain res where "ledger_read_snapshot C bs = Some res" "\<And>l. res = Inr l \<Longrightarrow> plain_ledger C l"
      using read_snapshot_total [of bs C] assms(2) by (meson fmran'I)
    then show ?thesis using Inr Some assms(1)
      by (cases res) (simp_all add: cmd_load_def node_load_def node_msg_def map_err_def node_ok_def node_plain_def)
  next
    case None
    then show ?thesis using Inr by (simp add: cmd_load_def node_msg_def map_err_def)
  qed
qed (simp add: cmd_load_def)

lemma run_answers:
  assumes "node_ok C n" "node_blocks n < ROOT_CAPACITY" "length (encode_block_payload (pending_txs C n)) + 72 < 2 ^ 64"
    "\<forall>bs \<in> fmran' fs. length bs \<le> 48 * ROOT_CAPACITY"
  shows "answers C (rpc_run h C wall n fs line)"
  unfolding rpc_run_def
  by (cases "split_whitespace line")
    (simp_all add: assms(1) genesis_answers [OF assms(1)] send_answers [OF assms(1,2)] pool_answers [OF assms(1)]
      produce_answers [OF assms(1-3)] balance_answers [OF assms(1)] tip_answers [OF assms(1)] save_answers [OF assms(1)]
      load_answers [OF assms(1,4)] answers_rbind answers_msg)

text \<open>
  C12: no line given to the line protocol makes it panic.  On a well-formed node with room in its
  index, over files no longer than a file gets, every line is answered: \<open>ok\<close>, \<open>ok\<close> and a
  message, or \<open>err\<close> and a message; the node stays well formed, and an error leaves node and
  files as they were.
\<close>

theorem rpc_never_panics:
  assumes "node_ok C n" "node_blocks n < ROOT_CAPACITY" "length (encode_block_payload (pending_txs C n)) + 72 < 2 ^ 64"
    "\<forall>bs \<in> fmran' fs. length bs \<le> 48 * ROOT_CAPACITY"
  shows "\<exists>resp n' fs'. execute_line h C wall n fs line = Some (resp, n', fs') \<and> node_ok C n'
    \<and> ((\<exists>msg. resp = ''ok'' \<or> resp = ''ok '' @ msg) \<or> (\<exists>e. resp = ''err '' @ e \<and> n' = n \<and> fs' = fs))"
proof -
  obtain rep where "rpc_run h C wall n fs line = Some rep" "\<And>msg n' fs'. rep = Inr (msg, n', fs') \<Longrightarrow> node_ok C n'"
    using run_answers [OF assms, of h wall line] by (auto simp: answers_def)
  then show ?thesis using assms(1) by (auto simp: execute_line_def split: sum.split)
qed

lemma node_new_ok: "node_ok C node_new"
  by (simp add: node_ok_def node_plain_def pool_wf_def node_new_def mempool_new_def)

lemma node_new_empty: "pending_txs C node_new = []" "node_blocks node_new = 0"
  by (simp_all add: pending_txs_def set_mempool_ordered node_new_def mempool_new_def node_blocks_def flip: set_empty)

lemma no_files: "\<forall>bs \<in> fmran' fmempty. P bs"
  by (auto elim: fmran'E)

theorem rpc_never_panics_witness:
  "\<exists>resp n' fs'. execute_line \<lparr>hex_decode = \<lambda>_. None, missing_file = ''none''\<rparr> byte_crypto 5 node_new fmempty ''send 1 x 2'' = Some (resp, n', fs')"
proof -
  have "node_blocks node_new < ROOT_CAPACITY" "length (encode_block_payload (pending_txs byte_crypto node_new)) + 72 < 2 ^ 64"
    by (simp_all add: node_new_empty ROOT_CAPACITY_def u64_max_def payload_length)
  from rpc_never_panics [OF node_new_ok this no_files] show ?thesis by blast
qed

end
