(* ===== verification/Web.thy ===== *)
theory Web
  imports Rpc P2p
begin

text \<open>
  The text side of \<open>crates/kovanica-node/src/explorer.rs\<close>: reading a request line and its query,
  writing JSON and the HTTP response.  A string is its UTF-8 bytes.
\<close>

section \<open>Text\<close>

text \<open>
  \<open>String::from_utf8_lossy\<close>: of the bytes after a first byte, how many belong to its sequence, and
  whether the sequence is complete; one that is not becomes \<open>U+FFFD\<close>.
\<close>

fun utf8_step :: "byte \<Rightarrow> byte list \<Rightarrow> nat \<times> bool" where
  "utf8_step a bs =
     (if a < 0x80 then (0, True)
      else case bs of
        [] \<Rightarrow> (0, False)
      | b # cs \<Rightarrow>
          if lead_two a then (if cont_byte b then (1, True) else (0, False))
          else if lead_three a b then
            (case cs of c # _ \<Rightarrow> if cont_byte c then (2, True) else (1, False) | [] \<Rightarrow> (1, False))
          else if lead_four a b then
            (case cs of
               [] \<Rightarrow> (1, False)
             | c # ds \<Rightarrow>
                 if \<not> cont_byte c then (1, False)
                 else (case ds of d # _ \<Rightarrow> if cont_byte d then (3, True) else (2, False) | [] \<Rightarrow> (2, False)))
          else (0, False))"

definition replacement :: string where
  "replacement = [CHR 0xEF, CHR 0xBF, CHR 0xBD]"

fun utf8_lossy :: "byte list \<Rightarrow> string" where
  "utf8_lossy [] = []"
| "utf8_lossy (a # bs) =
     (let (k, ok) = utf8_step a bs
      in (if ok then bytes_str (a # take k bs) else replacement) @ utf8_lossy (drop k bs))"

fun all_space :: "nat \<Rightarrow> string \<Rightarrow> bool" where
  "all_space 0 s \<longleftrightarrow> s = []"
| "all_space (Suc k) s \<longleftrightarrow> s = [] \<or> (0 < space_len s \<and> all_space k (drop (space_len s) s))"

text \<open>\<open>str::trim\<close>; the white space of a suffix has at most as many characters as the suffix has bytes.\<close>

fun trim_end :: "string \<Rightarrow> string" where
  "trim_end [] = []"
| "trim_end (c # cs) = (if all_space (Suc (length cs)) (c # cs) then [] else c # trim_end cs)"

fun trim_start :: "nat \<Rightarrow> string \<Rightarrow> string" where
  "trim_start 0 s = s"
| "trim_start (Suc k) s = (if 0 < space_len s then trim_start k (drop (space_len s) s) else s)"

definition trim :: "string \<Rightarrow> string" where
  "trim s = trim_end (trim_start (length s) s)"

text \<open>\<open>split_once\<close>: the text before the first occurrence, and the text after it.\<close>

fun split_once :: "char \<Rightarrow> string \<Rightarrow> (string \<times> string) option" where
  "split_once sep [] = None"
| "split_once sep (c # cs) =
     (if c = sep then Some ([], cs) else map_option (\<lambda>(a, b). (c # a, b)) (split_once sep cs))"

fun split_on :: "char \<Rightarrow> string \<Rightarrow> string list" where
  "split_on sep [] = [[]]"
| "split_on sep (c # cs) =
     (if c = sep then [] # split_on sep cs
      else case split_on sep cs of a # rest \<Rightarrow> (c # a) # rest | [] \<Rightarrow> [[c]])"

definition starts_with :: "string \<Rightarrow> string \<Rightarrow> bool" where
  "starts_with p s \<longleftrightarrow> take (length p) s = p"

text \<open>\<open>trim_start_matches\<close> takes the prefix off as often as it is there.\<close>

fun trim_prefix :: "nat \<Rightarrow> string \<Rightarrow> string \<Rightarrow> string" where
  "trim_prefix 0 p s = s"
| "trim_prefix (Suc k) p s = (if starts_with p s then trim_prefix k p (drop (length p) s) else s)"

section \<open>Requests\<close>

type_synonym query = "(string, string) fmap"

definition urlencoding_decode :: "string \<Rightarrow> string" where
  "urlencoding_decode s = map (\<lambda>c. if c = CHR ''+'' then CHR '' '' else c) s"

fun query_pairs :: "string list \<Rightarrow> query \<Rightarrow> query" where
  "query_pairs [] q = q"
| "query_pairs (pair # rest) q =
     query_pairs rest (case split_once (CHR ''='') pair of None \<Rightarrow> q | Some (k, v) \<Rightarrow> fmupd k (urlencoding_decode v) q)"

definition split_query :: "string \<Rightarrow> string \<times> query" where
  "split_query target =
     (case split_once (CHR ''?'') target of
        None \<Rightarrow> (target, fmempty)
      | Some (path, q) \<Rightarrow> (path, query_pairs (split_on (CHR ''&'') q) fmempty))"

fun first_line :: "string \<Rightarrow> string" where
  "first_line (a # b # cs) = (if a = CHR 0x0D \<and> b = CHR 0x0A then [] else a # first_line (b # cs))"
| "first_line s = s"

text \<open>Method and target of the first line, with the defaults of the source.\<close>

definition request_line :: "byte list \<Rightarrow> string \<times> string" where
  "request_line buf =
     (case split_whitespace (first_line (utf8_lossy buf)) of
        [] \<Rightarrow> (''GET'', ''/'')
      | [m] \<Rightarrow> (m, ''/'')
      | m # t # _ \<Rightarrow> (m, t))"

definition parse_addr :: "host \<Rightarrow> string \<Rightarrow> string + address" where
  "parse_addr h s =
     (case hex_decode h (trim s) of
        None \<Rightarrow> Inl ''address is not hex''
      | Some bs \<Rightarrow> if length bs \<noteq> 32 then Inl ''address must be 32 bytes'' else Inr (Address (from_be_bytes bs)))"

definition parse_sig :: "host \<Rightarrow> string \<Rightarrow> string + 512 word" where
  "parse_sig h s =
     (case hex_decode h (trim s) of
        None \<Rightarrow> Inl ''sig is not hex''
      | Some bs \<Rightarrow> if length bs \<noteq> 64 then Inl ''sig must be 64 bytes'' else Inr (from_be_bytes bs))"

definition parse_u64 :: "query \<Rightarrow> string \<Rightarrow> u64 \<Rightarrow> string + u64" where
  "parse_u64 q key default_value =
     (case fmlookup q key of
        None \<Rightarrow> Inr default_value
      | Some s \<Rightarrow> (case parse_word s of None \<Rightarrow> Inl (''bad '' @ key) | Some w \<Rightarrow> Inr w))"

definition required :: "query \<Rightarrow> string \<Rightarrow> string \<Rightarrow> string + string" where
  "required q key msg = (case fmlookup q key of None \<Rightarrow> Inl msg | Some s \<Rightarrow> Inr s)"

section \<open>JSON\<close>

fun jescape :: "string \<Rightarrow> string" where
  "jescape [] = []"
| "jescape (c # cs) =
     (if c = CHR 0x22 then [CHR 0x5C, CHR 0x22]
      else if c = CHR 0x5C then [CHR 0x5C, CHR 0x5C]
      else if c = CHR 0x0A then [CHR 0x5C, CHR ''n'']
      else [c]) @ jescape cs"

definition jstr :: "string \<Rightarrow> string" where
  "jstr s = CHR 0x22 # jescape s @ [CHR 0x22]"

definition jarr :: "string list \<Rightarrow> string" where
  "jarr items = ''['' @ join '','' items @ '']''"

text \<open>The objects the source writes with \<open>format!\<close>: the names are literals of the source.\<close>

definition jfield :: "string \<times> string \<Rightarrow> string" where
  "jfield f = CHR 0x22 # fst f @ [CHR 0x22, CHR '':''] @ snd f"

definition jobj :: "(string \<times> string) list \<Rightarrow> string" where
  "jobj fs = ''{'' @ join '','' (map jfield fs) @ ''}''"

definition jbool :: "bool \<Rightarrow> string" where
  "jbool b = (if b then ''true'' else ''false'')"

definition jint :: "int \<Rightarrow> string" where
  "jint i = (if i < 0 then CHR ''-'' # decimal (nat (- i)) else decimal (nat i))"

section \<open>Responses\<close>

definition crlf :: string where
  "crlf = [CHR 0x0D, CHR 0x0A]"

definition reason_of :: "nat \<Rightarrow> string" where
  "reason_of code = (if code = 200 then ''OK'' else if code = 400 then ''Bad Request'' else ''Not Found'')"

definition head_lines :: "string list \<Rightarrow> string" where
  "head_lines ls = concat (map (\<lambda>l. l @ crlf) ls) @ crlf"

definition respond :: "nat \<Rightarrow> string \<Rightarrow> string \<Rightarrow> string" where
  "respond code ctype body =
     head_lines [''HTTP/1.1 '' @ decimal code @ '' '' @ reason_of code, ''Content-Type: '' @ ctype,
       ''Content-Length: '' @ decimal (length body), ''Cache-Control: no-store'', ''Connection: close''] @ body"

definition respond_download :: "string \<Rightarrow> string \<Rightarrow> string \<Rightarrow> string" where
  "respond_download ctype filename body =
     head_lines [''HTTP/1.1 200 OK'', ''Content-Type: '' @ ctype,
       ''Content-Disposition: attachment; filename='' @ [CHR 0x22] @ filename @ [CHR 0x22],
       ''Content-Length: '' @ decimal (length body), ''Cache-Control: no-store'', ''Connection: close''] @ body"

end
