(* ===== verification/Explorer.thy ===== *)
theory Explorer
  imports Web
begin

text \<open>
  \<open>crates/kovanica-node/src/explorer.rs\<close>: the state of the explorer, its start, its ticks and the
  actions a request can ask for.  The data directory is a map from file names to contents, whose
  reads and writes succeed.  What lies outside the program is the record \<open>site\<close>: the environment
  variables, the address a listener gets (its first argument tells whether the program already
  listens), the bytes a peer sends (\<open>None\<close>: the connection failed), and the pages compiled in.
  \<open>readings\<close> holds the wall clock: at the \<open>k\<close>-th operation of a request, at the delivery of the
  \<open>i\<close>-th event of the mesh, and at the \<open>i\<close>-th record pulled from a peer.
\<close>

record site = host +
  env_var :: "string \<Rightarrow> string option"
  bind_addr :: "bool \<Rightarrow> string \<Rightarrow> string option"
  page_ui :: string
  page_words :: string
  page_docs :: string
  page_patch :: string

record readings =
  wall_at :: "nat \<Rightarrow> u64"
  event_at :: "nat \<Rightarrow> u64"
  record_at :: "string \<Rightarrow> nat \<Rightarrow> u64"

definition ATOM :: u64 where
  "ATOM = 100000000"

definition GENESIS_SUBSIDY :: u64 where
  "GENESIS_SUBSIDY = 50 * ATOM"

definition GENESIS_PREMINE :: u64 where
  "GENESIS_PREMINE = 50 * ATOM"

definition NETWORK :: string where
  "NETWORK = ''kovanica-testnet-1''"

definition ACTORS :: "u64 list" where
  "ACTORS = [1, 2, 3, 4, 5, 6, 7, 8]"

record explorer =
  app_mesh :: mesh
  app_selected :: name
  app_mining :: bool
  app_ticks :: u64
  app_rotate :: nat
  app_faucet :: bool
  app_allow_reset :: bool
  app_operator :: bool
  app_listen :: bool
  app_listen_addr :: string
  app_peers :: "string list"

section \<open>Environment and files\<close>

definition env_flag :: "site \<Rightarrow> string \<Rightarrow> bool \<Rightarrow> bool" where
  "env_flag w var default_value =
     (case env_var w var of
        Some v \<Rightarrow> v \<in> {''1'', ''true'', ''TRUE'', ''yes'', ''on''}
      | None \<Rightarrow> default_value)"

definition peer_list :: "site \<Rightarrow> string list" where
  "peer_list w =
     (case env_var w ''KOVANICA_PEERS'' of
        None \<Rightarrow> []
      | Some s \<Rightarrow> filter (\<lambda>x. x \<noteq> []) (map trim (split_on (CHR '','') s)))"

definition bind_p2p :: "site \<Rightarrow> bool \<Rightarrow> string option" where
  "bind_p2p w listening = Option.bind (env_var w ''KOVANICA_LISTEN'') (bind_addr w listening)"

definition snap_path :: "name \<Rightarrow> string" where
  "snap_path a = a @ ''.snap''"

definition miner_path :: "name \<Rightarrow> string" where
  "miner_path a = a @ ''.miner''"

text \<open>\<open>Path::extension\<close> of a file name: what follows its last dot, unless that dot starts the name.\<close>

definition extension :: "string \<Rightarrow> string option" where
  "extension f =
     (let stem_rev = dropWhile (\<lambda>c. c \<noteq> CHR ''.'') (rev f)
      in if length stem_rev \<le> 1 then None else Some (rev (takeWhile (\<lambda>c. c \<noteq> CHR ''.'') (rev f))))"

definition wipe_data :: "files \<Rightarrow> files" where
  "wipe_data fs = fmfilter (\<lambda>f. extension f \<noteq> Some ''snap'' \<and> extension f \<noteq> Some ''miner'') fs"

definition read_to_string :: "files \<Rightarrow> string \<Rightarrow> string option" where
  "read_to_string fs f = Option.bind (fmlookup fs f) from_utf8"

text \<open>Save one node: its snapshot if it has a ledger, and its miner if it has one.\<close>

definition persist_node :: "name \<Rightarrow> node_state \<Rightarrow> files \<Rightarrow> files option" where
  "persist_node a n fs = do {
     res \<leftarrow> node_save n;
     let fs = (case res of Inl _ \<Rightarrow> fs | Inr bytes \<Rightarrow> fmupd (snap_path a) bytes fs);
     Some (case node_miner n of
         None \<Rightarrow> fs
       | Some m \<Rightarrow> fmupd (miner_path a) (str_bytes (display_address m)) fs)
   }"

fun persist_names :: "mesh \<Rightarrow> name list \<Rightarrow> files \<Rightarrow> files option" where
  "persist_names m [] fs = Some fs"
| "persist_names m (a # rest) fs = do {
     fs \<leftarrow> (case mesh_node m a of None \<Rightarrow> Some fs | Some n \<Rightarrow> persist_node a n fs);
     persist_names m rest fs
   }"

definition persist_all :: "mesh \<Rightarrow> files \<Rightarrow> files option" where
  "persist_all m fs = persist_names m (mesh_names m) fs"

definition ensure_network :: "files \<Rightarrow> files" where
  "ensure_network fs =
     (if map_option trim (read_to_string fs ''network'') = Some NETWORK then fs
      else fmupd ''network'' (str_bytes NETWORK) (wipe_data fs))"

section \<open>Starting\<close>

definition switch_pow :: "site \<Rightarrow> node_state \<Rightarrow> node_state" where
  "switch_pow w n =
     (if env_flag w ''KOVANICA_POW'' True
      then case node_set_proof_of_work n True of Inl _ \<Rightarrow> n | Inr n \<Rightarrow> n
      else n)"

definition genesis_node :: "site \<Rightarrow> ('sk, 'vk) crypto \<Rightarrow> node_state option" where
  "genesis_node w C = do {
     res \<leftarrow> node_genesis C (set_now_ms node_new (1700000000000 + 1000)) 3 GENESIS_SUBSIDY GENESIS_PREMINE 1;
     (case res of Inl _ \<Rightarrow> None | Inr (_, n) \<Rightarrow> Some (switch_pow w n))
   }"

definition load_miner :: "site \<Rightarrow> ('sk, 'vk) crypto \<Rightarrow> files \<Rightarrow> name \<Rightarrow> node_state \<Rightarrow> node_state" where
  "load_miner w C fs a n =
     (case read_to_string fs (miner_path a) of
        None \<Rightarrow> set_miner n (node_address C 1)
      | Some h \<Rightarrow> (case parse_addr (host.truncate w) (trim h) of Inl _ \<Rightarrow> n | Inr addr \<Rightarrow> set_miner n addr))"

definition load_or_genesis :: "site \<Rightarrow> ('sk, 'vk) crypto \<Rightarrow> files \<Rightarrow> name \<Rightarrow> node_state option" where
  "load_or_genesis w C fs a =
     (case fmlookup fs (snap_path a) of
        None \<Rightarrow> genesis_node w C
      | Some bytes \<Rightarrow> do {
          res \<leftarrow> node_load C node_new bytes;
          (case res of
             Inl _ \<Rightarrow> genesis_node w C
           | Inr n \<Rightarrow> Some (switch_pow w (load_miner w C fs a n)))
        })"

text \<open>\<open>let _ = mesh.connect(..)\<close>.\<close>

definition try_connect :: "name \<Rightarrow> name \<Rightarrow> mesh \<Rightarrow> mesh" where
  "try_connect a b m = (case mesh_connect m a b of Inl _ \<Rightarrow> m | Inr m \<Rightarrow> m)"

definition line_mesh :: "site \<Rightarrow> ('sk, 'vk) crypto \<Rightarrow> mesh option" where
  "line_mesh w C = do {
     alpha \<leftarrow> genesis_node w C;
     beta \<leftarrow> genesis_node w C;
     gamma \<leftarrow> genesis_node w C;
     let m = mesh_add (mesh_add (mesh_add mesh_new ''alpha'' alpha) ''beta'' beta) ''gamma'' gamma;
     Some (try_connect ''beta'' ''gamma'' (try_connect ''alpha'' ''beta'' m))
   }"

definition boot :: "site \<Rightarrow> ('sk, 'vk) crypto \<Rightarrow> readings \<Rightarrow> explorer option" where
  "boot w C t = do {
     m \<leftarrow> line_mesh w C;
     (_, m) \<leftarrow> drain C (event_at t) 16 m;
     Some \<lparr>app_mesh = m, app_selected = ''alpha'', app_mining = False, app_ticks = 0, app_rotate = 0,
       app_faucet = True, app_allow_reset = True, app_operator = True, app_listen = False,
       app_listen_addr = [], app_peers = []\<rparr>
   }"

definition boot_mesh :: "site \<Rightarrow> ('sk, 'vk) crypto \<Rightarrow> files \<Rightarrow> mesh option" where
  "boot_mesh w C fs = do {
     alpha \<leftarrow> load_or_genesis w C fs ''alpha'';
     let m = mesh_add mesh_new ''alpha'' alpha;
     if env_flag w ''KOVANICA_DEMO_MESH'' False
     then do {
       beta \<leftarrow> load_or_genesis w C fs ''beta'';
       let m = mesh_add m ''beta'' beta;
       gamma \<leftarrow> load_or_genesis w C fs ''gamma'';
       let m = mesh_add m ''gamma'' gamma;
       Some (try_connect ''beta'' ''gamma'' (try_connect ''alpha'' ''beta'' m))
     }
     else Some m
   }"

text \<open>\<open>listening\<close> tells whether the program already holds a listener, as it does at a reset.\<close>

definition boot_persist ::
    "site \<Rightarrow> ('sk, 'vk) crypto \<Rightarrow> readings \<Rightarrow> bool \<Rightarrow> files \<Rightarrow> (explorer \<times> files) option" where
  "boot_persist w C t listening fs = do {
     let fs = ensure_network fs;
     m \<leftarrow> boot_mesh w C fs;
     (_, m) \<leftarrow> drain C (event_at t) 16 m;
     fs \<leftarrow> persist_all m fs;
     let listen = bind_p2p w listening;
     Some (\<lparr>app_mesh = m, app_selected = ''alpha'', app_mining = env_flag w ''KOVANICA_MINE'' False,
       app_ticks = 0, app_rotate = 0, app_faucet = env_flag w ''KOVANICA_FAUCET'' False,
       app_allow_reset = env_flag w ''KOVANICA_ALLOW_RESET'' False,
       app_operator = env_flag w ''KOVANICA_OPERATOR'' False,
       app_listen = (listen \<noteq> None),
       app_listen_addr = (case listen of None \<Rightarrow> [] | Some a \<Rightarrow> a),
       app_peers = peer_list w\<rparr>, fs)
   }"

definition select :: "explorer \<Rightarrow> name \<Rightarrow> explorer" where
  "select app a = (if mesh_node (app_mesh app) a \<noteq> None then app\<lparr>app_selected := a\<rparr> else app)"

section \<open>Ticks\<close>

text \<open>One connection accepted: the stream of all blocks of \<open>alpha\<close>, if the listener is there.\<close>

definition serve_peer :: "explorer \<Rightarrow> (byte list option) option" where
  "serve_peer app =
     (if \<not> app_listen app then Some None
      else case mesh_node (app_mesh app) ''alpha'' of
        None \<Rightarrow> Some None
      | Some n \<Rightarrow> do { bytes \<leftarrow> serve_blocks n; Some (Some bytes) })"

fun pull_peers ::
    "('sk, 'vk) crypto \<Rightarrow> readings \<Rightarrow> (string \<Rightarrow> byte list option) \<Rightarrow> string list \<Rightarrow> node_state \<Rightarrow> node_state option" where
  "pull_peers C t fetch [] n = Some n"
| "pull_peers C t fetch (a # rest) n = do {
     n \<leftarrow> (case fetch a of
             None \<Rightarrow> Some n
           | Some buf \<Rightarrow> map_option fst (pull_blocks C (record_at t a) buf n));
     pull_peers C t fetch rest n
   }"

definition pull_alpha ::
    "('sk, 'vk) crypto \<Rightarrow> readings \<Rightarrow> (string \<Rightarrow> byte list option) \<Rightarrow> explorer \<Rightarrow> mesh option" where
  "pull_alpha C t fetch app =
     (case mesh_node (app_mesh app) ''alpha'' of
        None \<Rightarrow> Some (app_mesh app)
      | Some n \<Rightarrow> do {
          n \<leftarrow> pull_peers C t fetch (app_peers app) n;
          Some (with_node_mut (\<lambda>_. n) (app_mesh app) ''alpha'')
        })"

text \<open>\<open>conn\<close>: a peer has connected to the listener since the last tick.  The bytes sent to it come first.\<close>

definition tick_p2p ::
    "('sk, 'vk) crypto \<Rightarrow> readings \<Rightarrow> bool \<Rightarrow> (string \<Rightarrow> byte list option) \<Rightarrow> explorer \<Rightarrow> files
     \<Rightarrow> (byte list option \<times> explorer \<times> files) option" where
  "tick_p2p C t conn fetch app fs = do {
     sent \<leftarrow> (if conn then serve_peer app else Some None);
     if app_peers app \<noteq> [] \<and> app_ticks app mod 250 = 0
     then do {
       m \<leftarrow> pull_alpha C t fetch app;
       fs \<leftarrow> persist_all m fs;
       Some (sent, app\<lparr>app_mesh := m\<rparr>, fs)
     }
     else Some (sent, app, fs)
   }"

definition mine_turn :: "('sk, 'vk) crypto \<Rightarrow> readings \<Rightarrow> explorer \<Rightarrow> files \<Rightarrow> (explorer \<times> files) option" where
  "mine_turn C t app fs =
     (let names = mesh_names (app_mesh app) in
      if names = [] then Some (app, fs)
      else do {
        res \<leftarrow> mesh_produce_empty C (wall_at t 0) (app_mesh app) (names ! (app_rotate app mod length names));
        let m = (case res of Inl _ \<Rightarrow> app_mesh app | Inr (_, m) \<Rightarrow> m);
        fs \<leftarrow> persist_all m fs;
        Some (app\<lparr>app_mesh := m, app_rotate := app_rotate app + 1\<rparr>, fs)
      })"

definition app_tick ::
    "('sk, 'vk) crypto \<Rightarrow> readings \<Rightarrow> bool \<Rightarrow> (string \<Rightarrow> byte list option) \<Rightarrow> explorer \<Rightarrow> files
     \<Rightarrow> (byte list option \<times> explorer \<times> files) option" where
  "app_tick C t conn fetch app fs = do {
     (_, m) \<leftarrow> tick C (event_at t) (app_mesh app);
     (sent, app, fs) \<leftarrow> tick_p2p C t conn fetch (app\<lparr>app_mesh := m, app_ticks := app_ticks app + 1\<rparr>) fs;
     if app_mining app \<and> app_ticks app mod 120 = 0
     then do { (app, fs) \<leftarrow> mine_turn C t app fs; Some (sent, app, fs) }
     else Some (sent, app, fs)
   }"

section \<open>Actions\<close>

type_synonym result = "string + string \<times> explorer \<times> files"

definition p2p_msg :: "p2p_error + 'a \<Rightarrow> string + 'a" where
  "p2p_msg = map_err display_p2p_error"

definition ok_json :: string where
  "ok_json = jobj [(''ok'', jbool True)]"

text \<open>\<open>app.mesh.drain(8)\<close>, then the answer.\<close>

definition drained ::
    "('sk, 'vk) crypto \<Rightarrow> readings \<Rightarrow> explorer \<Rightarrow> files \<Rightarrow> string \<Rightarrow> result option" where
  "drained C t app fs body = do {
     (_, m) \<leftarrow> drain C (event_at t) 8 (app_mesh app);
     Some (Inr (body, app\<lparr>app_mesh := m\<rparr>, fs))
   }"

text \<open>Run an operation of the mesh; an error is answered with its text, otherwise drain and answer.\<close>

definition mesh_action ::
    "('sk, 'vk) crypto \<Rightarrow> readings \<Rightarrow> explorer \<Rightarrow> files \<Rightarrow> (p2p_error + 'a \<times> mesh) option \<Rightarrow> ('a \<Rightarrow> string)
     \<Rightarrow> result option" where
  "mesh_action C t app fs run text = do {
     res \<leftarrow> run;
     (case p2p_msg res of
        Inl e \<Rightarrow> Some (Inl e)
      | Inr (x, m) \<Rightarrow> drained C t (app\<lparr>app_mesh := m\<rparr>) fs (text x))
   }"

text \<open>\<open>let _ = ..\<close> on an operation of the mesh.\<close>

definition try_mesh :: "(p2p_error + 'a \<times> mesh) option \<Rightarrow> mesh \<Rightarrow> mesh option" where
  "try_mesh run m = do { res \<leftarrow> run; Some (case res of Inl _ \<Rightarrow> m | Inr (_, m) \<Rightarrow> m) }"

definition act_produce ::
    "('sk, 'vk) crypto \<Rightarrow> readings \<Rightarrow> explorer \<Rightarrow> files \<Rightarrow> name \<Rightarrow> result option" where
  "act_produce C t app fs node = do {
     res \<leftarrow> mesh_produce C (wall_at t 0) (app_mesh app) node;
     (case p2p_msg res of
        Inl e \<Rightarrow> Some (Inl e)
      | Inr (Some _, m) \<Rightarrow> drained C t (app\<lparr>app_mesh := m\<rparr>) fs ok_json
      | Inr (None, m) \<Rightarrow>
          if \<not> app_operator app then Some (Inl ''mempool empty'')
          else mesh_action C t app fs (mesh_produce_empty C (wall_at t 1) m node) (\<lambda>_. ok_json))
   }"

definition transfer_args :: "query \<Rightarrow> string + u64 \<times> u64 \<times> u64" where
  "transfer_args q =
     rbind (parse_u64 q ''from'' 1) (\<lambda>from. rbind (parse_u64 q ''amount'' 50) (\<lambda>amount.
     rbind (parse_u64 q ''to'' 2) (\<lambda>to. Inr (from, amount, to))))"

definition act_send ::
    "('sk, 'vk) crypto \<Rightarrow> readings \<Rightarrow> explorer \<Rightarrow> files \<Rightarrow> query \<Rightarrow> name \<Rightarrow> result option" where
  "act_send C t app fs q node =
     (case transfer_args q of
        Inl e \<Rightarrow> Some (Inl e)
      | Inr (src, amount, dst) \<Rightarrow>
          mesh_action C t app fs (mesh_send C (wall_at t 0) (app_mesh app) node src amount dst) (\<lambda>_. ok_json))"

definition act_pool ::
    "('sk, 'vk) crypto \<Rightarrow> readings \<Rightarrow> explorer \<Rightarrow> files \<Rightarrow> query \<Rightarrow> name \<Rightarrow> result option" where
  "act_pool C t app fs q node =
     (case transfer_args q of
        Inl e \<Rightarrow> Some (Inl e)
      | Inr (src, amount, dst) \<Rightarrow>
          mesh_action C t app fs (mesh_pool C (app_mesh app) node src amount dst) (\<lambda>_. ok_json))"

definition act_parallel ::
    "('sk, 'vk) crypto \<Rightarrow> readings \<Rightarrow> explorer \<Rightarrow> files \<Rightarrow> result option" where
  "act_parallel C t app fs = do {
     m \<leftarrow> try_mesh (mesh_send C (wall_at t 0) (app_mesh app) ''alpha'' 1 ATOM 2) (app_mesh app);
     m \<leftarrow> try_mesh (mesh_send C (wall_at t 1) m ''beta'' 1 ATOM 3) m;
     drained C t (app\<lparr>app_mesh := m\<rparr>) fs ok_json
   }"

text \<open>The loop of \<open>fork\<close>: an empty block at every node, errors ignored.\<close>

fun fork_loop :: "('sk, 'vk) crypto \<Rightarrow> readings \<Rightarrow> nat \<Rightarrow> name list \<Rightarrow> mesh \<Rightarrow> mesh option" where
  "fork_loop C t k [] m = Some m"
| "fork_loop C t k (a # rest) m = do {
     m \<leftarrow> try_mesh (mesh_produce_empty C (wall_at t k) m a) m;
     fork_loop C t (Suc k) rest m
   }"

definition act_fork :: "('sk, 'vk) crypto \<Rightarrow> readings \<Rightarrow> explorer \<Rightarrow> files \<Rightarrow> result option" where
  "act_fork C t app fs = do {
     m \<leftarrow> fork_loop C t 0 (mesh_names (app_mesh app)) (app_mesh app);
     drained C t (app\<lparr>app_mesh := m\<rparr>) fs ok_json
   }"

definition act_mining :: "('sk, 'vk) crypto \<Rightarrow> readings \<Rightarrow> explorer \<Rightarrow> files \<Rightarrow> query \<Rightarrow> result option" where
  "act_mining C t app fs q =
     drained C t (app\<lparr>app_mining := (case fmlookup q ''on'' of Some v \<Rightarrow> v \<noteq> ''0'' | None \<Rightarrow> True)\<rparr>) fs ok_json"

definition act_miner :: "site \<Rightarrow> explorer \<Rightarrow> files \<Rightarrow> query \<Rightarrow> name \<Rightarrow> result" where
  "act_miner w app fs q node =
     rbind (required q ''addr'' ''addr required'') (\<lambda>s. rbind (parse_addr (host.truncate w) s) (\<lambda>addr.
       case mesh_node (app_mesh app) node of
         None \<Rightarrow> Inl ''unknown node''
       | Some _ \<Rightarrow>
           Inr (jobj [(''ok'', jbool True), (''miner'', jstr (display_address addr))],
                app\<lparr>app_mesh := with_node_mut (\<lambda>n. set_miner n addr) (app_mesh app) node\<rparr>, fs)))"

definition act_reset ::
    "site \<Rightarrow> ('sk, 'vk) crypto \<Rightarrow> readings \<Rightarrow> explorer \<Rightarrow> files \<Rightarrow> result option" where
  "act_reset w C t app fs =
     (if \<not> app_allow_reset app then Some (Inl ''reset disabled on this network'')
      else do {
        (app, fs) \<leftarrow> boot_persist w C t (app_listen app) (wipe_data fs);
        drained C t app fs ok_json
      })"

definition from_to :: "site \<Rightarrow> query \<Rightarrow> string + address \<times> address" where
  "from_to w q =
     rbind (required q ''from'' ''from address required'') (\<lambda>s. rbind (parse_addr (host.truncate w) s) (\<lambda>from.
     rbind (required q ''to'' ''to address required'') (\<lambda>s. rbind (parse_addr (host.truncate w) s) (\<lambda>to.
     Inr (from, to)))))"

definition act_prepare ::
    "site \<Rightarrow> ('sk, 'vk) crypto \<Rightarrow> explorer \<Rightarrow> files \<Rightarrow> query \<Rightarrow> name \<Rightarrow> result option" where
  "act_prepare w C app fs q node =
     (case rbind (from_to w q) (\<lambda>(src, dst). rbind (parse_u64 q ''amount'' 0) (\<lambda>amount.
        case mesh_node (app_mesh app) node of None \<Rightarrow> Inl ''unknown node'' | Some n \<Rightarrow> Inr (src, dst, amount, n))) of
        Inl e \<Rightarrow> Some (Inl e)
      | Inr (src, dst, amount, n) \<Rightarrow> do {
          res \<leftarrow> prepare_transfer C n src amount dst;
          Some (rbind (node_msg res) (\<lambda>p. Inr (jobj [
            (''ok'', jbool True),
            (''sighash'', jstr (to_hex (prep_sighash p))),
            (''value'', display_word (prep_value p)),
            (''fee'', display_word (prep_fee p)),
            (''change'', display_word (saturating_sub (prep_value p) (saturating_add amount (prep_fee p)))),
            (''outpoint'', jobj [(''tx'', jstr (display_tx_id (op_tx (prep_outpoint p)))),
                                 (''index'', display_word (op_index (prep_outpoint p)))])], app, fs)))
        })"

definition act_submit ::
    "site \<Rightarrow> ('sk, 'vk) crypto \<Rightarrow> readings \<Rightarrow> explorer \<Rightarrow> files \<Rightarrow> query \<Rightarrow> name \<Rightarrow> result option" where
  "act_submit w C t app fs q node =
     (case rbind (from_to w q) (\<lambda>(src, dst). rbind (parse_u64 q ''amount'' 0) (\<lambda>amount.
        rbind (required q ''sig'' ''sig required'') (\<lambda>s. rbind (parse_sig (host.truncate w) s) (\<lambda>sg. Inr (src, dst, amount, sg))))) of
        Inl e \<Rightarrow> Some (Inl e)
      | Inr (src, dst, amount, sg) \<Rightarrow>
          mesh_action C t app fs (mesh_submit_signed C (app_mesh app) node src amount dst sg)
            (\<lambda>i. jobj [(''ok'', jbool True), (''tx'', jstr (display_tx_id i))]))"

definition act_faucet ::
    "site \<Rightarrow> ('sk, 'vk) crypto \<Rightarrow> readings \<Rightarrow> explorer \<Rightarrow> files \<Rightarrow> query \<Rightarrow> name \<Rightarrow> result option" where
  "act_faucet w C t app fs q node =
     (if \<not> app_faucet app then Some (Inl ''faucet disabled'')
      else case rbind (required q ''to'' ''to address required'') (\<lambda>s. rbind (parse_addr (host.truncate w) s) (\<lambda>dst.
             rbind (parse_u64 q ''amount'' ATOM) (\<lambda>amount. Inr (dst, amount)))) of
        Inl e \<Rightarrow> Some (Inl e)
      | Inr (dst, amount) \<Rightarrow>
          mesh_action C t app fs (mesh_send_to C (wall_at t 0) (app_mesh app) node 1 amount dst)
            (\<lambda>b. jobj [(''ok'', jbool True), (''block'', jstr (display_block_id b))]))"

definition operator_actions :: "string list" where
  "operator_actions = [''empty'', ''send'', ''pool'', ''parallel'', ''fork'', ''mining'', ''miner'']"

definition operator_action ::
    "site \<Rightarrow> ('sk, 'vk) crypto \<Rightarrow> readings \<Rightarrow> explorer \<Rightarrow> files \<Rightarrow> string \<Rightarrow> query \<Rightarrow> name \<Rightarrow> result option" where
  "operator_action w C t app fs action q node =
     (if action = ''empty'' then
        mesh_action C t app fs (mesh_produce_empty C (wall_at t 0) (app_mesh app) node) (\<lambda>_. ok_json)
      else if action = ''send'' then act_send C t app fs q node
      else if action = ''pool'' then act_pool C t app fs q node
      else if action = ''parallel'' then act_parallel C t app fs
      else if action = ''fork'' then act_fork C t app fs
      else if action = ''mining'' then act_mining C t app fs q
      else Some (act_miner w app fs q node))"

definition query_node :: "explorer \<Rightarrow> query \<Rightarrow> name" where
  "query_node app q = (case fmlookup q ''node'' of Some a \<Rightarrow> a | None \<Rightarrow> app_selected app)"

definition dispatch ::
    "site \<Rightarrow> ('sk, 'vk) crypto \<Rightarrow> readings \<Rightarrow> explorer \<Rightarrow> files \<Rightarrow> string \<Rightarrow> query \<Rightarrow> result option" where
  "dispatch w C t app fs action q =
     (let node = query_node app q in
      if action = ''produce'' then act_produce C t app fs node
      else if action \<in> set operator_actions then
        (if \<not> app_operator app then Some (Inl ''operator only'')
         else operator_action w C t app fs action q node)
      else if action = ''reset'' then act_reset w C t app fs
      else if action = ''prepare'' then act_prepare w C app fs q node
      else if action = ''submit'' then act_submit w C t app fs q node
      else if action = ''faucet'' then act_faucet w C t app fs q node
      else Some (Inl (''unknown action '' @ action)))"

end
