(* ===== verification/Pages.thy ===== *)
theory Pages
  imports Explorer
begin

text \<open>
  The JSON views of \<open>crates/kovanica-node/src/explorer.rs\<close>.  \<open>None\<close> is a panic, one of the two \<open>expect\<close>s of
  \<open>snapshot\<close> included.
\<close>

section \<open>Transactions and blocks\<close>

definition output_json :: "tx_output \<Rightarrow> string" where
  "output_json out = jobj [(''value'', display_word (out_value out)), (''owner'', jstr (display_address (owner out)))]"

definition tx_json :: "('sk, 'vk) crypto \<Rightarrow> transaction \<Rightarrow> string" where
  "tx_json C tx = jobj [
     (''id'', jstr (display_tx_id (tx_ident C tx))),
     (''coinbase'', jbool (is_coinbase tx)),
     (''inputs'', decimal (length (inputs tx))),
     (''outputs'', jarr (map output_json (outputs tx)))]"

definition pending_fee :: "('sk, 'vk) crypto \<Rightarrow> node_state \<Rightarrow> transaction \<Rightarrow> u64 option" where
  "pending_fee C n tx =
     (case ledger_of n of
        Inl _ \<Rightarrow> Some 0
      | Inr l \<Rightarrow> do { u \<leftarrow> ledger_state C l; Some (fee_of u tx) })"

definition pending_json :: "('sk, 'vk) crypto \<Rightarrow> node_state \<Rightarrow> transaction \<Rightarrow> string option" where
  "pending_json C n tx = do {
     fee \<leftarrow> pending_fee C n tx;
     Some (jobj [
       (''id'', jstr (display_tx_id (tx_ident C tx))),
       (''coinbase'', jbool (is_coinbase tx)),
       (''fee'', display_word fee),
       (''inputs'', decimal (length (inputs tx))),
       (''outputs'', jarr (map output_json (outputs tx)))])
   }"

text \<open>A loop that builds one text for each element.\<close>

fun each :: "('a \<Rightarrow> string option) \<Rightarrow> 'a list \<Rightarrow> string list option" where
  "each f [] = Some []"
| "each f (x # xs) = do { s \<leftarrow> f x; ss \<leftarrow> each f xs; Some (s # ss) }"

definition wallet_json :: "('sk, 'vk) crypto \<Rightarrow> node_state \<Rightarrow> u64 \<Rightarrow> string option" where
  "wallet_json C n seed = do {
     let addr = node_address C seed;
     res \<leftarrow> node_balance C n addr;
     Some (jobj [
       (''seed'', display_word seed),
       (''address'', jstr (display_address addr)),
       (''balance'', display_word (case res of Inl _ \<Rightarrow> 0 | Inr b \<Rightarrow> b))])
   }"

definition wallets_json :: "('sk, 'vk) crypto \<Rightarrow> node_state \<Rightarrow> string option" where
  "wallets_json C n = map_option jarr (each (wallet_json C n) ACTORS)"

definition colour_of :: "block_id \<Rightarrow> block_id \<Rightarrow> block_id list \<Rightarrow> block_id fset \<Rightarrow> string" where
  "colour_of i g chain blue =
     (if i = g then ''genesis'' else if i \<in> set chain then ''chain'' else if i |\<in>| blue then ''blue'' else ''red'')"

definition block_json ::
    "('sk, 'vk) crypto \<Rightarrow> node_state \<Rightarrow> dag \<Rightarrow> block_id list \<Rightarrow> block_id fset \<Rightarrow> block_id \<Rightarrow> string option" where
  "block_json C n d chain blue i = do {
     r \<leftarrow> node_block_record n i;
     g \<leftarrow> dag_ghostdag d i;
     Some (jobj [
       (''id'', jstr (display_block_id i)),
       (''parents'', jarr (map (\<lambda>p. jstr (display_block_id p)) (rec_parents r))),
       (''selected_parent'', case selected_parent g of Some sp \<Rightarrow> jstr (display_block_id sp) | None \<Rightarrow> ''null''),
       (''work'', display_word (rec_work r)),
       (''timestamp_ms'', display_word (rec_timestamp_ms r)),
       (''nonce'', display_word (rec_nonce r)),
       (''blue_score'', decimal (blue_score g)),
       (''colour'', jstr (colour_of i (genesis d) chain blue)),
       (''txs'', jarr (map (tx_json C) (rec_txs r)))])
   }"

text \<open>\<open>selected_tip().map(|t| t.to_string()).unwrap_or_default()\<close>.\<close>

definition tip_text :: "node_state \<Rightarrow> string option" where
  "tip_text n = do { res \<leftarrow> node_selected_tip n; Some (case res of Inl _ \<Rightarrow> [] | Inr t \<Rightarrow> display_block_id t) }"

definition ledger_json :: "('sk, 'vk) crypto \<Rightarrow> node_state \<Rightarrow> ledger \<Rightarrow> string option" where
  "ledger_json C n l = do {
     let d = ledger_dag l;
     tip \<leftarrow> tip_text n;
     chain \<leftarrow> selected_chain d;
     tip_id \<leftarrow> selected_tip d;
     let gd = dag_ghostdag d tip_id;
     let blue = (case gd of None \<Rightarrow> {||} | Some g \<Rightarrow> fmdom (blue_anticone_sizes g));
     order \<leftarrow> linearize d;
     let records = List.map_filter (node_block_record n) order;
     pending \<leftarrow> each (pending_json C n) (pending_txs C n);
     utxo \<leftarrow> ledger_state C l;
     Some (jobj [
       (''blocks'', decimal (dag_len d)),
       (''tips'', jarr (map (\<lambda>t. jstr (display_block_id t)) (tips_list d))),
       (''selected_tip'', jstr tip),
       (''blue_score'', decimal (case gd of None \<Rightarrow> 0 | Some g \<Rightarrow> blue_score g)),
       (''blue_work'', display_word (case gd of None \<Rightarrow> 0 | Some g \<Rightarrow> blue_work g)),
       (''k'', display_word (dag_k d)),
       (''subsidy'', display_word (subsidy l)),
       (''issuance'', display_word (case issuance n of Inl _ \<Rightarrow> 0 | Inr s \<Rightarrow> s)),
       (''halving_era'', display_word HALVING_ERA),
       (''min_fee'', display_word (min_fee n)),
       (''genesis'', jstr (display_block_id (ledger_genesis l))),
       (''supply'', display_word (total_value utxo)),
       (''token'', jstr ''KVNC''),
       (''decimals'', decimal 8),
       (''miner'', case node_miner n of Some m \<Rightarrow> jstr (display_address m) | None \<Rightarrow> ''null''),
       (''atom'', display_word ATOM),
       (''pow'', jbool (node_proof_of_work n)),
       (''ui'', jstr ''v5''),
       (''utxos'', decimal (utxo_len utxo)),
       (''chain_len'', decimal (length chain)),
       (''mempool'', decimal (pending_count n)),
       (''tx_count'', decimal (sum_list (map (\<lambda>r. length (rec_txs r)) records))),
       (''dag'', jarr (List.map_filter (block_json C n d chain blue) order)),
       (''order'', jarr (map (\<lambda>i. jstr (display_block_id i)) order)),
       (''pending'', jarr pending)])
   }"

definition node_json :: "('sk, 'vk) crypto \<Rightarrow> node_state \<Rightarrow> string option" where
  "node_json C n =
     (case ledger_of n of
        Inl _ \<Rightarrow> Some (jobj [(''blocks'', decimal 0), (''dag'', jarr []), (''order'', jarr []), (''tips'', jarr []), (''pending'', jarr [])])
      | Inr l \<Rightarrow> ledger_json C n l)"

section \<open>The whole state\<close>

definition count_of :: "node_state \<Rightarrow> nat" where
  "count_of n = (case block_count n of Inl _ \<Rightarrow> 0 | Inr k \<Rightarrow> k)"

definition mesh_node_json :: "mesh \<Rightarrow> name \<Rightarrow> string option" where
  "mesh_node_json m a = do {
     n \<leftarrow> mesh_node m a;
     tip \<leftarrow> tip_text n;
     Some (jobj [
       (''name'', jstr a),
       (''blocks'', decimal (count_of n)),
       (''tip'', jstr tip),
       (''peers'', jarr (map jstr (peers_of m a))),
       (''mempool'', decimal (pending_count n))])
   }"

fun kind_text :: "gossip_kind \<Rightarrow> string" where
  "kind_text HelloKind = ''hello''"
| "kind_text BlockKind = ''block''"
| "kind_text TxKind = ''tx''"

definition event_json :: "gossip_event \<Rightarrow> string" where
  "event_json e = jobj [
     (''at'', display_word (ev_at e)),
     (''from'', jstr (ev_from e)),
     (''to'', jstr (ev_to e)),
     (''kind'', jstr (kind_text (ev_kind e)))]"

definition snapshot :: "('sk, 'vk) crypto \<Rightarrow> explorer \<Rightarrow> string option" where
  "snapshot C app = do {
     let m = app_mesh app;
     n \<leftarrow> mesh_node m (app_selected app);
     ns \<leftarrow> each (mesh_node_json m) (mesh_names m);
     let events = map event_json (take 48 (rev (mesh_events m)));
     node \<leftarrow> node_json C n;
     wallets \<leftarrow> wallets_json C n;
     Some (jobj [
       (''selected'', jstr (app_selected app)),
       (''mining'', jbool (app_mining app)),
       (''faucet'', jbool (app_faucet app)),
       (''allow_reset'', jbool (app_allow_reset app)),
       (''operator'', jbool (app_operator app)),
       (''network'', jstr NETWORK),
       (''listen'', jstr (app_listen_addr app)),
       (''peers'', jarr (map jstr (app_peers app))),
       (''mesh'', jobj [
         (''now'', display_word (mesh_now m)),
         (''queued'', decimal (mesh_queued m)),
         (''nodes'', jarr ns),
         (''events'', jarr events)]),
       (''node'', node),
       (''wallets'', wallets)])
   }"

section \<open>Wallet queries\<close>

text \<open>What a transaction gives an address: the outputs it creates less the known outputs it spends.\<close>

definition spent_output :: "(tx_id, transaction) fmap \<Rightarrow> tx_input \<Rightarrow> tx_output option" where
  "spent_output by_id inp = do {
     prev \<leftarrow> fmlookup by_id (op_tx (outpoint inp));
     (let k = unat (op_index (outpoint inp)) in if k < length (outputs prev) then Some (outputs prev ! k) else None)
   }"

definition owned :: "address \<Rightarrow> tx_output list \<Rightarrow> int" where
  "owned a outs = sum_list (map (\<lambda>out. if owner out = a then uint (out_value out) else 0) outs)"

definition tx_delta :: "(tx_id, transaction) fmap \<Rightarrow> address \<Rightarrow> transaction \<Rightarrow> int" where
  "tx_delta by_id a tx = owned a (outputs tx) - owned a (List.map_filter (spent_output by_id) (inputs tx))"

definition delta_kind :: "transaction \<Rightarrow> int \<Rightarrow> string" where
  "delta_kind tx delta = (if is_coinbase tx then ''coinbase'' else if 0 < delta then ''in'' else ''out'')"

text \<open>The entries of the history: block, transaction and its change, for changes other than zero.\<close>

definition history_items ::
    "node_state \<Rightarrow> block_id list \<Rightarrow> (tx_id, transaction) fmap \<Rightarrow> address \<Rightarrow> (block_id \<times> transaction \<times> int) list" where
  "history_items n order by_id a =
     filter (\<lambda>(i, tx, delta). delta \<noteq> 0)
       (concat (map (\<lambda>i. case node_block_record n i of
            None \<Rightarrow> []
          | Some r \<Rightarrow> map (\<lambda>tx. (i, tx, tx_delta by_id a tx)) (rec_txs r)) order))"

definition txs_by_id :: "('sk, 'vk) crypto \<Rightarrow> node_state \<Rightarrow> block_id list \<Rightarrow> (tx_id, transaction) fmap" where
  "txs_by_id C n order =
     fold (\<lambda>tx m. fmupd (tx_ident C tx) tx m) (concat (map rec_txs (List.map_filter (node_block_record n) order))) fmempty"

definition history_item_json :: "('sk, 'vk) crypto \<Rightarrow> block_id \<times> transaction \<times> int \<Rightarrow> string" where
  "history_item_json C = (\<lambda>(i, tx, delta). jobj [
     (''block'', jstr (display_block_id i)),
     (''tx'', jstr (display_tx_id (tx_ident C tx))),
     (''kind'', jstr (delta_kind tx delta)),
     (''delta'', jint delta)])"

text \<open>The address and the node both wallet queries name.\<close>

definition wallet_query :: "site \<Rightarrow> explorer \<Rightarrow> query \<Rightarrow> string + address \<times> node_state" where
  "wallet_query w app q =
     rbind (required q ''address'' ''address required'') (\<lambda>s. rbind (parse_addr (host.truncate w) s) (\<lambda>a.
       case mesh_node (app_mesh app) (query_node app q) of None \<Rightarrow> Inl ''unknown node'' | Some n \<Rightarrow> Inr (a, n)))"

definition history_json :: "site \<Rightarrow> ('sk, 'vk) crypto \<Rightarrow> explorer \<Rightarrow> query \<Rightarrow> (string + string) option" where
  "history_json w C app q =
     (case rbind (wallet_query w app q) (\<lambda>(a, n). rbind (node_msg (ledger_of n)) (\<lambda>l. Inr (a, n, l))) of
        Inl e \<Rightarrow> Some (Inl e)
      | Inr (a, n, l) \<Rightarrow> do {
          order \<leftarrow> linearize (ledger_dag l);
          let items = history_items n order (txs_by_id C n order) a;
          res \<leftarrow> node_balance C n a;
          Some (rbind (node_msg res) (\<lambda>b. Inr (jobj [
            (''address'', jstr (display_address a)),
            (''balance'', display_word b),
            (''txs'', jarr (map (history_item_json C) items))])))
        })"

definition utxo_row_json :: "out_point \<times> u64 \<Rightarrow> string" where
  "utxo_row_json = (\<lambda>(op, v). jobj [
     (''tx'', jstr (display_tx_id (op_tx op))), (''index'', display_word (op_index op)), (''value'', display_word v)])"

definition utxos_json :: "site \<Rightarrow> ('sk, 'vk) crypto \<Rightarrow> explorer \<Rightarrow> query \<Rightarrow> (string + string) option" where
  "utxos_json w C app q =
     (case wallet_query w app q of
        Inl e \<Rightarrow> Some (Inl e)
      | Inr (a, n) \<Rightarrow> do {
          bal \<leftarrow> node_balance C n a;
          rows \<leftarrow> utxos_of C n a;
          Some (rbind (node_msg bal) (\<lambda>b. rbind (node_msg rows) (\<lambda>rows. Inr (jobj [
            (''address'', jstr (display_address a)),
            (''balance'', display_word b),
            (''utxos'', jarr (map utxo_row_json rows))]))))
        })"

end
