(* ===== verification/Server.thy ===== *)
theory Server
  imports Pages
begin

text \<open>
  \<open>handle\<close> and the loop of \<open>serve\<close> of \<open>crates/kovanica-node/src/explorer.rs\<close>.  A connection is the
  bytes its first read returns, none if the read fails or the peer has closed; what is written
  back is the text of the response.
\<close>

definition TEXT_PLAIN :: string where
  "TEXT_PLAIN = ''text/plain; charset=utf-8''"

definition TEXT_HTML :: string where
  "TEXT_HTML = ''text/html; charset=utf-8''"

definition JSON :: string where
  "JSON = ''application/json''"

section \<open>The two summaries\<close>

definition genesis_text :: "node_state \<Rightarrow> string" where
  "genesis_text n = (case ledger_of n of Inl _ \<Rightarrow> [] | Inr l \<Rightarrow> display_block_id (ledger_genesis l))"

definition bootstrap_json :: "explorer \<Rightarrow> string option" where
  "bootstrap_json app = do {
     let n = mesh_node (app_mesh app) (app_selected app);
     tip \<leftarrow> (case n of None \<Rightarrow> Some [] | Some n \<Rightarrow> tip_text n);
     Some (jobj [
       (''network'', jstr NETWORK),
       (''genesis'', jstr (case n of None \<Rightarrow> [] | Some n \<Rightarrow> genesis_text n)),
       (''tip'', jstr tip),
       (''listen'', jstr (app_listen_addr app)),
       (''peers'', jarr (map jstr (app_peers app @ filter (\<lambda>s. s \<noteq> []) [app_listen_addr app]))),
       (''pow'', jbool (case n of None \<Rightarrow> False | Some n \<Rightarrow> node_proof_of_work n)),
       (''min_fee'', display_word (case n of None \<Rightarrow> 0 | Some n \<Rightarrow> min_fee n)),
       (''atom'', display_word ATOM),
       (''token'', jstr ''KVNC''),
       (''k'', decimal 3)])
   }"

definition head_json :: "node_state \<Rightarrow> string option" where
  "head_json n = do {
     tip \<leftarrow> tip_text n;
     Some (jobj [
       (''network'', jstr NETWORK),
       (''genesis'', jstr (genesis_text n)),
       (''tip'', jstr tip),
       (''blocks'', decimal (count_of n)),
       (''min_fee'', display_word (min_fee n)),
       (''atom'', display_word ATOM)])
   }"

section \<open>Routing\<close>

definition not_found :: string where
  "not_found = respond 404 TEXT_PLAIN ''not found''"

text \<open>An \<open>Ok\<close> body is JSON, an \<open>Err\<close> is a plain text with status 400.\<close>

definition answer :: "string + string \<Rightarrow> string" where
  "answer res = (case res of Inl e \<Rightarrow> respond 400 TEXT_PLAIN e | Inr body \<Rightarrow> respond 200 JSON body)"

definition select_node :: "explorer \<Rightarrow> query \<Rightarrow> explorer" where
  "select_node app q = (case fmlookup q ''node'' of None \<Rightarrow> app | Some a \<Rightarrow> select app a)"

type_synonym handled = "string option \<times> explorer \<times> files"

definition handle_get ::
    "site \<Rightarrow> ('sk, 'vk) crypto \<Rightarrow> explorer \<Rightarrow> files \<Rightarrow> string \<Rightarrow> query \<Rightarrow> handled option" where
  "handle_get w C app fs path q =
     (let reply = (\<lambda>s. Some (Some s, app, fs)) in
      if path \<in> {''/'', ''/index.html'', ''/wallet''} then reply (respond 200 TEXT_HTML (page_ui w))
      else if path = ''/bip39.txt'' then reply (respond 200 TEXT_PLAIN (page_words w))
      else if path = ''/kovanica-explorer-wallet.patch'' then
        reply (respond_download ''text/x-patch; charset=utf-8'' ''kovanica-explorer-wallet.patch'' (page_patch w))
      else if path = ''/docs'' then reply (respond 200 TEXT_PLAIN (page_docs w))
      else if path = ''/api/bootstrap'' then do { body \<leftarrow> bootstrap_json app; reply (respond 200 JSON body) }
      else if path = ''/api/state'' then do {
        let app = select_node app q;
        body \<leftarrow> snapshot C app;
        Some (Some (respond 200 JSON body), app, fs)
      }
      else if path = ''/api/head'' then
        (case mesh_node (app_mesh app) (app_selected app) of
           None \<Rightarrow> reply not_found
         | Some n \<Rightarrow> do { body \<leftarrow> head_json n; reply (respond 200 JSON body) })
      else if path = ''/api/history'' then do { res \<leftarrow> history_json w C app q; reply (answer res) }
      else if path = ''/api/utxos'' then do { res \<leftarrow> utxos_json w C app q; reply (answer res) }
      else reply not_found)"

definition handle_post ::
    "site \<Rightarrow> ('sk, 'vk) crypto \<Rightarrow> readings \<Rightarrow> explorer \<Rightarrow> files \<Rightarrow> string \<Rightarrow> query \<Rightarrow> handled option" where
  "handle_post w C t app fs path q = do {
     let action = trim_prefix (length path) ''/api/'' path;
     let app = select_node app q;
     res \<leftarrow> dispatch w C t app fs action q;
     (case res of
        Inl e \<Rightarrow> Some (Some (respond 400 TEXT_PLAIN e), app, fs)
      | Inr (body, app, fs) \<Rightarrow> do {
          fs \<leftarrow> persist_all (app_mesh app) fs;
          Some (Some (respond 200 JSON body), app, fs)
        })
   }"

definition handle ::
    "site \<Rightarrow> ('sk, 'vk) crypto \<Rightarrow> readings \<Rightarrow> explorer \<Rightarrow> files \<Rightarrow> byte list \<Rightarrow> handled option" where
  "handle w C t app fs buf =
     (if buf = [] then Some (None, app, fs)
      else let (meth, target) = request_line buf; (path, q) = split_query target in
        if meth = ''HEAD'' \<and> path \<in> {''/'', ''/index.html'', ''/wallet''}
        then Some (Some (respond 200 TEXT_HTML []), app, fs)
        else if meth = ''GET'' then handle_get w C app fs path q
        else if meth = ''POST'' \<and> starts_with ''/api/'' path then handle_post w C t app fs path q
        else Some (Some not_found, app, fs))"

section \<open>The server loop\<close>

text \<open>
  One round of the loop: a connection is handled, or there is none (\<open>WouldBlock\<close>) and the
  explorer ticks, with what the network brings then.
\<close>

datatype server_event =
    Connection readings "byte list"
  | Quiet readings bool "string \<Rightarrow> byte list option"

fun serve_event ::
    "site \<Rightarrow> ('sk, 'vk) crypto \<Rightarrow> server_event \<Rightarrow> explorer \<times> files \<Rightarrow> (explorer \<times> files) option" where
  "serve_event w C (Connection t buf) (app, fs) = map_option snd (handle w C t app fs buf)"
| "serve_event w C (Quiet t conn fetch) (app, fs) = map_option snd (app_tick C t conn fetch app fs)"

fun serve_events ::
    "site \<Rightarrow> ('sk, 'vk) crypto \<Rightarrow> server_event list \<Rightarrow> explorer \<times> files \<Rightarrow> (explorer \<times> files) option" where
  "serve_events w C [] st = Some st"
| "serve_events w C (e # es) st = do { st \<leftarrow> serve_event w C e st; serve_events w C es st }"

text \<open>\<open>serve\<close>: start from the data directory, then one round after the other.\<close>

definition serve ::
    "site \<Rightarrow> ('sk, 'vk) crypto \<Rightarrow> readings \<Rightarrow> files \<Rightarrow> server_event list \<Rightarrow> (explorer \<times> files) option" where
  "serve w C t fs es = do {
     st \<leftarrow> boot_persist w C t False fs;
     serve_events w C es st
   }"

end
