(* ===== verification/ExplorerInv.thy ===== *)
theory ExplorerInv
  imports Server P2pDrain
begin

text \<open>
  What the explorer keeps.  The locale \<open>mesh_kept\<close> states, for a property of the mesh, that every
  operation of the mesh the explorer calls keeps it and that a restart on a wiped data directory
  establishes it; inside, ticks, requests and the server loop keep it.  It is interpreted twice: on
  the reachable meshes with the names of the network, and on the clocks of the nodes.
\<close>

section \<open>Whatever the mesh operations keep\<close>

locale mesh_kept =
  fixes w :: site and C :: "('sk, 'vk) crypto" and P :: "mesh \<Rightarrow> bool" and Q :: "name \<Rightarrow> bool"
  assumes kept_tick: "tick C clock m = Some (k, m') \<Longrightarrow> P m \<Longrightarrow> P m'"
    and kept_produce: "mesh_produce C wall m a = Some (Inr (i, m')) \<Longrightarrow> P m \<Longrightarrow> P m'"
    and kept_produce_empty: "mesh_produce_empty C wall m a = Some (Inr (b, m')) \<Longrightarrow> P m \<Longrightarrow> P m'"
    and kept_send: "mesh_send C wall m a seed amount to_seed = Some (Inr (b, m')) \<Longrightarrow> P m \<Longrightarrow> P m'"
    and kept_send_to: "mesh_send_to C wall m a seed amount to = Some (Inr (b, m')) \<Longrightarrow> P m \<Longrightarrow> P m'"
    and kept_pool: "mesh_pool C m a seed amount to_seed = Some (Inr (t, m')) \<Longrightarrow> P m \<Longrightarrow> P m'"
    and kept_submit: "mesh_submit_signed C m a fr amount to sg = Some (Inr (t, m')) \<Longrightarrow> P m \<Longrightarrow> P m'"
    and kept_miner: "P m \<Longrightarrow> P (with_node_mut (\<lambda>n. set_miner n addr) m a)"
    and kept_pull: "pull_blocks C clock buf n = Some (n', res) \<Longrightarrow> mesh_node m a = Some n \<Longrightarrow> P m \<Longrightarrow> P (with_node_mut (\<lambda>_. n') m a)"
    and kept_restart: "boot_mesh w C (ensure_network (wipe_data fs)) = Some m \<Longrightarrow> P m"
    and named_alpha: "Q ''alpha''"
    and named: "P m \<Longrightarrow> mesh_node m a \<noteq> None \<Longrightarrow> Q a"
begin

definition kept :: "explorer \<Rightarrow> bool" where
  "kept app \<longleftrightarrow> P (app_mesh app) \<and> Q (app_selected app)"

lemma keptD: "kept app \<Longrightarrow> P (app_mesh app)" "kept app \<Longrightarrow> Q (app_selected app)"
  by (simp_all add: kept_def)

lemma kept_upd [simp]: "kept (app\<lparr>app_mesh := m\<rparr>) \<longleftrightarrow> P m \<and> Q (app_selected app)"
  "kept (app\<lparr>app_mining := x\<rparr>) \<longleftrightarrow> kept app" "kept (app\<lparr>app_ticks := y\<rparr>) \<longleftrightarrow> kept app" "kept (app\<lparr>app_rotate := z\<rparr>) \<longleftrightarrow> kept app"
  by (simp_all add: kept_def)

lemma drain_loop_kept: "drain_loop C clock k n m = Some (t, m') \<Longrightarrow> P m \<Longrightarrow> P m'"
  by (induction k arbitrary: n m) (auto split: if_splits bind_splits intro: kept_tick)

lemma drain_kept: "drain C clock limit m = Some (t, m') \<Longrightarrow> P m \<Longrightarrow> P m'"
  unfolding drain_def by (rule drain_loop_kept)

lemma boot_kept:
  assumes "boot_persist w C t l fs = Some (app, fs')" "\<And>m. boot_mesh w C (ensure_network fs) = Some m \<Longrightarrow> P m"
  shows "kept app"
proof -
  obtain m k m' where "boot_mesh w C (ensure_network fs) = Some m" "drain C (event_at t) 16 m = Some (k, m')"
      "app_mesh app = m'" "app_selected app = ''alpha''"
    using assms(1) by (auto simp: boot_persist_def Let_def split: bind_splits)
  then show ?thesis using assms(2) drain_kept named_alpha by (simp add: kept_def)
qed

lemma drained_kept:
  assumes "drained C t app fs body = Some (Inr (s, app', fs'))" "kept app"
  shows "kept app'"
proof -
  obtain k m where "drain C (event_at t) 8 (app_mesh app) = Some (k, m)" "app' = app\<lparr>app_mesh := m\<rparr>"
    using assms(1) by (auto simp: drained_def split: bind_splits)
  then show ?thesis using drain_kept keptD [OF assms(2)] by simp
qed

lemma drained_mesh_kept:
  assumes "drained C t (app\<lparr>app_mesh := m\<rparr>) fs body = Some (Inr (s, app', fs'))" "P m" "kept app"
  shows "kept app'"
  using drained_kept [OF assms(1)] assms(2) keptD(2) [OF assms(3)] by simp

lemma mesh_action_kept:
  assumes "mesh_action C t app fs run text = Some (Inr (s, app', fs'))" "\<And>x m. run = Some (Inr (x, m)) \<Longrightarrow> P m" "kept app"
  shows "kept app'"
proof -
  obtain x m where "run = Some (Inr (x, m))" "drained C t (app\<lparr>app_mesh := m\<rparr>) fs (text x) = Some (Inr (s, app', fs'))"
    using assms(1) by (auto simp: mesh_action_def p2p_msg_def map_err_def split: bind_splits sum.splits)
  then show ?thesis using drained_mesh_kept assms(2,3) by blast
qed

lemma empty_action_kept:
  assumes "mesh_action C t app fs (mesh_produce_empty C wall m a) text = Some (Inr (s, app', fs'))" "P m" "kept app"
  shows "kept app'"
  by (rule mesh_action_kept [OF assms(1) _ assms(3)]) (rule kept_produce_empty [OF _ assms(2)])

lemma try_mesh_kept:
  assumes "try_mesh run m = Some m'" "\<And>x m'. run = Some (Inr (x, m')) \<Longrightarrow> P m'" "P m"
  shows "P m'"
  using assms by (auto simp: try_mesh_def split: bind_splits sum.splits)

lemma try_empty_kept: "try_mesh (mesh_produce_empty C wall m a) m = Some m' \<Longrightarrow> P m \<Longrightarrow> P m'"
  using try_mesh_kept kept_produce_empty by blast

lemma try_send_kept: "try_mesh (mesh_send C wall m a x y z) m = Some m' \<Longrightarrow> P m \<Longrightarrow> P m'"
  using try_mesh_kept kept_send by blast

lemma fork_loop_kept: "fork_loop C t k names m = Some m' \<Longrightarrow> P m \<Longrightarrow> P m'"
proof (induction names arbitrary: k m)
  case (Cons a names)
  then obtain m1 where "try_mesh (mesh_produce_empty C (wall_at t k) m a) m = Some m1" "fork_loop C t (Suc k) names m1 = Some m'"
    by (auto split: bind_splits)
  then show ?case using Cons.IH try_empty_kept Cons.prems(2) by blast
qed simp

lemma act_produce_kept:
  assumes "act_produce C t app fs a = Some (Inr (s, app', fs'))" "kept app"
  shows "kept app'"
proof -
  obtain i m where r: "mesh_produce C (wall_at t 0) (app_mesh app) a = Some (Inr (i, m))"
    and s: "(\<exists>b. i = Some b \<and> drained C t (app\<lparr>app_mesh := m\<rparr>) fs ok_json = Some (Inr (s, app', fs')))
      \<or> mesh_action C t app fs (mesh_produce_empty C (wall_at t 1) m a) (\<lambda>_. ok_json) = Some (Inr (s, app', fs'))"
    using assms(1)
    by (auto simp: act_produce_def p2p_msg_def map_err_def split: bind_splits sum.splits option.splits if_splits)
  have "P m" using kept_produce [OF r] keptD(1) [OF assms(2)] .
  then show ?thesis using s empty_action_kept drained_mesh_kept assms(2) by blast
qed

lemma operator_action_kept:
  assumes "operator_action w C t app fs action q a = Some (Inr (s, app', fs'))" "kept app"
  shows "kept app'"
proof -
  note k = keptD [OF assms(2)]
  have "kept app'" if "act_send C t app fs q a = Some (Inr (s, app', fs'))"
    using that mesh_action_kept [OF _ kept_send assms(2)] k(1) by (auto simp: act_send_def split: sum.splits)
  moreover have "kept app'" if "act_pool C t app fs q a = Some (Inr (s, app', fs'))"
    using that mesh_action_kept [OF _ kept_pool assms(2)] k(1) by (auto simp: act_pool_def split: sum.splits)
  moreover have "kept app'" if "act_parallel C t app fs = Some (Inr (s, app', fs'))"
    using that drained_mesh_kept [OF _ try_send_kept [OF _ try_send_kept] assms(2)] k(1)
    by (auto simp: act_parallel_def split: bind_splits)
  moreover have "kept app'" if "act_fork C t app fs = Some (Inr (s, app', fs'))"
    using that drained_mesh_kept [OF _ fork_loop_kept assms(2)] k(1) by (auto simp: act_fork_def split: bind_splits)
  moreover have "kept app'" if "act_mining C t app fs q = Some (Inr (s, app', fs'))"
    using that drained_kept assms(2) unfolding act_mining_def by fastforce
  moreover have "kept app'" if "act_miner w app fs q a = Inr (s, app', fs')"
    using that k by (auto simp: act_miner_def rbind_eq_Inr kept_miner split: option.splits)
  ultimately show ?thesis using assms(1) empty_action_kept [OF _ k(1) assms(2)]
    by (auto simp: operator_action_def split: if_splits)
qed

lemma dispatch_kept:
  assumes "dispatch w C t app fs action q = Some (Inr (s, app', fs'))" "kept app"
  shows "kept app'"
proof -
  note k = keptD [OF assms(2)]
  let ?a = "query_node app q"
  have "kept app'" if r: "act_reset w C t app fs = Some (Inr (s, app', fs'))"
  proof -
    obtain app1 fs1 where "boot_persist w C t (app_listen app) (wipe_data fs) = Some (app1, fs1)"
        "drained C t app1 fs1 ok_json = Some (Inr (s, app', fs'))"
      using r by (auto simp: act_reset_def split: if_splits bind_splits)
    then show ?thesis using drained_kept boot_kept kept_restart by blast
  qed
  moreover have "kept app'" if "act_prepare w C app fs q ?a = Some (Inr (s, app', fs'))"
    using that assms(2) by (auto simp: act_prepare_def rbind_eq_Inr split: sum.splits bind_splits)
  moreover have "kept app'" if "act_submit w C t app fs q ?a = Some (Inr (s, app', fs'))"
    using that mesh_action_kept [OF _ kept_submit assms(2)] k(1) by (auto simp: act_submit_def split: sum.splits)
  moreover have "kept app'" if "act_faucet w C t app fs q ?a = Some (Inr (s, app', fs'))"
    using that mesh_action_kept [OF _ kept_send_to assms(2)] k(1) by (auto simp: act_faucet_def split: sum.splits if_splits)
  ultimately show ?thesis using assms(1) act_produce_kept [OF _ assms(2)] operator_action_kept [OF _ assms(2)]
    by (auto simp: dispatch_def Let_def split: if_splits)
qed

lemma select_kept: "kept app \<Longrightarrow> kept (select_node app q)"
  using named keptD(1) by (auto simp: select_node_def select_def kept_def split: option.split)

lemma handle_kept:
  assumes "handle w C t app fs buf = Some (resp, app', fs')" "kept app"
  shows "kept app'"
proof -
  have "kept app'" if "handle_get w C app fs path q = Some (resp, app', fs')" for path q
    using that select_kept [OF assms(2)] assms(2)
    by (auto simp: handle_get_def Let_def split: if_splits bind_splits option.splits)
  moreover have "kept app'" if "handle_post w C t app fs path q = Some (resp, app', fs')" for path q
    using that select_kept [OF assms(2)] dispatch_kept
    by (auto simp: handle_post_def Let_def split: bind_splits sum.splits)
  ultimately show ?thesis using assms
    by (auto simp: handle_def Let_def split: if_splits prod.splits)
qed

lemma pull_peers_kept:
  "pull_peers C t fetch peers n = Some n' \<Longrightarrow> P (with_node_mut (\<lambda>_. n) m a) \<Longrightarrow> mesh_node m a \<noteq> None
    \<Longrightarrow> P (with_node_mut (\<lambda>_. n') m a)"
proof (induction peers arbitrary: n)
  case (Cons p peers)
  show ?case
  proof (cases "fetch p")
    case None
    then show ?thesis using Cons by auto
  next
    case (Some buf)
    then obtain n1 res where n1: "pull_blocks C (record_at t p) buf n = Some (n1, res)" "pull_peers C t fetch peers n1 = Some n'"
      using Cons.prems(1) by (auto split: bind_splits)
    have at: "mesh_node (with_node_mut (\<lambda>_. n) m a) a = Some n"
      "with_node_mut (\<lambda>_. n1) (with_node_mut (\<lambda>_. n) m a) a = with_node_mut (\<lambda>_. n1) m a"
      using Cons.prems(3) by (auto simp: with_node_mut_def mesh_node_def split: option.split)
    have "P (with_node_mut (\<lambda>_. n1) m a)" using kept_pull [OF n1(1) at(1) Cons.prems(2)] at(2) by simp
    then show ?thesis using Cons.IH n1(2) Cons.prems(3) by blast
  qed
qed simp

lemma pull_alpha_kept:
  assumes "pull_alpha C t fetch app = Some m" "kept app"
  shows "P m"
proof (cases "mesh_node (app_mesh app) ''alpha''")
  case None
  then show ?thesis using assms keptD(1) by (auto simp: pull_alpha_def)
next
  case (Some n)
  have "with_node_mut (\<lambda>_. n) (app_mesh app) ''alpha'' = app_mesh app"
    using Some by (simp add: with_node_mut_def mesh_node_def fmupd_same)
  then show ?thesis using Some assms keptD(1) pull_peers_kept [of t fetch "app_peers app" n _ "app_mesh app" "''alpha''"]
    by (auto simp: pull_alpha_def split: bind_splits)
qed

lemma tick_p2p_kept:
  assumes "tick_p2p C t conn fetch app fs = Some (sent, app', fs')" "kept app"
  shows "kept app'"
  using assms pull_alpha_kept [OF _ assms(2)] keptD(2) [OF assms(2)]
  by (auto simp: tick_p2p_def split: if_splits bind_splits)

lemma mine_turn_kept:
  assumes "mine_turn C t app fs = Some (app', fs')" "kept app"
  shows "kept app'"
  using assms keptD [OF assms(2)] kept_produce_empty
  by (auto simp: mine_turn_def Let_def kept_def split: if_splits bind_splits sum.splits)

lemma app_tick_kept:
  assumes "app_tick C t conn fetch app fs = Some (sent, app', fs')" "kept app"
  shows "kept app'"
proof -
  obtain k m app1 fs1 where 1: "tick C (event_at t) (app_mesh app) = Some (k, m)"
      "tick_p2p C t conn fetch (app\<lparr>app_mesh := m, app_ticks := app_ticks app + 1\<rparr>) fs = Some (sent, app1, fs1)"
      "app' = app1 \<or> mine_turn C t app1 fs1 = Some (app', fs')"
    using assms(1) by (auto simp: app_tick_def split: if_splits bind_splits)
  have "kept (app\<lparr>app_mesh := m, app_ticks := app_ticks app + 1\<rparr>)"
    using kept_tick [OF 1(1)] keptD [OF assms(2)] by (simp add: kept_def)
  then show ?thesis using tick_p2p_kept [OF 1(2)] mine_turn_kept 1(3) by blast
qed

lemma serve_event_kept: "serve_event w C e (app, fs) = Some (app', fs') \<Longrightarrow> kept app \<Longrightarrow> kept app'"
  by (cases e) (auto dest: handle_kept app_tick_kept)

lemma serve_events_kept: "serve_events w C es (app, fs) = Some (app', fs') \<Longrightarrow> kept app \<Longrightarrow> kept app'"
  by (induction es arbitrary: app fs) (auto split: bind_splits dest: serve_event_kept)

lemma serve_kept:
  assumes "serve w C t fs es = Some (app, fs')" "\<And>m. boot_mesh w C (ensure_network fs) = Some m \<Longrightarrow> P m"
  shows "P (app_mesh app)" "Q (app_selected app)"
proof -
  obtain app0 fs0 where "boot_persist w C t False fs = Some (app0, fs0)" "serve_events w C es (app0, fs0) = Some (app, fs')"
    using assms(1) by (auto simp: serve_def split: bind_splits)
  then have "kept app" using boot_kept assms(2) serve_events_kept by blast
  then show "P (app_mesh app)" "Q (app_selected app)" by (rule keptD)+
qed

end

end
