(* ===== verification/ExplorerProps.thy ===== *)
theory ExplorerProps
  imports ExplorerInv RpcProps P2pProps
begin

text \<open>
  Properties of the running explorer.  The locale \<open>node_kept\<close> lifts what every operation of a node
  keeps to all nodes of the mesh, and so to every run of the server.
\<close>

section \<open>What every operation of a node keeps\<close>

lemma nodes_announced [simp]:
  "mesh_nodes (announce_made H m a i) = mesh_nodes m" "mesh_nodes (announce_pooled C m a j) = mesh_nodes m"
  by (simp_all add: announce_made_def announce_pooled_def announce_block_def announce_tx_def enqueue_all_eq Let_def split: option.split)

locale node_kept =
  fixes w :: site and C :: "('sk, 'vk) crypto" and N :: "node_state \<Rightarrow> bool"
  assumes keeps_produce: "produce_block C wall n = Some (Inr (i, n')) \<Longrightarrow> N n \<Longrightarrow> N n'"
    and keeps_empty: "produce_empty C wall n = Some (Inr (b, n')) \<Longrightarrow> N n \<Longrightarrow> N n'"
    and keeps_send: "send_to C wall n seed amount to = Some (Inr (s, n')) \<Longrightarrow> N n \<Longrightarrow> N n'"
    and keeps_pool: "node_pool C n seed amount to_seed = Some (Inr (t, n')) \<Longrightarrow> N n \<Longrightarrow> N n'"
    and keeps_signed: "submit_signed C n fr amount to sg = Some (Inr (t, n')) \<Longrightarrow> N n \<Longrightarrow> N n'"
    and keeps_tx: "submit_tx C n tx = Inr (t, n') \<Longrightarrow> N n \<Longrightarrow> N n'"
    and keeps_receive: "receive_block C wall n r = Some (Inr (i', n')) \<Longrightarrow> N n \<Longrightarrow> N n'"
    and keeps_miner: "N n \<Longrightarrow> N (set_miner n addr)"
    and genesis_kept: "genesis_node w C = Some n \<Longrightarrow> N n"
begin

lemma deliver_every:
  assumes "deliver C clock m q = Some m'" "every N m"
  shows "every N m'"
proof (cases "q_env q")
  case (HelloEnv adv)
  then show ?thesis using assms
    by (auto simp: deliver_def on_hello_def every_def Let_def enqueue_hello_eq hello_all_eq split: prod.splits if_splits simp del: hello_all.simps)
next
  case (BlockEnv r)
  then show ?thesis using assms keeps_receive
    by (auto simp: deliver_def on_block_def every_def Let_def relay_on_eq split: if_splits option.splits sum.splits bind_splits)
next
  case (TxEnv tx)
  then show ?thesis using assms keeps_tx
    by (auto simp: deliver_def on_tx_def every_def Let_def relay_on_eq split: if_splits option.splits sum.splits)
qed

lemma tick_every: "tick C clock m = Some (k, m') \<Longrightarrow> every N m \<Longrightarrow> every N m'"
proof -
  have all: "deliver_all C clock m qs = Some m' \<Longrightarrow> every N m \<Longrightarrow> every N m'" for m qs
    by (induction qs arbitrary: m) (auto split: bind_splits dest: deliver_every)
  assume "tick C clock m = Some (k, m')" "every N m"
  then show ?thesis using all by (auto simp: tick_def Let_def every_def)
qed

lemma on_node_every:
  assumes "on_node m a f = Some (Inr (x, m'))" "every N m" "\<And>n x n'. f n = Some (Inr (x, n')) \<Longrightarrow> N n \<Longrightarrow> N n'"
  shows "every N m'"
proof -
  obtain n n' where "fmlookup (mesh_nodes m) a = Some n" "f n = Some (Inr (x, n'))" "m' = m\<lparr>mesh_nodes := fmupd a n' (mesh_nodes m)\<rparr>"
    using on_node_InrD [OF assms(1)] by metis
  then show ?thesis using assms(2,3) by (auto simp: every_def)
qed

lemma announced_every:
  "every N (announce_made H m a i) \<longleftrightarrow> every N m" "every N (announce_pooled C' m a j) \<longleftrightarrow> every N m"
  by (simp_all add: every_def)

lemma produce_every: "mesh_produce C wall m a = Some (Inr (i, m')) \<Longrightarrow> every N m \<Longrightarrow> every N m'"
  by (auto simp: mesh_produce_def rbind_eq_Inr announced_every split: bind_splits option.splits
    dest!: on_node_every [OF _ _ keeps_produce])

lemma empty_every: "mesh_produce_empty C wall m a = Some (Inr (b, m')) \<Longrightarrow> every N m \<Longrightarrow> every N m'"
  by (auto simp: mesh_produce_empty_def rbind_eq_Inr announced_every split: bind_splits dest!: on_node_every [OF _ _ keeps_empty])

lemma send_every: "mesh_send C wall m a seed amount to_seed = Some (Inr (b, m')) \<Longrightarrow> every N m \<Longrightarrow> every N m'"
  by (auto simp: mesh_send_def node_send_def rbind_eq_Inr announced_every split: bind_splits dest!: on_node_every [OF _ _ keeps_send])

lemma send_to_every: "mesh_send_to C wall m a seed amount to = Some (Inr (b, m')) \<Longrightarrow> every N m \<Longrightarrow> every N m'"
  by (auto simp: mesh_send_to_def rbind_eq_Inr announced_every split: bind_splits dest!: on_node_every [OF _ _ keeps_send])

lemma pool_every: "mesh_pool C m a seed amount to_seed = Some (Inr (t, m')) \<Longrightarrow> every N m \<Longrightarrow> every N m'"
  by (auto simp: mesh_pool_def rbind_eq_Inr announced_every split: bind_splits dest!: on_node_every [OF _ _ keeps_pool])

lemma signed_every: "mesh_submit_signed C m a fr amount to sg = Some (Inr (t, m')) \<Longrightarrow> every N m \<Longrightarrow> every N m'"
  by (auto simp: mesh_submit_signed_def rbind_eq_Inr announced_every split: bind_splits dest!: on_node_every [OF _ _ keeps_signed])

lemma with_node_every:
  assumes "every N m" "\<And>n. mesh_node m a = Some n \<Longrightarrow> N n \<Longrightarrow> N (f n)"
  shows "every N (with_node_mut f m a)"
  using assms by (auto simp: with_node_mut_def every_def mesh_node_def split: option.split)

lemma pull_every: "pull_blocks C clock buf n = Some (n', res) \<Longrightarrow> N n \<Longrightarrow> N n'"
proof -
  have "receive_all C clock k n rs = Some (n', res) \<Longrightarrow> N n \<Longrightarrow> N n'" for k n rs
    by (induction rs arbitrary: k n) (auto split: bind_splits sum.splits intro: keeps_receive)
  then show "pull_blocks C clock buf n = Some (n', res) \<Longrightarrow> N n \<Longrightarrow> N n'" by (auto simp: pull_blocks_def split: sum.splits)
qed

end

text \<open>On a directory without snapshots every node starts from the genesis.\<close>

definition no_snaps :: "files \<Rightarrow> bool" where
  "no_snaps fs \<longleftrightarrow> (\<forall>a \<in> {''alpha'', ''beta'', ''gamma''}. fmlookup fs (snap_path a) = None)"

lemma no_snaps_wiped: "no_snaps (wipe_data fs)"
  by (auto simp: no_snaps_def wipe_data_def snap_path_def extension_def)

lemma no_snaps_network: "no_snaps fs \<Longrightarrow> no_snaps (ensure_network fs)"
  using no_snaps_wiped [of fs] by (auto simp: no_snaps_def ensure_network_def snap_path_def)

lemma nodes_connected: "mesh_nodes (try_connect a b m) = mesh_nodes m"
  by (auto simp: try_connect_def mesh_connect_def rbind_def Let_def enqueue_hello_eq hello_all_eq split: sum.split simp del: hello_all.simps)

lemma boot_mesh_genesis:
  assumes "boot_mesh w C fs = Some m" "no_snaps fs"
  obtains n where "genesis_node w C = Some n" "\<forall>a n'. fmlookup (mesh_nodes m) a = Some n' \<longrightarrow> n' = n"
proof -
  have l: "load_or_genesis w C fs ''alpha'' = genesis_node w C" "load_or_genesis w C fs ''beta'' = genesis_node w C"
      "load_or_genesis w C fs ''gamma'' = genesis_node w C"
    using assms(2) unfolding no_snaps_def by (simp_all add: load_or_genesis_def)
  obtain n where n: "genesis_node w C = Some n"
    using assms(1) unfolding boot_mesh_def l by (auto split: bind_splits)
  have "\<forall>a n'. fmlookup (mesh_nodes m) a = Some n' \<longrightarrow> n' = n"
    using assms(1) unfolding boot_mesh_def l n
    by (cases "env_flag w ''KOVANICA_DEMO_MESH'' False") (auto simp: nodes_connected mesh_add_def mesh_new_def Let_def split: if_splits)
  then show ?thesis using that n by blast
qed

sublocale node_kept \<subseteq> mesh_kept w C "every N" "\<lambda>_. True"
proof
  show "every N (with_node_mut (\<lambda>_. n') m a)"
    if "pull_blocks C clock buf n = Some (n', res)" "mesh_node m a = Some n" "every N m" for clock buf n n' res m a
    using that with_node_every [of m a "\<lambda>_. n'"] pull_every by auto
  show "every N m" if "boot_mesh w C (ensure_network (wipe_data fs)) = Some m" for fs m
    by (rule boot_mesh_genesis [OF that no_snaps_network [OF no_snaps_wiped]]) (auto simp: every_def dest: genesis_kept)
qed (auto intro: tick_every produce_every empty_every send_every send_to_every pool_every signed_every with_node_every keeps_miner)

section \<open>The clock of a fresh node\<close>

text \<open>The clock \<open>genesis_node\<close> sets; it is never set again.\<close>

definition GENESIS_CLOCK :: u64 where
  "GENESIS_CLOCK = 1700000001000"

lemma evict_clock: "evict_mempool C n = Some n' \<Longrightarrow> node_clock n' = node_clock n"
  by (auto simp: evict_mempool_def split: option.splits bind_splits)

lemma genesis_clock: "genesis_node w C = Some n \<Longrightarrow> node_clock n = Fixed GENESIS_CLOCK"
  by (auto simp: genesis_node_def node_genesis_def switch_pow_def node_set_proof_of_work_def set_now_ms_def node_new_def GENESIS_CLOCK_def
      rbind_eq_Inr Let_def split: bind_splits sum.splits if_splits)

interpretation fresh: node_kept w C "\<lambda>n. node_clock n = Fixed GENESIS_CLOCK" for w :: site and C :: "('sk, 'vk) crypto"
proof
  show "node_clock n' = Fixed GENESIS_CLOCK" if "produce_block C wall n = Some (Inr (i, n'))" "node_clock n = Fixed GENESIS_CLOCK" for wall n i n'
    using that evict_clock by (fastforce simp: produce_block_def Let_def split: option.splits if_splits bind_splits sum.splits)
  show "node_clock n' = Fixed GENESIS_CLOCK" if "produce_empty C wall n = Some (Inr (i, n'))" "node_clock n = Fixed GENESIS_CLOCK" for wall n i n'
    using that evict_clock by (fastforce simp: produce_empty_def Let_def split: option.splits if_splits bind_splits sum.splits)
  show "node_clock n' = Fixed GENESIS_CLOCK" if "send_to C wall n seed amount to = Some (Inr (s, n'))" "node_clock n = Fixed GENESIS_CLOCK"
    for wall n seed amount to s n'
    using that evict_clock by (fastforce simp: send_to_def Let_def split: option.splits if_splits bind_splits sum.splits)
  show "node_clock n' = Fixed GENESIS_CLOCK" if "receive_block C wall n r = Some (Inr (i, n'))" "node_clock n = Fixed GENESIS_CLOCK" for wall n r i n'
    using that evict_clock
    by (fastforce simp: receive_block_def Let_def split: option.splits if_splits bind_splits sum.splits ledger_insert_error.splits dag_error.splits)
qed (auto simp: node_pool_def submit_signed_def submit_tx_def set_miner_def rbind_eq_Inr genesis_clock split: bind_splits if_splits)

text \<open>The genesis of the network is valid, so \<open>genesis_node\<close> never panics.\<close>

lemma genesis_applies:
  "\<exists>u r. apply_block C fmempty [coinbase [\<lparr>out_value = GENESIS_PREMINE, owner = a\<rparr>] GENESIS_TAG] GENESIS_SUBSIDY = (u, Inr r)"
  by (simp add: apply_block_def apply_staged_def apply_coinbase_def is_coinbase_def coinbase_def checked_add_def utxo_insert_def
    GENESIS_PREMINE_def GENESIS_SUBSIDY_def ATOM_def)

lemma genesis_ok: "\<exists>n. genesis_node w C = Some n \<and> node_ok C n \<and> node_blocks n = 1 \<and> node_mempool n = fmempty"
proof -
  let ?cb = "coinbase [\<lparr>out_value = GENESIS_PREMINE, owner = node_address C 1\<rparr>] GENESIS_TAG"
  have wf: "wf_txs [?cb]" "length (encode_block_payload [?cb]) < 2 ^ 64"
    by (simp_all add: wf_txs_def wf_tx_def coinbase_def GENESIS_TAG_def payload_length length_encode_into)
  obtain res where res: "ledger_new C 3 GENESIS_SUBSIDY [?cb] = Some res" "\<And>l. res = Inr l \<Longrightarrow> plain_ledger C l \<and> card (ids (ledger_dag l)) = 1"
    using new_plain [OF wf, of C 3 GENESIS_SUBSIDY] by blast
  obtain l where l: "res = Inr l"
    using res(1) genesis_applies [of C "node_address C 1"] by (cases res) (auto simp: ledger_new_def utxo_new_def Let_def split: bind_splits)
  have p: "plain_ledger C (ledger_set_proof_of_work l True)" "card (ids (ledger_dag (ledger_set_proof_of_work l True))) = 1"
    using res(2) [OF l] reach_pow [of C l True] by (auto simp: plain_ledger_def ledger_set_proof_of_work_def set_proof_of_work_def ids_def)
  then show ?thesis using res l
    by (auto simp: genesis_node_def node_genesis_def set_now_ms_def node_new_def switch_pow_def node_set_proof_of_work_def ledger_of_def Let_def
      node_ok_def node_plain_def pool_wf_def mempool_new_def node_blocks_def dag_len_ids)
qed

lemma served_clock:
  assumes "serve w C t fs es = Some (app, fs')" "no_snaps fs" "mesh_node (app_mesh app) a = Some n"
  shows "node_clock n = Fixed GENESIS_CLOCK"
proof -
  have "every (\<lambda>n. node_clock n = Fixed GENESIS_CLOCK) m" if "boot_mesh w C (ensure_network fs) = Some m" for m
    by (rule boot_mesh_genesis [OF that no_snaps_network [OF assms(2)]]) (auto simp: every_def dest: genesis_clock)
  from fresh.serve_kept(1) [OF assms(1) this] show ?thesis using assms(3) by (simp add: every_def mesh_node_def)
qed

text \<open>
  C38: an explorer started on a data directory without snapshots keeps the clock of its genesis,
  whatever requests, ticks and resets follow: each of its nodes refuses every block stamped after
  1,700,007,201,000 ms (15 November 2023) as too far in the future, at any time, so what a peer
  with a running clock produces never enters it.
\<close>

theorem fresh_node_refuses_present:
  assumes "serve w C t fs es = Some (app, fs')" "no_snaps fs" "mesh_node (app_mesh app) a = Some n"
    and "1700007201000 < rec_timestamp_ms r"
  shows "receive_block C wall n r = Some (Inl (TimestampTooFarInFuture (rec_timestamp_ms r) GENESIS_CLOCK))"
proof -
  have "saturating_add GENESIS_CLOCK MAX_FUTURE_DRIFT_MS = 1700007201000"
    by (simp add: saturating_add_def GENESIS_CLOCK_def MAX_FUTURE_DRIFT_MS_def)
  then show ?thesis using assms(4) by (simp add: receive_block_def now_ms_def served_clock [OF assms(1-3)] Let_def)
qed

lemma save_total: "node_ok C n \<Longrightarrow> \<exists>res. node_save n = Some res"
  using write_total plain_node(2) [of C n] by (fastforce simp: node_save_def ledger_of_def split: option.split)

lemma persist_total:
  assumes "every (node_ok C) m"
  shows "\<exists>fs'. persist_all m fs = Some fs'"
proof -
  have "\<exists>fs'. persist_names m as fs = Some fs'" for as
  proof (induction as arbitrary: fs)
    case (Cons a as)
    have "\<exists>fs'. persist_node a n fs = Some fs'" if "mesh_node m a = Some n" for n
      using save_total [of C n] that assms by (auto simp: persist_node_def every_def mesh_node_def Let_def)
    then show ?case using Cons by (fastforce split: option.split)
  qed simp
  then show ?thesis by (simp add: persist_all_def)
qed

text \<open>A start on a directory without snapshots, with the demo mesh off.\<close>

lemma boot_single:
  assumes "no_snaps fs" "\<not> env_flag w ''KOVANICA_DEMO_MESH'' False"
  obtains app fs' n where "boot_persist w C t listening fs = Some (app, fs')" "genesis_node w C = Some n"
    "app_mesh app = mesh_add mesh_new ''alpha'' n" "app_selected app = ''alpha''"
    "app_listen app \<longleftrightarrow> bind_p2p w listening \<noteq> None" "app_listen_addr app = (case bind_p2p w listening of None \<Rightarrow> [] | Some a \<Rightarrow> a)"
    "app_allow_reset app \<longleftrightarrow> env_flag w ''KOVANICA_ALLOW_RESET'' False"
proof -
  obtain n where n: "genesis_node w C = Some n" "node_ok C n" using genesis_ok by blast
  let ?m = "mesh_add mesh_new ''alpha'' n"
  have "load_or_genesis w C (ensure_network fs) ''alpha'' = Some n"
    using no_snaps_network [OF assms(1)] n(1) by (simp add: load_or_genesis_def no_snaps_def)
  then have m: "boot_mesh w C (ensure_network fs) = Some ?m" using assms(2) by (simp add: boot_mesh_def)
  have "every (node_ok C) ?m" using n(2) by (simp add: every_def mesh_add_def mesh_new_def)
  then obtain fs' where "persist_all ?m (ensure_network fs) = Some fs'" using persist_total by blast
  moreover have "drain C (event_at t) 16 ?m = Some (0, ?m)"
    unfolding drain_def by (rule drain_loop_idle) (simp add: mesh_add_def mesh_new_def)
  ultimately show ?thesis using that n(1) m by (simp add: boot_persist_def Let_def)
qed

definition quiet_site :: site where
  "quiet_site = \<lparr>hex_decode = \<lambda>_. None, missing_file = [], env_var = \<lambda>_. None, bind_addr = \<lambda>_ _. None,
     page_ui = [], page_words = [], page_docs = [], page_patch = []\<rparr>"

theorem fresh_node_refuses_present_witness:
  "\<exists>app fs n. serve quiet_site byte_crypto \<lparr>wall_at = \<lambda>_. 0, event_at = \<lambda>_. 0, record_at = \<lambda>_ _. 0\<rparr> fmempty [] = Some (app, fs)
     \<and> receive_block byte_crypto 1750000000000 n \<lparr>rec_parents = [], rec_work = 1, rec_timestamp_ms = 1750000000000, rec_nonce = 0, rec_txs = []\<rparr>
         = Some (Inl (TimestampTooFarInFuture 1750000000000 GENESIS_CLOCK))"
proof (rule boot_single)
  let ?t = "\<lparr>wall_at = \<lambda>_. 0, event_at = \<lambda>_. 0, record_at = \<lambda>_ _. 0\<rparr>"
  show s: "no_snaps fmempty" "\<not> env_flag quiet_site ''KOVANICA_DEMO_MESH'' False"
    by (simp_all add: no_snaps_def env_flag_def quiet_site_def)
  fix app fs' n
  assume b: "boot_persist quiet_site byte_crypto ?t False fmempty = Some (app, fs')" "app_mesh app = mesh_add mesh_new ''alpha'' n"
  then have r: "serve quiet_site byte_crypto ?t fmempty [] = Some (app, fs')" "mesh_node (app_mesh app) ''alpha'' = Some n"
    by (simp_all add: serve_def mesh_node_def mesh_add_def)
  from fresh_node_refuses_present [OF r(1) s(1) r(2), of "\<lparr>rec_parents = [], rec_work = 1, rec_timestamp_ms = 1750000000000, rec_nonce = 0, rec_txs = []\<rparr>" 1750000000000]
  show ?thesis using r(1) by auto
qed

section \<open>A reset\<close>

text \<open>
  A reset over HTTP ends the exchange with peers: the new explorer is built while the old one
  still holds the listener, so the second bind of the address is refused, and from then on nothing
  is served to peers and no listening address is shown.
\<close>

lemma reset_drops_listener:
  assumes "app_allow_reset app" "app_listen app" "\<And>a. bind_addr w True a = None" "\<not> env_flag w ''KOVANICA_DEMO_MESH'' False"
  shows "\<exists>body app' fs'. dispatch w C t app fs ''reset'' q = Some (Inr (body, app', fs'))
    \<and> \<not> app_listen app' \<and> app_listen_addr app' = [] \<and> serve_peer app' = Some None"
proof (rule boot_single [OF no_snaps_wiped assms(4)])
  fix app1 fs1 n
  assume b: "boot_persist w C t True (wipe_data fs) = Some (app1, fs1)" "app_mesh app1 = mesh_add mesh_new ''alpha'' n"
    and l: "app_listen app1 \<longleftrightarrow> bind_p2p w True \<noteq> None" "app_listen_addr app1 = (case bind_p2p w True of None \<Rightarrow> [] | Some a \<Rightarrow> a)"
  have none: "bind_p2p w True = None" using assms(3) by (cases "env_var w ''KOVANICA_LISTEN''") (simp_all add: bind_p2p_def)
  have "drain C (event_at t) 8 (app_mesh app1) = Some (0, app_mesh app1)"
    unfolding drain_def b(2) by (rule drain_loop_idle) (simp add: mesh_add_def mesh_new_def)
  then have "dispatch w C t app fs ''reset'' q = Some (Inr (ok_json, app1, fs1))"
    using assms(1,2) b(1) by (simp add: dispatch_def operator_actions_def act_reset_def drained_def Let_def)
  then show ?thesis using l none by (simp add: serve_peer_def)
qed

definition listening_site :: site where
  "listening_site = quiet_site\<lparr>
     env_var := \<lambda>v. if v = ''KOVANICA_LISTEN'' then Some ''0.0.0.0:9000'' else if v = ''KOVANICA_ALLOW_RESET'' then Some ''1'' else None,
     bind_addr := \<lambda>held a. if held then None else Some a\<rparr>"

lemma reset_drops_listener_example:
  "\<exists>t fs app fs1 body app' fs'. boot_persist listening_site byte_crypto t False fs = Some (app, fs1) \<and> app_listen_addr app = ''0.0.0.0:9000''
     \<and> dispatch listening_site byte_crypto t app fs1 ''reset'' fmempty = Some (Inr (body, app', fs')) \<and> app_listen_addr app' = []"
proof (rule boot_single)
  let ?w = listening_site and ?t = "\<lparr>wall_at = \<lambda>_. 0, event_at = \<lambda>_. 0, record_at = \<lambda>_ _. 0\<rparr>"
  show e: "no_snaps fmempty" "\<not> env_flag ?w ''KOVANICA_DEMO_MESH'' False"
    by (simp_all add: no_snaps_def env_flag_def listening_site_def quiet_site_def)
  fix app fs1
  assume b: "boot_persist ?w byte_crypto ?t False fmempty = Some (app, fs1)"
    "app_listen app \<longleftrightarrow> bind_p2p ?w False \<noteq> None" "app_listen_addr app = (case bind_p2p ?w False of None \<Rightarrow> [] | Some a \<Rightarrow> a)"
    "app_allow_reset app \<longleftrightarrow> env_flag ?w ''KOVANICA_ALLOW_RESET'' False"
  have "bind_p2p ?w False = Some ''0.0.0.0:9000''" "app_allow_reset app" "bind_addr ?w True a = None" for a
    using b(4) by (simp_all add: bind_p2p_def env_flag_def listening_site_def)
  then show ?thesis using b(1,3) reset_drops_listener [of app ?w byte_crypto ?t fs1 fmempty] b(2) e(2) by fastforce
qed

section \<open>The names of the network\<close>

definition network :: "site \<Rightarrow> name set" where
  "network w = (if env_flag w ''KOVANICA_DEMO_MESH'' False then {''alpha'', ''beta'', ''gamma''} else {''alpha''})"

lemma members_upd: "a \<in> members m \<Longrightarrow> members (m\<lparr>mesh_nodes := fmupd a n (mesh_nodes m)\<rparr>) = members m"
  by (auto simp: members_def)

lemma members_announced [simp]:
  "members (announce_made H m a i) = members m" "members (announce_pooled C m a j) = members m"
  by (simp_all add: members_def)

lemma on_node_members: "on_node m a f = Some (Inr (x, m')) \<Longrightarrow> members m' = members m"
  by (elim on_node_InrD) (simp add: members_upd)

lemma produce_members: "mesh_produce C wall m a = Some (Inr (i, m')) \<Longrightarrow> members m' = members m"
  by (auto simp: mesh_produce_def rbind_eq_Inr split: bind_splits option.splits) (metis on_node_members)+

lemma empty_members: "mesh_produce_empty C wall m a = Some (Inr (b, m')) \<Longrightarrow> members m' = members m"
  by (auto simp: mesh_produce_empty_def rbind_eq_Inr split: bind_splits) (metis on_node_members)+

lemma send_members: "mesh_send C wall m a seed amount to_seed = Some (Inr (b, m')) \<Longrightarrow> members m' = members m"
  by (auto simp: mesh_send_def rbind_eq_Inr split: bind_splits) (metis on_node_members)+

lemma send_to_members: "mesh_send_to C wall m a seed amount to = Some (Inr (b, m')) \<Longrightarrow> members m' = members m"
  by (auto simp: mesh_send_to_def rbind_eq_Inr split: bind_splits) (metis on_node_members)+

lemma pool_members: "mesh_pool C m a seed amount to_seed = Some (Inr (t, m')) \<Longrightarrow> members m' = members m"
  by (auto simp: mesh_pool_def rbind_eq_Inr split: bind_splits) (metis on_node_members)+

lemma submit_members: "mesh_submit_signed C m a fr amount to sg = Some (Inr (t, m')) \<Longrightarrow> members m' = members m"
  by (auto simp: mesh_submit_signed_def rbind_eq_Inr split: bind_splits) (metis on_node_members)+

lemma members_with_node: "members (with_node_mut f m a) = members m"
  by (auto simp: with_node_mut_def members_def fmlookup_dom_iff split: option.split)

lemma named_member: "mesh_node m a \<noteq> None \<Longrightarrow> a \<in> members m"
  by (auto simp: mesh_node_def members_def fmlookup_dom_iff)

lemma members_connected: "members (try_connect a b m) = members m"
  by (simp add: members_def nodes_connected)

lemma reachable_connected: "mesh_reachable C m \<Longrightarrow> mesh_reachable C (try_connect a b m)"
  by (auto simp: try_connect_def intro: m_connect split: sum.split)

lemma boot_mesh_reachable:
  assumes "boot_mesh w C fs = Some m"
  shows "mesh_reachable C m \<and> members m = network w"
proof (cases "env_flag w ''KOVANICA_DEMO_MESH'' False")
  case True
  then show ?thesis using assms
    by (auto simp: boot_mesh_def network_def members_connected Let_def split: bind_splits
      intro!: reachable_connected m_add m_new) (auto simp: members_def mesh_add_def mesh_new_def)
next
  case False
  then show ?thesis using assms
    by (auto simp: boot_mesh_def network_def split: bind_splits intro!: m_add m_new) (auto simp: members_def mesh_add_def mesh_new_def)
qed

interpretation app_mesh: mesh_kept w C "\<lambda>m. mesh_reachable C m \<and> members m = network w" "\<lambda>a. a \<in> network w"
  for w :: site and C :: "('sk, 'vk) crypto"
proof
  fix m m' :: mesh and a
  show "a \<in> network w" if "mesh_reachable C m \<and> members m = network w" "mesh_node m a \<noteq> None"
    using that named_member by blast
  show "mesh_reachable C m' \<and> members m' = network w"
    if "tick C clock m = Some (k, m')" "mesh_reachable C m \<and> members m = network w" for clock k
  proof -
    have "from_envs (q_env ` set (mesh_queue m)) (mesh_queue m)" by (simp add: from_envs_def)
    then show ?thesis using tick_progress(3) [OF mesh_reachable_ok that(1)] m_tick that by blast
  qed
qed (auto simp: members_with_node boot_mesh_reachable network_def
    intro: m_produce m_produce_empty m_send m_send_to m_pool m_submit m_node_mut
    dest: produce_members empty_members send_members send_to_members pool_members submit_members)

text \<open>
  C19: whatever requests and ticks an explorer has served, its mesh is one the mesh operations
  give, with the names of the network it was started for, and the selected name is one of them:
  the node that \<open>snapshot\<close> expects is there.
\<close>

theorem explorer_state_invariant:
  assumes "serve w C t fs es = Some (app, fs')"
  shows "mesh_reachable C (app_mesh app) \<and> set (mesh_names (app_mesh app)) = network w
    \<and> (\<exists>n. mesh_node (app_mesh app) (app_selected app) = Some n)"
proof -
  have "mesh_reachable C (app_mesh app) \<and> members (app_mesh app) = network w" "app_selected app \<in> network w"
    using app_mesh.serve_kept [OF assms] boot_mesh_reachable by blast+
  then show ?thesis by (auto simp: members_def mesh_names_def mesh_node_def fmlookup_dom_iff)
qed

theorem explorer_state_invariant_witness:
  "\<exists>app fs n. serve quiet_site byte_crypto \<lparr>wall_at = \<lambda>_. 0, event_at = \<lambda>_. 0, record_at = \<lambda>_ _. 0\<rparr> fmempty
       [Connection \<lparr>wall_at = \<lambda>_. 0, event_at = \<lambda>_. 0, record_at = \<lambda>_ _. 0\<rparr> []] = Some (app, fs)
     \<and> mesh_names (app_mesh app) = [''alpha''] \<and> mesh_node (app_mesh app) (app_selected app) = Some n"
proof (rule boot_single)
  let ?t = "\<lparr>wall_at = \<lambda>_. 0, event_at = \<lambda>_. 0, record_at = \<lambda>_ _. 0\<rparr>"
  show s: "no_snaps fmempty" "\<not> env_flag quiet_site ''KOVANICA_DEMO_MESH'' False"
    by (simp_all add: no_snaps_def env_flag_def quiet_site_def)
  fix app fs' n
  assume b: "boot_persist quiet_site byte_crypto ?t False fmempty = Some (app, fs')" "app_mesh app = mesh_add mesh_new ''alpha'' n"
  then have r: "serve quiet_site byte_crypto ?t fmempty [Connection ?t []] = Some (app, fs')"
    by (simp add: serve_def handle_def)
  have "mesh_names (app_mesh app) = [''alpha'']"
    by (simp add: b(2) mesh_names_def mesh_add_def mesh_new_def sorted_single)
  then show ?thesis using explorer_state_invariant [OF r] r by blast
qed

section \<open>A closed explorer\<close>

lemma closed_dispatch:
  assumes "\<not> app_operator app" "\<not> app_faucet app" "\<not> app_allow_reset app" "action \<notin> {''produce'', ''submit''}"
    and "dispatch w C t app fs action q = Some (Inr (body, app', fs'))"
  shows "app' = app \<and> fs' = fs"
  using assms by (auto simp: dispatch_def act_reset_def act_faucet_def act_prepare_def rbind_eq_Inr Let_def split: if_splits sum.splits bind_splits)

text \<open>A POST whose path names the action.\<close>

definition asks_for :: "string \<Rightarrow> byte list \<Rightarrow> bool" where
  "asks_for action buf \<longleftrightarrow> fst (request_line buf) = ''POST''
     \<and> (let path = fst (split_query (snd (request_line buf))) in trim_prefix (length path) ''/api/'' path = action)"

lemma same_app: "\<exists>a. app = app\<lparr>app_selected := a\<rparr>"
  by (rule exI [of _ "app_selected app"]) simp

lemma select_node_app: "\<exists>a. select_node app q = app\<lparr>app_selected := a\<rparr>"
  using same_app by (auto simp: select_node_def select_def split: option.split)

text \<open>
  C13: on an explorer without operator, faucet and reset rights no request changes the mesh but a
  POST of \<open>produce\<close> or \<open>submit\<close>: every other request leaves all of the explorer as it was, the
  selected name apart.
\<close>

theorem closed_explorer_read_only:
  assumes "\<not> app_operator app" "\<not> app_faucet app" "\<not> app_allow_reset app"
    and "handle w C t app fs buf = Some (resp, app', fs')"
    and "\<not> asks_for ''produce'' buf" "\<not> asks_for ''submit'' buf"
  shows "\<exists>a. app' = app\<lparr>app_selected := a\<rparr>"
proof -
  have "\<exists>a. app' = app\<lparr>app_selected := a\<rparr>" if "handle_get w C app fs path q = Some (resp, app', fs')" for path q
  proof -
    have "app' = app \<or> app' = select_node app q"
      using that by (auto simp: handle_get_def Let_def split: if_splits bind_splits option.splits)
    then show ?thesis using same_app select_node_app by metis
  qed
  moreover have "\<exists>a. app' = app\<lparr>app_selected := a\<rparr>"
    if p: "handle_post w C t app fs path q = Some (resp, app', fs')" "trim_prefix (length path) ''/api/'' path \<notin> {''produce'', ''submit''}" for path q
  proof -
    obtain a where a: "select_node app q = app\<lparr>app_selected := a\<rparr>" using select_node_app by blast
    have "app' = select_node app q"
      using p closed_dispatch [of "select_node app q" "trim_prefix (length path) ''/api/'' path" w C t fs q] assms(1-3) unfolding a
      by (auto simp: handle_post_def a Let_def split: bind_splits sum.splits)
    then show ?thesis using a by blast
  qed
  ultimately show ?thesis using assms(4-6) same_app
    by (auto simp: handle_def asks_for_def Let_def split: if_splits prod.splits)
qed

theorem closed_explorer_read_only_witness:
  "\<exists>t app fs resp app' fs' a. serve quiet_site byte_crypto t fmempty [] = Some (app, fs)
     \<and> handle quiet_site byte_crypto t app fs (str_bytes ''POST /api/empty HTTP/1.1'') = Some (resp, app', fs')
     \<and> resp = Some (respond 400 TEXT_PLAIN ''operator only'') \<and> app' = app\<lparr>app_selected := a\<rparr>"
proof (rule boot_single)
  let ?t = "\<lparr>wall_at = \<lambda>_. 0, event_at = \<lambda>_. 0, record_at = \<lambda>_ _. 0\<rparr>" and ?buf = "str_bytes ''POST /api/empty HTTP/1.1''"
  show s: "no_snaps fmempty" "\<not> env_flag quiet_site ''KOVANICA_DEMO_MESH'' False"
    by (simp_all add: no_snaps_def env_flag_def quiet_site_def)
  fix app fs
  assume b: "boot_persist quiet_site byte_crypto ?t False fmempty = Some (app, fs)"
  have rights: "\<not> app_operator app" "\<not> app_faucet app" "\<not> app_allow_reset app"
    using b by (auto simp: boot_persist_def env_flag_def quiet_site_def Let_def split: bind_splits)
  have line: "request_line ?buf = (''POST'', ''/api/empty'')" "?buf \<noteq> []"
    "split_query ''/api/empty'' = (''/api/empty'', fmempty)" "\<not> starts_with ''/api/'' ''empty''" "starts_with ''/api/'' ''/api/empty''"
    by code_simp+
  have h: "handle quiet_site byte_crypto ?t app fs ?buf = Some (Some (respond 400 TEXT_PLAIN ''operator only''), app, fs)"
    using rights(1) line by (simp add: handle_def handle_post_def select_node_def dispatch_def operator_actions_def Let_def)
  have "\<not> asks_for ''produce'' ?buf" "\<not> asks_for ''submit'' ?buf"
    using line by (simp_all add: asks_for_def)
  then obtain a where "app = app\<lparr>app_selected := a\<rparr>" using closed_explorer_read_only [OF rights h] by blast
  moreover have "serve quiet_site byte_crypto ?t fmempty [] = Some (app, fs)" using b by (simp add: serve_def)
  ultimately show ?thesis using h by blast
qed

end
