(* ===== verification/HistoryProps.thy ===== *)
theory HistoryProps
  imports Pages NodeProps
begin

text \<open>
  The history of an address against its balance.  What a set of outputs is worth to an address
  changes with each applied transaction by the change \<open>history_json\<close> lists for it, as long as the
  outputs it spends are those of the transactions listed.
\<close>

section \<open>The worth of a set of outputs\<close>

definition worth :: "address \<Rightarrow> tx_output \<Rightarrow> int" where
  "worth a out = (if owner out = a then uint (out_value out) else 0)"

definition wsum :: "address \<Rightarrow> utxo_set \<Rightarrow> int" where
  "wsum a u = (\<Sum>op \<in> fset (fmdom u). worth a (the (fmlookup u op)))"

lemma owned_simps [simp]: "owned a [] = 0" "owned a (out # outs) = worth a out + owned a outs"
  by (simp_all add: owned_def worth_def)

lemma wsum_empty [simp]: "wsum a fmempty = 0"
  by (simp add: wsum_def)

lemma wsum_drop:
  assumes "fmlookup u op = Some out"
  shows "wsum a u = worth a out + wsum a (fmdrop op u)"
proof -
  have m: "op \<in> fset (fmdom u)" using assms by (simp add: fmdomI)
  have "(\<Sum>x \<in> fset (fmdom u) - {op}. worth a (the (fmlookup (fmdrop op u) x))) = (\<Sum>x \<in> fset (fmdom u) - {op}. worth a (the (fmlookup u x)))"
    by (rule sum.cong) auto
  then show ?thesis using assms m by (simp add: wsum_def sum.remove [OF _ m])
qed

lemma wsum_upd:
  assumes "fmlookup u op = None"
  shows "wsum a (fmupd op out u) = worth a out + wsum a u"
proof -
  have "fmdrop op u = u" by (rule fmap_ext) (use assms in auto)
  then show ?thesis using wsum_drop [of "fmupd op out u" op out a] by (simp add: fmdrop_fmupd_same)
qed

lemma wsum_outputs: "add_outputs t i outs u = Inr u' \<Longrightarrow> wsum a u' = wsum a u + owned a outs"
proof (induction outs arbitrary: i u)
  case (Cons out rest)
  let ?op = "OutPoint t (word_of_nat i)"
  have n: "fmlookup u ?op = None" and r: "add_outputs t (Suc i) rest (fmupd ?op out u) = Inr u'"
    using Cons.prems by (auto simp: utxo_insert_def Let_def split: if_splits)
  show ?case using Cons.IH [OF r] wsum_upd [OF n] by simp
qed simp

lemma wsum_inputs:
  assumes "distinct (map outpoint ins)" "\<And>inp. inp \<in> set ins \<Longrightarrow> fmlookup u (outpoint inp) \<noteq> None"
  shows "wsum a u = owned a (map (\<lambda>inp. the (fmlookup u (outpoint inp))) ins) + wsum a (remove_inputs ins u)"
  using assms
proof (induction ins arbitrary: u)
  case (Cons inp rest)
  obtain prev where prev: "fmlookup u (outpoint inp) = Some prev" using Cons.prems(2) by fastforce
  let ?u = "fmdrop (outpoint inp) u"
  have same: "fmlookup ?u (outpoint x) = fmlookup u (outpoint x)" if "x \<in> set rest" for x
    using Cons.prems(1) that by (metis distinct.simps(2) fmlookup_drop image_eqI list.map(2) list.set_map)
  have "wsum a ?u = owned a (map (\<lambda>inp. the (fmlookup ?u (outpoint inp))) rest) + wsum a (remove_inputs rest ?u)"
    by (rule Cons.IH) (use Cons.prems same in auto)
  moreover have "map (\<lambda>inp. the (fmlookup ?u (outpoint inp))) rest = map (\<lambda>inp. the (fmlookup u (outpoint inp))) rest"
    using same by (intro map_cong refl) (simp only:)
  ultimately have "wsum a ?u = owned a (map (\<lambda>inp. the (fmlookup u (outpoint inp))) rest) + wsum a (remove_inputs rest ?u)"
    by (simp only:)
  then show ?case using prev wsum_drop [OF prev, of a] by (simp add: utxo_remove_def)
qed simp

lemma wsum_balance:
  assumes "utxo_len u < 2 ^ 64"
  shows "wsum a u = uint (balance u a)"
proof -
  have "wsum a u = (\<Sum>op \<in> {op \<in> fset (fmdom u). owner (the (fmlookup u op)) = a}. uint (out_value (the (fmlookup u op))))"
    unfolding wsum_def worth_def by (rule sum.inter_filter [symmetric]) simp
  also have "\<dots> = int (utxo_sum_of u a)"
    unfolding utxo_sum_of_def of_nat_sum by (rule sum.cong) simp_all
  also have "\<dots> = uint (balance u a)" using balance_sum_of [OF assms, of a] by (simp add: uint_nat)
  finally show ?thesis .
qed

section \<open>Outputs of known transactions\<close>

definition backed :: "('sk, 'vk) crypto \<Rightarrow> transaction set \<Rightarrow> utxo_set \<Rightarrow> bool" where
  "backed C T u \<longleftrightarrow> (\<forall>op out. fmlookup u op = Some out \<longrightarrow>
     (\<exists>tx \<in> T. tx_ident C tx = op_tx op \<and> unat (op_index op) < length (outputs tx) \<and> outputs tx ! unat (op_index op) = out))"

definition indexed :: "('sk, 'vk) crypto \<Rightarrow> transaction set \<Rightarrow> (tx_id, transaction) fmap \<Rightarrow> bool" where
  "indexed C T by_id \<longleftrightarrow> (\<forall>tx \<in> T. fmlookup by_id (tx_ident C tx) = Some tx)"

lemma spent_backed:
  assumes "backed C T u" "indexed C T by_id" "fmlookup u (outpoint inp) = Some out"
  shows "spent_output by_id inp = Some out"
  using assms by (fastforce simp: backed_def indexed_def spent_output_def Let_def)

lemma created_lookup:
  assumes "distinct (points t 0 (length outs))" "fmlookup (created t 0 outs) op = Some out"
  shows "op_tx op = t \<and> unat (op_index op) < length outs \<and> outs ! unat (op_index op) = out"
proof -
  have "(op, out) \<in> set (zip (points t 0 (length outs)) outs)"
    using assms(2) unfolding created_def by (metis fmap_of_list.rep_eq map_of_SomeD)
  then obtain j where j: "j < length outs" "op = OutPoint t (word_of_nat j)" "out = outs ! j"
    by (auto simp: set_zip points_def)
  have "inj_on (\<lambda>j. OutPoint t (word_of_nat j)) {..<length outs}"
    using assms(1) by (simp add: points_def distinct_map atLeast0LessThan)
  then have "inj_on (\<lambda>j. word_of_nat j :: u32) {..<length outs}" by (simp add: inj_on_def)
  then have "card {..<length outs} \<le> card (UNIV :: u32 set)" by (rule card_inj_on_le) simp_all
  then have "unat (word_of_nat j :: u32) = j" using j(1) by (simp add: unat_of_nat card_word)
  then show ?thesis using j by simp
qed

section \<open>Applying what the history lists\<close>

lemma regular_spent:
  assumes "regular_ok C u tx" "backed C T u" "indexed C T by_id"
  shows "List.map_filter (spent_output by_id) (inputs tx) = map (\<lambda>inp. the (fmlookup u (outpoint inp))) (inputs tx)"
proof -
  have "spent_output by_id inp = Some (the (fmlookup u (outpoint inp)))" if "inp \<in> set (inputs tx)" for inp
    using assms(1) that spent_backed [OF assms(2,3)] by (fastforce simp: regular_ok_def elim!: spendableE)
  then show ?thesis by (simp add: List.map_filter_def)
qed

lemma regular_worth:
  assumes "regular_ok C u tx" "backed C T u" "indexed C T by_id"
  shows "wsum a (regular_result C u tx) = wsum a u + tx_delta by_id a tx"
proof -
  have "add_outputs (tx_ident C tx) 0 (outputs tx) (remove_inputs (inputs tx) u) = Inr (regular_result C u tx)"
    unfolding add_outputs_ok using assms(1) by (simp add: regular_ok_def regular_result_def)
  from wsum_outputs [OF this, of a] wsum_inputs [of "inputs tx" u a] show ?thesis
    using assms(1) unfolding tx_delta_def regular_spent [OF assms] by (fastforce simp: regular_ok_def elim!: spendableE)
qed

lemma backed_mono: "backed C T u \<Longrightarrow> T \<subseteq> T' \<Longrightarrow> backed C T' u"
  by (fastforce simp: backed_def)

lemma backed_created:
  assumes "backed C T u" "distinct (points (tx_ident C tx) 0 (length (outputs tx)))" "tx \<in> T"
  shows "backed C T (u ++\<^sub>f created (tx_ident C tx) 0 (outputs tx))"
  unfolding backed_def
proof (intro allI impI)
  fix op out assume "fmlookup (u ++\<^sub>f created (tx_ident C tx) 0 (outputs tx)) op = Some out"
  then consider "fmlookup (created (tx_ident C tx) 0 (outputs tx)) op = Some out" | "fmlookup u op = Some out"
    by (auto split: if_splits)
  then show "\<exists>tx \<in> T. tx_ident C tx = op_tx op \<and> unat (op_index op) < length (outputs tx) \<and> outputs tx ! unat (op_index op) = out"
    using created_lookup [OF assms(2)] assms(1,3) by cases (fastforce simp: backed_def)+
qed

lemma backed_removed: "backed C T u \<Longrightarrow> backed C T (remove_inputs ins u)"
  by (simp add: backed_def remove_inputs_lookup)

lemma run_worth:
  assumes "indexed C T by_id"
  shows "regular_run C u txs = Some u' \<Longrightarrow> backed C T u \<Longrightarrow> set txs \<subseteq> T \<Longrightarrow>
    wsum a u' = wsum a u + sum_list (map (tx_delta by_id a) txs) \<and> backed C T u'"
proof (induction txs arbitrary: u)
  case (Cons tx rest)
  then have ok: "regular_ok C u tx" and run: "regular_run C (regular_result C u tx) rest = Some u'"
    by (auto split: if_splits)
  have "backed C T (regular_result C u tx)"
    unfolding regular_result_def using ok Cons.prems(2,3)
    by (intro backed_created backed_removed) (simp_all add: regular_ok_def)
  then show ?case using Cons.IH [OF run] Cons.prems(3) regular_worth [OF ok Cons.prems(2) assms, of a] by simp
qed simp

lemma block_worth:
  assumes "apply_block C u txs s = (u', Inr m)" "indexed C T by_id" "backed C T u" "set txs \<subseteq> T"
  shows "wsum a u' = wsum a u + sum_list (map (tx_delta by_id a) txs) \<and> backed C T u'"
proof -
  let ?cb = "hd txs" and ?ps = "points (coinbase_ident C txs) 0 (length (issued txs))"
  obtain mid where mid: "regular_run C u (regulars txs) = Some mid" "distinct ?ps" "set ?ps \<inter> fset (fmdom mid) = {}"
      "u' = mid ++\<^sub>f created (coinbase_ident C txs) 0 (issued txs)"
    using apply_block_InrD [OF assms(1)] by blast
  have "set (regulars txs) \<subseteq> T" using assms(4) by (cases txs) (auto simp: regulars_def split: if_splits)
  note R = run_worth [OF assms(2) mid(1) assms(3) this, of a]
  show ?thesis
  proof (cases "has_coinbase txs")
    case False
    then show ?thesis using R mid(4) by (simp add: issued_def regulars_def created_def points_def)
  next
    case True
    then have txs: "txs = ?cb # regulars txs" "issued txs = outputs ?cb" "is_coinbase ?cb"
      by (auto simp: has_coinbase_def regulars_def issued_def)
    have "add_outputs (coinbase_ident C txs) 0 (issued txs) mid = Inr u'" unfolding add_outputs_ok using mid(2-4) by simp
    from wsum_outputs [OF this, of a] have "wsum a u' = wsum a mid + tx_delta by_id a ?cb"
      using txs(2,3) by (simp add: tx_delta_def is_coinbase_def List.map_filter_def)
    moreover have "?cb \<in> T" using True assms(4) by (auto simp: has_coinbase_def)
    then have "backed C T u'"
      unfolding mid(4) using R mid(2) txs(2) by (simp add: coinbase_ident_def backed_created)
    moreover have "sum_list (map (tx_delta by_id a) txs) = tx_delta by_id a ?cb + sum_list (map (tx_delta by_id a) (regulars txs))"
      by (subst txs(1)) simp
    ultimately show ?thesis using R by simp
  qed
qed

lemma rejected_grows: "run_loop C d s xs run = Some run' \<Longrightarrow> \<exists>zs. rejected run' = rejected run @ zs"
proof (induction xs arbitrary: run)
  case (Cons x xs)
  obtain b :: block where "run_loop C d s xs (run_block C s run x (payload b)) = Some run'" using Cons.prems by (auto split: bind_splits)
  then obtain zs where "rejected run' = rejected (run_block C s run x (payload b)) @ zs" using Cons.IH by blast
  moreover have "\<exists>ys. rejected (run_block C s run x (payload b)) = rejected run @ ys"
    using run_block_lists [of C s run x "payload b"] by auto
  ultimately show ?case by auto
qed simp

definition block_txs :: "node_state \<Rightarrow> block_id \<Rightarrow> transaction list" where
  "block_txs n i = (case node_block_record n i of None \<Rightarrow> [] | Some r \<Rightarrow> rec_txs r)"

lemma blocks_worth:
  assumes "node_ledger n = Some l" "indexed C T by_id"
  shows "run_loop C (ledger_dag l) s xs run = Some run' \<Longrightarrow> rejected run' = [] \<Longrightarrow> (\<forall>x \<in> set xs. set (block_txs n x) \<subseteq> T)
    \<Longrightarrow> backed C T (run_utxo run)
    \<Longrightarrow> wsum a (run_utxo run') = wsum a (run_utxo run) + sum_list (map (tx_delta by_id a) (concat (map (block_txs n) xs)))"
proof (induction xs arbitrary: run)
  case (Cons x xs)
  obtain b where b: "dag_block (ledger_dag l) x = Some b" "run_loop C (ledger_dag l) s xs (run_block C s run x (payload b)) = Some run'"
    using Cons.prems(1) by (auto split: bind_splits)
  have none: "rejected (run_block C s run x (payload b)) = []" using rejected_grows [OF b(2)] Cons.prems(2) by simp
  obtain txs u m where t: "decode_block_payload (payload b) = Inr txs" "apply_block C (run_utxo run) txs s = (u, Inr m)"
    using none by (auto simp: run_block_def split: sum.splits prod.splits)
  have txs: "block_txs n x = txs" using assms(1) b(1) t(1) by (simp add: block_txs_def node_block_record_def)
  have run: "run_utxo (run_block C s run x (payload b)) = u" using t by (simp add: run_block_def)
  have W: "wsum a u = wsum a (run_utxo run) + sum_list (map (tx_delta by_id a) txs)" "backed C T u"
    using block_worth [OF t(2) assms(2) Cons.prems(4)] Cons.prems(3) txs by simp_all
  show ?case using Cons.IH [OF b(2) Cons.prems(2)] Cons.prems(3) W txs run by simp
qed simp

lemma items_sum:
  "sum_list (map (\<lambda>(i, tx, delta). delta) (history_items n order by_id a)) = sum_list (map (tx_delta by_id a) (concat (map (block_txs n) order)))"
proof -
  let ?f = "\<lambda>(i, tx, delta). delta" and ?all = "concat (map (\<lambda>i. map (\<lambda>tx. (i, tx, tx_delta by_id a tx)) (block_txs n i)) order)"
  have items: "history_items n order by_id a = filter (\<lambda>x. ?f x \<noteq> 0) ?all"
    unfolding history_items_def
    by (intro arg_cong2 [where f = filter] arg_cong [where f = concat] map_cong refl ext) (auto simp: block_txs_def split: option.split)
  have "sum_list (map ?f (filter (\<lambda>x. ?f x \<noteq> 0) xs)) = sum_list (map ?f xs)" for xs :: "(block_id \<times> transaction \<times> int) list"
    by (induction xs) auto
  moreover have "map ?f ?all = map (tx_delta by_id a) (concat (map (block_txs n) order))"
    by (simp add: map_concat comp_def)
  ultimately show ?thesis unfolding items by simp
qed

lemma index_fold:
  assumes "inj_on (tx_ident C) (set txs \<union> T)" "indexed C T m" "set txs \<subseteq> U" "T \<union> set txs = U"
  shows "indexed C U (fold (\<lambda>tx m. fmupd (tx_ident C tx) tx m) txs m)"
  using assms
proof (induction txs arbitrary: T m)
  case (Cons tx txs)
  have "indexed C (insert tx T) (fmupd (tx_ident C tx) tx m)"
    using Cons.prems(1,2) by (auto simp: indexed_def inj_on_def)
  from Cons.IH [OF _ this] show ?case using Cons.prems(1,3,4) by auto
qed simp

lemma txs_indexed:
  assumes "inj_on (tx_ident C) (set (concat (map (block_txs n) order)))"
  shows "indexed C (set (concat (map (block_txs n) order))) (txs_by_id C n order)"
proof -
  have "concat (map rec_txs (List.map_filter (node_block_record n) order)) = concat (map (block_txs n) order)"
    by (induction order) (auto simp: List.map_filter_simps block_txs_def split: option.split)
  then show ?thesis unfolding txs_by_id_def
    using index_fold [of C _ "{}" fmempty] assms by (simp add: indexed_def)
qed

text \<open>
  C27: the history of an address adds up to its balance.  When no block of the linear order was
  left out of the ledger state and distinct transactions have distinct ids, the changes
  \<open>history_json\<close> lists sum to the balance it shows beside them.
\<close>

theorem history_sums_to_balance:
  assumes "node_ledger n = Some l" "ledger_reachable C l" "finality_depth l = - 1"
    and "linearize (ledger_dag l) = Some order" "apply_dag C (ledger_dag l) (subsidy l) = Some run"
    and "rejected run = []" "utxo_len (run_utxo run) < 2 ^ 64"
    and "inj_on (tx_ident C) (set (concat (map (block_txs n) order)))"
  shows "\<exists>b. node_balance C n a = Some (Inr b)
    \<and> sum_list (map (\<lambda>(i, tx, delta). delta) (history_items n order (txs_by_id C n order) a)) = uint b"
proof -
  let ?T = "set (concat (map (block_txs n) order))" and ?id = "txs_by_id C n order"
  note inv = ledger_reachable_inv [OF assms(2)]
  obtain t where t: "selected_tip (ledger_dag l) = Some t" "t \<in> fset (tips (ledger_dag l))"
    using selected_tip_ok [OF ledger_invD(1) [OF inv]] by blast
  have "fmlookup (states l) t \<noteq> None"
    using full_lookup [OF inv assms(3)] tips_in_ids [OF ledger_invD(1) [OF inv] t(2)] by simp
  from ledger_state_run [OF inv t(1) this] have state: "ledger_state C l = Some (run_utxo run)"
    using assms(5) by auto
  have loop: "run_loop C (ledger_dag l) (subsidy l) order run_default = Some run"
    using assms(4,5) by (simp add: apply_dag_def)
  have "wsum a (run_utxo run) = sum_list (map (tx_delta ?id a) (concat (map (block_txs n) order)))"
    using blocks_worth [OF assms(1) txs_indexed [OF assms(8)] loop assms(6), of a]
    by (auto simp: run_default_def utxo_new_def backed_def)
  then show ?thesis using state assms(1) wsum_balance [OF assms(7), of a]
    by (simp add: node_balance_def ledger_of_def items_sum)
qed

theorem history_sums_to_balance_witness:
  "\<exists>n order b. node_balance byte_crypto n (Address 7) = Some (Inr b) \<and> order = [BlockId 0]
     \<and> sum_list (map (\<lambda>(i, tx, delta). delta) (history_items n order (txs_by_id byte_crypto n order) (Address 7))) = uint b \<and> b = 50"
proof -
  let ?C = byte_crypto
  obtain l where l: "ledger_reachable ?C l" "finality_depth l = - 1" "subsidy l = 50" "ids (ledger_dag l) = {BlockId 0}"
      "ledger_state ?C l = Some mint_set" "node_block (nd (ledger_dag l) (BlockId 0)) = block_genesis 1 0 0 (encode_block_payload [mint_tx])"
    using mint_ledger by blast
  note wf = ledger_invD(1) [OF ledger_reachable_inv [OF l(1)]]
  obtain xs where "linearize (ledger_dag l) = Some xs" "distinct xs" "set xs = {BlockId 0}" using linearize_ok [OF wf] l(4) by metis
  moreover have "xs = [x]" if "distinct xs" "set xs = {x}" for x and xs :: "block_id list"
    using that by (cases xs; cases "tl xs") auto
  ultimately have lin: "linearize (ledger_dag l) = Some [BlockId 0]" by blast
  define n where "n = node_new\<lparr>node_ledger := Some l\<rparr>"
  have n: "node_ledger n = Some l" by (simp add: n_def)
  have b: "dag_block (ledger_dag l) (BlockId 0) = Some (block_genesis 1 0 0 (encode_block_payload [mint_tx]))"
    using l(4,6) by (simp add: dag_block_def nd_lookup)
  have wt: "wf_txs [mint_tx]" by (simp add: wf_txs_def wf_tx_def mint_tx_def coinbase_def payload_length encode_into_def encode_output_def)
  have txs: "block_txs n (BlockId 0) = [mint_tx]"
    using n b decode_payload_enc [OF wt] by (simp add: block_txs_def node_block_record_def)
  obtain run where run: "apply_dag ?C (ledger_dag l) (subsidy l) = Some run" "rejected run = []" "run_utxo run = mint_set"
    using lin b decode_payload_enc [OF wt] mint_applies l(3)
    by (simp add: apply_dag_def run_block_def run_default_def utxo_new_def)
  have len: "utxo_len (run_utxo run) < 2 ^ 64" by (simp add: run(3) mint_set_def utxo_len_def fcard.rep_eq)
  obtain bal where bal: "node_balance ?C n (Address 7) = Some (Inr bal)"
      "sum_list (map (\<lambda>(i, tx, delta). delta) (history_items n [BlockId 0] (txs_by_id ?C n [BlockId 0]) (Address 7))) = uint bal"
    using history_sums_to_balance [OF n l(1,2) lin run(1,2) len, of "Address 7"] txs by auto
  have "bal = 50" using bal(1) l(5) n by (auto simp: node_balance_def ledger_of_def balance_def utxo_iter_def mint_set_def sorted_list_of_fmap_single)
  then show ?thesis using bal by blast
qed

end
