(* ===== verification/NodeBound.thy ===== *)
theory NodeBound
  imports RpcProps P2pProps
begin

text \<open>
  How far one operation can take a node: a producer and a received record add at most one block, a
  transfer adds at most one small transaction to the mempool.  \<open>node_fits\<close> bounds the blocks and the
  pending transactions of a node by two sets; under that bound no operation panics.
\<close>

section \<open>Growth\<close>

definition grew :: "node_state \<Rightarrow> node_state \<Rightarrow> block_id \<Rightarrow> bool" where
  "grew n n' i \<longleftrightarrow> held n' = insert i (held n)
     \<and> (\<forall>j tx. fmlookup (node_mempool n') j = Some tx \<longrightarrow> fmlookup (node_mempool n) j = Some tx)"

lemma ledger_insert_ids:
  assumes "ledger_inv C l" "Suc (card (ids (ledger_dag l))) \<le> ROOT_CAPACITY"
    and "ledger_insert C l ps w ts n txs = Some (Inr (i, l'))"
  shows "ids (ledger_dag l') = insert i (ids (ledger_dag l))"
proof -
  note I = ledger_invD [OF assms(1)]
  obtain d' u where d': "dag_insert (blake3 C) tx_structure_validator (ledger_dag l) (block_new ps w ts n (encode_block_payload txs)) = Some (Inr (i, d'))"
      "prune (l\<lparr>ledger_dag := d', states := fmupd i u (states l)\<rparr>) = Some l'"
    using assms(3) by (auto simp: ledger_insert_def Let_def split: bind_splits sum.splits prod.splits if_splits)
  note D = dag_insert_InrD [OF I(1) assms(2) d'(1)]
  have "ledger_dag l' = d'" using prune_ok [of "blake3 C" "l\<lparr>ledger_dag := d', states := fmupd i u (states l)\<rparr>"] d'(2) D(2) by auto
  then show ?thesis using D(4) by (auto simp: wired_def)
qed

lemma evict_grows:
  assumes "evict_mempool C n0 = Some n'" "node_ledger n0 = Some l'" "node_ledger n = Some l"
    and "ids (ledger_dag l') = insert i (ids (ledger_dag l))"
    and "\<And>j tx. fmlookup (node_mempool n0) j = Some tx \<Longrightarrow> fmlookup (node_mempool n) j = Some tx"
  shows "grew n n' i"
proof -
  obtain u where "n' = n0\<lparr>node_mempool := fst (evict_invalid (node_mempool n0) u)\<rparr>"
    using assms(1,2) by (auto simp: evict_mempool_def split: bind_splits)
  then show ?thesis using assms(2-5) by (simp add: grew_def held_def evict_lookup)
qed

lemma tips_ids:
  assumes "plain_ledger C l" "card (ids (ledger_dag l)) < ROOT_CAPACITY" "insert_on_tips C l ts txs = Some (Inr (i, l'))"
  shows "ids (ledger_dag l') = insert i (ids (ledger_dag l))"
proof -
  obtain ps w k where "ledger_insert C l ps w ts k txs = Some (Inr (i, l'))"
    using assms(3) by (auto simp: insert_on_tips_def map_err_def Let_def split: bind_splits sum.splits)
  then show ?thesis using ledger_insert_ids plain_ledgerD(2) [OF assms(1)] assms(2) by (metis Suc_leI)
qed

text \<open>A node with a ledger and room in its index.\<close>

lemma roomy_ledger:
  assumes "node_ok C n" "node_blocks n < ROOT_CAPACITY" "node_ledger n = Some l"
  shows "plain_ledger C l" "card (ids (ledger_dag l)) < ROOT_CAPACITY"
  using assms by (simp_all add: node_ok_def node_plain_def node_blocks_Some)

lemma produce_grows:
  assumes "node_ok C n" "node_blocks n < ROOT_CAPACITY" "produce_block C wall n = Some (Inr (x, n'))"
  shows "(x = None \<and> n' = n) \<or> (\<exists>b. x = Some b \<and> grew n n' b)"
proof -
  obtain l where l: "node_ledger n = Some l" using assms(3) by (auto simp: produce_block_def split: option.splits)
  from assms(3) l consider "x = None \<and> n' = n"
    | ts txs b l' ks where "insert_on_tips C l ts txs = Some (Inr (b, l'))"
      "evict_mempool C (n\<lparr>node_ledger := Some l', node_mempool := remove_all (node_mempool n) ks\<rparr>) = Some n'" "x = Some b"
    by (auto simp: produce_block_def Let_def split: if_splits bind_splits sum.splits)
  then show ?thesis
  proof cases
    case 2
    have "grew n n' b"
      by (rule evict_grows [OF 2(2) _ l tips_ids [OF roomy_ledger [OF assms(1,2) l] 2(1)]]) (auto simp: remove_all_lookup split: if_splits)
    then show ?thesis using 2(3) by blast
  qed blast
qed

lemma empty_grows:
  assumes "node_ok C n" "node_blocks n < ROOT_CAPACITY" "produce_empty C wall n = Some (Inr (b, n'))"
  shows "grew n n' b"
proof -
  obtain l ts txs l' where l: "node_ledger n = Some l" "insert_on_tips C l ts txs = Some (Inr (b, l'))"
      "evict_mempool C (n\<lparr>node_ledger := Some l'\<rparr>) = Some n'"
    using assms(3) by (auto simp: produce_empty_def ledger_of_def Let_def split: option.splits bind_splits sum.splits)
  show ?thesis by (rule evict_grows [OF l(3) _ l(1) tips_ids [OF roomy_ledger [OF assms(1,2) l(1)] l(2)]]) simp_all
qed

lemma send_grows:
  assumes "node_ok C n" "node_blocks n < ROOT_CAPACITY" "send_to C wall n seed amount to = Some (Inr (s, n'))"
  shows "grew n n' (sent_block s)"
proof -
  obtain l ts txs l' where l: "node_ledger n = Some l" "insert_on_tips C l ts txs = Some (Inr (sent_block s, l'))"
      "evict_mempool C (n\<lparr>node_ledger := Some l'\<rparr>) = Some n'"
    using assms(3) by (auto simp: send_to_def ledger_of_def Let_def split: option.splits bind_splits sum.splits)
  show ?thesis by (rule evict_grows [OF l(3) _ l(1) tips_ids [OF roomy_ledger [OF assms(1,2) l(1)] l(2)]]) simp_all
qed

lemma receive_grows:
  assumes "node_ok C n" "node_blocks n < ROOT_CAPACITY" "receive_block C wall n r = Some (Inr (i, n'))"
  shows "n' = n \<or> grew n n' i"
proof -
  obtain l where l: "node_ledger n = Some l" using assms(3) by (auto simp: receive_block_def Let_def split: if_splits option.splits)
  from assms(3) l consider "n' = n"
    | l' where "ledger_insert C l (rec_parents r) (rec_work r) (rec_timestamp_ms r) (rec_nonce r) (rec_txs r) = Some (Inr (i, l'))"
      "evict_mempool C (n\<lparr>node_ledger := Some l'\<rparr>) = Some n'"
    by (auto simp: receive_block_def Let_def split: if_splits bind_splits sum.splits ledger_insert_error.splits dag_error.splits)
  then show ?thesis
  proof cases
    case 2
    note L = roomy_ledger [OF assms(1,2) l]
    have grown: "ids (ledger_dag l') = insert i (ids (ledger_dag l))"
      using ledger_insert_ids [OF plain_ledgerD(2) [OF L(1)] _ 2(1)] L(2) by simp
    have "grew n n' i" by (rule evict_grows [OF 2(2) _ l grown]) simp_all
    then show ?thesis ..
  qed blast
qed

section \<open>The operations that \<open>Total\<close> leaves out\<close>

lemma empty_total:
  assumes "node_ok C n" "node_blocks n < ROOT_CAPACITY"
  shows "\<exists>res. produce_empty C wall n = Some res \<and> (\<forall>x n'. res = Inr (x, n') \<longrightarrow> node_ok C n')"
proof (cases "node_ledger n")
  case (Some l)
  note L = roomy_ledger [OF assms Some]
  let ?ts = "next_timestamp wall n (ledger_dag l) (tips_list (ledger_dag l))"
  let ?cb = "issuance_txs n ?ts 0"
  have len: "length (encode_block_payload ?cb) < 2 ^ 64" using issuance_txs_length [of n ?ts 0] by simp
  have "list_all wf_tx ?cb" by (rule issuance_txs_cases [of n ?ts 0]) (simp_all add: wf_tx_def coinbase_def)
  then have wf: "wf_txs ?cb" using len payload_count [of ?cb] by (simp add: wf_txs_def)
  obtain res where res: "insert_on_tips C l ?ts ?cb = Some res"
      "\<And>i l'. res = Inr (i, l') \<Longrightarrow> plain_ledger C l' \<and> card (ids (ledger_dag l')) = Suc (card (ids (ledger_dag l)))"
    using tips_insert_plain [OF L wf len, of ?ts] by blast
  show ?thesis
  proof (cases res)
    case (Inr q)
    obtain i l' where q: "q = (i, l')" by (cases q)
    obtain n' where "evict_mempool C (n\<lparr>node_ledger := Some l', node_mempool := node_mempool n\<rparr>) = Some n'" "node_ok C n'"
      using node_ok_insert [OF assms(1), of l' "card (ids (ledger_dag l))" "node_mempool n"] res(2) Inr q assms(1) by (auto simp: node_ok_def)
    then show ?thesis using Some res(1) Inr q by (simp add: produce_empty_def ledger_of_def Let_def)
  qed (use Some res(1) in \<open>simp add: produce_empty_def ledger_of_def Let_def\<close>)
qed (simp add: produce_empty_def ledger_of_def)

text \<open>What a wallet submits is a small transaction that enters the mempool under its id.\<close>

definition pooled :: "('sk, 'vk) crypto \<Rightarrow> node_state \<Rightarrow> node_state \<Rightarrow> tx_id \<Rightarrow> transaction \<Rightarrow> bool" where
  "pooled C n n' i tx \<longleftrightarrow> small_tx tx \<and> i = tx_ident C tx \<and> n' = n\<lparr>node_mempool := fst (mempool_add C (node_mempool n) tx)\<rparr>"

lemma pool_pooled:
  assumes "node_ok C n"
  shows "\<exists>res. node_pool C n seed amount to = Some res \<and> (\<forall>i n'. res = Inr (i, n') \<longrightarrow> (\<exists>tx. pooled C n n' i tx))"
  using build_total [of C n seed amount "node_address C to"] assms
  by (auto simp: node_pool_def build_transfer_def rbind_eq_Inr node_ok_def pooled_def) blast+

lemma signed_pooled:
  assumes "node_ok C n"
  shows "\<exists>res. submit_signed C n fr amount to sg = Some res \<and> (\<forall>i n'. res = Inr (i, n') \<longrightarrow> (\<exists>tx. pooled C n n' i tx))"
  using prepare_total [of C n fr amount to] assms
  by (auto simp: submit_signed_def submit_tx_def rbind_eq_Inr node_ok_def pooled_def split: if_splits) (use small_attach in blast)+

section \<open>Nodes within bounds\<close>

definition node_fits :: "('sk, 'vk) crypto \<Rightarrow> block_id set \<Rightarrow> transaction set \<Rightarrow> node_state \<Rightarrow> bool" where
  "node_fits C U T n \<longleftrightarrow> node_ok C n \<and> held n \<subseteq> U
     \<and> (\<forall>i tx. fmlookup (node_mempool n) i = Some tx \<longrightarrow> tx \<in> T \<and> tx_ident C tx = i)"

text \<open>\<open>b\<close> blocks, \<open>t\<close> pending transactions, all of them small.\<close>

definition bounded :: "nat \<Rightarrow> nat \<Rightarrow> block_id set \<Rightarrow> transaction set \<Rightarrow> bool" where
  "bounded b t U T \<longleftrightarrow> finite U \<and> card U \<le> b \<and> finite T \<and> card T \<le> t \<and> (\<forall>tx \<in> T. small_tx tx)"

lemma bounded_insert: "bounded b t U T \<Longrightarrow> bounded (Suc b) t (insert i U) T"
  "bounded b t U T \<Longrightarrow> small_tx tx \<Longrightarrow> bounded b (Suc t) U (insert tx T)"
  by (auto simp: bounded_def card_insert_if)

lemma node_fits_mono: "node_fits C U T n \<Longrightarrow> U \<subseteq> U' \<Longrightarrow> T \<subseteq> T' \<Longrightarrow> node_fits C U' T' n"
  by (auto simp: node_fits_def)

lemma node_fits_room:
  assumes "node_fits C U T n" "bounded b t U T" "b < ROOT_CAPACITY"
  shows "node_ok C n" "node_blocks n < ROOT_CAPACITY"
proof -
  have "node_blocks n = card (held n)" by (simp add: node_blocks_def held_def dag_len_ids split: option.split)
  also have "\<dots> \<le> card U" using assms(1,2) by (intro card_mono) (auto simp: node_fits_def bounded_def)
  finally show "node_blocks n < ROOT_CAPACITY" using assms(2,3) by (simp add: bounded_def)
qed (use assms(1) in \<open>simp add: node_fits_def\<close>)

lemma small_length: "small_tx tx \<Longrightarrow> length (encode_into True tx) \<le> 204"
  by (simp add: small_tx_def length_encode_into)

lemma pending_length:
  assumes "node_fits C U T n" "bounded b t U T"
  shows "length (encode_block_payload (pending_txs C n)) \<le> 8 + 204 * t"
proof -
  have pool: "set (pending_txs C n) \<subseteq> T" "pool_ok C (node_mempool n)"
    using assms by (auto simp: pending_txs_def set_mempool_ordered node_fits_def pool_ok_def bounded_def small_tx_def is_coinbase_def)
      fastforce
  have "distinct (map (tx_ident C) (pending_txs C n))"
    unfolding pending_txs_def mempool_ordered_ids [OF pool(2)] by simp
  then have "length (pending_txs C n) = card (set (pending_txs C n))" by (metis distinct_card distinct_map)
  also have "\<dots> \<le> t" using card_mono [OF _ pool(1)] assms(2) by (simp add: bounded_def)
  finally have l: "length (pending_txs C n) \<le> t" .
  have "length (encode_into True tx) \<le> 204" if "tx \<in> set (pending_txs C n)" for tx
    using small_length that pool(1) assms(2) by (auto simp: bounded_def)
  then have "sum_list (map (length \<circ> encode_into True) (pending_txs C n)) \<le> 204 * length (pending_txs C n)"
    using sum_list_mono [of "pending_txs C n" "length \<circ> encode_into True" "\<lambda>_. 204"] by (simp add: sum_list_triv comp_def mult.commute)
  then show ?thesis using l by (simp add: payload_length)
qed

lemma grew_fits: "grew n n' i \<Longrightarrow> node_fits C U T n \<Longrightarrow> node_ok C n' \<Longrightarrow> i \<in> held n' \<and> node_fits C (insert i U) T n'"
  unfolding grew_def node_fits_def by blast

lemma pooled_fits: "pooled C n n' i tx \<Longrightarrow> node_fits C U T n \<Longrightarrow> node_fits C U (insert tx T) n'"
  using small_txD(1) [of tx] by (auto simp: pooled_def node_fits_def mempool_add_def held_def node_ok_def node_plain_def pool_wf_def Let_def)

lemma produce_fits:
  assumes "node_fits C U T n" "bounded b t U T" "b < ROOT_CAPACITY" "204 * t + 80 < 2 ^ 64"
  shows "\<exists>res. produce_block C wall n = Some res \<and> (\<forall>x n'. res = Inr (x, n') \<longrightarrow>
    (x = None \<and> n' = n) \<or> (\<exists>i. x = Some i \<and> i \<in> held n' \<and> node_fits C (insert i U) T n'))"
  using produce_total [OF node_fits_room [OF assms(1-3)], of wall] produce_grows [OF node_fits_room [OF assms(1-3)], of wall]
    pending_length [OF assms(1,2)] assms(4) grew_fits [OF _ assms(1)] by fastforce

lemma empty_fits:
  assumes "node_fits C U T n" "bounded b t U T" "b < ROOT_CAPACITY"
  shows "\<exists>res. produce_empty C wall n = Some res \<and> (\<forall>i n'. res = Inr (i, n') \<longrightarrow> i \<in> held n' \<and> node_fits C (insert i U) T n')"
  using empty_total [OF node_fits_room [OF assms], of wall] empty_grows [OF node_fits_room [OF assms], of wall]
    grew_fits [OF _ assms(1)] by blast

lemma send_fits:
  assumes "node_fits C U T n" "bounded b t U T" "b < ROOT_CAPACITY"
  shows "\<exists>res. send_to C wall n seed amount to = Some res
    \<and> (\<forall>s n'. res = Inr (s, n') \<longrightarrow> sent_block s \<in> held n' \<and> node_fits C (insert (sent_block s) U) T n')"
  using send_total [OF node_fits_room [OF assms], of wall seed amount to] send_grows [OF node_fits_room [OF assms], of wall seed amount to]
    grew_fits [OF _ assms(1)] by blast

lemma receive_fits:
  assumes "node_fits C U T n" "bounded b t U T" "b < ROOT_CAPACITY" "wf_record r"
  shows "\<exists>res. receive_block C wall n r = Some res \<and> (\<forall>i n'. res = Inr (i, n') \<longrightarrow> node_fits C (insert i U) T n')"
proof -
  note R = node_fits_room [OF assms(1-3)]
  have "node_plain C n" using R(1) by (simp add: node_ok_def)
  then obtain res where res: "receive_block C wall n r = Some res" "\<And>i n'. res = Inr (i, n') \<Longrightarrow> node_plain C n'"
    using receive_plain [OF _ R(2) assms(4), of C wall] by blast
  have "node_fits C (insert i U) T n'" if "res = Inr (i, n')" for i n'
  proof -
    have "n' = n \<or> grew n n' i" using receive_grows [OF R] res(1) that by blast
    moreover have "node_ok C n'" if "grew n n' i"
      using res(2) [OF \<open>res = Inr (i, n')\<close>] that R(1) by (fastforce simp: node_ok_def grew_def pool_wf_def)
    ultimately show ?thesis using grew_fits [OF _ assms(1)] assms(1) by (auto intro: node_fits_mono)
  qed
  then show ?thesis using res(1) by blast
qed

text \<open>A block that is under way has an id out of \<open>U\<close>, so taking it keeps the bound.\<close>

lemma receive_known:
  assumes "node_fits C U T n" "bounded b t U T" "b < ROOT_CAPACITY" "wf_record r" "record_id (blake3 C) r \<in> U"
  shows "\<exists>res. receive_block C wall n r = Some res \<and> (\<forall>i n'. res = Inr (i, n') \<longrightarrow> node_fits C U T n')"
proof -
  have "node_sound C U n"
    using assms(1) plain_ledgerD [of C] by (fastforce simp: node_sound_def node_fits_def node_ok_def node_plain_def)
  then obtain res where res: "receive_block C wall n r = Some res" "\<And>i n'. res = Inr (i, n') \<Longrightarrow> held n' \<subseteq> U"
    using receive_total [of C U n r wall] assms(2-5) by (auto simp: bounded_def node_sound_def)
  then show ?thesis using receive_fits [OF assms(1-4), of wall] by (auto simp: node_fits_def)
qed

lemma receive_all_fits:
  assumes "list_all wf_record rs" "node_fits C U T n" "bounded b t U T" "b + length rs \<le> ROOT_CAPACITY"
  shows "\<exists>n' res V. receive_all C clock k n rs = Some (n', res) \<and> bounded (b + length rs) t (U \<union> V) T \<and> node_fits C (U \<union> V) T n'"
  using assms
proof (induction rs arbitrary: n k b U)
  case Nil
  then have "bounded b t (U \<union> {}) T \<and> node_fits C (U \<union> {}) T n" by simp
  then show ?case unfolding receive_all.simps list.size add_0_right by blast
next
  case (Cons r rs)
  obtain res where res: "receive_block C (clock k) n r = Some res" "\<And>i n'. res = Inr (i, n') \<Longrightarrow> node_fits C (insert i U) T n'"
    using receive_fits [OF Cons.prems(2,3), of r "clock k"] Cons.prems(1,4) by auto
  show ?case
  proof (cases res)
    case (Inl e)
    have "bounded (b + length (r # rs)) t (U \<union> {}) T \<and> node_fits C (U \<union> {}) T n" using Cons.prems(2,3) by (simp add: bounded_def)
    then show ?thesis using res(1) Inl by (auto intro!: exI [of _ "{}"])
  next
    case (Inr q)
    obtain i n1 where q: "q = (i, n1)" by (cases q)
    have "\<exists>n' res V. receive_all C clock (Suc k) n1 rs = Some (n', res) \<and> bounded (Suc b + length rs) t (insert i U \<union> V) T
        \<and> node_fits C (insert i U \<union> V) T n'"
      using Cons.IH [OF _ res(2) bounded_insert(1) [OF Cons.prems(3)]] Inr q Cons.prems(1,4) by auto
    then obtain n' res' V where V: "receive_all C clock (Suc k) n1 rs = Some (n', res')"
        "bounded (Suc b + length rs) t (U \<union> insert i V) T" "node_fits C (U \<union> insert i V) T n'" by auto
    then show ?thesis using res(1) Inr q by (auto simp del: Un_insert_right)
  qed
qed

lemma pull_fits:
  assumes "node_fits C U T n" "bounded b t U T" "b + length buf div 48 \<le> ROOT_CAPACITY"
  shows "\<exists>n' res V. pull_blocks C clock buf n = Some (n', res) \<and> bounded (b + length buf div 48) t (U \<union> V) T \<and> node_fits C (U \<union> V) T n'"
proof (cases "decode_records buf")
  case (Inl e)
  have "bounded (b + length buf div 48) t (U \<union> {}) T \<and> node_fits C (U \<union> {}) T n" using assms(1,2) by (simp add: bounded_def)
  then show ?thesis using Inl by (auto simp: pull_blocks_def intro!: exI [of _ "{}"])
next
  case (Inr rs)
  then have rs: "buf = encode_records rs" "list_all wf_record rs"
    using records_iff by blast+
  have "48 * length rs \<le> length buf" using record_codec.width_concat [of rs] by (simp add: rs(1) encode_records_def)
  then have l: "length rs \<le> length buf div 48" by linarith
  then obtain n' res V where V: "receive_all C clock 0 n rs = Some (n', res)" "bounded (b + length rs) t (U \<union> V) T" "node_fits C (U \<union> V) T n'"
    using receive_all_fits [OF rs(2) assms(1,2), of clock 0] assms(3) by auto
  moreover have "bounded (b + length buf div 48) t (U \<union> V) T" using V(2) l by (simp add: bounded_def)
  ultimately show ?thesis using Inr by (auto simp: pull_blocks_def)
qed

text \<open>The record of a stored block carries that block.\<close>

lemma record_of_held:
  assumes "node_ok C n" "i \<in> held n" "node_block_record n i = Some r"
  shows "wf_record r \<and> record_id (blake3 C) r = i"
proof -
  obtain l where l: "node_ledger n = Some l" "i \<in> ids (ledger_dag l)" using assms(2) by (auto simp: held_def split: option.splits)
  note I = plain_node(2) [OF assms(1) l(1)]
  define b where "b = node_block (nd (ledger_dag l) i)"
  obtain txs where t: "decode_block_payload (payload b) = Inr txs" "machine_sized (parents b) txs"
      "block_new (parents b) (work b) (timestamp_ms b) (nonce b) (encode_block_payload txs) = b"
    using stored_block [OF I l(2)] by (auto simp: b_def)
  have "dag_block (ledger_dag l) i = Some b" by (simp add: dag_block_def nd_lookup [OF l(2)] b_def)
  then have "r = \<lparr>rec_parents = parents b, rec_work = work b, rec_timestamp_ms = timestamp_ms b, rec_nonce = nonce b, rec_txs = txs\<rparr>"
    using assms(3) l(1) t(1) by (simp add: node_block_record_def)
  moreover have "block_ident (blake3 C) b = i" using wf_dagD(5) [OF ledger_invD(1) [OF I] l(2)] by (simp add: b_def)
  ultimately show ?thesis using t(2,3) by (simp add: wf_record_def record_id_def)
qed

end
