(* ===== verification/MeshBound.thy ===== *)
theory MeshBound
  imports NodeBound Server
begin

text \<open>
  The operations of a mesh whose nodes are within bounds: none of them panics, and each moves the
  bounds by at most one block and one transaction.
\<close>

section \<open>Meshes within bounds\<close>

fun env_fits :: "('sk, 'vk) crypto \<Rightarrow> block_id set \<Rightarrow> transaction set \<Rightarrow> envelope \<Rightarrow> bool" where
  "env_fits C U T (BlockEnv r) \<longleftrightarrow> wf_record r \<and> record_id (blake3 C) r \<in> U"
| "env_fits C U T (HelloEnv _) \<longleftrightarrow> True"
| "env_fits C U T (TxEnv tx) \<longleftrightarrow> tx \<in> T"

definition mesh_fits :: "('sk, 'vk) crypto \<Rightarrow> block_id set \<Rightarrow> transaction set \<Rightarrow> mesh \<Rightarrow> bool" where
  "mesh_fits C U T m \<longleftrightarrow> mesh_ok C m \<and> every (node_fits C U T) m \<and> (\<forall>q \<in> set (mesh_queue m). env_fits C U T (q_env q))"

text \<open>The mesh has the names \<open>K\<close>, and at most \<open>b\<close> blocks and \<open>t\<close> pending transactions occur in it.\<close>

definition roomy :: "('sk, 'vk) crypto \<Rightarrow> name set \<Rightarrow> nat \<Rightarrow> nat \<Rightarrow> mesh \<Rightarrow> bool" where
  "roomy C K b t m \<longleftrightarrow> members m = K \<and> (\<exists>U T. bounded b t U T \<and> mesh_fits C U T m)"

lemma mesh_fitsD:
  assumes "mesh_fits C U T m"
  shows "mesh_ok C m" "every (node_fits C U T) m" "q \<in> set (mesh_queue m) \<Longrightarrow> env_fits C U T (q_env q)"
    "fmlookup (mesh_nodes m) a = Some n \<Longrightarrow> node_fits C U T n"
  using assms by (auto simp: mesh_fits_def every_def)

lemma env_fits_mono: "env_fits C U T env \<Longrightarrow> U \<subseteq> U' \<Longrightarrow> T \<subseteq> T' \<Longrightarrow> env_fits C U' T' env"
  by (cases env) auto

lemma mesh_fits_mono: "mesh_fits C U T m \<Longrightarrow> U \<subseteq> U' \<Longrightarrow> T \<subseteq> T' \<Longrightarrow> mesh_fits C U' T' m"
  unfolding mesh_fits_def every_def by (blast intro: node_fits_mono env_fits_mono)

lemma roomy_mono: "roomy C K b t m \<Longrightarrow> b \<le> b' \<Longrightarrow> t \<le> t' \<Longrightarrow> roomy C K b' t' m"
  unfolding roomy_def bounded_def by (meson le_trans)

lemma submit_tx_pooled: "submit_tx C n tx = Inr (i, n') \<Longrightarrow> small_tx tx \<Longrightarrow> pooled C n n' i tx"
  by (auto simp: submit_tx_def pooled_def split: if_splits)

interpretation fit: delivers C "\<lambda>n. bounded b t U T \<and> b < ROOT_CAPACITY \<and> node_fits C U T n" "env_fits C U T"
  for C :: "('sk, 'vk) crypto" and b t U T
proof
  show "\<exists>res. receive_block C wall n r = Some res \<and> (\<forall>i n'. res = Inr (i, n') \<longrightarrow> bounded b t U T \<and> b < ROOT_CAPACITY \<and> node_fits C U T n')"
    if "bounded b t U T \<and> b < ROOT_CAPACITY \<and> node_fits C U T n" "env_fits C U T (BlockEnv r)" for n r wall
    using receive_known [of C U T n b t r wall] that by simp
  show "bounded b t U T \<and> b < ROOT_CAPACITY \<and> node_fits C U T n'"
    if s: "submit_tx C n tx = Inr (i, n')" "bounded b t U T \<and> b < ROOT_CAPACITY \<and> node_fits C U T n" "env_fits C U T (TxEnv tx)" for n tx i n'
  proof -
    have "small_tx tx" "insert tx T = T" using s(2,3) by (auto simp: bounded_def)
    then show ?thesis using pooled_fits [OF submit_tx_pooled [OF s(1)]] s(2) by metis
  qed
qed

lemma tick_roomy:
  assumes "roomy C K b t m" "b < ROOT_CAPACITY"
  shows "\<exists>k m'. tick C clock m = Some (k, m') \<and> roomy C K b t m'"
proof -
  obtain U T where B: "bounded b t U T" "mesh_fits C U T m" using assms(1) by (auto simp: roomy_def)
  note F = mesh_fitsD [OF B(2)]
  have "every (\<lambda>n. bounded b t U T \<and> b < ROOT_CAPACITY \<and> node_fits C U T n) m" using F(2) B(1) assms(2) by (simp add: every_def)
  then obtain m' where m': "tick C clock m = Some (mesh_queued m, m')"
      "every (\<lambda>n. bounded b t U T \<and> b < ROOT_CAPACITY \<and> node_fits C U T n) m'"
    using fit.tick_total [OF F(1)] F(3) by blast
  have "from_envs {env. env_fits C U T env} (mesh_queue m)" using F(3) by (simp add: from_envs_def)
  note P = tick_progress [OF F(1) m'(1) this]
  have "env_fits C U T (q_env q)" if "q \<in> set (mesh_queue m')" for q using P(5) that by (auto simp: from_envs_def)
  moreover have "every (node_fits C U T) m'" using m'(2) by (simp add: every_def)
  ultimately have "mesh_fits C U T m'" using P(2) by (simp add: mesh_fits_def)
  then show ?thesis using m'(1) P(3) B(1) assms(1) by (auto simp: roomy_def)
qed

lemma drain_roomy:
  assumes "roomy C K b t m" "b < ROOT_CAPACITY"
  shows "\<exists>k m'. drain C clock limit m = Some (k, m') \<and> roomy C K b t m'"
proof -
  have "\<exists>k' m'. drain_loop C clock k n m = Some (k', m') \<and> roomy C K b t m'" if "roomy C K b t m" for k n m
    using that
  proof (induction k arbitrary: n m)
    case (Suc k)
    then obtain k1 m1 where "tick C clock m = Some (k1, m1)" "roomy C K b t m1" using tick_roomy [OF _ assms(2)] by blast
    then show ?case using Suc by (cases "mesh_queue m = []") auto
  qed simp
  then show ?thesis using assms(1) by (simp add: drain_def)
qed

section \<open>Operations on a node\<close>

text \<open>An operation of a node takes it from one pair of bounds to larger ones.\<close>

definition node_step ::
    "('sk, 'vk) crypto \<Rightarrow> block_id set \<Rightarrow> transaction set
     \<Rightarrow> ('x \<Rightarrow> node_state \<Rightarrow> block_id set \<Rightarrow> transaction set \<Rightarrow> bool)
     \<Rightarrow> (node_state \<Rightarrow> (node_error + 'x \<times> node_state) option) \<Rightarrow> bool" where
  "node_step C U T R f \<longleftrightarrow> (\<forall>n. node_fits C U T n \<longrightarrow> (\<exists>res. f n = Some res \<and> (\<forall>x n'. res = Inr (x, n') \<longrightarrow>
     (\<exists>U' T'. U \<subseteq> U' \<and> T \<subseteq> T' \<and> node_fits C U' T' n' \<and> R x n' U' T'))))"

lemma on_node_fits:
  assumes "mesh_fits C U T m" "node_step C U T R f"
  shows "\<exists>res. on_node m a f = Some res \<and> (\<forall>x m'. res = Inr (x, m') \<longrightarrow> members m' = members m
    \<and> (\<exists>U' T' n'. mesh_fits C U' T' m' \<and> fmlookup (mesh_nodes m') a = Some n' \<and> R x n' U' T'))"
proof (cases "fmlookup (mesh_nodes m) a")
  case None
  then have "a |\<notin>| fmdom (mesh_nodes m)" by (simp add: fmdom_notI)
  then show ?thesis by (simp add: on_node_def require_def)
next
  case (Some n)
  note F = mesh_fitsD [OF assms(1)]
  obtain res where res: "f n = Some res" "\<And>x n'. res = Inr (x, n') \<Longrightarrow> \<exists>U' T'. U \<subseteq> U' \<and> T \<subseteq> T' \<and> node_fits C U' T' n' \<and> R x n' U' T'"
    using assms(2) F(4) [OF Some] unfolding node_step_def by blast
  have dom: "a |\<in>| fmdom (mesh_nodes m)" using Some by (rule fmdomI)
  have "members m' = members m \<and> (\<exists>U' T' n'. mesh_fits C U' T' m' \<and> fmlookup (mesh_nodes m') a = Some n' \<and> R x n' U' T')"
    if x: "res = Inr (x, n')" "m' = m\<lparr>mesh_nodes := fmupd a n' (mesh_nodes m)\<rparr>" for x n' m'
  proof -
    obtain U' T' where U': "U \<subseteq> U'" "T \<subseteq> T'" "node_fits C U' T' n'" "R x n' U' T'" using res(2) [OF x(1)] by blast
    have M: "mesh_fits C U' T' m" by (rule mesh_fits_mono [OF assms(1) U'(1,2)])
    have "every (node_fits C U' T') m'" by (rule every_upd [OF mesh_fitsD(2) [OF M] U'(3)]) (simp add: x(2))
    then have "mesh_fits C U' T' m'" using node_upd_ok [OF F(1)] mesh_fitsD(3) [OF M] by (simp add: mesh_fits_def x(2))
    moreover have "members m' = members m" using dom by (auto simp: x(2) members_def)
    ultimately show ?thesis using U'(4) x(2) by auto
  qed
  moreover have "on_node m a f = Some (rbind (map_err P2pNode res) (\<lambda>(x, n). Inr (x, m\<lparr>mesh_nodes := fmupd a n (mesh_nodes m)\<rparr>)))"
    using Some dom res(1) by (simp add: on_node_def require_def)
  ultimately show ?thesis by (cases res) (auto simp: map_err_def)
qed

lemma queue_announced:
  "set (mesh_queue (announce_block H m a r)) \<subseteq> set (mesh_queue m) \<union> {q. q_env q = BlockEnv r}"
  "set (mesh_queue (announce_tx C m a tx)) \<subseteq> set (mesh_queue m) \<union> {q. q_env q = TxEnv tx}"
  by (auto simp: announce_block_def announce_tx_def enqueue_all_eq Let_def)

lemma announce_same:
  "mesh_nodes (announce_block H m a r) = mesh_nodes m" "mesh_nodes (announce_tx C m a tx) = mesh_nodes m"
  by (simp_all add: announce_block_def announce_tx_def enqueue_all_eq Let_def)

lemma made_fits:
  assumes "mesh_fits C U T m" "fmlookup (mesh_nodes m) a = Some n" "i \<in> held n"
  shows "mesh_fits C U T (announce_made (blake3 C) m a i) \<and> members (announce_made (blake3 C) m a i) = members m"
proof (cases "node_block_record n i")
  case (Some r)
  note F = mesh_fitsD [OF assms(1)]
  have n: "node_ok C n" "i \<in> U" using F(4) [OF assms(2)] assms(3) by (auto simp: node_fits_def)
  have "env_fits C U T (BlockEnv r)" using record_of_held [OF n(1) assms(3) Some] n(2) by simp
  moreover have "announce_made (blake3 C) m a i = announce_block (blake3 C) m a r"
    using Some assms(2) by (simp add: announce_made_def)
  ultimately show ?thesis using F(1-3) announce_made_ok [OF F(1), of a i] queue_announced(1) [of "blake3 C" m a r]
    by (auto simp: mesh_fits_def every_def announce_same members_def)
qed (use assms in \<open>simp add: announce_made_def\<close>)

lemma pooled_announced:
  assumes "mesh_fits C U T m"
  shows "mesh_fits C U T (announce_pooled C m a i) \<and> members (announce_pooled C m a i) = members m"
proof (cases "Option.bind (fmlookup (mesh_nodes m) a) (\<lambda>n. mempool_tx n i)")
  case (Some tx)
  note F = mesh_fitsD [OF assms(1)]
  obtain n where n: "fmlookup (mesh_nodes m) a = Some n" "mempool_tx n i = Some tx" using Some by (auto split: bind_splits)
  have "tx \<in> T" using F(4) [OF n(1)] n(2) by (auto simp: node_fits_def mempool_tx_def mempool_get_def)
  moreover have "announce_pooled C m a i = announce_tx C m a tx" using Some by (simp add: announce_pooled_def)
  ultimately show ?thesis using F(1-3) announce_pooled_ok [OF F(1), of a i] queue_announced(2) [of C m a tx]
    by (fastforce simp: mesh_fits_def every_def announce_same members_def)
qed (use assms in \<open>simp add: announce_pooled_def\<close>)

text \<open>An operation of the mesh returns, and leaves the mesh within the given bounds.\<close>

definition keeps_room :: "('sk, 'vk) crypto \<Rightarrow> name set \<Rightarrow> nat \<Rightarrow> nat \<Rightarrow> ('e + 'x \<times> mesh) option \<Rightarrow> bool" where
  "keeps_room C K b t run \<longleftrightarrow> (\<exists>res. run = Some res \<and> (\<forall>x m. res = Inr (x, m) \<longrightarrow> roomy C K b t m))"

lemma keeps_roomD: "keeps_room C K b t run \<Longrightarrow> \<exists>res. run = Some res \<and> (\<forall>x m. res = Inr (x, m) \<longrightarrow> roomy C K b t m)"
  by (simp add: keeps_room_def)

lemma made_room:
  assumes "roomy C K b t m" "b < ROOT_CAPACITY"
    and "\<And>U T n. bounded b t U T \<Longrightarrow> node_fits C U T n \<Longrightarrow>
      \<exists>res. f n = Some res \<and> (\<forall>x n'. res = Inr (x, n') \<longrightarrow> made x \<in> held n' \<and> node_fits C (insert (made x) U) T n')"
  shows "keeps_room C K (Suc b) t (do { res \<leftarrow> on_node m a f; Some (rbind res (\<lambda>(x, m). Inr (said x, announce_made (blake3 C) m a (made x)))) })"
proof -
  obtain U T where B: "bounded b t U T" "mesh_fits C U T m" "members m = K" using assms(1) by (auto simp: roomy_def)
  let ?R = "\<lambda>x n' U' T'. made x \<in> held n' \<and> bounded (Suc b) t U' T'"
  have "node_step C U T ?R f"
    unfolding node_step_def using assms(3) [OF B(1)] bounded_insert(1) [OF B(1)] by blast
  from on_node_fits [OF B(2) this, where a = a] obtain res where res: "on_node m a f = Some res"
      "\<And>x m'. res = Inr (x, m') \<Longrightarrow> members m' = members m
        \<and> (\<exists>U' T' n'. mesh_fits C U' T' m' \<and> fmlookup (mesh_nodes m') a = Some n' \<and> ?R x n' U' T')" by blast
  have "roomy C K (Suc b) t (announce_made (blake3 C) m' a (made x))" if x: "res = Inr (x, m')" for x m'
    using res(2) [OF x] made_fits B(3) unfolding roomy_def by metis
  then show ?thesis using res(1) by (auto simp: keeps_room_def rbind_eq_Inr)
qed

lemma pooled_room:
  assumes "roomy C K b t m" "\<And>n. node_ok C n \<Longrightarrow> \<exists>res. f n = Some res \<and> (\<forall>i n'. res = Inr (i, n') \<longrightarrow> (\<exists>tx. pooled C n n' i tx))"
  shows "keeps_room C K b (Suc t) (do { res \<leftarrow> on_node m a f; Some (rbind res (\<lambda>(i, m). Inr (i, announce_pooled C m a i))) })"
proof -
  obtain U T where B: "bounded b t U T" "mesh_fits C U T m" "members m = K" using assms(1) by (auto simp: roomy_def)
  have "node_step C U T (\<lambda>_ _ U' T'. bounded b (Suc t) U' T') f"
    unfolding node_step_def
  proof (intro allI impI)
    fix n assume n: "node_fits C U T n"
    then have "node_ok C n" by (simp add: node_fits_def)
    then obtain res where r: "f n = Some res" "\<And>i n'. res = Inr (i, n') \<Longrightarrow> \<exists>tx. pooled C n n' i tx"
      using assms(2) by blast
    have "\<exists>U' T'. U \<subseteq> U' \<and> T \<subseteq> T' \<and> node_fits C U' T' n' \<and> bounded b (Suc t) U' T'" if x: "res = Inr (i, n')" for i n'
    proof -
      obtain tx where p: "pooled C n n' i tx" using r(2) [OF x] by blast
      then have "small_tx tx" by (simp add: pooled_def)
      then show ?thesis using pooled_fits [OF p n] bounded_insert(2) [OF B(1)] by (meson order_refl subset_insertI)
    qed
    then show "\<exists>res. f n = Some res \<and> (\<forall>x n'. res = Inr (x, n') \<longrightarrow>
        (\<exists>U' T'. U \<subseteq> U' \<and> T \<subseteq> T' \<and> node_fits C U' T' n' \<and> bounded b (Suc t) U' T'))"
      using r(1) by blast
  qed
  from on_node_fits [OF B(2) this, where a = a] obtain res where res: "on_node m a f = Some res"
      "\<And>x m'. res = Inr (x, m') \<Longrightarrow> members m' = members m \<and> (\<exists>U' T'. mesh_fits C U' T' m' \<and> bounded b (Suc t) U' T')" by blast
  have "roomy C K b (Suc t) (announce_pooled C m' a x)" if x: "res = Inr (x, m')" for x m'
    using res(2) [OF x] pooled_announced B(3) unfolding roomy_def by metis
  then show ?thesis using res(1) by (auto simp: keeps_room_def rbind_eq_Inr)
qed

lemma empty_room: "roomy C K b t m \<Longrightarrow> b < ROOT_CAPACITY \<Longrightarrow> keeps_room C K (Suc b) t (mesh_produce_empty C wall m a)"
  unfolding mesh_produce_empty_def by (rule made_room [where made = "\<lambda>b. b" and said = "\<lambda>b. b"]) (auto intro: empty_fits)

lemma send_room: "roomy C K b t m \<Longrightarrow> b < ROOT_CAPACITY \<Longrightarrow> keeps_room C K (Suc b) t (mesh_send C wall m a seed amount to_seed)"
  unfolding mesh_send_def node_send_def by (rule made_room) (auto intro: send_fits)

lemma send_to_room: "roomy C K b t m \<Longrightarrow> b < ROOT_CAPACITY \<Longrightarrow> keeps_room C K (Suc b) t (mesh_send_to C wall m a seed amount to)"
  unfolding mesh_send_to_def by (rule made_room) (auto intro: send_fits)

lemma pool_room: "roomy C K b t m \<Longrightarrow> keeps_room C K b (Suc t) (mesh_pool C m a seed amount to_seed)"
  unfolding mesh_pool_def by (rule pooled_room) (auto intro: pool_pooled)

lemma signed_room: "roomy C K b t m \<Longrightarrow> keeps_room C K b (Suc t) (mesh_submit_signed C m a fr amount to sg)"
  unfolding mesh_submit_signed_def by (rule pooled_room) (auto intro: signed_pooled)

lemma produce_step:
  assumes "bounded b t U T" "b < ROOT_CAPACITY" "204 * t + 80 < 2 ^ 64"
  shows "node_step C U T (\<lambda>x n' U' T'. (\<forall>i. x = Some i \<longrightarrow> i \<in> held n') \<and> bounded (Suc b) t U' T') (produce_block C wall)"
  unfolding node_step_def
proof (intro allI impI)
  let ?R = "\<lambda>x n' U' T'. (\<forall>i. x = Some i \<longrightarrow> i \<in> held n') \<and> bounded (Suc b) t U' T'"
  fix n assume n: "node_fits C U T n"
  obtain res where r: "produce_block C wall n = Some res" "\<And>x n'. res = Inr (x, n') \<Longrightarrow>
      (x = None \<and> n' = n) \<or> (\<exists>i. x = Some i \<and> i \<in> held n' \<and> node_fits C (insert i U) T n')"
    using produce_fits [OF n assms, of wall] by blast
  have "\<exists>U' T'. U \<subseteq> U' \<and> T \<subseteq> T' \<and> node_fits C U' T' n' \<and> ?R x n' U' T'" if x: "res = Inr (x, n')" for x n'
    using r(2) [OF x]
  proof (elim disjE exE conjE)
    assume "x = None" "n' = n"
    moreover have "bounded (Suc b) t U T" using assms(1) by (simp add: bounded_def)
    ultimately show ?thesis using n by auto
  next
    fix i assume i: "x = Some i" "i \<in> held n'" "node_fits C (insert i U) T n'"
    then show ?thesis using bounded_insert(1) [OF assms(1), of i] by (intro exI [of _ "insert i U"] exI [of _ T]) auto
  qed
  then show "\<exists>res. produce_block C wall n = Some res
      \<and> (\<forall>x n'. res = Inr (x, n') \<longrightarrow> (\<exists>U' T'. U \<subseteq> U' \<and> T \<subseteq> T' \<and> node_fits C U' T' n' \<and> ?R x n' U' T'))"
    using r(1) by blast
qed

lemma produce_room:
  assumes "roomy C K b t m" "b < ROOT_CAPACITY" "204 * t + 80 < 2 ^ 64"
  shows "keeps_room C K (Suc b) t (mesh_produce C wall m a)"
proof -
  obtain U T where B: "bounded b t U T" "mesh_fits C U T m" "members m = K" using assms(1) by (auto simp: roomy_def)
  from on_node_fits [OF B(2) produce_step [OF B(1) assms(2,3)], where a = a] obtain res where
    res: "on_node m a (produce_block C wall) = Some res"
      "\<And>x m'. res = Inr (x, m') \<Longrightarrow> members m' = members m \<and> (\<exists>U' T' n'. mesh_fits C U' T' m'
        \<and> fmlookup (mesh_nodes m') a = Some n' \<and> (\<forall>i. x = Some i \<longrightarrow> i \<in> held n') \<and> bounded (Suc b) t U' T')" by blast
  have "roomy C K (Suc b) t (case x of None \<Rightarrow> m' | Some i \<Rightarrow> announce_made (blake3 C) m' a i)" if x: "res = Inr (x, m')" for x m'
  proof -
    obtain U' T' n' where R: "members m' = K" "mesh_fits C U' T' m'" "fmlookup (mesh_nodes m') a = Some n'"
        "\<forall>i. x = Some i \<longrightarrow> i \<in> held n'" "bounded (Suc b) t U' T'" using res(2) [OF x] B(3) by blast
    then show ?thesis using made_fits [OF R(2,3)] by (cases x) (auto simp: roomy_def)
  qed
  then show ?thesis using res(1) by (auto simp: keeps_room_def mesh_produce_def rbind_eq_Inr)
qed

text \<open>A node replaced through \<open>node_mut\<close>.\<close>

lemma node_mut_roomy:
  assumes "roomy C K b t m" "b \<le> b'"
    and "\<And>U T n. bounded b t U T \<Longrightarrow> mesh_node m a = Some n \<Longrightarrow> node_fits C U T n \<Longrightarrow>
      \<exists>U'. U \<subseteq> U' \<and> bounded b' t U' T \<and> node_fits C U' T (f n)"
  shows "roomy C K b' t (with_node_mut f m a)"
proof (cases "mesh_node m a")
  case None
  then have "with_node_mut f m a = m" by (simp add: with_node_mut_def mesh_node_def)
  then show ?thesis using roomy_mono [OF assms(1,2)] by simp
next
  case (Some n)
  obtain U T where B: "bounded b t U T" "mesh_fits C U T m" "members m = K" using assms(1) by (auto simp: roomy_def)
  obtain U' where U': "U \<subseteq> U'" "bounded b' t U' T" "node_fits C U' T (f n)"
    using assms(3) [OF B(1) Some mesh_fitsD(4) [OF B(2)]] Some by (auto simp: mesh_node_def)
  have m': "with_node_mut f m a = m\<lparr>mesh_nodes := fmupd a (f n) (mesh_nodes m)\<rparr>" using Some by (simp add: with_node_mut_def mesh_node_def)
  note M = mesh_fits_mono [OF B(2) U'(1) order_refl]
  have "every (node_fits C U' T) (with_node_mut f m a)" by (rule every_upd [OF mesh_fitsD(2) [OF M] U'(3)]) (simp add: m')
  then have "mesh_fits C U' T (with_node_mut f m a)"
    using node_upd_ok [OF mesh_fitsD(1) [OF B(2)]] mesh_fitsD(3) [OF M] by (simp add: mesh_fits_def m')
  moreover have "members (with_node_mut f m a) = K" using Some B(3) by (auto simp: m' members_def mesh_node_def fmlookup_dom_iff)
  ultimately show ?thesis using U'(2) by (auto simp: roomy_def)
qed

lemma miner_roomy: "roomy C K b t m \<Longrightarrow> roomy C K b t (with_node_mut (\<lambda>n. set_miner n addr) m a)"
  by (rule node_mut_roomy) (auto simp: set_miner_def node_fits_def node_ok_def node_plain_def held_def)

end
