(* ===== verification/ExplorerTotal.thy ===== *)
theory ExplorerTotal
  imports MeshBound ExplorerProps
begin

text \<open>
  The explorer never panics: started on any data directory, it handles every sequence of requests
  and ticks, whatever the requests and the peers send, as long as the blocks that can have come
  in fit the index of the DAG.
\<close>

section \<open>Explorers within bounds\<close>

definition app_roomy :: "site \<Rightarrow> ('sk, 'vk) crypto \<Rightarrow> nat \<Rightarrow> nat \<Rightarrow> explorer \<Rightarrow> bool" where
  "app_roomy w C b t app \<longleftrightarrow> roomy C (network w) b t (app_mesh app) \<and> app_selected app \<in> network w \<and> app_peers app = peer_list w"

lemma app_roomyD:
  assumes "app_roomy w C b t app"
  shows "roomy C (network w) b t (app_mesh app)" "app_selected app \<in> network w" "app_peers app = peer_list w"
  using assms by (simp_all add: app_roomy_def)

lemma app_roomy_upd [simp]:
  "app_roomy w C b t (app\<lparr>app_mesh := m\<rparr>) \<longleftrightarrow> roomy C (network w) b t m \<and> app_selected app \<in> network w \<and> app_peers app = peer_list w"
  "app_roomy w C b t (app\<lparr>app_mining := x\<rparr>) \<longleftrightarrow> app_roomy w C b t app"
  "app_roomy w C b t (app\<lparr>app_ticks := y\<rparr>) \<longleftrightarrow> app_roomy w C b t app"
  "app_roomy w C b t (app\<lparr>app_rotate := z\<rparr>) \<longleftrightarrow> app_roomy w C b t app"
  by (simp_all add: app_roomy_def)

lemma app_roomy_mono: "app_roomy w C b t app \<Longrightarrow> b \<le> b' \<Longrightarrow> t \<le> t' \<Longrightarrow> app_roomy w C b' t' app"
  using roomy_mono by (auto simp: app_roomy_def)

lemma roomy_every: "roomy C K b t m \<Longrightarrow> every (node_ok C) m"
  by (auto simp: roomy_def mesh_fits_def every_def node_fits_def)

lemma roomy_node: "roomy C K b t m \<Longrightarrow> a \<in> K \<Longrightarrow> \<exists>n. mesh_node m a = Some n \<and> node_ok C n"
  using roomy_every [of C K b t m] by (auto simp: roomy_def members_def mesh_node_def every_def fmlookup_dom_iff)

lemma persist_roomy: "roomy C K b t m \<Longrightarrow> \<exists>fs'. persist_all m fs = Some fs'"
  by (rule persist_total [OF roomy_every])

section \<open>Starting\<close>

text \<open>The most blocks a node can start with: one, or what its snapshot has room for.\<close>

definition load_cost :: "files \<Rightarrow> name \<Rightarrow> nat" where
  "load_cost fs a = (case fmlookup fs (snap_path a) of None \<Rightarrow> 1 | Some bytes \<Rightarrow> max 1 (length bytes div 48))"

definition boot_cost :: "site \<Rightarrow> files \<Rightarrow> nat" where
  "boot_cost w fs = load_cost fs ''alpha'' + (if env_flag w ''KOVANICA_DEMO_MESH'' False then load_cost fs ''beta'' + load_cost fs ''gamma'' else 0)"

definition fresh_node :: "('sk, 'vk) crypto \<Rightarrow> nat \<Rightarrow> node_state \<Rightarrow> bool" where
  "fresh_node C c n \<longleftrightarrow> node_ok C n \<and> node_mempool n = fmempty \<and> card (held n) \<le> c"

lemma genesis_fresh: "\<exists>n. genesis_node w C = Some n \<and> fresh_node C 1 n"
proof -
  obtain n where n: "genesis_node w C = Some n" "node_ok C n" "node_blocks n = 1" "node_mempool n = fmempty"
    using genesis_ok [of w C] by blast
  have "card (held n) = node_blocks n" by (simp add: node_blocks_def held_def dag_len_ids split: option.split)
  then show ?thesis using n by (simp add: fresh_node_def)
qed

lemma switch_fresh: "fresh_node C c n \<Longrightarrow> fresh_node C c (switch_pow w n)"
  using reach_pow [of C]
  by (auto simp: fresh_node_def switch_pow_def node_set_proof_of_work_def ledger_of_def node_ok_def node_plain_def plain_ledger_def
      held_def ledger_set_proof_of_work_def set_proof_of_work_def ids_def split: option.splits)

lemma miner_fresh: "fresh_node C c n \<Longrightarrow> fresh_node C c (load_miner w C fs a n)"
  by (auto simp: fresh_node_def load_miner_def set_miner_def node_ok_def node_plain_def held_def split: option.split sum.split)

lemma load_fresh:
  assumes "load_cost fs a < ROOT_CAPACITY"
  shows "\<exists>n. load_or_genesis w C fs a = Some n \<and> fresh_node C (load_cost fs a) n"
proof -
  obtain g where g: "genesis_node w C = Some g" "fresh_node C 1 g" using genesis_fresh by blast
  have "1 \<le> load_cost fs a" by (simp add: load_cost_def split: option.split)
  then have g2: "fresh_node C (load_cost fs a) g" using g(2) by (simp add: fresh_node_def)
  show ?thesis
  proof (cases "fmlookup fs (snap_path a)")
    case None
    then show ?thesis using g(1) g2 by (simp add: load_or_genesis_def)
  next
    case (Some bs)
    have "length bs div 48 < ROOT_CAPACITY" using Some assms by (simp add: load_cost_def)
    then have len: "length bs \<le> 48 * ROOT_CAPACITY" by (simp add: div_less_iff_less_mult mult.commute)
    obtain res where res: "ledger_read_snapshot C bs = Some res"
        "\<And>l. res = Inr l \<Longrightarrow> plain_ledger C l \<and> 48 * card (ids (ledger_dag l)) \<le> length bs"
      using read_snapshot_total [OF len, of C] by blast
    show ?thesis
    proof (cases res)
      case (Inl e)
      then show ?thesis using g(1) g2 Some res(1) by (simp add: load_or_genesis_def node_load_def map_err_def)
    next
      case (Inr l)
      have "card (ids (ledger_dag l)) \<le> length bs div 48" using res(2) [OF Inr] by linarith
      then have "fresh_node C (load_cost fs a) (node_new\<lparr>node_ledger := Some l\<rparr>)"
        using res(2) [OF Inr] Some
        by (simp add: fresh_node_def node_ok_def node_plain_def pool_wf_def node_new_def mempool_new_def held_def load_cost_def)
      from switch_fresh [OF miner_fresh [OF this]] show ?thesis
        using Some res(1) Inr by (simp add: load_or_genesis_def node_load_def map_err_def)
    qed
  qed
qed

lemma new_roomy: "roomy C {} 0 0 mesh_new"
proof -
  have "mesh_fits C {} {} mesh_new"
    by (simp add: mesh_fits_def every_def mesh_reachable_ok [OF m_new]) (simp add: mesh_new_def)
  then show ?thesis unfolding roomy_def by (intro conjI exI [of _ "{}"]) (simp_all add: bounded_def members_def mesh_new_def)
qed

lemma add_roomy:
  assumes "roomy C K b t m" "fresh_node C c n"
  shows "roomy C (insert a K) (b + c) t (mesh_add m a n)"
proof -
  obtain U T where B: "bounded b t U T" "mesh_fits C U T m" "members m = K" using assms(1) by (auto simp: roomy_def)
  have n: "node_fits C (U \<union> held n) T n" using assms(2) by (simp add: fresh_node_def node_fits_def)
  have "card (U \<union> held n) \<le> b + c"
    using card_Un_le [of U "held n"] B(1) assms(2) by (simp add: bounded_def fresh_node_def)
  then have bd: "bounded (b + c) t (U \<union> held n) T" using B(1) by (simp add: bounded_def)
  note M = mesh_fits_mono [OF B(2) Un_upper1 [of U "held n"] order_refl]
  have "every (node_fits C (U \<union> held n) T) (mesh_add m a n)"
    by (rule every_upd [OF mesh_fitsD(2) [OF M] n]) (simp add: mesh_add_def)
  then have "mesh_fits C (U \<union> held n) T (mesh_add m a n)"
    using mesh_add_ok [OF mesh_fitsD(1) [OF M]] mesh_fitsD(3) [OF M] by (simp add: mesh_fits_def) (simp add: mesh_add_def)
  then show ?thesis using bd B(3) by (auto simp: roomy_def members_def mesh_add_def)
qed

lemma connect_roomy:
  assumes "roomy C K b t m"
  shows "roomy C K b t (try_connect x y m)"
proof (cases "mesh_connect m x y")
  case (Inr m')
  obtain U T where B: "bounded b t U T" "mesh_fits C U T m" "members m = K" using assms by (auto simp: roomy_def)
  note F = mesh_fitsD [OF B(2)]
  have tc: "try_connect x y m = m'" using Inr by (simp add: try_connect_def)
  have "set (mesh_queue m') \<subseteq> set (mesh_queue m) \<union> {q. \<exists>adv. q_env q = HelloEnv adv}"
    using Inr by (auto simp: mesh_connect_def rbind_eq_Inr Let_def enqueue_hello_def enqueue_def split: if_splits)
  then have "\<forall>q \<in> set (mesh_queue m'). env_fits C U T (q_env q)" using F(3) by fastforce
  moreover have "every (node_fits C U T) m'" using F(2) nodes_connected [of x y m] by (simp add: every_def tc)
  ultimately have "mesh_fits C U T m'" using mesh_connect_ok [OF F(1) Inr] by (simp add: mesh_fits_def)
  then show ?thesis using B(1,3) members_connected [of x y m] by (auto simp: roomy_def tc)
qed (use assms in \<open>simp add: try_connect_def\<close>)

lemma boot_mesh_roomy:
  assumes "boot_cost w fs < ROOT_CAPACITY"
  shows "\<exists>m. boot_mesh w C fs = Some m \<and> roomy C (network w) (boot_cost w fs) 0 m"
proof (cases "env_flag w ''KOVANICA_DEMO_MESH'' False")
  case False
  then obtain n where "load_or_genesis w C fs ''alpha'' = Some n" "fresh_node C (load_cost fs ''alpha'') n"
    using load_fresh [of fs "''alpha''" w C] assms by (auto simp: boot_cost_def)
  then show ?thesis using False add_roomy [OF new_roomy] by (fastforce simp: boot_mesh_def boot_cost_def network_def)
next
  case True
  then have c: "load_cost fs ''alpha'' < ROOT_CAPACITY" "load_cost fs ''beta'' < ROOT_CAPACITY" "load_cost fs ''gamma'' < ROOT_CAPACITY"
    using assms by (simp_all add: boot_cost_def)
  obtain na nb ng where n: "load_or_genesis w C fs ''alpha'' = Some na" "fresh_node C (load_cost fs ''alpha'') na"
      "load_or_genesis w C fs ''beta'' = Some nb" "fresh_node C (load_cost fs ''beta'') nb"
      "load_or_genesis w C fs ''gamma'' = Some ng" "fresh_node C (load_cost fs ''gamma'') ng"
    using load_fresh [OF c(1), of w C] load_fresh [OF c(2), of w C] load_fresh [OF c(3), of w C] by blast
  have "boot_cost w fs = 0 + load_cost fs ''alpha'' + load_cost fs ''beta'' + load_cost fs ''gamma''"
    "network w = insert ''gamma'' (insert ''beta'' {''alpha''})" using True by (auto simp: boot_cost_def network_def)
  moreover note add_roomy [OF add_roomy [OF add_roomy [OF new_roomy n(2), of "''alpha''"] n(4), of "''beta''"] n(6), of "''gamma''"]
  ultimately have r: "roomy C (network w) (boot_cost w fs) 0 (mesh_add (mesh_add (mesh_add mesh_new ''alpha'' na) ''beta'' nb) ''gamma'' ng)"
    by simp
  then show ?thesis using True n(1,3,5) connect_roomy [OF connect_roomy [OF r]] by (simp add: boot_mesh_def Let_def)
qed

lemma snap_not_network: "snap_path a \<noteq> ''network''"
proof
  assume "snap_path a = ''network''"
  then have "last (snap_path a) = last ''network''" by (rule arg_cong)
  then show False by (simp add: snap_path_def)
qed

lemma cost_wiped: "boot_cost w (wipe_data fs) \<le> 3" "boot_cost w (ensure_network fs) \<le> boot_cost w fs"
proof -
  have one: "load_cost gs a = 1" if "no_snaps gs" "a \<in> {''alpha'', ''beta'', ''gamma''}" for gs a
    using that by (auto simp: load_cost_def no_snaps_def)
  then show "boot_cost w (wipe_data fs) \<le> 3" using no_snaps_wiped [of fs] by (simp add: boot_cost_def)
  have "load_cost (ensure_network fs) a \<le> load_cost fs a" if "a \<in> {''alpha'', ''beta'', ''gamma''}" for a
    using that one [OF no_snaps_wiped [of fs] that]
    by (auto simp: ensure_network_def load_cost_def snap_not_network [symmetric] split: option.splits)
  then show "boot_cost w (ensure_network fs) \<le> boot_cost w fs" by (auto simp: boot_cost_def intro!: add_mono)
qed

lemma boot_roomy:
  assumes "boot_cost w fs < ROOT_CAPACITY"
  shows "\<exists>app fs'. boot_persist w C t listening fs = Some (app, fs') \<and> app_roomy w C (boot_cost w fs) 0 app"
proof -
  have c: "boot_cost w (ensure_network fs) < ROOT_CAPACITY" using cost_wiped(2) [of w fs] assms by simp
  obtain m where m: "boot_mesh w C (ensure_network fs) = Some m" "roomy C (network w) (boot_cost w (ensure_network fs)) 0 m"
    using boot_mesh_roomy [OF c] by blast
  obtain k m' where m': "drain C (event_at t) 16 m = Some (k, m')" "roomy C (network w) (boot_cost w (ensure_network fs)) 0 m'"
    using drain_roomy [OF m(2) c] by blast
  obtain fs' where "persist_all m' (ensure_network fs) = Some fs'" using persist_roomy [OF m'(2)] by blast
  moreover have "''alpha'' \<in> network w" by (simp add: network_def)
  ultimately show ?thesis
    using m(1) m' roomy_mono [OF m'(2) cost_wiped(2) order_refl] by (simp add: boot_persist_def app_roomy_def Let_def)
qed

section \<open>Actions\<close>

text \<open>An action returns, and leaves the explorer within the given bounds.\<close>

definition ends :: "site \<Rightarrow> ('sk, 'vk) crypto \<Rightarrow> nat \<Rightarrow> nat \<Rightarrow> result option \<Rightarrow> bool" where
  "ends w C b t r \<longleftrightarrow> (\<exists>res. r = Some res \<and> (\<forall>body app fs. res = Inr (body, app, fs) \<longrightarrow> app_roomy w C b t app))"

lemma ends_simps [simp]: "ends w C b t (Some (Inl e))" "ends w C b t (Some (Inr (body, app, fs))) \<longleftrightarrow> app_roomy w C b t app"
  by (auto simp: ends_def)

lemma ends_mono:
  assumes "ends w C b t r" "b \<le> b'" "t \<le> t'"
  shows "ends w C b' t' r"
  using assms(1) by (auto simp: ends_def) (rule app_roomy_mono [OF _ assms(2,3)])

lemma drained_ends:
  assumes "app_roomy w C b t app" "b < ROOT_CAPACITY"
  shows "ends w C b t (drained C \<tau> app fs body)"
proof -
  obtain k m where "drain C (event_at \<tau>) 8 (app_mesh app) = Some (k, m)" "roomy C (network w) b t m"
    using drain_roomy [OF app_roomyD(1) [OF assms(1)] assms(2)] by blast
  then show ?thesis using app_roomyD [OF assms(1)] by (simp add: drained_def)
qed

lemma drained_mesh_ends:
  assumes "roomy C (network w) b t m" "app_roomy w C b0 t0 app" "b < ROOT_CAPACITY"
  shows "ends w C b t (drained C \<tau> (app\<lparr>app_mesh := m\<rparr>) fs body)"
  by (rule drained_ends [OF _ assms(3)]) (use assms(1) app_roomyD [OF assms(2)] in simp)

lemma action_ends:
  assumes "keeps_room C (network w) b t run" "app_roomy w C b0 t0 app" "b < ROOT_CAPACITY"
  shows "ends w C b t (mesh_action C \<tau> app fs run said)"
proof -
  obtain res where res: "run = Some res" "\<And>x m. res = Inr (x, m) \<Longrightarrow> roomy C (network w) b t m"
    using keeps_roomD [OF assms(1)] by blast
  have "ends w C b t (drained C \<tau> (app\<lparr>app_mesh := m\<rparr>) fs (said x))" if "res = Inr (x, m)" for x m
    by (rule drained_mesh_ends [OF res(2) [OF that] assms(2,3)])
  then show ?thesis using res(1) by (auto simp: mesh_action_def p2p_msg_def map_err_def split: sum.split)
qed

lemma try_roomy:
  assumes "keeps_room C K b t run" "roomy C K b t m"
  shows "\<exists>m'. try_mesh run m = Some m' \<and> roomy C K b t m'"
  using assms by (auto simp: try_mesh_def keeps_room_def split: sum.split)

lemma fork_roomy:
  assumes "roomy C K b t m" "b + length names \<le> ROOT_CAPACITY"
  shows "\<exists>m'. fork_loop C \<tau> k names m = Some m' \<and> roomy C K (b + length names) t m'"
  using assms
proof (induction names arbitrary: k b m)
  case (Cons a names)
  have "b < ROOT_CAPACITY" using Cons.prems(2) by simp
  note e = try_roomy [OF empty_room [OF Cons.prems(1) this] roomy_mono [OF Cons.prems(1) _ order_refl]]
  obtain m1 where m1: "try_mesh (mesh_produce_empty C (wall_at \<tau> k) m a) m = Some m1" "roomy C K (Suc b) t m1"
    using e by auto
  then show ?case using Cons.IH [OF m1(2), of "Suc k"] Cons.prems(2) by simp
qed simp

lemma network_names: "roomy C (network w) b t m \<Longrightarrow> length (mesh_names m) \<le> 3"
  by (auto simp: roomy_def members_def mesh_names_def network_def card_insert_if fcard.rep_eq)

lemma produce_ends:
  assumes "app_roomy w C b t app" "Suc (Suc b) < ROOT_CAPACITY" "204 * t + 80 < 2 ^ 64"
  shows "ends w C (Suc (Suc b)) t (act_produce C \<tau> app fs a)"
proof -
  have b: "b < ROOT_CAPACITY" "Suc b < ROOT_CAPACITY" using assms(2) by simp_all
  obtain res where res: "mesh_produce C (wall_at \<tau> 0) (app_mesh app) a = Some res" "\<And>x m. res = Inr (x, m) \<Longrightarrow> roomy C (network w) (Suc b) t m"
    using keeps_roomD [OF produce_room [OF app_roomyD(1) [OF assms(1)] b(1) assms(3)]] by blast
  have "ends w C (Suc (Suc b)) t (drained C \<tau> (app\<lparr>app_mesh := m\<rparr>) fs ok_json)" if "res = Inr (x, m)" for x m
    using ends_mono [OF drained_mesh_ends [OF res(2) [OF that] assms(1) b(2)]] by simp
  moreover have "ends w C (Suc (Suc b)) t (mesh_action C \<tau> app fs (mesh_produce_empty C (wall_at \<tau> 1) m a) (\<lambda>_. ok_json))"
    if "res = Inr (x, m)" for x m
    by (rule action_ends [OF empty_room [OF res(2) [OF that] b(2)] assms(1,2)])
  ultimately show ?thesis using res(1)
    by (auto simp: act_produce_def p2p_msg_def map_err_def split: sum.split option.split)
qed

lemma parallel_ends:
  assumes "app_roomy w C b t app" "Suc (Suc b) < ROOT_CAPACITY"
  shows "ends w C (Suc (Suc b)) t (act_parallel C \<tau> app fs)"
proof -
  have b: "b < ROOT_CAPACITY" "Suc b < ROOT_CAPACITY" using assms(2) by simp_all
  note R = app_roomyD(1) [OF assms(1)]
  note up = roomy_mono [OF _ le_SucI [OF order_refl] order_refl]
  obtain m1 where m1: "try_mesh (mesh_send C (wall_at \<tau> 0) (app_mesh app) ''alpha'' 1 ATOM 2) (app_mesh app) = Some m1" "roomy C (network w) (Suc b) t m1"
    using try_roomy [OF send_room [OF R b(1)] up [OF R]] by blast
  obtain m2 where m2: "try_mesh (mesh_send C (wall_at \<tau> 1) m1 ''beta'' 1 ATOM 3) m1 = Some m2" "roomy C (network w) (Suc (Suc b)) t m2"
    using try_roomy [OF send_room [OF m1(2) b(2)] up [OF m1(2)]] by blast
  show ?thesis using m1(1) m2(1) drained_mesh_ends [OF m2(2) assms] by (simp add: act_parallel_def)
qed

lemma fork_ends:
  assumes "app_roomy w C b t app" "b + 3 < ROOT_CAPACITY"
  shows "ends w C (b + 3) t (act_fork C \<tau> app fs)"
proof -
  note R = app_roomyD(1) [OF assms(1)]
  have n: "length (mesh_names (app_mesh app)) \<le> 3" by (rule network_names [OF R])
  then obtain m where m: "fork_loop C \<tau> 0 (mesh_names (app_mesh app)) (app_mesh app) = Some m"
      "roomy C (network w) (b + length (mesh_names (app_mesh app))) t m"
    using fork_roomy [OF R, of "mesh_names (app_mesh app)" \<tau> 0] assms(2) by auto
  have "roomy C (network w) (b + 3) t m" by (rule roomy_mono [OF m(2)]) (use n in simp_all)
  then show ?thesis using m(1) drained_mesh_ends [OF _ assms(1,2)] by (simp add: act_fork_def)
qed

lemma operator_ends:
  assumes "app_roomy w C b t app" "b + 3 < ROOT_CAPACITY"
  shows "ends w C (b + 3) (Suc t) (operator_action w C \<tau> app fs action q a)"
proof -
  have b: "b < ROOT_CAPACITY" "Suc b < ROOT_CAPACITY" "Suc (Suc b) < ROOT_CAPACITY" using assms(2) by simp_all
  note R = app_roomyD(1) [OF assms(1)] and S = app_roomyD(2,3) [OF assms(1)]
  note up = ends_mono [of w C _ _ _ "b + 3" "Suc t"]
  have mining: "app_roomy w C b t (app\<lparr>app_mining := x\<rparr>)" for x using assms(1) by simp
  have "ends w C (b + 3) (Suc t) (mesh_action C \<tau> app fs (mesh_produce_empty C (wall_at \<tau> 0) (app_mesh app) a) (\<lambda>_. ok_json))"
    using up [OF action_ends [OF empty_room [OF R b(1)] assms(1) b(2)]] by simp
  moreover have "ends w C (b + 3) (Suc t) (act_send C \<tau> app fs q a)"
    using up [OF action_ends [OF send_room [OF R b(1)] assms(1) b(2)]] by (auto simp: act_send_def split: sum.split)
  moreover have "ends w C (b + 3) (Suc t) (act_pool C \<tau> app fs q a)"
    using up [OF action_ends [OF pool_room [OF R] assms(1) b(1)]] by (auto simp: act_pool_def split: sum.split)
  moreover have "ends w C (b + 3) (Suc t) (act_parallel C \<tau> app fs)"
    using up [OF parallel_ends [OF assms(1) b(3)]] by simp
  moreover have "ends w C (b + 3) (Suc t) (act_fork C \<tau> app fs)"
    using up [OF fork_ends [OF assms]] by simp
  moreover have "ends w C (b + 3) (Suc t) (act_mining C \<tau> app fs q)"
    unfolding act_mining_def using up [OF drained_ends [OF mining b(1)]] by simp
  moreover have "ends w C (b + 3) (Suc t) (Some (act_miner w app fs q a))"
    using roomy_mono [OF miner_roomy [OF R], of "b + 3" "Suc t"] S
    by (auto simp: act_miner_def ends_def rbind_eq_Inr split: option.splits)
  ultimately show ?thesis by (simp add: operator_action_def)
qed

lemma reset_ends:
  assumes "b + 3 < ROOT_CAPACITY"
  shows "ends w C (b + 3) t (act_reset w C \<tau> app fs)"
proof -
  have c: "boot_cost w (wipe_data fs) \<le> b + 3" using cost_wiped(1) [of w fs] by simp
  then obtain app1 fs1 where a: "boot_persist w C \<tau> (app_listen app) (wipe_data fs) = Some (app1, fs1)"
      "app_roomy w C (boot_cost w (wipe_data fs)) 0 app1"
    using boot_roomy [of w "wipe_data fs" C \<tau> "app_listen app"] assms by auto
  have "app_roomy w C (b + 3) t app1" by (rule app_roomy_mono [OF a(2) c]) simp
  then show ?thesis using a(1) drained_ends assms by (auto simp: act_reset_def)
qed

lemma prepare_ends:
  assumes "app_roomy w C b t app"
  shows "ends w C b t (act_prepare w C app fs q a)"
proof -
  have "ends w C b t (do { res \<leftarrow> prepare_transfer C n src amount dst; Some (rbind (node_msg res) (\<lambda>p. Inr (g p, app, fs))) })"
    if "mesh_node (app_mesh app) a = Some n" for n src amount dst g
  proof -
    have "node_plain C n" using roomy_every [OF app_roomyD(1) [OF assms]] that by (simp add: every_def mesh_node_def node_ok_def)
    then obtain res where "prepare_transfer C n src amount dst = Some res" using prepare_total by blast
    then show ?thesis using assms by (auto simp: ends_def rbind_eq_Inr)
  qed
  then show ?thesis
    by (auto simp: act_prepare_def rbind_eq_Inr split: sum.splits option.splits)
qed

lemma dispatch_ends:
  assumes "app_roomy w C b t app" "b + 3 < ROOT_CAPACITY" "204 * t + 80 < 2 ^ 64"
  shows "ends w C (b + 3) (Suc t) (dispatch w C \<tau> app fs action q)"
proof -
  let ?a = "query_node app q"
  have b: "b < ROOT_CAPACITY" "Suc b < ROOT_CAPACITY" "Suc (Suc b) < ROOT_CAPACITY" using assms(2) by simp_all
  note R = app_roomyD(1) [OF assms(1)]
  note up = ends_mono [of w C _ _ _ "b + 3" "Suc t"]
  have "ends w C (b + 3) (Suc t) (act_produce C \<tau> app fs ?a)" using up [OF produce_ends [OF assms(1) b(3) assms(3)]] by simp
  moreover have "ends w C (b + 3) (Suc t) (act_reset w C \<tau> app fs)" by (rule reset_ends [OF assms(2)])
  moreover have "ends w C (b + 3) (Suc t) (act_prepare w C app fs q ?a)" using up [OF prepare_ends [OF assms(1)]] by simp
  moreover have "ends w C (b + 3) (Suc t) (act_submit w C \<tau> app fs q ?a)"
    using up [OF action_ends [OF signed_room [OF R] assms(1) b(1)]] by (auto simp: act_submit_def split: sum.split)
  moreover have "ends w C (b + 3) (Suc t) (act_faucet w C \<tau> app fs q ?a)"
    using up [OF action_ends [OF send_to_room [OF R b(1)] assms(1) b(2)]] by (auto simp: act_faucet_def split: sum.split)
  ultimately show ?thesis using operator_ends [OF assms(1,2)] by (simp add: dispatch_def Let_def)
qed

end
