(* ===== verification/ServeTotal.thy ===== *)
theory ServeTotal
  imports ExplorerTotal
begin

text \<open>
  Every page, request and tick of the explorer returns: the last steps to the theorem that the
  server never panics.
\<close>

section \<open>Pages\<close>

lemma each_total: "(\<And>x. x \<in> set xs \<Longrightarrow> \<exists>s. f x = Some s) \<Longrightarrow> \<exists>ss. each f xs = Some ss"
proof (induction xs)
  case (Cons x xs)
  then obtain s ss where "f x = Some s" "each f xs = Some ss" by force
  then show ?case by simp
qed simp

lemma tip_total: "node_ok C n \<Longrightarrow> \<exists>s. tip_text n = Some s"
  using selected_tip_ok [OF ledger_invD(1)] plain_node(2) [of C n]
  by (fastforce simp: tip_text_def node_selected_tip_def ledger_of_def split: option.splits)

lemma balance_total: "node_ok C n \<Longrightarrow> \<exists>res. node_balance C n a = Some res"
  using state_total plain_node(1) [of C n] by (fastforce simp: node_balance_def ledger_of_def split: option.splits)

lemma utxos_total: "node_ok C n \<Longrightarrow> \<exists>res. utxos_of C n a = Some res"
  using state_total plain_node(1) [of C n] by (fastforce simp: utxos_of_def ledger_of_def split: option.splits)

lemma wallets_total:
  assumes "node_ok C n"
  shows "\<exists>s. wallets_json C n = Some s"
proof -
  have "\<exists>s. wallet_json C n seed = Some s" for seed
  proof -
    obtain res where "node_balance C n (node_address C seed) = Some res" using balance_total [OF assms] by blast
    then show ?thesis by (simp add: wallet_json_def Let_def)
  qed
  then obtain ss where "each (wallet_json C n) ACTORS = Some ss" using each_total [of ACTORS "wallet_json C n"] by auto
  then show ?thesis by (simp add: wallets_json_def)
qed

lemma node_json_total:
  assumes "node_ok C n"
  shows "\<exists>s. node_json C n = Some s"
proof (cases "node_ledger n")
  case None
  then show ?thesis by (simp add: node_json_def ledger_of_def)
next
  case (Some l)
  note P = plain_node [OF assms Some] and D = ledger_invD(1) [OF plain_node(2) [OF assms Some]]
  obtain tip where tip: "tip_text n = Some tip" using tip_total [OF assms] by blast
  obtain t xs chain where o: "selected_tip (ledger_dag l) = Some t" "linearize (ledger_dag l) = Some xs" "selected_chain (ledger_dag l) = Some chain"
    using selected_tip_ok [OF D] linearize_ok [OF D] by blast
  obtain u where u: "ledger_state C l = Some u" using state_total [OF P(1)] by blast
  then have "\<exists>s. pending_json C n tx = Some s" for tx using Some by (simp add: pending_json_def pending_fee_def ledger_of_def)
  then obtain pending where p: "each (pending_json C n) (pending_txs C n) = Some pending"
    using each_total [of "pending_txs C n" "pending_json C n"] by auto
  show ?thesis unfolding node_json_def ledger_of_def ledger_json_def Some Let_def option.case sum.case tip o u p bind.bind_lunit
    by (rule exI) (rule refl)
qed

lemma snapshot_total:
  assumes "app_roomy w C b t app"
  shows "\<exists>s. snapshot C app = Some s"
proof -
  let ?m = "app_mesh app"
  note R = app_roomyD(1) [OF assms]
  obtain n where n: "mesh_node ?m (app_selected app) = Some n" "node_ok C n" using roomy_node [OF R app_roomyD(2) [OF assms]] by blast
  have "\<exists>s. mesh_node_json ?m a = Some s" if "a \<in> set (mesh_names ?m)" for a
  proof -
    have "a \<in> network w" using that R by (auto simp: mesh_names_def roomy_def members_def)
    then obtain n where "mesh_node ?m a = Some n" "node_ok C n" using roomy_node [OF R] by blast
    then show ?thesis using tip_total by (fastforce simp: mesh_node_json_def)
  qed
  then obtain ns where "each (mesh_node_json ?m) (mesh_names ?m) = Some ns"
    using each_total [of "mesh_names ?m" "mesh_node_json ?m"] by auto
  moreover obtain s where "node_json C n = Some s" using node_json_total [OF n(2)] by blast
  moreover obtain v where "wallets_json C n = Some v" using wallets_total [OF n(2)] by blast
  ultimately show ?thesis using n(1) by (simp add: snapshot_def Let_def)
qed

lemma bootstrap_total:
  assumes "app_roomy w C b t app"
  shows "\<exists>s. bootstrap_json app = Some s"
proof -
  obtain n where n: "mesh_node (app_mesh app) (app_selected app) = Some n" "node_ok C n"
    using roomy_node [OF app_roomyD(1,2) [OF assms]] by blast
  then show ?thesis using tip_total [OF n(2)] by (fastforce simp: bootstrap_json_def Let_def)
qed

lemma head_total: "node_ok C n \<Longrightarrow> \<exists>s. head_json n = Some s"
  using tip_total [of C n] by (fastforce simp: head_json_def)

lemma wallet_query_ok:
  assumes "app_roomy w C b t app" "wallet_query w app q = Inr (a, n)"
  shows "node_ok C n"
  using assms(2) roomy_every [OF app_roomyD(1) [OF assms(1)]]
  by (auto simp: wallet_query_def rbind_eq_Inr every_def mesh_node_def split: option.splits)

lemma history_total:
  assumes "app_roomy w C b t app"
  shows "\<exists>res. history_json w C app q = Some res"
proof (cases "wallet_query w app q")
  case (Inr p)
  obtain a n where p: "p = (a, n)" by (cases p)
  note n = wallet_query_ok [OF assms Inr [unfolded p]]
  show ?thesis
  proof (cases "node_ledger n")
    case (Some l)
    obtain xs where "linearize (ledger_dag l) = Some xs" using linearize_ok [OF ledger_invD(1) [OF plain_node(2) [OF n Some]]] by blast
    moreover obtain res where "node_balance C n a = Some res" using balance_total [OF n] by blast
    ultimately show ?thesis using Inr p Some by (simp add: history_json_def ledger_of_def node_msg_def map_err_def Let_def)
  qed (use Inr p in \<open>simp add: history_json_def ledger_of_def node_msg_def map_err_def\<close>)
qed (simp add: history_json_def)

lemma utxos_json_total:
  assumes "app_roomy w C b t app"
  shows "\<exists>res. utxos_json w C app q = Some res"
proof (cases "wallet_query w app q")
  case (Inr p)
  obtain a n where p: "p = (a, n)" by (cases p)
  note n = wallet_query_ok [OF assms Inr [unfolded p]]
  show ?thesis using balance_total [OF n, of a] utxos_total [OF n, of a] Inr p by (auto simp: utxos_json_def)
qed (simp add: utxos_json_def)

section \<open>Requests\<close>

lemma select_roomy:
  assumes "app_roomy w C b t app"
  shows "app_roomy w C b t (select_node app q)"
proof -
  have "a \<in> network w" if "mesh_node (app_mesh app) a \<noteq> None" for a
    using named_member [OF that] app_roomyD(1) [OF assms] by (simp add: roomy_def)
  then show ?thesis using assms by (auto simp: select_node_def select_def app_roomy_def split: option.split)
qed

lemma get_total:
  assumes "app_roomy w C b t app"
  shows "\<exists>resp app' fs'. handle_get w C app fs path q = Some (Some resp, app', fs') \<and> app_roomy w C b t app'"
proof -
  note S = select_roomy [OF assms]
  obtain s1 where s1: "bootstrap_json app = Some s1" using bootstrap_total [OF assms] by blast
  obtain s2 where s2: "snapshot C (select_node app q) = Some s2" using snapshot_total [OF S] by blast
  obtain n where n: "mesh_node (app_mesh app) (app_selected app) = Some n" "node_ok C n"
    using roomy_node [OF app_roomyD(1,2) [OF assms]] by blast
  obtain s3 where s3: "head_json n = Some s3" using head_total [OF n(2)] by blast
  obtain s4 where s4: "history_json w C app q = Some s4" using history_total [OF assms] by blast
  obtain s5 where s5: "utxos_json w C app q = Some s5" using utxos_json_total [OF assms] by blast
  show ?thesis using assms S by (simp add: handle_get_def s1 s2 n(1) s3 s4 s5 Let_def)
qed

lemma post_total:
  assumes "app_roomy w C b t app" "b + 3 < ROOT_CAPACITY" "204 * t + 80 < 2 ^ 64"
  shows "\<exists>resp app' fs'. handle_post w C \<tau> app fs path q = Some (Some resp, app', fs') \<and> app_roomy w C (b + 3) (Suc t) app'"
proof -
  note S = select_roomy [OF assms(1), of q]
  have up: "app_roomy w C (b + 3) (Suc t) (select_node app q)" by (rule app_roomy_mono [OF S]) simp_all
  obtain res where res: "dispatch w C \<tau> (select_node app q) fs (trim_prefix (length path) ''/api/'' path) q = Some res"
      "\<And>body app' fs'. res = Inr (body, app', fs') \<Longrightarrow> app_roomy w C (b + 3) (Suc t) app'"
    using dispatch_ends [OF S assms(2,3)] unfolding ends_def by blast
  show ?thesis
  proof (cases res)
    case (Inl e)
    then show ?thesis using res(1) up by (simp add: handle_post_def Let_def)
  next
    case (Inr p)
    obtain body app' fs' where p: "p = (body, app', fs')" by (cases p)
    have a: "app_roomy w C (b + 3) (Suc t) app'" using res(2) Inr p by blast
    obtain gs where "persist_all (app_mesh app') fs' = Some gs" using persist_roomy [OF app_roomyD(1) [OF a]] by blast
    then show ?thesis using res(1) Inr p a by (simp add: handle_post_def Let_def)
  qed
qed

lemma handle_total:
  assumes "app_roomy w C b t app" "b + 3 < ROOT_CAPACITY" "204 * t + 80 < 2 ^ 64"
  shows "\<exists>resp app' fs'. handle w C \<tau> app fs buf = Some (resp, app', fs') \<and> (buf \<noteq> [] \<longrightarrow> resp \<noteq> None)
    \<and> app_roomy w C (b + 3) (Suc t) app'"
proof -
  have up: "app_roomy w C (b + 3) (Suc t) app'" if "app_roomy w C b t app'" for app'
    by (rule app_roomy_mono [OF that]) simp_all
  obtain meth target where l: "request_line buf = (meth, target)" by (cases "request_line buf")
  obtain path q where s: "split_query target = (path, q)" by (cases "split_query target")
  show ?thesis
    using up [OF assms(1)] get_total [OF assms(1), of fs path q] post_total [OF assms, of \<tau> fs path q] up
    by (auto simp: handle_def l s Let_def)
qed

section \<open>Ticks\<close>

text \<open>The most blocks the bytes of the peers hold.\<close>

definition pull_cost :: "(string \<Rightarrow> byte list option) \<Rightarrow> string list \<Rightarrow> nat" where
  "pull_cost fetch peers = sum_list (map (\<lambda>a. case fetch a of None \<Rightarrow> 0 | Some buf \<Rightarrow> length buf div 48) peers)"

lemma pull_peers_fits:
  assumes "node_fits C U T n" "bounded b t U T" "b + pull_cost fetch peers \<le> ROOT_CAPACITY"
  shows "\<exists>n' U'. pull_peers C \<tau> fetch peers n = Some n' \<and> U \<subseteq> U' \<and> bounded (b + pull_cost fetch peers) t U' T \<and> node_fits C U' T n'"
  using assms
proof (induction peers arbitrary: n U b)
  case Nil
  then show ?case by (auto simp: pull_cost_def)
next
  case (Cons a peers)
  show ?case
  proof (cases "fetch a")
    case None
    then show ?thesis using Cons.IH [OF Cons.prems(1,2)] Cons.prems(3) by (simp add: pull_cost_def)
  next
    case (Some buf)
    let ?c = "length buf div 48"
    have c: "pull_cost fetch (a # peers) = ?c + pull_cost fetch peers" using Some by (simp add: pull_cost_def)
    obtain n1 res V where 1: "pull_blocks C (record_at \<tau> a) buf n = Some (n1, res)" "bounded (b + ?c) t (U \<union> V) T" "node_fits C (U \<union> V) T n1"
      using pull_fits [OF Cons.prems(1,2), of buf "record_at \<tau> a"] Cons.prems(3) c by auto
    have "b + ?c + pull_cost fetch peers \<le> ROOT_CAPACITY" using Cons.prems(3) c by simp
    from Cons.IH [OF 1(3,2) this] obtain n' U' where
      2: "pull_peers C \<tau> fetch peers n1 = Some n'" "U \<union> V \<subseteq> U'" "bounded (b + ?c + pull_cost fetch peers) t U' T" "node_fits C U' T n'"
      by blast
    have "bounded (b + pull_cost fetch (a # peers)) t U' T" using 2(3) by (simp add: c add.assoc)
    then show ?thesis using Some 1(1) 2 by auto
  qed
qed

lemma pull_alpha_roomy:
  assumes "app_roomy w C b t app" "b + pull_cost fetch (peer_list w) \<le> ROOT_CAPACITY"
  shows "\<exists>m. pull_alpha C \<tau> fetch app = Some m \<and> roomy C (network w) (b + pull_cost fetch (peer_list w)) t m"
proof (cases "mesh_node (app_mesh app) ''alpha''")
  case None
  then show ?thesis using roomy_mono [OF app_roomyD(1) [OF assms(1)]] by (simp add: pull_alpha_def)
next
  case (Some n)
  note R = app_roomyD [OF assms(1)]
  obtain U T where B: "bounded b t U T" "mesh_fits C U T (app_mesh app)" using R(1) by (auto simp: roomy_def)
  have n: "node_fits C U T n" using mesh_fitsD(4) [OF B(2)] Some by (simp add: mesh_node_def)
  obtain n' where n': "pull_peers C \<tau> fetch (peer_list w) n = Some n'" using pull_peers_fits [OF n B(1) assms(2), of \<tau>] by blast
  have "roomy C (network w) (b + pull_cost fetch (peer_list w)) t (with_node_mut (\<lambda>_. n') (app_mesh app) ''alpha'')"
  proof (rule node_mut_roomy [OF R(1)])
    fix U T n1
    assume "bounded b t U T" "mesh_node (app_mesh app) ''alpha'' = Some n1" "node_fits C U T n1"
    then show "\<exists>U'. U \<subseteq> U' \<and> bounded (b + pull_cost fetch (peer_list w)) t U' T \<and> node_fits C U' T n'"
      using pull_peers_fits [OF _ _ assms(2), of C U T n1 t \<tau>] Some n' by auto
  qed simp
  then show ?thesis using Some n' R(3) by (simp add: pull_alpha_def)
qed

lemma serve_peer_total: "app_roomy w C b t app \<Longrightarrow> \<exists>s. serve_peer app = Some s"
proof -
  assume a: "app_roomy w C b t app"
  have "\<exists>bytes. serve_blocks n = Some bytes" if n: "mesh_node (app_mesh app) ''alpha'' = Some n" for n
  proof (cases "node_ledger n")
    case (Some l)
    have "node_ok C n" using roomy_every [OF app_roomyD(1) [OF a]] n by (simp add: every_def mesh_node_def)
    then obtain xs where "linearize (ledger_dag l) = Some xs" using linearize_ok [OF ledger_invD(1) [OF plain_node(2)]] Some by blast
    then show ?thesis using Some by (simp add: serve_blocks_def export_def)
  qed (simp add: serve_blocks_def export_def)
  then show ?thesis by (fastforce simp: serve_peer_def split: option.split)
qed

lemma tick_p2p_roomy:
  assumes "app_roomy w C b t app" "b + pull_cost fetch (peer_list w) \<le> ROOT_CAPACITY"
  shows "\<exists>sent app' fs'. tick_p2p C \<tau> conn fetch app fs = Some (sent, app', fs') \<and> app_roomy w C (b + pull_cost fetch (peer_list w)) t app'"
proof -
  let ?c = "pull_cost fetch (peer_list w)"
  obtain s where s: "serve_peer app = Some s" using serve_peer_total [OF assms(1)] by blast
  obtain m where m: "pull_alpha C \<tau> fetch app = Some m" "roomy C (network w) (b + ?c) t m" using pull_alpha_roomy [OF assms] by blast
  obtain fs' where f: "persist_all m fs = Some fs'" using persist_roomy [OF m(2)] by blast
  have "app_roomy w C (b + ?c) t app" by (rule app_roomy_mono [OF assms(1)]) simp_all
  then show ?thesis using s m f app_roomyD [OF assms(1)] by (cases conn) (simp_all add: tick_p2p_def)
qed

lemma mine_turn_roomy:
  assumes "app_roomy w C b t app" "b < ROOT_CAPACITY"
  shows "\<exists>app' fs'. mine_turn C \<tau> app fs = Some (app', fs') \<and> app_roomy w C (Suc b) t app'"
proof -
  let ?names = "mesh_names (app_mesh app)"
  note R = app_roomyD [OF assms(1)]
  have up: "app_roomy w C (Suc b) t app" by (rule app_roomy_mono [OF assms(1)]) simp_all
  obtain res where res: "mesh_produce_empty C (wall_at \<tau> 0) (app_mesh app) (?names ! (app_rotate app mod length ?names)) = Some res"
      "\<And>x m. res = Inr (x, m) \<Longrightarrow> roomy C (network w) (Suc b) t m"
    using keeps_roomD [OF empty_room [OF R(1) assms(2)]] by blast
  define m where "m = (case res of Inl _ \<Rightarrow> app_mesh app | Inr (_, m) \<Rightarrow> m)"
  have m: "roomy C (network w) (Suc b) t m" using res(2) app_roomyD(1) [OF up] by (auto simp: m_def split: sum.split)
  obtain fs' where "persist_all m fs = Some fs'" using persist_roomy [OF m] by blast
  then show ?thesis using res(1) m R up by (simp add: mine_turn_def Let_def flip: m_def)
qed

lemma app_tick_roomy:
  assumes "app_roomy w C b t app" "b + pull_cost fetch (peer_list w) < ROOT_CAPACITY"
  shows "\<exists>sent app' fs'. app_tick C \<tau> conn fetch app fs = Some (sent, app', fs')
    \<and> app_roomy w C (Suc (b + pull_cost fetch (peer_list w))) t app'"
proof -
  let ?c = "b + pull_cost fetch (peer_list w)"
  have b: "b < ROOT_CAPACITY" using assms(2) by simp
  obtain k m where m: "tick C (event_at \<tau>) (app_mesh app) = Some (k, m)" "roomy C (network w) b t m"
    using tick_roomy [OF app_roomyD(1) [OF assms(1)] b] by blast
  let ?app = "app\<lparr>app_mesh := m, app_ticks := app_ticks app + 1\<rparr>"
  have a: "app_roomy w C b t ?app" using m(2) app_roomyD [OF assms(1)] by simp
  obtain sent app1 fs1 where 1: "tick_p2p C \<tau> conn fetch ?app fs = Some (sent, app1, fs1)" "app_roomy w C ?c t app1"
    using tick_p2p_roomy [OF a, of fetch \<tau> conn fs] assms(2) by auto
  obtain app2 fs2 where 2: "mine_turn C \<tau> app1 fs1 = Some (app2, fs2)" "app_roomy w C (Suc ?c) t app2"
    using mine_turn_roomy [OF 1(2) assms(2)] by blast
  have "app_roomy w C (Suc ?c) t app1" by (rule app_roomy_mono [OF 1(2)]) simp_all
  then show ?thesis using m(1) 1(1) 2 by (simp add: app_tick_def)
qed

section \<open>The server\<close>

text \<open>The most blocks one round can add: three for a request, one mined and those pulled for a tick.\<close>

fun event_cost :: "site \<Rightarrow> server_event \<Rightarrow> nat" where
  "event_cost w (Connection _ _) = 3"
| "event_cost w (Quiet _ _ fetch) = Suc (pull_cost fetch (peer_list w))"

lemma serve_event_roomy:
  assumes "app_roomy w C b t app" "b + event_cost w e < ROOT_CAPACITY" "204 * t + 80 < 2 ^ 64"
  shows "\<exists>app' fs'. serve_event w C e (app, fs) = Some (app', fs') \<and> app_roomy w C (b + event_cost w e) (Suc t) app'"
proof (cases e)
  case (Connection \<tau> buf)
  then show ?thesis using handle_total [OF assms(1) _ assms(3), of \<tau> fs buf] assms(2) by fastforce
next
  case (Quiet \<tau> conn fetch)
  then obtain sent app' fs' where "app_tick C \<tau> conn fetch app fs = Some (sent, app', fs')" "app_roomy w C (b + event_cost w e) t app'"
    using app_tick_roomy [OF assms(1), of fetch \<tau> conn fs] assms(2) by auto
  moreover from this(2) have "app_roomy w C (b + event_cost w e) (Suc t) app'" by (rule app_roomy_mono) simp_all
  ultimately show ?thesis using Quiet by simp
qed

lemma serve_events_roomy:
  assumes "app_roomy w C b t app" "b + sum_list (map (event_cost w) es) < ROOT_CAPACITY" "204 * (t + length es) + 80 < 2 ^ 64"
  shows "\<exists>app' fs'. serve_events w C es (app, fs) = Some (app', fs')
    \<and> app_roomy w C (b + sum_list (map (event_cost w) es)) (t + length es) app'"
  using assms
proof (induction es arbitrary: b t app fs)
  case (Cons e es)
  obtain app1 fs1 where 1: "serve_event w C e (app, fs) = Some (app1, fs1)" "app_roomy w C (b + event_cost w e) (Suc t) app1"
    using serve_event_roomy [OF Cons.prems(1), of e fs] Cons.prems(2,3) by auto
  show ?case using Cons.IH [OF 1(2), of fs1] Cons.prems(2,3) 1(1) by (simp add: add.assoc)
qed simp

text \<open>
  C11: the explorer never panics.  Started on any data directory, with any files in it, it handles
  every sequence of connections and ticks, whatever bytes the clients send and the peers answer:
  no unwrap, index, overflow check or \<open>expect\<close> of a request, a page, a saved or loaded snapshot
  or a tick fails, and every non-empty request is answered.  The hypotheses bound the blocks that
  can have come in (by the bytes of the snapshots and of the peers, three for each request, one
  for each tick) below the capacity of the reachability index, about \<open>2^63\<close>, and the requests so that
  the mempool can be packed into one block.
\<close>

theorem explorer_never_panics:
  assumes "boot_cost w fs + sum_list (map (event_cost w) es) + 3 < ROOT_CAPACITY" "204 * length es + 80 < 2 ^ 64"
  shows "\<exists>app fs'. serve w C t fs es = Some (app, fs')
    \<and> (\<forall>\<tau> buf. buf \<noteq> [] \<longrightarrow> (\<exists>resp st. handle w C \<tau> app fs' buf = Some (Some resp, st)))"
proof -
  have "boot_cost w fs < ROOT_CAPACITY" using assms(1) by simp
  then obtain app0 fs0 where 0: "boot_persist w C t False fs = Some (app0, fs0)" "app_roomy w C (boot_cost w fs) 0 app0"
    using boot_roomy by blast
  obtain app fs' where 1: "serve_events w C es (app0, fs0) = Some (app, fs')"
      "app_roomy w C (boot_cost w fs + sum_list (map (event_cost w) es)) (length es) app"
    using serve_events_roomy [OF 0(2), of es fs0] assms by auto
  have "\<exists>resp st. handle w C \<tau> app fs' buf = Some (Some resp, st)" if "buf \<noteq> []" for \<tau> buf
    using handle_total [OF 1(2) assms, of \<tau> fs' buf] that by auto
  then show ?thesis using 0(1) 1(1) by (simp add: serve_def)
qed

theorem explorer_never_panics_witness:
  "\<exists>app fs. serve quiet_site byte_crypto \<lparr>wall_at = \<lambda>_. 0, event_at = \<lambda>_. 0, record_at = \<lambda>_ _. 0\<rparr>
     (fmupd ''alpha.snap'' [1, 2, 3] fmempty)
     [Connection \<lparr>wall_at = \<lambda>_. 0, event_at = \<lambda>_. 0, record_at = \<lambda>_ _. 0\<rparr> [0xFF, 0x20],
      Quiet \<lparr>wall_at = \<lambda>_. 0, event_at = \<lambda>_. 0, record_at = \<lambda>_ _. 0\<rparr> True (\<lambda>_. Some [9])] = Some (app, fs)"
proof -
  let ?t = "\<lparr>wall_at = \<lambda>_. 0, event_at = \<lambda>_. 0, record_at = \<lambda>_ _. 0\<rparr>" and ?fs = "fmupd ''alpha.snap'' [1, 2, 3] fmempty"
  let ?es = "[Connection ?t [0xFF, 0x20], Quiet ?t True (\<lambda>_. Some [9])]"
  have "boot_cost quiet_site ?fs + sum_list (map (event_cost quiet_site) ?es) + 3 < ROOT_CAPACITY" "204 * length ?es + 80 < 2 ^ 64"
    by (simp_all add: boot_cost_def load_cost_def snap_path_def env_flag_def quiet_site_def pull_cost_def peer_list_def
      ROOT_CAPACITY_def u64_max_def)
  from explorer_never_panics [OF this, of byte_crypto ?t] show ?thesis by blast
qed

end
