(* ===== verification/Repl.thy ===== *)
theory Repl
  imports Web
begin

text \<open>
  \<open>crates/kovanica-node/src/main.rs\<close>: the modes of the binary, the read loop of \<open>serve\<close> and the
  script of \<open>demo\<close>.  What is printed is a list of lines.  The standard input is the list of what
  reading its lines returns, \<open>None\<close> where a read fails; writing to the standard output succeeds.
  \<open>clock k\<close> is the wall clock at the \<open>k\<close>-th command.
\<close>

section \<open>Modes\<close>

datatype mode = Serve | Demo | RunExplorer string | Usage | UnknownMode string

text \<open>The arguments after the name of the program.\<close>

definition main_mode :: "string list \<Rightarrow> mode" where
  "main_mode args =
     (case args of
        [] \<Rightarrow> Serve
      | m # rest \<Rightarrow>
          if m = ''serve'' then Serve
          else if m = ''demo'' then Demo
          else if m = ''explorer'' then RunExplorer (case rest of [] \<Rightarrow> ''0.0.0.0:8080'' | addr # _ \<Rightarrow> addr)
          else if m \<in> {''help'', ''-h'', ''--help''} then Usage
          else UnknownMode m)"

text \<open>What \<open>help\<close> prints.\<close>

definition usage_lines :: "string list" where
  "usage_lines = [
     ''usage: kovanica-node [serve|demo|explorer [addr]]'',
     ''  serve     read commands from stdin (default)'',
     ''  demo      run a scripted end-to-end scenario'',
     ''  explorer  self-hosted UI + JSON API (default 0.0.0.0:8080) + P2P Node'',
     ''            env: KOVANICA_DATA  KOVANICA_MINE=0|1  KOVANICA_FAUCET=0|1'',
     ''                 KOVANICA_ALLOW_RESET=0|1  KOVANICA_OPERATOR=0|1'',
     ''                 KOVANICA_LISTEN=0.0.0.0:9000'',
     ''                 KOVANICA_PEERS=host:9000,host2:9000'',
     ''                 KOVANICA_POW=0|1  (default 1, consensus hash target)'',
     [],
     HELP]"

definition unknown_mode_line :: "string \<Rightarrow> string" where
  "unknown_mode_line m = ''unknown mode '' @ [CHR 0x27] @ m @ [CHR 0x27] @ '' (use: serve | demo | explorer | help)''"

text \<open>
  The modes that end at once: the lines on the standard output and on the standard error, and the
  exit code.  \<open>explorer\<close> ends only when its server returns an error, with its text and code 1.
\<close>

definition mode_exit :: "mode \<Rightarrow> string option \<Rightarrow> (string list \<times> string list \<times> nat) option" where
  "mode_exit m server_error =
     (case m of
        Serve \<Rightarrow> None
      | Demo \<Rightarrow> None
      | RunExplorer _ \<Rightarrow> map_option (\<lambda>e. ([], [''explorer failed: '' @ e], 1)) server_error
      | Usage \<Rightarrow> Some (usage_lines, [], 0)
      | UnknownMode m \<Rightarrow> Some ([], [unknown_mode_line m], 2))"

section \<open>The read loop\<close>

type_synonym session = "string list \<times> node_state \<times> files"

fun repl_loop ::
    "host \<Rightarrow> ('sk, 'vk) crypto \<Rightarrow> (nat \<Rightarrow> u64) \<Rightarrow> nat \<Rightarrow> node_state \<Rightarrow> files \<Rightarrow> string option list \<Rightarrow> session option" where
  "repl_loop h C clock k n fs [] = Some ([], n, fs)"
| "repl_loop h C clock k n fs (None # rest) = Some ([], n, fs)"
| "repl_loop h C clock k n fs (Some line # rest) =
     (let trimmed = trim line in
      if trimmed \<in> {''quit'', ''exit''} then Some ([], n, fs)
      else do {
        (resp, n, fs) \<leftarrow> execute_line h C (clock k) n fs trimmed;
        (out, n, fs) \<leftarrow> repl_loop h C clock (Suc k) n fs rest;
        Some (resp # out, n, fs)
      })"

text \<open>The dash of the greeting is the three UTF-8 bytes \<open>E2 80 94\<close>.\<close>

definition greeting :: string where
  "greeting = ''kovanica-node ready '' @ [CHR 0xE2, CHR 0x80, CHR 0x94] @ '' type `help`, `quit` to exit''"

definition repl_serve ::
    "host \<Rightarrow> ('sk, 'vk) crypto \<Rightarrow> (nat \<Rightarrow> u64) \<Rightarrow> files \<Rightarrow> string option list \<Rightarrow> session option" where
  "repl_serve h C clock fs ls = do {
     (out, n, fs) \<leftarrow> repl_loop h C clock 0 node_new fs ls;
     Some (greeting # out, n, fs)
   }"

section \<open>The demo\<close>

definition demo_script :: "string list" where
  "demo_script = [''genesis 3 1000 500 1'', ''balance 1'', ''send 1 200 2'', ''balance 1'', ''balance 2'', ''pool 2 50 3'',
     ''pending'', ''produce'', ''pending'', ''balance 2'', ''balance 3'', ''tip'', ''len'']"

fun demo_loop ::
    "host \<Rightarrow> ('sk, 'vk) crypto \<Rightarrow> (nat \<Rightarrow> u64) \<Rightarrow> nat \<Rightarrow> node_state \<Rightarrow> files \<Rightarrow> string list \<Rightarrow> session option" where
  "demo_loop h C clock k n fs [] = Some ([], n, fs)"
| "demo_loop h C clock k n fs (cmd # rest) = do {
     (resp, n, fs) \<leftarrow> execute_line h C (clock k) n fs cmd;
     (out, n, fs) \<leftarrow> demo_loop h C clock (Suc k) n fs rest;
     Some ((''> '' @ cmd) # resp # out, n, fs)
   }"

definition demo :: "host \<Rightarrow> ('sk, 'vk) crypto \<Rightarrow> (nat \<Rightarrow> u64) \<Rightarrow> files \<Rightarrow> session option" where
  "demo h C clock fs = demo_loop h C clock 0 node_new fs demo_script"

section \<open>Laws\<close>

text \<open>The program ends with code 2 exactly when its first argument is none of the modes.\<close>

lemma mode_exit_unknown:
  "(\<exists>out err. mode_exit (main_mode args) e = Some (out, err, 2)) \<longleftrightarrow>
     args \<noteq> [] \<and> hd args \<notin> {''serve'', ''demo'', ''explorer'', ''help'', ''-h'', ''--help''}"
  by (cases args) (auto simp: mode_exit_def main_mode_def)

text \<open>What follows \<open>quit\<close> is not read, and a failed read ends the session like \<open>quit\<close>.\<close>

lemma repl_quit:
  assumes "stop = None \<or> (\<exists>q. stop = Some q \<and> trim q \<in> {''quit'', ''exit''})"
  shows "repl_loop h C clock k n fs (xs @ stop # rest) = repl_loop h C clock k n fs xs"
proof (induction xs arbitrary: k n fs)
  case Nil
  then show ?case using assms by auto
next
  case (Cons x xs)
  show ?case using Cons.IH by (cases x) (simp_all add: Let_def)
qed

text \<open>On lines that need no trimming and do not end the session, the demo prints what the read loop answers.\<close>

lemma demo_as_repl:
  assumes "\<forall>l \<in> set ls. trim l = l \<and> l \<notin> {''quit'', ''exit''}"
  shows "demo_loop h C clock k n fs ls
    = map_option (\<lambda>(out, st). (concat (map2 (\<lambda>l r. [''> '' @ l, r]) ls out), st)) (repl_loop h C clock k n fs (map Some ls))"
  using assms
proof (induction ls arbitrary: k n fs)
  case (Cons l ls)
  show ?case
  proof (cases "execute_line h C (clock k) n fs l")
    case (Some r)
    obtain resp n' fs' where r: "r = (resp, n', fs')" by (cases r)
    have IH: "demo_loop h C clock (Suc k) n' fs' ls
        = map_option (\<lambda>(out, st). (concat (map2 (\<lambda>l r. [''> '' @ l, r]) ls out), st)) (repl_loop h C clock (Suc k) n' fs' (map Some ls))"
      using Cons by simp
    show ?thesis using Some r Cons.prems
      by (cases "repl_loop h C clock (Suc k) n' fs' (map Some ls)") (auto simp: IH Let_def)
  qed (use Cons.prems in \<open>simp add: Let_def\<close>)
qed simp

end
