(* ===== verification/Spec2Isabelle.thy ===== *)
theory Spec2Isabelle
  imports Prelude Bytes Block Pow Difficulty Reach ReachTree ReachLayout ReachInv ReachBuild DagStore
    Ghostdag DagGraph Colouring DagWf DagInv DagInsert Ordering DagProps Consensus Snapshot Keys Tx
    Utxo Text Validation Apply ApplyProps Views Ledger LedgerInv LedgerReplay LedgerChain LedgerProps Store
    Messages Mempool Node Assembly NodeProps Net
    Relay P2p P2pInv P2pDrain P2pProps Rpc Total RpcProps
    Web Explorer Pages Server ExplorerInv ExplorerProps HistoryProps NodeBound MeshBound ExplorerTotal ServeTotal Repl
begin

text \<open>
  \<^bold>\<open>What is verified.\<close>  Kovanica is a ledger on a block DAG.  A block names several parents; GHOSTDAG
  colours the blocks a new block merges blue or red, and from the colouring follow a heaviest tip, a
  selected chain and one total order of all blocks.  The transactions of the blocks, applied in that
  order, give the set of unspent outputs.  A node keeps such a ledger with a mempool, exchanges
  blocks and transactions with other nodes, and is driven by a line protocol or by an HTTP explorer.
  The development models the three crates as they are written and proves what each layer promises
  to the next, up to the statement that a running explorer never panics.

  \<^bold>\<open>Theories and source files.\<close>  Names of definitions are those of the source, with a suffix or prefix
  where HOL has the name already.

  \<^item> \<open>Prelude\<close>, \<open>Bytes\<close>, \<open>Text\<close>: machine integers, the error monad, byte codecs and their
    contracts, decimal and hexadecimal text.
  \<^item> \<open>Block\<close>, \<open>Pow\<close>, \<open>Difficulty\<close>: \<open>kovanica-dag/src/block.rs\<close>, \<open>pow.rs\<close>, \<open>difficulty.rs\<close>.
  \<^item> \<open>Reach\<close>: \<open>reachability.rs\<close>, the interval tree and the future covering sets, with reindexing.
    \<open>ReachTree\<close> is the mathematics of tree intervals, \<open>ReachLayout\<close> the layout after a reindex,
    \<open>ReachInv\<close> the invariant of \<open>add_block\<close>, \<open>ReachBuild\<close> the construction from scratch.
  \<^item> \<open>DagStore\<close>, \<open>Ghostdag\<close>, \<open>Ordering\<close>: \<open>dag.rs\<close>, \<open>ghostdag.rs\<close>, \<open>ordering.rs\<close> and
    \<open>validation.rs\<close> of the DAG crate.  \<open>DagGraph\<close> reads the graph off a state, \<open>Colouring\<close> says what the
    colouring computes, \<open>DagWf\<close>, \<open>DagInv\<close> and \<open>DagInsert\<close> hold the invariant of the DAG and that insertion
    keeps it, \<open>DagProps\<close> and \<open>Consensus\<close> the consensus properties.
  \<^item> \<open>Snapshot\<close>: \<open>kovanica-dag/src/snapshot.rs\<close>, with its round trip.
  \<^item> \<open>Keys\<close>, \<open>Tx\<close>, \<open>Utxo\<close>, \<open>Validation\<close>: \<open>keys.rs\<close>, \<open>tx.rs\<close>, \<open>utxo.rs\<close>, \<open>validation.rs\<close> of
    \<open>kovanica-state\<close>.
  \<^item> \<open>Apply\<close> and \<open>Ledger\<close>: the two halves of \<open>kovanica-state/src/ledger.rs\<close>, the state transition and the
    ledger with the state of every block.  \<open>ApplyProps\<close> has the rules of the transition, \<open>Views\<close> the state
    in the view of a block, \<open>LedgerInv\<close> the invariant of the ledger, \<open>LedgerReplay\<close> that replaying blocks
    rebuilds it, \<open>LedgerChain\<close> runs it on chains, \<open>LedgerProps\<close> the properties of the layer.
  \<^item> \<open>Store\<close>, \<open>Messages\<close>: the append-only log of \<open>store.rs\<close>, and the \<open>Display\<close> texts of the errors.
  \<^item> \<open>Mempool\<close>, \<open>Node\<close>: \<open>kovanica-node/src/mempool.rs\<close> and \<open>node.rs\<close>; \<open>Assembly\<close> and \<open>NodeProps\<close> prove that a
    node's own blocks and transfers are accepted.
  \<^item> \<open>Net\<close>, \<open>Relay\<close>, \<open>P2p\<close>: \<open>net.rs\<close>, \<open>relay.rs\<close>, \<open>p2p.rs\<close>.  \<open>P2pInv\<close>, \<open>P2pDrain\<close> and \<open>P2pProps\<close> treat the
    mesh: its invariant, the termination of \<open>drain\<close>, delivery of an announced block.
  \<^item> \<open>Rpc\<close>, \<open>RpcProps\<close>, \<open>Total\<close>: \<open>rpc.rs\<close>, and that neither a line nor the bytes of a peer nor those of a
    snapshot make a node panic.
  \<^item> \<open>Web\<close>, \<open>Explorer\<close>, \<open>Pages\<close>, \<open>Server\<close>: \<open>explorer.rs\<close>, its text handling, its state with the ticks and
    actions, its JSON views, and routing with the accept loop.  \<open>ExplorerInv\<close> and \<open>ExplorerProps\<close> lift what
    mesh and node operations keep to a running explorer; \<open>NodeBound\<close>, \<open>MeshBound\<close>, \<open>ExplorerTotal\<close> and
    \<open>ServeTotal\<close> bound what an operation can add and conclude that it returns; \<open>HistoryProps\<close> relates the
    history of an address to its balance.
  \<^item> \<open>Repl\<close>: \<open>main.rs\<close>, the modes, the read loop and the demo.

  \<^bold>\<open>How the code is read.\<close>
  A Rust \<open>Result\<close> is a sum, the error on the left.  A panic (an \<open>unwrap\<close> or \<open>expect\<close> on nothing, an index
  out of range, a failed \<open>checked_add\<close> that is unwrapped) is \<open>None\<close> around it, so that totality is a
  theorem and not a property of HOL.  Integers are words of their width and wrap as in a release
  build; counters that the code keeps in \<open>u64\<close> and never lets wrap are \<open>nat\<close> with the check written out.
  A \<open>HashMap\<close> or \<open>BTreeMap\<close> is a finite map, a \<open>BTreeSet\<close> a finite set; where the code iterates over a
  \<open>HashMap\<close>, the result is proved independent of the order or the code sorts it.  A \<open>String\<close> is its UTF-8
  bytes.  State is a record that is passed and returned; an operation that returns an error leaves
  the node as it was, except that an exchange of blocks keeps those applied before the error.

  \<^bold>\<open>Parameters.\<close>  BLAKE3 is an argument of type \<open>byte list \<Rightarrow> 256 word\<close>; ed25519 is the record \<open>crypto\<close> of key
  derivation, signing and verification.  No theorem assumes that the hash is injective; where a property
  needs ids to differ, the hypothesis names those ids.  The wall clock is an argument of each operation, a
  byte stream its contents, a data directory a map from names to contents.  The record \<open>host\<close> is
  \<open>hex::decode\<close> and the operating system's text for a missing file; \<open>site\<close> adds the environment
  variables, the listener and the embedded pages.

  \<^bold>\<open>What the properties show.\<close>
  \<^item> Consensus: ancestor queries of the oracle are exact after any insertions and reindexes; every
    reachable DAG is well formed; blue sets are k-clusters with exact counts for every \<open>k\<close> but 65535,
    where the comparisons of the code wrap and nothing is refused; nodes with the same blocks agree on
    everything whatever their insertion orders; the total order respects ancestry; insertion is total
    and decides by stated rules; the hash target and the difficulty controller compute their
    integer specifications.
  \<^item> State: value is conserved, outputs move only by a valid signature and only once, the incremental
    state is that of a batch run over the DAG, each stored state is that of its block's view,
    snapshots and logs rebuild the ledger.
  \<^item> Node and network: produced blocks and built transfers are accepted; two nodes converge by gossip;
    an announced block reaches every node the peer graph reaches; the relay queue drains in a
    bounded number of ticks; streams are read exactly as they are written.
  \<^item> Totality: no line, no bytes of a peer, no file and no HTTP request makes the program panic.
  \<^item> Errors: where finality makes a later insertion panic, how a torn log is read, which blocks the
    overlay loses, and what the fixed clock of a fresh node refuses.

  \<^bold>\<open>Interfaces.\<close> The locales are the contracts between components: decoders and their encoders
  (\<open>stable_decoder\<close>, \<open>codec\<close>, \<open>canonical_codec\<close> in \<open>Bytes\<close>), what
  a block store needs of a reachability index (\<open>reach_index\<close> in \<open>ReachBuild\<close>), what delivery
  of a message may do to a node (\<open>delivers\<close> in \<open>P2pDrain\<close>), what the mesh operations keep
  (\<open>mesh_kept\<close> in \<open>ExplorerInv\<close>) and what the node operations keep (\<open>node_kept\<close>
  in \<open>ExplorerProps\<close>, which gives \<open>mesh_kept\<close>). Each is interpreted on the definitions of
  the model: the codecs on ids, blocks, transactions, records, names and frames, \<open>reach_index\<close> on the
  interval oracle, \<open>delivers\<close> on sound nodes and on nodes within bounds, \<open>mesh_kept\<close> on
  reachable meshes, \<open>node_kept\<close> on the clock of a node.

  \<^bold>\<open>Bounds and fuel.\<close> \<open>ROOT_CAPACITY\<close>, half the \<open>u64\<close> range, is the
  number of blocks up to which the interval oracle can always place one more; totality theorems assume fewer blocks.
  The worklist loops over the DAG and the interval tree are \<open>partial_function\<close>s, \<open>None\<close> if
  they do not end; that they end is part of every lemma about them, by a measure on the blocks still to visit.
  \<open>mine_from\<close> tries the nonces up to \<open>2^64 - 1\<close> and then panics, as the source does. The
  fuel of \<open>drain_loop\<close> is the argument \<open>limit\<close> of \<open>Mesh::drain\<close>;
  \<open>drain_terminates\<close> says how large it must be. The helper loops on text (\<open>trim_start\<close>,
  \<open>trim_prefix\<close>, \<open>all_space\<close>) take the length of the text, of which each round removes at
  least one byte. In \<open>explorer_never_panics\<close> a request counts for at most three blocks and one pending
  transaction of at most 204 bytes, a tick for one block and one per 48 bytes pulled.

  \<^bold>\<open>Not modelled.\<close>
  \<^item> \<open>network.rs\<close> and the thread of \<open>main\<close> that runs it: they configure and poll a libp2p swarm, a third-party
    library, print its events and hand nothing to the node.
  \<^item> Opening sockets, their options and timeouts; failing writes to a socket, to the standard output or
    to the data directory; sleeping.  Reads that fail are values of the model where the code acts on them.
  \<^item> \<open>Debug\<close> renderings, empty \<open>Error\<close> implementations, conversions between error types, plain field accessors,
    the re-exports of the \<open>lib.rs\<close> files, and the tests.
  \<^item> Allocation failure and stack depth.
\<close>

end
